(* ===== verification/Prelude.thy ===== *)
theory Prelude
  imports Complex_Main
    "HOL-Library.Char_ord"
    "HOL-Library.List_Lexorder"
    "HOL-Library.Product_Lexorder"
    "HOL-Library.Sublist"
    "HOL-Library.Multiset"
    "HOL-Library.Word"
begin

text \<open>
  Shared vocabulary of the development: the Go string functions the sources call, written over
  \<open>string\<close> (a Go string is a byte sequence, and \<open>char\<close> is a byte, so \<open>length\<close> is Go's
  \<open>len\<close> and \<open><\<close> is the byte-wise order both Go and SQLite's BINARY collation use), and the
  generic lemmas on lists, sorting and association lists that the components share.

  The collections: \<open>go_string\<close> unfolds the string functions, \<open>table_simps\<close> holds the facts
  about tables seen as lists of rows.
\<close>

named_theorems go_string "definitions of the Go string functions"
named_theorems table_simps "rewrite rules for tables as lists of rows"

section \<open>Go strings\<close>

type_synonym path = string
type_synonym hash = string
type_synonym float32 = "32 word"

text \<open>\<open>strings.HasPrefix\<close>, \<open>TrimPrefix\<close>, \<open>HasSuffix\<close>, \<open>TrimSuffix\<close>.\<close>

definition hasPrefix :: "string \<Rightarrow> string \<Rightarrow> bool" where [go_string]:
  "hasPrefix s p = (take (length p) s = p)"

definition trimPrefix :: "string \<Rightarrow> string \<Rightarrow> string" where [go_string]:
  "trimPrefix s p = (if hasPrefix s p then drop (length p) s else s)"

definition hasSuffix :: "string \<Rightarrow> string \<Rightarrow> bool" where [go_string]:
  "hasSuffix s p = (length p \<le> length s \<and> drop (length s - length p) s = p)"

definition trimSuffix :: "string \<Rightarrow> string \<Rightarrow> string" where [go_string]:
  "trimSuffix s p = (if hasSuffix s p then take (length s - length p) s else s)"

text \<open>\<open>strings.Contains\<close> and \<open>strings.ReplaceAll\<close> (for a non-empty pattern).\<close>

fun containsStr :: "string \<Rightarrow> string \<Rightarrow> bool" where
  "containsStr [] p = (p = [])"
| "containsStr (c # s) p = (hasPrefix (c # s) p \<or> containsStr s p)"

function replaceAll :: "string \<Rightarrow> string \<Rightarrow> string \<Rightarrow> string" where
  "replaceAll [] p r = []"
| "replaceAll (c # s) p r =
     (if p \<noteq> [] \<and> hasPrefix (c # s) p then r @ replaceAll (drop (length p) (c # s)) p r
      else c # replaceAll s p r)"
  by pat_completeness auto
termination
  by (relation "measure (\<lambda>(s, p, r). length s)") (auto simp: Suc_diff_le)

text \<open>\<open>strings.Join\<close> and \<open>strings.Split\<close> on a non-empty separator.\<close>

fun joinStr :: "string list \<Rightarrow> string \<Rightarrow> string" where
  "joinStr [] sep = []"
| "joinStr [x] sep = x"
| "joinStr (x # y # xs) sep = x @ sep @ joinStr (y # xs) sep"

function splitOn :: "string \<Rightarrow> string \<Rightarrow> string \<Rightarrow> string list" where
  "splitOn acc [] sep = [rev acc]"
| "splitOn acc (c # s) sep =
     (if sep \<noteq> [] \<and> hasPrefix (c # s) sep then rev acc # splitOn [] (drop (length sep) (c # s)) sep
      else splitOn (c # acc) s sep)"
  by pat_completeness auto
termination
  by (relation "measure (\<lambda>(acc, s, sep). length s)") (auto simp: Suc_diff_le)

definition splitStr :: "string \<Rightarrow> string \<Rightarrow> string list" where
  "splitStr s sep = splitOn [] s sep"

text \<open>\<open>strings.TrimLeft\<close>, \<open>TrimRight\<close> and \<open>Trim\<close> with a cutset of ASCII bytes.\<close>

definition trimLeftSet :: "string \<Rightarrow> string \<Rightarrow> string" where
  "trimLeftSet s cs = dropWhile (\<lambda>c. c \<in> set cs) s"

definition trimRightSet :: "string \<Rightarrow> string \<Rightarrow> string" where
  "trimRightSet s cs = rev (dropWhile (\<lambda>c. c \<in> set cs) (rev s))"

definition trimSet :: "string \<Rightarrow> string \<Rightarrow> string" where
  "trimSet s cs = trimRightSet (trimLeftSet s cs) cs"

text \<open>
  \<open>strings.TrimSpace\<close> removes the runes \<open>unicode.IsSpace\<close> accepts. Each of them has one
  UTF-8 encoding, and decoding a rune at either end of a string yields one of them exactly when
  the bytes there are that encoding, so trimming is by whole encodings.
\<close>

definition newline :: char where "newline = CHR 0x0A"

definition spaceRunes :: "string list" where
  "spaceRunes =
     [[CHR 0x09], [CHR 0x0A], [CHR 0x0B], [CHR 0x0C], [CHR 0x0D], [CHR 0x20],
      [CHR 0xC2, CHR 0x85], [CHR 0xC2, CHR 0xA0], [CHR 0xE1, CHR 0x9A, CHR 0x80],
      [CHR 0xE2, CHR 0x80, CHR 0x80], [CHR 0xE2, CHR 0x80, CHR 0x81],
      [CHR 0xE2, CHR 0x80, CHR 0x82], [CHR 0xE2, CHR 0x80, CHR 0x83],
      [CHR 0xE2, CHR 0x80, CHR 0x84], [CHR 0xE2, CHR 0x80, CHR 0x85],
      [CHR 0xE2, CHR 0x80, CHR 0x86], [CHR 0xE2, CHR 0x80, CHR 0x87],
      [CHR 0xE2, CHR 0x80, CHR 0x88], [CHR 0xE2, CHR 0x80, CHR 0x89],
      [CHR 0xE2, CHR 0x80, CHR 0x8A], [CHR 0xE2, CHR 0x80, CHR 0xA8],
      [CHR 0xE2, CHR 0x80, CHR 0xA9], [CHR 0xE2, CHR 0x80, CHR 0xAF],
      [CHR 0xE2, CHR 0x81, CHR 0x9F], [CHR 0xE3, CHR 0x80, CHR 0x80]]"

lemma hasPrefix_shorter: "hasPrefix s p \<Longrightarrow> length p \<le> length s"
  unfolding hasPrefix_def by (metis length_take min.cobounded1)

function dropRunes :: "string list \<Rightarrow> string \<Rightarrow> string" where
  "dropRunes rs s =
     (case find (\<lambda>r. r \<noteq> [] \<and> hasPrefix s r) rs of
        None \<Rightarrow> s
      | Some r \<Rightarrow> dropRunes rs (drop (length r) s))"
  by pat_completeness auto
termination
proof (relation "measure (\<lambda>(rs, s). length s)", goal_cases)
  case (2 rs s r)
  then have "r \<noteq> []" "hasPrefix s r" by (auto simp: find_Some_iff)
  then show ?case using hasPrefix_shorter [of s r] by (cases r) auto
qed simp

declare dropRunes.simps [simp del]

definition trimSpace :: "string \<Rightarrow> string" where
  "trimSpace s = rev (dropRunes (map rev spaceRunes) (rev (dropRunes spaceRunes s)))"

text \<open>\<open>strings.LastIndex\<close> and \<open>LastIndexByte\<close>: the last position where the pattern starts.\<close>

definition lastIndex :: "string \<Rightarrow> string \<Rightarrow> nat option" where
  "lastIndex s p = find (\<lambda>i. hasPrefix (drop i s) p) (rev [0..<Suc (length s)])"

lemma lastIndex_Some:
  "lastIndex s p = Some i \<Longrightarrow> hasPrefix (drop i s) p"
  unfolding lastIndex_def find_Some_iff by auto

lemma lastIndex_bound: "lastIndex s p = Some i \<Longrightarrow> p \<noteq> [] \<Longrightarrow> i + length p \<le> length s"
  using lastIndex_Some [of s p i] hasPrefix_shorter [of "drop i s" p] by (cases "i \<le> length s") auto

section \<open>Go's 64-bit \<open>int\<close>\<close>

text \<open>The value an \<open>int\<close> holds after arithmetic that may have left its range.\<close>

definition goInt :: "int \<Rightarrow> int" where
  "goInt x = (x + 2 ^ 63) mod 2 ^ 64 - 2 ^ 63"

lemma goInt_id [simp]: "- (2 ^ 63) \<le> x \<Longrightarrow> x < 2 ^ 63 \<Longrightarrow> goInt x = x"
  by (simp add: goInt_def)

section \<open>Sorting on pairs\<close>

lemma sorted_first: "sorted (map (\<lambda>p. (f p, g p)) xs) \<Longrightarrow> sorted (map f xs)"
  by (induction xs) (auto simp: less_eq_prod_def)

end
