(* ===== verification/Domain.thy ===== *)
theory Domain
  imports Prelude
begin

text \<open>
  The vocabulary every component shares (src/internal/domain): documents and chunks, the
  embedding spec with its templates, the content states of the indexing ladder, work items, and
  the collapse of chunk hits to one hit per content.

  A Go \<open>string\<close> field whose empty value spells the schema's NULL stays a string
  (\<open>ContentHash\<close>) or becomes an option (\<open>UnreadReason\<close>, \<open>NextRetryAt\<close>); times are the
  integers the adapter persists (nanoseconds for mtimes, seconds for the queue columns).
\<close>

section \<open>Documents and chunks (document.go)\<close>

datatype UnreadReason = UnreadDenied | UnreadDataless | UnreadIOError

definition UnreadReasons :: "UnreadReason list" where
  "UnreadReasons = [UnreadDenied, UnreadDataless, UnreadIOError]"

record Document =
  doc_Path :: path
  doc_ContentHash :: hash
  doc_UnreadReason :: "UnreadReason option"
  doc_Size :: int
  doc_MTime :: int

record Chunk =
  ch_Ordinal :: nat
  ch_Text :: string
  ch_HeadingPath :: string
  ch_ByteStart :: nat
  ch_ByteEnd :: nat

section \<open>Embedding spec (embedding.go)\<close>

definition PlaceholderQuery :: string where "PlaceholderQuery = ''{q}''"
definition PlaceholderPassage :: string where "PlaceholderPassage = ''{d}''"
definition PlaceholderTitle :: string where "PlaceholderTitle = ''{t}''"

definition BytesPerToken :: int where "BytesPerToken = 4"
definition TemplateReserveBytes :: int where "TemplateReserveBytes = 256"
definition MinCeilingTokens :: int where
  "MinCeilingTokens = (TemplateReserveBytes + 64) div BytesPerToken"

record EmbeddingSpec =
  es_Model :: string
  es_QueryTemplate :: string
  es_PassageTemplate :: string
  es_CeilingTokens :: int

datatype SpecError =
    QueryTemplateNoPlaceholder string
  | PassageTemplateNoPlaceholder string
  | PassageTemplateOverReserve int
  | CeilingNegative int
  | CeilingBelowMinimum int

definition Validate :: "EmbeddingSpec \<Rightarrow> SpecError option" where
  "Validate s =
     (if es_QueryTemplate s \<noteq> '''' \<and> \<not> containsStr (es_QueryTemplate s) PlaceholderQuery
      then Some (QueryTemplateNoPlaceholder (es_QueryTemplate s))
      else if es_PassageTemplate s \<noteq> '''' \<and> \<not> containsStr (es_PassageTemplate s) PlaceholderPassage
      then Some (PassageTemplateNoPlaceholder (es_PassageTemplate s))
      else if int (length (es_PassageTemplate s)) > TemplateReserveBytes
      then Some (PassageTemplateOverReserve (int (length (es_PassageTemplate s))))
      else if es_CeilingTokens s < 0
      then Some (CeilingNegative (es_CeilingTokens s))
      else if es_CeilingTokens s > 0 \<and> es_CeilingTokens s < MinCeilingTokens
      then Some (CeilingBelowMinimum (es_CeilingTokens s))
      else None)"

definition ComposeQuery :: "EmbeddingSpec \<Rightarrow> string \<Rightarrow> string" where
  "ComposeQuery s query =
     (if es_QueryTemplate s = '''' then query
      else replaceAll (es_QueryTemplate s) PlaceholderQuery query)"

text \<open>
  \<open>strings.NewReplacer\<close> with two pairs: one pass, at each position the first pattern (in
  argument order) that matches is replaced and the replacement is not looked at again.
\<close>

function replacer2 :: "string \<Rightarrow> string \<Rightarrow> string \<Rightarrow> string \<Rightarrow> string \<Rightarrow> string" where
  "replacer2 p1 r1 p2 r2 [] = []"
| "replacer2 p1 r1 p2 r2 (c # s) =
     (if p1 \<noteq> [] \<and> hasPrefix (c # s) p1
      then r1 @ replacer2 p1 r1 p2 r2 (drop (length p1) (c # s))
      else if p2 \<noteq> [] \<and> hasPrefix (c # s) p2
      then r2 @ replacer2 p1 r1 p2 r2 (drop (length p2) (c # s))
      else c # replacer2 p1 r1 p2 r2 s)"
  by pat_completeness auto
termination
  by (relation "measure (\<lambda>(p1, r1, p2, r2, s). length s)") (auto simp: Suc_diff_le)

definition ComposePassage :: "EmbeddingSpec \<Rightarrow> Chunk \<Rightarrow> string" where
  "ComposePassage s c =
     (if containsStr (es_PassageTemplate s) PlaceholderTitle then
        (let title = (if ch_HeadingPath c = '''' then ''none'' else ch_HeadingPath c)
         in replacer2 PlaceholderTitle title PlaceholderPassage (ch_Text c) (es_PassageTemplate s))
      else
        (let text = (if ch_HeadingPath c \<noteq> ''''
                     then ch_HeadingPath c @ [newline, newline] @ ch_Text c else ch_Text c)
         in if es_PassageTemplate s = '''' then text
            else replaceAll (es_PassageTemplate s) PlaceholderPassage text))"

section \<open>Content rows, states and work items (content.go)\<close>

datatype ContentState =
    Discovered | Converted | Chunked | Embedded | Indexed | Failed

definition ContentStates :: "ContentState list" where
  "ContentStates = [Discovered, Converted, Chunked, Embedded, Indexed, Failed]"

definition TerminalContentStates :: "ContentState list" where
  "TerminalContentStates = [Indexed, Failed]"

definition Terminal :: "ContentState \<Rightarrow> bool" where
  "Terminal s \<longleftrightarrow> s \<in> set TerminalContentStates"

lemma Terminal_simps [simp]:
  "\<not> Terminal Discovered" "\<not> Terminal Converted" "\<not> Terminal Chunked" "\<not> Terminal Embedded"
  "Terminal Indexed" "Terminal Failed"
  by (simp_all add: Terminal_def TerminalContentStates_def)

definition StageChunker :: string where "StageChunker = ''chunker''"
definition StageEmbedding :: string where "StageEmbedding = ''embedding''"
definition StageEmbeddingDims :: string where "StageEmbeddingDims = ''embedding_dims''"
definition StageVecMetric :: string where "StageVecMetric = ''vec_metric''"
definition VectorMetric :: string where "VectorMetric = ''cosine''"

lemmas stage_keys = StageChunker_def StageEmbedding_def StageEmbeddingDims_def StageVecMetric_def

record Content =
  c_Hash :: hash
  c_State :: ContentState
  c_StageVersions :: "string \<rightharpoonup> string"
  c_Attempts :: int
  c_NextRetryAt :: "int option"
  c_LastError :: string

record WorkItem =
  wi_Content :: Content
  wi_Path :: path
  wi_Paths :: "path list"

datatype SweepScope = SweepScopeQueue | SweepScopeAll

record QueueDepth =
  qd_Pending :: nat
  qd_Retrying :: nat

section \<open>Hits and their collapse (ports.go, search.go)\<close>

text \<open>A distance is a finite float64, hence a rational; its order is all the code uses.\<close>

record Hit =
  h_Doc :: Document
  h_Chunk :: Chunk
  h_Distance :: rat

record ContentHit =
  chit_Hit :: Hit
  chit_AlsoAt :: "path list"

abbreviation hit_hash :: "Hit \<Rightarrow> hash" where
  "hit_hash h \<equiv> doc_ContentHash (h_Doc h)"

abbreviation hit_ordinal :: "Hit \<Rightarrow> nat" where
  "hit_ordinal h \<equiv> ch_Ordinal (h_Chunk h)"

abbreviation hit_path :: "Hit \<Rightarrow> path" where
  "hit_path h \<equiv> doc_Path (h_Doc h)"

text \<open>The loop of \<open>CollapseBestPerContent\<close>: \<open>seen\<close> maps a hash to its index in \<open>out\<close>.\<close>

fun collapseLoop :: "nat \<Rightarrow> Hit list \<Rightarrow> ContentHit list \<Rightarrow> (hash \<rightharpoonup> nat) \<Rightarrow> ContentHit list" where
  "collapseLoop limit [] out seen = out"
| "collapseLoop limit (h # hits) out seen =
     (case seen (hit_hash h) of
        Some i \<Rightarrow>
          (if hit_ordinal h = hit_ordinal (chit_Hit (out ! i))
           then collapseLoop limit hits
                  (out[i := (out ! i)\<lparr>chit_AlsoAt := chit_AlsoAt (out ! i) @ [hit_path h]\<rparr>]) seen
           else collapseLoop limit hits out seen)
      | None \<Rightarrow>
          (if length out = limit then collapseLoop limit hits out seen
           else collapseLoop limit hits (out @ [\<lparr>chit_Hit = h, chit_AlsoAt = []\<rparr>])
                  (seen(hit_hash h \<mapsto> length out))))"

definition CollapseBestPerContent :: "Hit list \<Rightarrow> int \<Rightarrow> ContentHit list" where
  "CollapseBestPerContent hits limit =
     (if limit \<le> 0 \<or> hits = [] then []
      else map (\<lambda>ch. ch\<lparr>chit_AlsoAt := sort (chit_AlsoAt ch)\<rparr>)
             (collapseLoop (nat limit) hits [] Map.empty))"

subsection \<open>What the collapse promises\<close>

text \<open>The first row of each distinct hash, in input order.\<close>

fun firstPerHash :: "Hit list \<Rightarrow> Hit list" where
  "firstPerHash [] = []"
| "firstPerHash (h # hits) = h # filter (\<lambda>x. hit_hash x \<noteq> hit_hash h) (firstPerHash hits)"

text \<open>The other paths holding the winning chunk: later rows of the same hash and ordinal.\<close>

definition otherPaths :: "Hit list \<Rightarrow> Hit \<Rightarrow> path list" where
  "otherPaths hits h =
     map hit_path (filter (\<lambda>x. hit_ordinal x = hit_ordinal h)
                     (tl (filter (\<lambda>x. hit_hash x = hit_hash h) hits)))"

lemma set_firstPerHash_hash: "hit_hash ` set (firstPerHash hits) = hit_hash ` set hits"
proof (induction hits)
  case (Cons h hits)
  have "hit_hash ` {x \<in> set (firstPerHash hits). hit_hash x \<noteq> hit_hash h} =
      hit_hash ` set (firstPerHash hits) - {hit_hash h}"
    by auto
  with Cons show ?case by auto
qed simp

lemma firstPerHash_subset: "set (firstPerHash hits) \<subseteq> set hits"
  by (induction hits) auto

lemma distinct_firstPerHash: "distinct (map hit_hash (firstPerHash hits))"
proof (induction hits)
  case (Cons h hits)
  then have "distinct (map hit_hash (filter (\<lambda>x. hit_hash x \<noteq> hit_hash h) (firstPerHash hits)))"
    by (simp add: distinct_map_filter)
  then show ?case by auto
qed simp

lemma firstPerHash_append:
  "firstPerHash (xs @ [h]) =
     firstPerHash xs @ (if hit_hash h \<in> hit_hash ` set xs then [] else [h])"
  by (induction xs) auto

lemma firstPerHash_hd:
  assumes "h \<in> set (firstPerHash hits)"
  shows "filter (\<lambda>x. hit_hash x = hit_hash h) hits \<noteq> [] \<and>
    hd (filter (\<lambda>x. hit_hash x = hit_hash h) hits) = h"
  using assms
proof (induction hits)
  case (Cons g hits)
  show ?case
  proof (cases "hit_hash g = hit_hash h")
    case True
    with Cons.prems have "h = g" by auto
    with True show ?thesis by simp
  next
    case False
    with Cons.prems have "h \<in> set (firstPerHash hits)" by auto
    with Cons.IH False show ?thesis by simp
  qed
qed simp

lemma subseq_firstPerHash: "subseq (firstPerHash hits) hits"
proof (induction hits)
  case (Cons h hits)
  have "subseq (filter (\<lambda>x. hit_hash x \<noteq> hit_hash h) (firstPerHash hits)) (firstPerHash hits)"
    by (rule subseq_filter_left)
  from subseq_order.trans [OF this Cons] show ?case by simp
qed simp

lemma otherPaths_append:
  assumes "hit_hash g \<in> hit_hash ` set xs"
  shows "otherPaths (xs @ [h]) g =
    otherPaths xs g @
      (if hit_hash h = hit_hash g \<and> hit_ordinal h = hit_ordinal g then [hit_path h] else [])"
proof -
  have "filter (\<lambda>x. hit_hash x = hit_hash g) xs \<noteq> []"
    using assms by (auto simp: filter_empty_conv)
  then show ?thesis by (auto simp: otherPaths_def)
qed

lemma otherPaths_fresh:
  assumes "hit_hash h \<notin> hit_hash ` set xs"
  shows "otherPaths (xs @ [h]) h = []"
proof -
  have "filter (\<lambda>x. hit_hash x = hit_hash h) xs = []"
    using assms by (metis (mono_tags, lifting) filter_False image_eqI)
  then show ?thesis by (simp add: otherPaths_def)
qed

text \<open>The state of the loop after the rows \<open>pre\<close>.\<close>

definition collapseOut :: "nat \<Rightarrow> Hit list \<Rightarrow> ContentHit list" where
  "collapseOut n pre =
     map (\<lambda>g. \<lparr>chit_Hit = g, chit_AlsoAt = otherPaths pre g\<rparr>) (take n (firstPerHash pre))"

definition collapseSeen :: "nat \<Rightarrow> Hit list \<Rightarrow> (hash \<rightharpoonup> nat) \<Rightarrow> bool" where
  "collapseSeen n pre seen \<longleftrightarrow>
     (\<forall>k i. seen k = Some i \<longleftrightarrow>
        i < length (take n (firstPerHash pre)) \<and> hit_hash (take n (firstPerHash pre) ! i) = k)"

lemma collapse_dup:
  assumes seen: "collapseSeen n pre seen" and some: "seen (hit_hash h) = Some i"
  shows "firstPerHash (pre @ [h]) = firstPerHash pre"
    and "collapseOut n (pre @ [h]) =
      (if hit_ordinal h = hit_ordinal (chit_Hit (collapseOut n pre ! i))
       then (collapseOut n pre)[i := (collapseOut n pre ! i)
              \<lparr>chit_AlsoAt := chit_AlsoAt (collapseOut n pre ! i) @ [hit_path h]\<rparr>]
       else collapseOut n pre)"
proof -
  let ?F = "take n (firstPerHash pre)"
  have i: "i < length ?F" and hi: "hit_hash (?F ! i) = hit_hash h"
    using seen some by (auto simp: collapseSeen_def)
  then have "hit_hash h \<in> hit_hash ` set (firstPerHash pre)"
    by (metis image_eqI in_set_takeD nth_mem)
  then show F: "firstPerHash (pre @ [h]) = firstPerHash pre"
    by (simp add: set_firstPerHash_hash firstPerHash_append)
  have dist: "distinct (map hit_hash ?F)"
    unfolding take_map [symmetric] by (rule distinct_take [OF distinct_firstPerHash])
  have same: "hit_hash (?F ! j) = hit_hash h \<longleftrightarrow> j = i" if "j < length ?F" for j
    using nth_eq_iff_index_eq [OF dist, of j i] that i
    by (simp add: hi nth_map del: nth_take length_take)
  have mem: "hit_hash (?F ! j) \<in> hit_hash ` set pre" if j: "j < length ?F" for j
  proof -
    have "?F ! j \<in> set (firstPerHash pre)" using nth_mem [OF j] by (rule in_set_takeD)
    then show ?thesis using firstPerHash_subset by blast
  qed
  let ?O = "collapseOut n pre"
  have len: "length (collapseOut n (pre @ [h])) = length ?F" "length ?O = length ?F"
    by (simp_all add: collapseOut_def F)
  have nth: "?O ! j = \<lparr>chit_Hit = ?F ! j, chit_AlsoAt = otherPaths pre (?F ! j)\<rparr>"
    if "j < length ?F" for j
    using that by (simp add: collapseOut_def)
  have nth': "collapseOut n (pre @ [h]) ! j =
      (if j = i \<and> hit_ordinal h = hit_ordinal (?F ! j)
       then (?O ! j)\<lparr>chit_AlsoAt := chit_AlsoAt (?O ! j) @ [hit_path h]\<rparr> else ?O ! j)"
    if j: "j < length ?F" for j
  proof -
    have "collapseOut n (pre @ [h]) ! j =
        \<lparr>chit_Hit = ?F ! j, chit_AlsoAt = otherPaths (pre @ [h]) (?F ! j)\<rparr>"
      using j by (simp add: collapseOut_def F)
    also have "\<dots> = \<lparr>chit_Hit = ?F ! j, chit_AlsoAt = otherPaths pre (?F ! j) @
        (if j = i \<and> hit_ordinal h = hit_ordinal (?F ! j) then [hit_path h] else [])\<rparr>"
      by (simp add: otherPaths_append [OF mem [OF j]] eq_commute [of "hit_hash h"] same [OF j]
          del: nth_take length_take)
    finally show ?thesis unfolding nth [OF j] by simp
  qed
  show "collapseOut n (pre @ [h]) =
      (if hit_ordinal h = hit_ordinal (chit_Hit (?O ! i))
       then ?O[i := (?O ! i)\<lparr>chit_AlsoAt := chit_AlsoAt (?O ! i) @ [hit_path h]\<rparr>] else ?O)"
  proof (rule nth_equalityI, goal_cases)
    case 1
    show ?case by (simp add: len)
  next
    case (2 j)
    then have j: "j < length ?F" by (simp only: len)
    show ?case unfolding nth' [OF j]
      using j i by (cases "j = i") (simp_all add: nth len nth_list_update del: length_take nth_take)
  qed
qed

lemma collapse_new:
  assumes seen: "collapseSeen n pre seen" and none: "seen (hit_hash h) = None"
    and room: "length (collapseOut n pre) \<noteq> n"
  shows "collapseOut n (pre @ [h]) =
      collapseOut n pre @ [\<lparr>chit_Hit = h, chit_AlsoAt = []\<rparr>]"
    and "collapseSeen n (pre @ [h]) (seen(hit_hash h \<mapsto> length (collapseOut n pre)))"
proof -
  let ?F = "firstPerHash pre"
  have short: "length ?F < n" using room by (simp add: collapseOut_def)
  have fresh: "hit_hash h \<notin> hit_hash ` set ?F"
  proof
    assume "hit_hash h \<in> hit_hash ` set ?F"
    then obtain j where "j < length ?F" "hit_hash (?F ! j) = hit_hash h"
      by (metis imageE in_set_conv_nth)
    with seen short none show False
      by (metis collapseSeen_def less_imp_le option.distinct(1) take_all)
  qed
  then have pre: "hit_hash h \<notin> hit_hash ` set pre" by (simp add: set_firstPerHash_hash)
  then have F: "firstPerHash (pre @ [h]) = ?F @ [h]" by (simp add: firstPerHash_append)
  have "otherPaths (pre @ [h]) g = otherPaths pre g" if "g \<in> set ?F" for g
  proof -
    have "hit_hash g \<in> hit_hash ` set pre" using that firstPerHash_subset by blast
    moreover have "hit_hash h \<noteq> hit_hash g" using calculation pre by metis
    ultimately show ?thesis by (simp add: otherPaths_append)
  qed
  then show "collapseOut n (pre @ [h]) =
      collapseOut n pre @ [\<lparr>chit_Hit = h, chit_AlsoAt = []\<rparr>]"
    using short pre by (simp add: collapseOut_def F otherPaths_fresh)
  show "collapseSeen n (pre @ [h]) (seen(hit_hash h \<mapsto> length (collapseOut n pre)))"
    unfolding collapseSeen_def
  proof (intro allI, goal_cases)
    case (1 k i)
    have "hit_hash (?F ! i) \<noteq> hit_hash h" if "i < length ?F"
      using that fresh by (metis image_eqI nth_mem)
    then show ?case
      using seen short by (auto simp: collapseSeen_def F collapseOut_def nth_append less_Suc_eq)
  qed
qed

lemma collapse_full:
  assumes seen: "collapseSeen n pre seen" and none: "seen (hit_hash h) = None"
    and full: "length (collapseOut n pre) = n"
  shows "take n (firstPerHash (pre @ [h])) = take n (firstPerHash pre)"
    and "collapseOut n (pre @ [h]) = collapseOut n pre"
proof -
  let ?F = "take n (firstPerHash pre)"
  have len: "n \<le> length (firstPerHash pre)" using full by (simp add: collapseOut_def)
  then show F: "take n (firstPerHash (pre @ [h])) = ?F" by (simp add: firstPerHash_append)
  have "otherPaths (pre @ [h]) g = otherPaths pre g" if "g \<in> set ?F" for g
  proof -
    have "hit_hash g \<in> hit_hash ` set pre"
      using that firstPerHash_subset by (blast dest: in_set_takeD)
    moreover have "hit_hash h \<noteq> hit_hash g"
      using that seen none unfolding collapseSeen_def in_set_conv_nth
      by (metis option.distinct(1))
    ultimately show ?thesis by (simp add: otherPaths_append)
  qed
  then show "collapseOut n (pre @ [h]) = collapseOut n pre"
    unfolding collapseOut_def F by simp
qed

lemma collapseLoop_eq:
  "collapseSeen n pre seen \<Longrightarrow>
   collapseLoop n hits (collapseOut n pre) seen = collapseOut n (pre @ hits)"
proof (induction hits arbitrary: pre seen)
  case (Cons h hits)
  note IH = Cons.IH [of "pre @ [h]"]
  show ?case
  proof (cases "seen (hit_hash h)")
    case (Some i)
    note dup = collapse_dup [OF Cons.prems Some]
    have "collapseSeen n (pre @ [h]) seen"
      using Cons.prems by (simp add: collapseSeen_def dup(1))
    from IH [OF this] dup(2) Some show ?thesis by (simp split: if_splits)
  next
    case None
    show ?thesis
    proof (cases "length (collapseOut n pre) = n")
      case True
      note full = collapse_full [OF Cons.prems None True]
      have "collapseSeen n (pre @ [h]) seen"
        using Cons.prems by (simp add: collapseSeen_def full(1))
      from IH [OF this] full(2) None True show ?thesis by simp
    next
      case False
      note new = collapse_new [OF Cons.prems None False]
      show ?thesis
        using IH [OF new(2)] None False
        by (simp only: collapseLoop.simps new(1) option.case if_False append_assoc append_Cons
            append_Nil)
    qed
  qed
qed simp

lemma collapse_reference:
  "CollapseBestPerContent hits limit =
     map (\<lambda>h. \<lparr>chit_Hit = h, chit_AlsoAt = sort (otherPaths hits h)\<rparr>)
       (take (nat limit) (firstPerHash hits))"
proof -
  have "collapseSeen (nat limit) [] Map.empty" by (simp add: collapseSeen_def)
  from collapseLoop_eq [OF this, of hits]
  show ?thesis by (auto simp: CollapseBestPerContent_def collapseOut_def)
qed

section \<open>Properties\<close>

text \<open>
  C30: \<open>CollapseBestPerContent\<close> returns, in the order of the input, the first row of each of the
  first \<open>limit\<close> distinct contents (nothing for a limit of zero or less), each with the sorted paths
  of the later rows of the same content and ordinal.
\<close>

theorem CollapseBestPerContent_reference:
  "CollapseBestPerContent hits limit =
     map (\<lambda>h. \<lparr>chit_Hit = h, chit_AlsoAt = sort (otherPaths hits h)\<rparr>)
       (take (nat limit) (firstPerHash hits))"
  by (rule collapse_reference)

end
