(* ===== verification/Encoding.thy ===== *)
theory Encoding
  imports Domain
begin

text \<open>
  Input decoding (chunker/encoding.go): byte-order marks, strict UTF-8 and strict UTF-16. A byte is a
  \<open>char\<close>, a code point a \<open>nat\<close>, a UTF-16 unit a 16-bit word. The UTF-8 routines are those of Go's
  \<open>unicode/utf8\<close>, on which the chunker's rune-boundary cut relies as well.
\<close>

section \<open>UTF-8 (Go: unicode/utf8)\<close>

abbreviation byte :: "char \<Rightarrow> nat" where "byte c \<equiv> of_char c"

definition cont :: "char \<Rightarrow> bool" where
  "cont c \<longleftrightarrow> 0x80 \<le> byte c \<and> byte c \<le> 0xBF"

definition RuneStart :: "char \<Rightarrow> bool" where
  "RuneStart c \<longleftrightarrow> \<not> cont c"

text \<open>The length of the well-formed encoding at the head of a string, 0 when there is none.\<close>

fun runeLen :: "string \<Rightarrow> nat" where
  "runeLen [] = 0"
| "runeLen (a # s) =
     (if byte a < 0x80 then 1
      else if 0xC2 \<le> byte a \<and> byte a \<le> 0xDF then
        (case s of b # _ \<Rightarrow> if cont b then 2 else 0 | _ \<Rightarrow> 0)
      else if 0xE0 \<le> byte a \<and> byte a \<le> 0xEF then
        (case s of b # c # _ \<Rightarrow>
           if cont b \<and> cont c \<and> (byte a = 0xE0 \<longrightarrow> 0xA0 \<le> byte b) \<and> (byte a = 0xED \<longrightarrow> byte b \<le> 0x9F)
           then 3 else 0
         | _ \<Rightarrow> 0)
      else if 0xF0 \<le> byte a \<and> byte a \<le> 0xF4 then
        (case s of b # c # d # _ \<Rightarrow>
           if cont b \<and> cont c \<and> cont d \<and> (byte a = 0xF0 \<longrightarrow> 0x90 \<le> byte b) \<and> (byte a = 0xF4 \<longrightarrow> byte b \<le> 0x8F)
           then 4 else 0
         | _ \<Rightarrow> 0)
      else 0)"

lemma runeLen_le: "runeLen s \<le> length s" "runeLen s \<le> 4"
  by (cases s rule: runeLen.cases; auto split: list.splits)+

function utf8Valid :: "string \<Rightarrow> bool" where
  "utf8Valid s =
     (if s = [] then True else if runeLen s = 0 then False else utf8Valid (drop (runeLen s) s))"
  by pat_completeness auto
termination
  by (relation "measure length") auto

declare utf8Valid.simps [simp del]

text \<open>The width \<open>utf8.DecodeRuneInString\<close> reports: 1 for a byte that starts no rune.\<close>

definition decodeWidth :: "string \<Rightarrow> nat" where
  "decodeWidth s = (if s = [] then 0 else if runeLen s = 0 then 1 else runeLen s)"

text \<open>\<open>string(runes)\<close>: the UTF-8 encoding; a surrogate or an out-of-range value becomes U+FFFD.\<close>

definition encodeRune :: "nat \<Rightarrow> string" where
  "encodeRune r0 =
     (let r = (if 0xD800 \<le> r0 \<and> r0 < 0xE000 \<or> r0 > 0x10FFFF then 0xFFFD else r0) in
      if r < 0x80 then [char_of r]
      else if r < 0x800 then [char_of (0xC0 + r div 64), char_of (0x80 + r mod 64)]
      else if r < 0x10000 then
        [char_of (0xE0 + r div 4096), char_of (0x80 + r div 64 mod 64), char_of (0x80 + r mod 64)]
      else [char_of (0xF0 + r div 262144), char_of (0x80 + r div 4096 mod 64),
            char_of (0x80 + r div 64 mod 64), char_of (0x80 + r mod 64)])"

definition encodeRunes :: "nat list \<Rightarrow> string" where
  "encodeRunes rs = List.concat (map encodeRune rs)"

section \<open>UTF-16 (encoding.go: decodeUTF16)\<close>

datatype ByteOrder = LittleEndian | BigEndian

fun unitsOf :: "ByteOrder \<Rightarrow> string \<Rightarrow> nat list" where
  "unitsOf LittleEndian (a # b # s) = (byte a + 256 * byte b) # unitsOf LittleEndian s"
| "unitsOf BigEndian (a # b # s) = (256 * byte a + byte b) # unitsOf BigEndian s"
| "unitsOf order _ = []"

definition highSurrogate :: "nat \<Rightarrow> bool" where "highSurrogate u \<longleftrightarrow> 0xD800 \<le> u \<and> u < 0xDC00"
definition lowSurrogate :: "nat \<Rightarrow> bool" where "lowSurrogate u \<longleftrightarrow> 0xDC00 \<le> u \<and> u < 0xE000"

datatype DecodeError =
    UTF32LE | UTF32BE | InvalidUTF8 | OddLength nat | UnpairedHigh nat | UnpairedLow nat

text \<open>The check loop over the units, from index \<open>i\<close>: the first error, if there is one.\<close>

fun unpaired :: "nat \<Rightarrow> nat list \<Rightarrow> DecodeError option" where
  "unpaired i [] = None"
| "unpaired i (u # us) =
     (if highSurrogate u then
        (case us of
           [] \<Rightarrow> Some (UnpairedHigh i)
         | v # us' \<Rightarrow> if \<not> lowSurrogate v then Some (UnpairedHigh i) else unpaired (i + 2) us')
      else if lowSurrogate u then Some (UnpairedLow i)
      else unpaired (i + 1) us)"

text \<open>\<open>utf16.Decode\<close>: pairs combine, an unpaired surrogate becomes U+FFFD.\<close>

fun utf16Decode :: "nat list \<Rightarrow> nat list" where
  "utf16Decode [] = []"
| "utf16Decode (u # us) =
     (if highSurrogate u then
        (case us of
           [] \<Rightarrow> [0xFFFD]
         | v # us' \<Rightarrow>
             if lowSurrogate v then (0x10000 + (u - 0xD800) * 1024 + (v - 0xDC00)) # utf16Decode us'
             else 0xFFFD # utf16Decode us)
      else if lowSurrogate u then 0xFFFD # utf16Decode us
      else u # utf16Decode us)"

definition decodeUTF16 :: "ByteOrder \<Rightarrow> string \<Rightarrow> DecodeError + string" where
  "decodeUTF16 order b =
     (if length b mod 2 \<noteq> 0 then Inl (OddLength (length b + 2))
      else let units = unitsOf order b in
        case unpaired 0 units of
          Some e \<Rightarrow> Inl e
        | None \<Rightarrow> Inr (encodeRunes (utf16Decode units)))"

section \<open>Normalize (encoding.go)\<close>

definition Normalize :: "string \<Rightarrow> DecodeError + string" where
  "Normalize raw =
     (if hasPrefix raw [CHR 0xEF, CHR 0xBB, CHR 0xBF]
      then (if utf8Valid (drop 3 raw) then Inr (drop 3 raw) else Inl InvalidUTF8)
      else if hasPrefix raw [CHR 0xFF, CHR 0xFE, CHR 0x00, CHR 0x00] then Inl UTF32LE
      else if hasPrefix raw [CHR 0x00, CHR 0x00, CHR 0xFE, CHR 0xFF] then Inl UTF32BE
      else if hasPrefix raw [CHR 0xFF, CHR 0xFE] then decodeUTF16 LittleEndian (drop 2 raw)
      else if hasPrefix raw [CHR 0xFE, CHR 0xFF] then decodeUTF16 BigEndian (drop 2 raw)
      else if utf8Valid raw then Inr raw else Inl InvalidUTF8)"

section \<open>What comes out is UTF-8\<close>

lemma byte_char: "n < 256 \<Longrightarrow> byte (char_of n :: char) = n"
  by (simp add: take_bit_eq_mod)

lemma runeLen1: "(a::nat) < 0x80 \<Longrightarrow> runeLen (char_of a # s) = 1"
  by (simp add: byte_char del: of_char_of)

lemma runeLen2:
  fixes a b :: nat
  assumes "0xC2 \<le> a" "a \<le> 0xDF" "0x80 \<le> b" "b \<le> 0xBF"
  shows "runeLen (char_of a # char_of b # s) = 2"
proof -
  have "byte (char_of a :: char) = a" "byte (char_of b :: char) = b"
    using assms by (auto intro!: byte_char)
  then show ?thesis using assms by (simp add: cont_def del: of_char_of)
qed

lemma runeLen3:
  fixes a b c :: nat
  assumes "0xE0 \<le> a" "a \<le> 0xEF" "0x80 \<le> b" "b \<le> 0xBF" "0x80 \<le> c" "c \<le> 0xBF"
    and "a = 0xE0 \<longrightarrow> 0xA0 \<le> b" "a = 0xED \<longrightarrow> b \<le> 0x9F"
  shows "runeLen (char_of a # char_of b # char_of c # s) = 3"
proof -
  have "byte (char_of a :: char) = a" "byte (char_of b :: char) = b" "byte (char_of c :: char) = c"
    using assms by (auto intro!: byte_char)
  then show ?thesis using assms by (simp add: cont_def del: of_char_of)
qed

lemma runeLen4:
  fixes a b c d :: nat
  assumes "0xF0 \<le> a" "a \<le> 0xF4" "0x80 \<le> b" "b \<le> 0xBF" "0x80 \<le> c" "c \<le> 0xBF" "0x80 \<le> d" "d \<le> 0xBF"
    and "a = 0xF0 \<longrightarrow> 0x90 \<le> b" "a = 0xF4 \<longrightarrow> b \<le> 0x8F"
  shows "runeLen (char_of a # char_of b # char_of c # char_of d # s) = 4"
proof -
  have "byte (char_of a :: char) = a" "byte (char_of b :: char) = b" "byte (char_of c :: char) = c"
    "byte (char_of d :: char) = d"
    using assms by (auto intro!: byte_char)
  then show ?thesis using assms by (simp add: cont_def del: of_char_of)
qed

lemma div_split: "(q::nat) div b = 64 * (q div (b * 64)) + q div b mod 64"
  unfolding div_mult2_eq by simp

lemma runeLen_encode: "runeLen (encodeRune r @ s) = length (encodeRune r) \<and> encodeRune r \<noteq> []"
proof -
  define q where "q = (if 0xD800 \<le> r \<and> r < 0xE000 \<or> r > 0x10FFFF then 0xFFFD else r)"
  have q: "q \<le> 0x10FFFF" "\<not> (0xD800 \<le> q \<and> q < 0xE000)" by (auto simp: q_def)
  have m: "x mod 64 \<le> 63" for x :: nat by simp
  have enc: "encodeRune r =
     (if q < 0x80 then [char_of q]
      else if q < 0x800 then [char_of (0xC0 + q div 64), char_of (0x80 + q mod 64)]
      else if q < 0x10000 then
        [char_of (0xE0 + q div 4096), char_of (0x80 + q div 64 mod 64), char_of (0x80 + q mod 64)]
      else [char_of (0xF0 + q div 262144), char_of (0x80 + q div 4096 mod 64),
            char_of (0x80 + q div 64 mod 64), char_of (0x80 + q mod 64)])"
    unfolding encodeRune_def Let_def q_def ..
  consider "q < 0x80" | "0x80 \<le> q" "q < 0x800" | "0x800 \<le> q" "q < 0x10000" | "0x10000 \<le> q" by linarith
  then show ?thesis
  proof cases
    case 1
    then have e: "encodeRune r = [char_of q]" unfolding enc by (simp only: if_True)
    show ?thesis unfolding e using runeLen1 [OF 1] by simp
  next
    case 2
    then have "\<not> q < 0x80" by simp
    with 2(2) have e: "encodeRune r = [char_of (0xC0 + q div 64), char_of (0x80 + q mod 64)]"
      unfolding enc by (simp only: if_True if_False)
    have "2 \<le> q div 64" "q div 64 \<le> 31" using 2 by auto
    then have "runeLen (char_of (0xC0 + q div 64) # char_of (0x80 + q mod 64) # s) = 2"
      using m [of q] by (intro runeLen2) simp_all
    then show ?thesis unfolding e by simp
  next
    case 3
    then have "\<not> q < 0x80" "\<not> q < 0x800" by simp_all
    with 3(2) have e: "encodeRune r =
        [char_of (0xE0 + q div 4096), char_of (0x80 + q div 64 mod 64), char_of (0x80 + q mod 64)]"
      unfolding enc by (simp only: if_True if_False)
    have split: "q div 64 = 64 * (q div 4096) + q div 64 mod 64"
      using div_split [of q 64] by simp
    have "q = 64 * (q div 64) + q mod 64" by simp
    then have "\<not> (864 \<le> q div 64 \<and> q div 64 < 896)" "32 \<le> q div 64"
      using q(2) 3(1) m [of q] by linarith+
    moreover have d: "q div 4096 \<le> 15" using 3(2) by auto
    ultimately have "0xE0 + q div 4096 = 0xE0 \<longrightarrow> 0xA0 \<le> 0x80 + q div 64 mod 64"
      "0xE0 + q div 4096 = 0xED \<longrightarrow> 0x80 + q div 64 mod 64 \<le> 0x9F"
      using split m [of "q div 64"] by linarith+
    with d have "runeLen (char_of (0xE0 + q div 4096) # char_of (0x80 + q div 64 mod 64) #
        char_of (0x80 + q mod 64) # s) = 3"
      using m [of q] m [of "q div 64"] by (intro runeLen3) simp_all
    then show ?thesis unfolding e by simp
  next
    case 4
    then have "\<not> q < 0x80" "\<not> q < 0x800" "\<not> q < 0x10000" by simp_all
    then have e: "encodeRune r = [char_of (0xF0 + q div 262144), char_of (0x80 + q div 4096 mod 64),
            char_of (0x80 + q div 64 mod 64), char_of (0x80 + q mod 64)]"
      unfolding enc by (simp only: if_False)
    have split: "q div 4096 = 64 * (q div 262144) + q div 4096 mod 64"
      using div_split [of q 4096] by simp
    have "q div 262144 \<le> 4" "16 \<le> q div 4096" "q div 4096 < 272" using 4 q(1) by auto
    then have "0xF0 + q div 262144 = 0xF0 \<longrightarrow> 0x90 \<le> 0x80 + q div 4096 mod 64"
      "0xF0 + q div 262144 = 0xF4 \<longrightarrow> 0x80 + q div 4096 mod 64 \<le> 0x8F"
      using split by linarith+
    with \<open>q div 262144 \<le> 4\<close> have "runeLen (char_of (0xF0 + q div 262144) # char_of (0x80 + q div 4096 mod 64) #
        char_of (0x80 + q div 64 mod 64) # char_of (0x80 + q mod 64) # s) = 4"
      using m [of q] m [of "q div 64"] m [of "q div 4096"] by (intro runeLen4) simp_all
    then show ?thesis unfolding e by simp
  qed
qed

lemma utf8Valid_encodeRunes: "utf8Valid (encodeRunes rs)"
proof (induction rs)
  case Nil
  then show ?case by (simp add: encodeRunes_def utf8Valid.simps)
next
  case (Cons r rs)
  have "encodeRunes (r # rs) = encodeRune r @ encodeRunes rs" by (simp add: encodeRunes_def)
  then show ?case
    using Cons runeLen_encode [of r "encodeRunes rs"] by (subst utf8Valid.simps) simp
qed

section \<open>UTF-16 round trip\<close>

text \<open>Little-endian UTF-16 of a sequence of code points, as a writer produces it.\<close>

definition scalar :: "nat \<Rightarrow> bool" where
  "scalar r \<longleftrightarrow> r \<le> 0x10FFFF \<and> \<not> (0xD800 \<le> r \<and> r < 0xE000)"

definition unitsOfRune :: "nat \<Rightarrow> nat list" where
  "unitsOfRune r =
     (if r < 0x10000 then [r] else [0xD800 + (r - 0x10000) div 1024, 0xDC00 + (r - 0x10000) mod 1024])"

definition bytesOfUnit :: "ByteOrder \<Rightarrow> nat \<Rightarrow> string" where
  "bytesOfUnit order u =
     (case order of LittleEndian \<Rightarrow> [char_of (u mod 256), char_of (u div 256)]
      | BigEndian \<Rightarrow> [char_of (u div 256), char_of (u mod 256)])"

definition utf16 :: "ByteOrder \<Rightarrow> nat list \<Rightarrow> string" where
  "utf16 order rs = List.concat (map (bytesOfUnit order) (List.concat (map unitsOfRune rs)))"

lemma unitsOf_bytes:
  "(\<forall>u \<in> set us. u < 0x10000) \<Longrightarrow> unitsOf order (List.concat (map (bytesOfUnit order) us)) = us"
proof (induction us)
  case Nil
  then show ?case by (cases order) simp_all
next
  case (Cons u us)
  have "u mod 256 < 256" "u div 256 < 256" using Cons.prems by auto
  then have "byte (char_of (u mod 256) :: char) = u mod 256" "byte (char_of (u div 256) :: char) = u div 256"
    by (auto intro!: byte_char)
  then show ?case
    using Cons by (cases order) (simp_all add: bytesOfUnit_def del: of_char_of)
qed

lemma units_small: "scalar r \<Longrightarrow> u \<in> set (unitsOfRune r) \<Longrightarrow> u < 0x10000"
proof -
  assume a: "scalar r" "u \<in> set (unitsOfRune r)"
  have "(r - 0x10000) mod 1024 < 1024" by simp
  moreover have "(r - 0x10000) div 1024 < 1024" using a(1) by (auto simp: scalar_def)
  ultimately show ?thesis using a by (auto simp: unitsOfRune_def split: if_splits)
qed

lemma units_pair:
  assumes "scalar r" "0x10000 \<le> r"
  shows "highSurrogate (0xD800 + (r - 0x10000) div 1024)" "lowSurrogate (0xDC00 + (r - 0x10000) mod 1024)"
    "0x10000 + (0xD800 + (r - 0x10000) div 1024 - 0xD800) * 1024 + (0xDC00 + (r - 0x10000) mod 1024 - 0xDC00) = r"
proof -
  have "(r - 0x10000) div 1024 < 1024" using assms by (auto simp: scalar_def)
  then show "highSurrogate (0xD800 + (r - 0x10000) div 1024)" by (simp add: highSurrogate_def)
  show "lowSurrogate (0xDC00 + (r - 0x10000) mod 1024)" by (simp add: lowSurrogate_def)
  show "0x10000 + (0xD800 + (r - 0x10000) div 1024 - 0xD800) * 1024 + (0xDC00 + (r - 0x10000) mod 1024 - 0xDC00) = r"
    using assms(2) by (simp add: mult.commute)
qed

lemma unpaired_units:
  "(\<forall>r \<in> set rs. scalar r) \<Longrightarrow> unpaired i (List.concat (map unitsOfRune rs)) = None"
proof (induction rs arbitrary: i)
  case (Cons r rs)
  show ?case
  proof (cases "r < 0x10000")
    case True
    then have "\<not> highSurrogate r" "\<not> lowSurrogate r"
      using Cons.prems by (auto simp: scalar_def highSurrogate_def lowSurrogate_def)
    with True Cons show ?thesis by (simp add: unitsOfRune_def)
  next
    case False
    then show ?thesis using Cons units_pair [of r] by (simp add: unitsOfRune_def)
  qed
qed simp

lemma utf16Decode_units:
  "(\<forall>r \<in> set rs. scalar r) \<Longrightarrow> utf16Decode (List.concat (map unitsOfRune rs)) = rs"
proof (induction rs)
  case (Cons r rs)
  show ?case
  proof (cases "r < 0x10000")
    case True
    then have "\<not> highSurrogate r" "\<not> lowSurrogate r"
      using Cons.prems by (auto simp: scalar_def highSurrogate_def lowSurrogate_def)
    with True Cons show ?thesis by (simp add: unitsOfRune_def)
  next
    case False
    then show ?thesis using Cons units_pair [of r] by (simp add: unitsOfRune_def)
  qed
qed simp

lemma even_bytes: "length (List.concat (map (bytesOfUnit order) us)) = 2 * length us"
  by (induction us) (cases order; simp add: bytesOfUnit_def)+

lemma decodeUTF16_utf16:
  assumes "\<forall>r \<in> set rs. scalar r"
  shows "decodeUTF16 order (utf16 order rs) = Inr (encodeRunes rs)"
proof -
  have "\<forall>u \<in> set (List.concat (map unitsOfRune rs)). u < 0x10000"
    using assms units_small by auto
  from unitsOf_bytes [OF this, of order]
  show ?thesis
    using unpaired_units [OF assms, of 0] utf16Decode_units [OF assms]
    by (simp add: decodeUTF16_def utf16_def even_bytes)
qed

section \<open>Properties\<close>

text \<open>
  Whatever bytes a file holds, what \<open>Normalize\<close> accepts it returns as valid UTF-8; input that is
  already valid UTF-8 and carries no byte-order mark comes back unchanged.
\<close>

theorem Normalize_valid:
  "(\<forall>text. Normalize raw = Inr text \<longrightarrow> utf8Valid text) \<and>
   (utf8Valid raw \<and> \<not> hasPrefix raw [CHR 0xEF, CHR 0xBB, CHR 0xBF] \<and>
    \<not> hasPrefix raw [CHR 0x00, CHR 0x00, CHR 0xFE, CHR 0xFF] \<longrightarrow> Normalize raw = Inr raw)"
proof -
  have bad: "\<not> utf8Valid raw" if "hasPrefix raw [CHR 0xFF, CHR 0xFE] \<or> hasPrefix raw [CHR 0xFE, CHR 0xFF]"
  proof -
    have "runeLen raw = 0" "raw \<noteq> []"
      using that by (cases raw; auto simp: hasPrefix_def)+
    then show ?thesis by (simp add: utf8Valid.simps)
  qed
  have longer: "hasPrefix raw [CHR 0xFF, CHR 0xFE, CHR 0x00, CHR 0x00] \<Longrightarrow> hasPrefix raw [CHR 0xFF, CHR 0xFE]"
    unfolding hasPrefix_def by (cases raw rule: list.exhaust; cases "tl raw"; auto)
  have dec: "utf8Valid t" if "decodeUTF16 order b = Inr t" for order b t
    using that utf8Valid_encodeRunes
    by (auto simp: decodeUTF16_def Let_def split: if_splits option.splits)
  have "utf8Valid t" if "Normalize raw = Inr t" for t
    using that dec by (auto simp: Normalize_def split: if_splits)
  moreover have "Normalize raw = Inr raw"
    if "utf8Valid raw" "\<not> hasPrefix raw [CHR 0xEF, CHR 0xBB, CHR 0xBF]"
      "\<not> hasPrefix raw [CHR 0x00, CHR 0x00, CHR 0xFE, CHR 0xFF]"
    using that bad longer by (auto simp: Normalize_def)
  ultimately show ?thesis by blast
qed

theorem Normalize_valid_witness:
  "Normalize ''ab'' = Inr ''ab''"
proof -
  have "utf8Valid ''ab''" by (simp add: utf8Valid.simps)
  then show ?thesis using Normalize_valid [of "''ab''"] by (simp add: hasPrefix_def)
qed

lemma hasPrefix_append: "hasPrefix (p @ s) p"
  by (simp add: hasPrefix_def)

text \<open>
  C27: Round trip: text written as UTF-16 in either byte order behind its byte-order mark is decoded
  to exactly its UTF-8 encoding, for every sequence of Unicode scalar values (in little-endian not
  starting with NUL, whose bytes are the UTF-32 mark).
\<close>

theorem Normalize_utf16:
  assumes "\<forall>r \<in> set rs. scalar r" "rs = [] \<or> hd rs \<noteq> 0"
  shows "Normalize ([CHR 0xFF, CHR 0xFE] @ utf16 LittleEndian rs) = Inr (encodeRunes rs) \<and>
    Normalize ([CHR 0xFE, CHR 0xFF] @ utf16 BigEndian rs) = Inr (encodeRunes rs)"
proof -
  have "\<not> hasPrefix ([CHR 0xFF, CHR 0xFE] @ utf16 LittleEndian rs) [CHR 0xFF, CHR 0xFE, CHR 0x00, CHR 0x00]"
  proof (cases rs)
    case Nil
    then show ?thesis by (simp add: utf16_def hasPrefix_def)
  next
    case (Cons r rs')
    define u where "u = (if r < 0x10000 then r else 0xD800 + (r - 0x10000) div 1024)"
    obtain us where us: "List.concat (map unitsOfRune rs) = u # us"
      by (cases "r < 0x10000") (simp_all add: Cons unitsOfRune_def u_def)
    have "u \<noteq> 0" using assms Cons by (auto simp: u_def)
    moreover have "u < 0x10000"
      using assms(1) Cons units_small [of r u] by (auto simp: unitsOfRune_def u_def split: if_splits)
    ultimately have "u mod 256 \<noteq> 0 \<or> u div 256 \<noteq> 0" "u mod 256 < 256" "u div 256 < 256" by auto
    then have "\<not> ((char_of (u mod 256) :: char) = CHR 0x00 \<and> (char_of (u div 256) :: char) = CHR 0x00)"
      using byte_char [of "u mod 256"] byte_char [of "u div 256"] by (auto simp del: of_char_of)
    then show ?thesis using us by (auto simp: utf16_def bytesOfUnit_def hasPrefix_def)
  qed
  then show ?thesis
    using decodeUTF16_utf16 [OF assms(1)] by (simp add: Normalize_def hasPrefix_def)
qed

theorem Normalize_utf16_witness:
  "Normalize ([CHR 0xFF, CHR 0xFE] @ utf16 LittleEndian [0x68, 0x1F600]) = Inr (encodeRunes [0x68, 0x1F600])"
  using Normalize_utf16 [of "[0x68, 0x1F600]"] by (simp add: scalar_def)

end
