(* ===== verification/Blocks.thy ===== *)
theory Blocks
  imports Encoding
begin

text \<open>
  The markdown scanner (chunker/blocks.go): lines, frontmatter, ATX headings, fences, pipe tables and
  paragraphs, each a byte span of the text. The loops over line indices are recursions on the
  index; what they produce is proved to be an ordered list of disjoint spans that covers every
  line with content.
\<close>

section \<open>Lines (blocks.go: line, splitLines, trimLine)\<close>

record mdLine =
  l_start :: nat
  l_end :: nat

definition mkLine :: "nat \<Rightarrow> nat \<Rightarrow> mdLine" where
  "mkLine s e = \<lparr>l_start = s, l_end = e\<rparr>"

text \<open>The loop over the bytes: \<open>start\<close> of the open line, \<open>i\<close> the index of the next byte.\<close>

fun splitLoop :: "string \<Rightarrow> nat \<Rightarrow> nat \<Rightarrow> mdLine list" where
  "splitLoop [] start i = (if start < i then [mkLine start i] else [])"
| "splitLoop (c # cs) start i =
     (if c = newline then mkLine start (i + 1) # splitLoop cs (i + 1) (i + 1)
      else splitLoop cs start (i + 1))"

definition splitLines :: "string \<Rightarrow> mdLine list" where
  "splitLines s = splitLoop s 0 0"

definition slice :: "string \<Rightarrow> nat \<Rightarrow> nat \<Rightarrow> string" where
  "slice s a b = take (b - a) (drop a s)"

definition trimLine :: "string \<Rightarrow> mdLine \<Rightarrow> string" where
  "trimLine s l = trimSuffix (trimSuffix (slice s (l_start l) (l_end l)) [newline]) [CHR 0x0D]"

section \<open>Line classification (blocks.go: parseATXHeading, fences, tables, frontmatter)\<close>

fun run :: "char \<Rightarrow> string \<Rightarrow> nat" where
  "run c [] = 0"
| "run c (x # xs) = (if x = c then Suc (run c xs) else 0)"

definition parseATXHeading :: "string \<Rightarrow> (nat \<times> string) option" where
  "parseATXHeading s =
     (let n = run CHR ''#'' s in
      if n < 1 \<or> n > 6 \<or> n \<ge> length s \<or> s ! n \<noteq> CHR '' '' then None
      else
        let t = trimSpace (drop (n + 1) s);
            stripped = trimRightSet t ''#''
        in Some (n, if stripped = '''' \<or> hasSuffix stripped '' '' then trimSpace stripped else t))"

definition fenceOpen :: "string \<Rightarrow> string option" where
  "fenceOpen s =
     (let trimmed = trimLeftSet s '' '' in
      if length s - length trimmed > 3 then None
      else if run CHR ''`'' trimmed \<ge> 3 then Some (take (run CHR ''`'' trimmed) trimmed)
      else if run CHR ''~'' trimmed \<ge> 3 then Some (take (run CHR ''~'' trimmed) trimmed)
      else None)"

definition fenceCloses :: "string \<Rightarrow> string \<Rightarrow> bool" where
  "fenceCloses s marker =
     (let trimmed = trimLeftSet s '' '' in
      if length s - length trimmed > 3 then False
      else let trimmed = trimRightSet trimmed '' '' in
        if length trimmed < length marker then False
        else list_all (\<lambda>c. c = marker ! 0) trimmed)"

definition isPipeLine :: "string \<Rightarrow> bool" where
  "isPipeLine s = containsStr s ''|''"

definition isDelimiterRow :: "string \<Rightarrow> bool" where
  "isDelimiterRow s0 =
     (let s = trimSpace s0 in
      if \<not> containsStr s ''-'' \<or> \<not> containsStr s ''|'' then False
      else
        let s = trimSuffix (trimPrefix s ''|'') ''|''
        in list_all (\<lambda>cell.
             let cell = trimSuffix (trimPrefix (trimSpace cell) '':'') '':''
             in \<not> (cell = '''' \<or> trimSet cell ''-'' \<noteq> ''''))
           (splitStr s ''|''))"

definition delim :: "string \<Rightarrow> mdLine \<Rightarrow> string" where
  "delim s l = trimRightSet (trimLine s l) [CHR '' '', CHR 0x09]"

text \<open>The index behind the closing delimiter, searched from line \<open>i\<close>.\<close>

fun frontmatterEnd :: "string \<Rightarrow> mdLine list \<Rightarrow> nat \<Rightarrow> nat" where
  "frontmatterEnd s [] i = 0"
| "frontmatterEnd s (l # ls) i =
     (if delim s l = ''---'' \<or> delim s l = ''...'' then i + 1 else frontmatterEnd s ls (i + 1))"

definition skipFrontmatter :: "string \<Rightarrow> mdLine list \<Rightarrow> nat" where
  "skipFrontmatter s ls =
     (case ls of
        [] \<Rightarrow> 0
      | l # rest \<Rightarrow> if delim s l \<noteq> ''---'' then 0 else frontmatterEnd s rest 1)"

section \<open>The scanner (blocks.go: block, scanBlocks)\<close>

datatype blockKind = blockParagraph | blockHeading | blockFence | blockTable

record mdBlock =
  b_kind :: blockKind
  b_start :: nat
  b_end :: nat
  b_level :: nat
  b_text :: string

definition mkBlock :: "blockKind \<Rightarrow> nat \<Rightarrow> nat \<Rightarrow> mdBlock" where
  "mkBlock kind s e = \<lparr>b_kind = kind, b_start = s, b_end = e, b_level = 0, b_text = ''''\<rparr>"

definition flushPara :: "mdLine list \<Rightarrow> nat option \<Rightarrow> nat \<Rightarrow> mdBlock list" where
  "flushPara ls para endLine =
     (case para of
        None \<Rightarrow> []
      | Some p \<Rightarrow> [mkBlock blockParagraph (l_start (ls ! p)) (l_end (ls ! (endLine - 1)))])"

text \<open>\<open>for j < len(lines) && cond(lines[j]) { j++ }\<close>.\<close>

function scanWhile :: "(mdLine \<Rightarrow> bool) \<Rightarrow> mdLine list \<Rightarrow> nat \<Rightarrow> nat" where
  "scanWhile cond ls j = (if j < length ls \<and> cond (ls ! j) then scanWhile cond ls (j + 1) else j)"
  by pat_completeness auto
termination by (relation "measure (\<lambda>(cond, ls, j). length ls - j)") auto

declare scanWhile.simps [simp del]

lemma scanWhile_ge: "j \<le> scanWhile cond ls j"
  by (induction cond ls j rule: scanWhile.induct) (subst scanWhile.simps, auto)

lemma scanWhile_le: "j \<le> length ls \<Longrightarrow> scanWhile cond ls j \<le> length ls"
  by (induction cond ls j rule: scanWhile.induct) (subst scanWhile.simps, auto)

definition blankLine :: "string \<Rightarrow> mdLine \<Rightarrow> bool" where
  "blankLine s l \<longleftrightarrow> trimSpace (trimLine s l) = ''''"

text \<open>One iteration at line \<open>i\<close>: the blocks it emits, the next line and the open paragraph.\<close>

definition scanStep :: "string \<Rightarrow> mdLine list \<Rightarrow> nat \<Rightarrow> nat option \<Rightarrow> mdBlock list \<times> nat \<times> nat option" where
  "scanStep s ls i para =
     (let l = ls ! i; t = trimLine s l in
      if blankLine s l then (flushPara ls para i, i + 1, None)
      else case parseATXHeading t of
        Some (level, htext) \<Rightarrow>
          (flushPara ls para i @ [\<lparr>b_kind = blockHeading, b_start = l_start l, b_end = l_end l,
             b_level = level, b_text = htext\<rparr>], i + 1, None)
      | None \<Rightarrow>
        (case fenceOpen t of
           Some marker \<Rightarrow>
             (let j = scanWhile (\<lambda>m. \<not> fenceCloses (trimLine s m) marker) ls (i + 1)
              in if j < length ls
                 then (flushPara ls para i @ [mkBlock blockFence (l_start l) (l_end (ls ! j))], j + 1, None)
                 else (flushPara ls para i @ [mkBlock blockFence (l_start l) (length s)], j, None))
         | None \<Rightarrow>
             (if isPipeLine t \<and> i + 1 < length ls \<and> isDelimiterRow (trimLine s (ls ! (i + 1)))
              then let j = scanWhile (\<lambda>m. isPipeLine (trimLine s m)) ls (i + 2)
                   in (flushPara ls para i @ [mkBlock blockTable (l_start l) (l_end (ls ! (j - 1)))], j, None)
              else ([], i + 1, Some (case para of None \<Rightarrow> i | Some p \<Rightarrow> p)))))"

lemma scanStep_progress:
  assumes "i < length ls" "scanStep s ls i para = (bs, i', para')"
  shows "i < i' \<and> i' \<le> length ls"
proof -
  have a: "i + 1 \<le> scanWhile c ls (i + 1)" "i + 2 \<le> scanWhile c ls (i + 2)" for c
    using scanWhile_ge by blast+
  have b: "i + 2 \<le> length ls \<Longrightarrow> scanWhile c ls (i + 2) \<le> length ls" "scanWhile c ls (i + 1) \<le> length ls" for c
    using scanWhile_le [of "i + 1" ls] scanWhile_le [of "i + 2" ls] assms(1) by auto
  show ?thesis
    using assms(2)[symmetric] assms(1) a(1) [of "\<lambda>m. \<not> fenceCloses (trimLine s m) (the (fenceOpen (trimLine s (ls ! i))))"]
      a(2) [of "\<lambda>m. isPipeLine (trimLine s m)"]
      b(1) [of "\<lambda>m. isPipeLine (trimLine s m)"]
      b(2) [of "\<lambda>m. \<not> fenceCloses (trimLine s m) (the (fenceOpen (trimLine s (ls ! i))))"]
    unfolding scanStep_def Let_def
    by (simp split: if_splits option.splits prod.splits)

qed

function scanLoop :: "string \<Rightarrow> mdLine list \<Rightarrow> nat \<Rightarrow> nat option \<Rightarrow> mdBlock list" where
  "scanLoop s ls i para =
     (if i < length ls
      then case scanStep s ls i para of (bs, i', para') \<Rightarrow> bs @ scanLoop s ls i' para'
      else flushPara ls para (length ls))"
  by pat_completeness auto
termination
  by (relation "measure (\<lambda>(s, ls, i, para). length ls - i)")
    (auto dest: scanStep_progress [OF _ sym])

declare scanLoop.simps [simp del]

definition scanBlocks :: "string \<Rightarrow> mdBlock list" where
  "scanBlocks s = (let ls = splitLines s in scanLoop s ls (skipFrontmatter s ls) None)"

section \<open>Lines tile the text\<close>

text \<open>Consecutive, non-empty spans from \<open>a\<close> to \<open>b\<close> without a gap.\<close>

fun tiles :: "nat \<Rightarrow> mdLine list \<Rightarrow> nat \<Rightarrow> bool" where
  "tiles a [] b = (a = b)"
| "tiles a (l # ls) b = (l_start l = a \<and> a < l_end l \<and> tiles (l_end l) ls b)"

lemma splitLoop_tiles: "start \<le> i \<Longrightarrow> tiles start (splitLoop s start i) (i + length s)"
  by (induction s start i rule: splitLoop.induct) (auto simp: mkLine_def)

lemma splitLines_tiles: "tiles 0 (splitLines s) (length s)"
  using splitLoop_tiles [of 0 0 s] by (simp add: splitLines_def)

text \<open>Where line \<open>i\<close> starts, the end of the text behind the last line.\<close>

definition linePos :: "mdLine list \<Rightarrow> nat \<Rightarrow> nat \<Rightarrow> nat" where
  "linePos ls n i = (if i < length ls then l_start (ls ! i) else n)"

lemma tiles_end: "tiles a ls n \<Longrightarrow> i < length ls \<Longrightarrow> l_end (ls ! i) = linePos ls n (Suc i)"
proof (induction ls arbitrary: a i)
  case (Cons l ls)
  then show ?case
    by (cases i; cases ls) (auto simp: linePos_def)
qed simp

lemma tiles_start_less: "tiles a ls n \<Longrightarrow> i < length ls \<Longrightarrow> linePos ls n i < l_end (ls ! i)"
  by (induction ls arbitrary: a i) (auto simp: linePos_def nth_Cons split: nat.splits)

lemma linePos_step: "tiles a ls n \<Longrightarrow> i < length ls \<Longrightarrow> linePos ls n i < linePos ls n (Suc i)"
  using tiles_start_less tiles_end by metis

lemma linePos_mono: "tiles a ls n \<Longrightarrow> i \<le> j \<Longrightarrow> linePos ls n i \<le> linePos ls n j"
proof (induction j)
  case (Suc j)
  show ?case
  proof (cases "i = Suc j")
    case False
    then have "linePos ls n i \<le> linePos ls n j" using Suc by simp
    also have "\<dots> \<le> linePos ls n (Suc j)"
      using linePos_step [OF Suc.prems(1), of j] by (cases "j < length ls") (auto simp: linePos_def)
    finally show ?thesis .
  qed simp
qed simp

lemma linePos_strict: "tiles a ls n \<Longrightarrow> i < j \<Longrightarrow> i < length ls \<Longrightarrow> linePos ls n i < linePos ls n j"
  using linePos_step [of a ls n i] linePos_mono [of a ls n "Suc i" j] by simp

section \<open>Blocks are ordered and cover the content\<close>

fun spans :: "nat \<Rightarrow> mdBlock list \<Rightarrow> nat \<Rightarrow> bool" where
  "spans a [] b = (a \<le> b)"
| "spans a (k # ks) b = (a \<le> b_start k \<and> b_start k < b_end k \<and> spans (b_end k) ks b)"

lemma spans_append: "spans a xs b \<Longrightarrow> spans b ys c \<Longrightarrow> spans a (xs @ ys) c"
proof (induction xs arbitrary: a)
  case Nil
  then show ?case by (cases ys) auto
qed simp

text \<open>The line span \<open>[i, j)\<close> lies in the block.\<close>

definition holds_line :: "mdBlock \<Rightarrow> mdLine \<Rightarrow> bool" where
  "holds_line k l \<longleftrightarrow> b_start k \<le> l_start l \<and> l_end l \<le> b_end k"

definition from_line :: "nat option \<Rightarrow> nat \<Rightarrow> nat" where
  "from_line para i = (case para of None \<Rightarrow> i | Some p \<Rightarrow> p)"

lemma from_line_simps [simp]: "from_line None i = i" "from_line (Some p) i = p"
  by (simp_all add: from_line_def)

text \<open>Blocks \<open>bs\<close> account for the lines from \<open>i\<close> up to \<open>j\<close>: in order, and none with content left out.\<close>

definition accounts :: "string \<Rightarrow> mdLine list \<Rightarrow> nat \<Rightarrow> mdBlock list \<Rightarrow> nat \<Rightarrow> bool" where
  "accounts s ls i bs j \<longleftrightarrow> i \<le> j \<and> spans (linePos ls (length s) i) bs (linePos ls (length s) j) \<and>
     (\<forall>m. i \<le> m \<and> m < j \<and> m < length ls \<and> \<not> blankLine s (ls ! m) \<longrightarrow> (\<exists>k \<in> set bs. holds_line k (ls ! m)))"

lemma accounts_append:
  assumes x: "accounts s ls i xs j" and y: "accounts s ls j ys k"
  shows "accounts s ls i (xs @ ys) k"
  unfolding accounts_def
proof (intro conjI allI impI)
  show "i \<le> k" using x y by (simp add: accounts_def)
  show "spans (linePos ls (length s) i) (xs @ ys) (linePos ls (length s) k)"
    using x y by (auto simp: accounts_def intro: spans_append)
  fix m assume m: "i \<le> m \<and> m < k \<and> m < length ls \<and> \<not> blankLine s (ls ! m)"
  show "\<exists>b \<in> set (xs @ ys). holds_line b (ls ! m)"
  proof (cases "m < j")
    case True
    then have "\<exists>b \<in> set xs. holds_line b (ls ! m)" using x m by (simp add: accounts_def)
    then show ?thesis by auto
  next
    case False
    then have "\<exists>b \<in> set ys. holds_line b (ls ! m)" using y m by (simp add: accounts_def)
    then show ?thesis by auto
  qed
qed

lemma accounts_block:
  assumes t: "tiles 0 ls (length s)" and b: "b_start k = linePos ls (length s) i"
    "b_end k = linePos ls (length s) j" and i: "i < j" "i < length ls"
  shows "accounts s ls i [k] j"
proof -
  have "holds_line k (ls ! m)" if "i \<le> m" "m < j" "m < length ls" for m
    using that b linePos_mono [OF t, of i m] linePos_mono [OF t, of "Suc m" j] tiles_end [OF t, of m]
    by (simp add: holds_line_def linePos_def split: if_splits)
  then show ?thesis
    using linePos_strict [OF t i] b i by (auto simp: accounts_def)
qed

lemma accounts_blank:
  assumes "tiles 0 ls (length s)" "blankLine s (ls ! i)"
  shows "accounts s ls i [] (Suc i)"
  using assms linePos_mono [of 0 ls "length s" i "Suc i"]
  by (auto simp: accounts_def less_Suc_eq_le dest: le_antisym)

lemma accounts_refl: "accounts s ls i [] i"
  by (simp add: accounts_def)

lemma accounts_flush:
  assumes "tiles 0 ls (length s)" "\<forall>p. para = Some p \<longrightarrow> p < i" "i \<le> length ls"
  shows "accounts s ls (from_line para i) (flushPara ls para i) i"
proof (cases para)
  case (Some p)
  then show ?thesis
    using assms tiles_end [OF assms(1), of "i - 1"]
    by (auto simp: flushPara_def from_line_def mkBlock_def linePos_def [of ls _ p] intro!: accounts_block)
qed (simp add: flushPara_def from_line_def accounts_refl)

lemma scanStep_accounts:
  assumes t: "tiles 0 ls (length s)" and p: "\<forall>p. para = Some p \<longrightarrow> p < i" and i: "i < length ls"
    and st: "scanStep s ls i para = (bs, i', para')"
  shows "accounts s ls (from_line para i) bs (from_line para' i') \<and> (\<forall>p. para' = Some p \<longrightarrow> p < i')"
proof -
  have fl: "accounts s ls (from_line para i) (flushPara ls para i) i"
    using accounts_flush [OF t p] i by simp
  note bl = accounts_append [OF fl accounts_block [OF t]]
  have li: "l_start (ls ! i) = linePos ls (length s) i" using i by (simp add: linePos_def)
  have le: "j < length ls \<Longrightarrow> l_end (ls ! j) = linePos ls (length s) (Suc j)" for j
    using tiles_end [OF t] by simp
  have ge: "linePos ls (length s) j = length s" if "length ls \<le> j" for j
    using that by (simp add: linePos_def)
  show ?thesis
  proof (cases "blankLine s (ls ! i)")
    case True
    then show ?thesis
      using st accounts_append [OF fl accounts_blank [OF t True]]
      by (auto simp: scanStep_def Let_def)
  next
    case nb: False
    show ?thesis
    proof (cases "parseATXHeading (trimLine s (ls ! i))")
      case (Some lh)
      then show ?thesis
        using st nb i by (cases lh) (auto simp: scanStep_def Let_def li le intro!: bl)
    next
      case nh: None
      show ?thesis
      proof (cases "fenceOpen (trimLine s (ls ! i))")
        case (Some marker)
        define j where "j = scanWhile (\<lambda>m. \<not> fenceCloses (trimLine s m) marker) ls (Suc i)"
        have j: "i < j" "j \<le> length ls"
          using scanWhile_ge [of "Suc i" "\<lambda>m. \<not> fenceCloses (trimLine s m) marker" ls]
            scanWhile_le [of "Suc i" ls "\<lambda>m. \<not> fenceCloses (trimLine s m) marker"] i
          unfolding j_def by simp_all
        show ?thesis
          using st nb nh Some i j
          by (auto simp: scanStep_def Let_def mkBlock_def li le ge j_def [symmetric]
              split: if_splits intro!: bl)
      next
        case nf: None
        show ?thesis
        proof (cases "isPipeLine (trimLine s (ls ! i)) \<and> i + 1 < length ls \<and>
            isDelimiterRow (trimLine s (ls ! (i + 1)))")
          case True
          define j where "j = scanWhile (\<lambda>m. isPipeLine (trimLine s m)) ls (Suc (Suc i))"
          have j: "Suc (Suc i) \<le> j" "j \<le> length ls"
            using scanWhile_ge [of "Suc (Suc i)" "\<lambda>m. isPipeLine (trimLine s m)" ls]
              scanWhile_le [of "Suc (Suc i)" ls "\<lambda>m. isPipeLine (trimLine s m)"] True
            unfolding j_def by simp_all
          show ?thesis
            using st nb nh nf True i j le [of "j - 1"]
            by (auto simp: scanStep_def Let_def mkBlock_def li j_def [symmetric]
                split: if_splits intro!: bl)
        next
          case False
          then have "bs = []" "i' = i + 1" "from_line para' i' = from_line para i"
            "\<forall>p. para' = Some p \<longrightarrow> p < i'"
            using st nb nh nf p
            by (auto simp: scanStep_def Let_def from_line_def split: if_splits option.splits)
          then show ?thesis by (simp add: accounts_refl)
        qed
      qed
    qed
  qed
qed

lemma scanLoop_accounts:
  assumes "tiles 0 ls (length s)" "\<forall>p. para = Some p \<longrightarrow> p < i" "i \<le> length ls"
  shows "accounts s ls (from_line para i) (scanLoop s ls i para) (length ls)"
  using assms
proof (induction s ls i para rule: scanLoop.induct)
  case (1 s ls i para)
  show ?case
  proof (cases "i < length ls")
    case True
    obtain bs i' para' where st: "scanStep s ls i para = (bs, i', para')"
      by (metis prod_cases3)
    note sa = scanStep_accounts [OF 1(2,3) True st]
    have "accounts s ls (from_line para' i') (scanLoop s ls i' para') (length ls)"
      using 1(1) [OF True st [symmetric] refl] 1(2) sa scanStep_progress [OF True st] by simp
    then show ?thesis
      using sa True st by (subst scanLoop.simps) (auto intro: accounts_append)
  next
    case False
    then have "i = length ls" using 1(4) by simp
    then show ?thesis
      using accounts_flush [OF 1(2,3)] by (subst scanLoop.simps) simp
  qed
qed

lemma frontmatterEnd_le: "frontmatterEnd s ls i \<le> i + length ls"
  by (induction s ls i rule: frontmatterEnd.induct) auto

lemma skipFrontmatter_le: "skipFrontmatter s ls \<le> length ls"
  using frontmatterEnd_le [of s "tl ls" 1]
  by (cases ls) (auto simp: skipFrontmatter_def)

lemma scanBlocks_accounts:
  "accounts s (splitLines s) (skipFrontmatter s (splitLines s)) (scanBlocks s) (length (splitLines s))"
  using scanLoop_accounts [OF splitLines_tiles, of None "skipFrontmatter s (splitLines s)"]
    skipFrontmatter_le [of s "splitLines s"]
  by (simp add: scanBlocks_def Let_def)

lemma scanBlocks_spans:
  "spans (linePos (splitLines s) (length s) (skipFrontmatter s (splitLines s))) (scanBlocks s) (length s)"
  using scanBlocks_accounts [of s] by (simp add: accounts_def linePos_def)

text \<open>
  The scanner loses no content and invents none: its blocks are non-empty spans of the text, in
  order and disjoint, none reaches into the frontmatter, and every line behind the frontmatter
  that is not blank lies whole within one of them.
\<close>

theorem scanBlocks_covers:
  "let ls = splitLines s; first = skipFrontmatter s ls in
   spans (linePos ls (length s) first) (scanBlocks s) (length s) \<and>
   (\<forall>m < length ls. first \<le> m \<and> \<not> blankLine s (ls ! m) \<longrightarrow> (\<exists>k \<in> set (scanBlocks s). holds_line k (ls ! m)))"
  using scanBlocks_accounts [of s] scanBlocks_spans [of s] by (auto simp: accounts_def Let_def)

theorem scanBlocks_covers_witness:
  "\<exists>k \<in> set (scanBlocks ''ab''). holds_line k (mkLine 0 2)"
proof -
  have ls: "splitLines ''ab'' = [mkLine 0 2]" by (simp add: splitLines_def newline_def numeral_2_eq_2)
  have "\<not> blankLine ''ab'' (mkLine 0 2)" "skipFrontmatter ''ab'' [mkLine 0 2] = 0"
    by (simp_all add: blankLine_def trimLine_def slice_def mkLine_def go_string newline_def trimSpace_def
      spaceRunes_def dropRunes.simps skipFrontmatter_def delim_def trimRightSet_def)
  then show ?thesis using scanBlocks_covers [of "''ab''"] ls by (simp add: Let_def)
qed

end
