(* ===== verification/Chunker.thy ===== *)
theory Chunker
  imports Blocks
begin

text \<open>
  The chunker (chunker/chunker.go): blocks grouped under their heading path, packed greedily with a
  block-aligned overlap, oversize blocks cut as a fallback, tiny chunks merged into a neighbour.
  What it promises is proved in ChunkFacts. Offsets are naturals, the signed differences and
  budgets of the source \<open>int\<close>s.
\<close>

section \<open>Budgets and data (chunker.go)\<close>

definition Version :: string where "Version = ''1''"
definition targetBytes :: int where "targetBytes = 2048"
definition minBytes :: int where "minBytes = 256"
definition maxBytes :: int where "maxBytes = 4096"
definition overlapBytes :: int where "overlapBytes = 256"
definition prefixReserve :: int where "prefixReserve = TemplateReserveBytes"

lemmas budgets = targetBytes_def minBytes_def maxBytes_def overlapBytes_def

record Warning =
  w_Ordinal :: nat
  w_HeadingPath :: string
  w_ByteStart :: nat
  w_ByteEnd :: nat
  w_Reason :: string

record ChunkResult =
  res_Chunks :: "Chunk list"
  res_Warnings :: "Warning list"

record candidate =
  cd_start :: nat
  cd_end :: nat
  cd_path :: string
  cd_preamble :: bool
  cd_warn :: string

record mdSection =
  sec_path :: string
  sec_blocks :: "mdBlock list"
  sec_preamble :: bool

section \<open>Sections (chunker.go: sections)\<close>

text \<open>The stack has its top at the end, as the slice does.\<close>

definition popFrames :: "nat \<Rightarrow> (nat \<times> string) list \<Rightarrow> (nat \<times> string) list" where
  "popFrames level stack = rev (dropWhile (\<lambda>f. level \<le> fst f) (rev stack))"

definition stackPath :: "(nat \<times> string) list \<Rightarrow> string" where
  "stackPath stack = joinStr (map snd stack) '' > ''"

definition flushSection :: "mdSection \<Rightarrow> mdSection list" where
  "flushSection cur = (if sec_blocks cur \<noteq> [] then [cur] else [])"

fun sectionsLoop :: "mdBlock list \<Rightarrow> (nat \<times> string) list \<Rightarrow> mdSection \<Rightarrow> mdSection list" where
  "sectionsLoop [] stack cur = flushSection cur"
| "sectionsLoop (b # bs) stack cur =
     (if b_kind b = blockHeading then
        let stack' = popFrames (b_level b) stack @ [(b_level b, b_text b)]
        in flushSection cur @
           sectionsLoop bs stack' \<lparr>sec_path = stackPath stack', sec_blocks = [], sec_preamble = False\<rparr>
      else sectionsLoop bs stack (cur\<lparr>sec_blocks := sec_blocks cur @ [b]\<rparr>))"

definition sections :: "string \<Rightarrow> mdSection list" where
  "sections s = sectionsLoop (scanBlocks s) [] \<lparr>sec_path = '''', sec_blocks = [], sec_preamble = True\<rparr>"

section \<open>Packing (chunker.go: sectionCeiling, chunkSection, overlapSuffix)\<close>

definition sectionCeiling :: "int \<Rightarrow> string \<Rightarrow> int" where
  "sectionCeiling baseCeiling p =
     (if baseCeiling \<le> 0 then 0
      else let c = baseCeiling - int (length p) in if c < 64 then 64 else c)"

definition bspan :: "mdBlock \<Rightarrow> mdBlock \<Rightarrow> int" where
  "bspan a b = int (b_end b) - int (b_start a)"

text \<open>The loop index \<open>i\<close> of \<open>overlapSuffix\<close>, counted down.\<close>

fun overlapIndex :: "mdBlock list \<Rightarrow> nat \<Rightarrow> nat" where
  "overlapIndex g 0 = 0"
| "overlapIndex g (Suc i) =
     (if Suc i > 1 \<and> bspan (g ! i) (g ! (length g - 1)) \<le> overlapBytes then overlapIndex g i else Suc i)"

definition overlapSuffix :: "mdBlock list \<Rightarrow> mdBlock list" where
  "overlapSuffix g = (let i = overlapIndex g (length g) in if i = length g then [] else drop i g)"

text \<open>Greedy packing: \<open>cur\<close> is the open group.\<close>

fun packLoop :: "int \<Rightarrow> int \<Rightarrow> mdBlock list \<Rightarrow> mdBlock list \<Rightarrow> mdBlock list list" where
  "packLoop target capB [] cur = (if cur \<noteq> [] then [cur] else [])"
| "packLoop target capB (b # bs) cur =
     (if cur \<noteq> [] \<and> bspan (cur ! 0) b > target then
        let seed = overlapSuffix cur;
            seed' = (if seed \<noteq> [] \<and> bspan (seed ! 0) b > capB then [] else seed)
        in cur # packLoop target capB bs (seed' @ [b])
      else packLoop target capB bs (cur @ [b]))"

section \<open>Hard split (chunker.go: hardSplit)\<close>

fun runeBack :: "string \<Rightarrow> nat \<Rightarrow> nat \<Rightarrow> nat" where
  "runeBack s start 0 = 0"
| "runeBack s start (Suc c) = (if \<not> RuneStart (s ! (start + Suc c)) then runeBack s start c else Suc c)"

definition hardCut :: "string \<Rightarrow> nat \<Rightarrow> nat \<Rightarrow> nat" where
  "hardCut s start limit =
     (let w = slice s start (start + limit) in
      case lastIndex w [newline, newline] of
        Some i \<Rightarrow> i + 2
      | None \<Rightarrow>
        (case lastIndex w [newline] of
           Some i \<Rightarrow> i + 1
         | None \<Rightarrow>
           (case lastIndex w '' '' of
              Some i \<Rightarrow> i + 1
            | None \<Rightarrow>
                (let c = runeBack s start limit in
                 if c = 0 then decodeWidth (drop start s) else c))))"

text \<open>
  The cut is positive whenever \<open>start\<close> lies in the text (\<open>hardCut_pos\<close>); outside of it the slice
  expression of the source panics, which the guard on the recursion stands for.
\<close>

function hardSplit :: "string \<Rightarrow> nat \<Rightarrow> nat \<Rightarrow> nat \<Rightarrow> (nat \<times> nat) list" where
  "hardSplit s start fin limit =
     (if start < fin then
        (if fin - start \<le> limit then [(start, fin)]
         else let c = hardCut s start limit in
           if c = 0 then [] else (start, start + c) # hardSplit s (start + c) fin limit)
      else [])"
  by pat_completeness auto
termination by (relation "measure (\<lambda>(s, start, fin, limit). fin - start)") auto

declare hardSplit.simps [simp del]

section \<open>Chunking a section (chunker.go: chunkSection)\<close>

definition mkCand :: "mdSection \<Rightarrow> nat \<Rightarrow> nat \<Rightarrow> candidate" where
  "mkCand sec a b = \<lparr>cd_start = a, cd_end = b, cd_path = sec_path sec, cd_preamble = sec_preamble sec, cd_warn = ''''\<rparr>"

definition splitWarn :: string where
  "splitWarn = ''atomic block exceeds embedder input ceiling; split''"

definition groupCands :: "string \<Rightarrow> mdSection \<Rightarrow> int \<Rightarrow> mdBlock list \<Rightarrow> candidate list" where
  "groupCands s sec ceilB g =
     (let a = b_start (g ! 0); b = b_end (g ! (length g - 1)) in
      if ceilB > 0 \<and> int b - int a > ceilB
      then map (\<lambda>(x, y). (mkCand sec x y)\<lparr>cd_warn := splitWarn\<rparr>) (hardSplit s a b (nat ceilB))
      else [mkCand sec a b])"

definition packingCap :: "int \<Rightarrow> int" where
  "packingCap ceilB = (if ceilB > 0 \<and> ceilB < maxBytes then ceilB else maxBytes)"

definition chunkSection :: "string \<Rightarrow> mdSection \<Rightarrow> int \<Rightarrow> candidate list" where
  "chunkSection s sec baseCeiling =
     (let ceilB = sectionCeiling baseCeiling (sec_path sec);
          capB = packingCap ceilB;
          target = (if targetBytes > capB then capB else targetBytes);
          first = sec_blocks sec ! 0;
          final = sec_blocks sec ! (length (sec_blocks sec) - 1)
      in if bspan first final \<le> capB then [mkCand sec (b_start first) (b_end final)]
         else List.concat (map (groupCands s sec ceilB) (packLoop target capB (sec_blocks sec) [])))"

section \<open>Heading paths (chunker.go: splitPath, sharedComponents, commonPathPrefix)\<close>

definition splitPath :: "string \<Rightarrow> string list" where
  "splitPath p = (if p = '''' then [] else splitStr p '' > '')"

fun sharedLen :: "string list \<Rightarrow> string list \<Rightarrow> nat" where
  "sharedLen (a # as) (b # bs) = (if a = b then Suc (sharedLen as bs) else 0)"
| "sharedLen _ _ = 0"

definition sharedComponents :: "string \<Rightarrow> string \<Rightarrow> nat" where
  "sharedComponents a b = sharedLen (splitPath a) (splitPath b)"

definition commonPathPrefix :: "string \<Rightarrow> string \<Rightarrow> string" where
  "commonPathPrefix a b = joinStr (take (sharedComponents a b) (splitPath a)) '' > ''"

section \<open>Merging tiny chunks (chunker.go: mergeTiny)\<close>

definition cdlen :: "candidate \<Rightarrow> int" where
  "cdlen c = int (cd_end c) - int (cd_start c)"

definition mergeable :: "candidate \<Rightarrow> bool" where
  "mergeable c \<longleftrightarrow> \<not> cd_preamble c \<and> cd_warn c = ''''"

definition fits :: "int \<Rightarrow> candidate \<Rightarrow> candidate \<Rightarrow> bool" where
  "fits baseCeiling c n =
     (if \<not> mergeable n \<or> cdlen n < minBytes then False
      else let size = int (max (cd_end n) (cd_end c)) - int (min (cd_start n) (cd_start c)) in
        if size > maxBytes then False
        else let ceilB = sectionCeiling baseCeiling (commonPathPrefix (cd_path n) (cd_path c))
             in ceilB = 0 \<or> size \<le> ceilB)"

text \<open>The neighbour candidate \<open>i\<close> is merged into, if it is merged.\<close>

definition mergeInto :: "int \<Rightarrow> candidate list \<Rightarrow> nat \<Rightarrow> nat option" where
  "mergeInto baseCeiling cs i =
     (let c = cs ! i in
      if cdlen c \<ge> minBytes \<or> \<not> mergeable c then None
      else
        let prevOK = (i > 0 \<and> fits baseCeiling c (cs ! (i - 1)));
            nextOK = (i + 1 < length cs \<and> fits baseCeiling c (cs ! (i + 1)))
        in if prevOK \<and> nextOK then
             (if sharedComponents (cd_path c) (cd_path (cs ! (i + 1))) >
                 sharedComponents (cd_path c) (cd_path (cs ! (i - 1)))
              then Some (i + 1) else Some (i - 1))
           else if prevOK then Some (i - 1)
           else if nextOK then Some (i + 1)
           else None)"

definition mergedCand :: "candidate \<Rightarrow> candidate \<Rightarrow> candidate" where
  "mergedCand n c =
     \<lparr>cd_start = min (cd_start n) (cd_start c), cd_end = max (cd_end n) (cd_end c),
      cd_path = commonPathPrefix (cd_path n) (cd_path c), cd_preamble = False, cd_warn = ''''\<rparr>"

function mergeLoop :: "int \<Rightarrow> candidate list \<Rightarrow> nat \<Rightarrow> candidate list" where
  "mergeLoop baseCeiling cs i =
     (if i < length cs then
        (case mergeInto baseCeiling cs i of
           None \<Rightarrow> mergeLoop baseCeiling cs (i + 1)
         | Some into \<Rightarrow>
             let cs' = cs[into := mergedCand (cs ! into) (cs ! i)]
             in mergeLoop baseCeiling (take i cs' @ drop (i + 1) cs') i)
      else cs)"
  by pat_completeness auto
termination by (relation "measure (\<lambda>(base, cs, i). length cs - i)") auto

declare mergeLoop.simps [simp del]

definition mergeTiny :: "candidate list \<Rightarrow> int \<Rightarrow> candidate list" where
  "mergeTiny cs baseCeiling = mergeLoop baseCeiling cs 0"

section \<open>Chunk (chunker.go)\<close>

definition baseCeilingOf :: "int \<Rightarrow> int" where
  "baseCeilingOf inputCeilingTokens =
     (if inputCeilingTokens > 0
      then goInt (goInt (inputCeilingTokens * BytesPerToken) - prefixReserve) else 0)"

definition candidates :: "string \<Rightarrow> int \<Rightarrow> candidate list" where
  "candidates s baseCeiling =
     mergeTiny (List.concat (map (\<lambda>sec. chunkSection s sec baseCeiling) (sections s))) baseCeiling"

definition toDomainChunk :: "string \<Rightarrow> nat \<Rightarrow> candidate \<Rightarrow> Chunk" where
  "toDomainChunk s i c =
     \<lparr>ch_Ordinal = i, ch_Text = slice s (cd_start c) (cd_end c), ch_HeadingPath = cd_path c,
      ch_ByteStart = cd_start c, ch_ByteEnd = cd_end c\<rparr>"

definition toWarning :: "nat \<Rightarrow> candidate \<Rightarrow> Warning" where
  "toWarning i c =
     \<lparr>w_Ordinal = i, w_HeadingPath = cd_path c, w_ByteStart = cd_start c, w_ByteEnd = cd_end c,
      w_Reason = cd_warn c\<rparr>"

definition ChunkText :: "string \<Rightarrow> int \<Rightarrow> ChunkResult" where
  "ChunkText s inputCeilingTokens =
     (let ics = enumerate 0 (candidates s (baseCeilingOf inputCeilingTokens)) in
      \<lparr>res_Chunks = map (\<lambda>(i, c). toDomainChunk s i c) ics,
       res_Warnings = map (\<lambda>(i, c). toWarning i c) (filter (\<lambda>(i, c). cd_warn c \<noteq> '''') ics)\<rparr>)"

end
