(* ===== verification/ChunkFacts.thy ===== *)
theory ChunkFacts
  imports Chunker
begin

text \<open>
  What the chunker promises: rune boundaries are kept, the fallback cut partitions, packing overlaps
  by at most the budget and skips nothing, merging preserves all of it; the properties of \<open>Chunk\<close>
  follow from an invariant of the candidate list that every stage establishes or preserves.
\<close>

section \<open>Rune boundaries\<close>

definition rune_at :: "string \<Rightarrow> nat \<Rightarrow> bool" where
  "rune_at s p \<longleftrightarrow> p = length s \<or> p < length s \<and> RuneStart (s ! p)"

lemma runeLen_take: "runeLen s \<noteq> 0 \<Longrightarrow> runeLen (take (runeLen s) s @ t) = runeLen s"
  by (cases s rule: runeLen.cases) (auto split: list.splits if_splits)

lemma runeLen_cont: "0 < k \<Longrightarrow> k < runeLen s \<Longrightarrow> \<not> RuneStart (s ! k) \<and> 0x80 \<le> byte (s ! k)"
proof -
  assume k: "0 < k" "k < runeLen s"
  then have "k = 1 \<or> k = 2 \<or> k = 3" using runeLen_le(2) [of s] by linarith
  with k show ?thesis
    by (cases s rule: runeLen.cases)
      (auto simp: RuneStart_def cont_def nth_Cons split: list.splits if_splits nat.splits)
qed

lemma runeLen_multi: "1 < runeLen s \<Longrightarrow> 0x80 \<le> byte (s ! 0)"
  by (cases s rule: runeLen.cases) (auto split: list.splits if_splits)

lemma runeLen_start: "0 < runeLen s \<Longrightarrow> RuneStart (s ! 0)"
  by (cases s rule: runeLen.cases) (auto simp: RuneStart_def cont_def split: list.splits if_splits)

lemma utf8Valid_Nil [simp]: "utf8Valid []"
  by (simp add: utf8Valid.simps)

lemma utf8Valid_step: "runeLen s \<noteq> 0 \<Longrightarrow> utf8Valid s = utf8Valid (drop (runeLen s) s)"
  by (subst utf8Valid.simps) auto

lemma utf8Valid_head: "utf8Valid s \<Longrightarrow> s \<noteq> [] \<Longrightarrow> runeLen s \<noteq> 0 \<and> utf8Valid (drop (runeLen s) s)"
  by (subst (asm) utf8Valid.simps) (auto split: if_splits)

text \<open>Positions of a valid text that start no rune lie inside one, and cutting elsewhere is safe.\<close>

lemma utf8Valid_cut:
  "utf8Valid s \<Longrightarrow> rune_at s p \<Longrightarrow> utf8Valid (take p s) \<and> utf8Valid (drop p s)"
proof (induction s arbitrary: p rule: utf8Valid.induct)
  case (1 s)
  show ?case
  proof (cases "s = [] \<or> p = 0")
    case True
    then show ?thesis using 1(2) by auto
  next
    case False
    define n where "n = runeLen s"
    have n: "n \<noteq> 0" and v: "utf8Valid (drop n s)" and le: "n \<le> length s"
      using utf8Valid_head [of s] 1(2) False runeLen_le(1) [of s] by (auto simp: n_def)
    have np: "n \<le> p"
    proof (rule ccontr)
      assume "\<not> n \<le> p"
      then have "\<not> RuneStart (s ! p)" using runeLen_cont [of p s] False by (simp add: n_def)
      then show False using 1(3) \<open>\<not> n \<le> p\<close> le by (auto simp: rune_at_def)
    qed
    have "rune_at (drop n s) (p - n)" using 1(3) np le by (auto simp: rune_at_def)
    then have ih: "utf8Valid (take (p - n) (drop n s))" "utf8Valid (drop (p - n) (drop n s))"
      using 1(1) [of "p - n"] v n False by (auto simp: n_def)
    have t: "take p s = take n s @ take (p - n) (drop n s)"
      using np by (metis le_add_diff_inverse take_add)
    have "runeLen (take p s) = n"
      using runeLen_take [of s] n t by (simp add: n_def)
    moreover have "drop n (take p s) = take (p - n) (drop n s)" by (simp add: drop_take)
    ultimately have "utf8Valid (take p s)"
      using utf8Valid_step [of "take p s"] n ih(1) by simp
    then show ?thesis using ih(2) np by simp
  qed
qed

lemma utf8Valid_slice:
  assumes "utf8Valid s" "rune_at s a" "rune_at s b" "a \<le> b"
  shows "utf8Valid (slice s a b)"
proof -
  have b: "b \<le> length s" using assms(3) by (auto simp: rune_at_def)
  have "utf8Valid (take b s)" using utf8Valid_cut assms by blast
  moreover have "rune_at (take b s) a" using assms b by (auto simp: rune_at_def)
  ultimately have "utf8Valid (drop a (take b s))" using utf8Valid_cut by blast
  then show ?thesis by (simp add: slice_def drop_take)
qed

lemma rune_at_0: "utf8Valid s \<Longrightarrow> rune_at s 0"
  using runeLen_start [of s] by (cases "s = []") (auto simp: rune_at_def dest: utf8Valid_head)

text \<open>A position behind an ASCII byte is a boundary.\<close>

lemma rune_at_behind:
  "utf8Valid s \<Longrightarrow> p < length s \<Longrightarrow> byte (s ! p) < 0x80 \<Longrightarrow> rune_at s (Suc p)"
proof (induction s arbitrary: p rule: utf8Valid.induct)
  case (1 s)
  define n where "n = runeLen s"
  have s: "s \<noteq> []" using 1(3) by auto
  have n: "n \<noteq> 0" and v: "utf8Valid (drop n s)" and le: "n \<le> length s"
    using utf8Valid_head [of s] 1(2) s runeLen_le(1) [of s] by (auto simp: n_def)
  show ?case
  proof (cases "p < n")
    case True
    have "p = 0"
    proof (rule ccontr)
      assume "p \<noteq> 0"
      then show False using runeLen_cont [of p s] True 1(4) by (simp add: n_def)
    qed
    then have "n = 1" using runeLen_multi [of s] 1(4) n by (cases "n = 1") (auto simp: n_def)
    then have "rune_at (drop 1 s) 0" using rune_at_0 v by blast
    then show ?thesis using \<open>p = 0\<close> s by (auto simp: rune_at_def neq_Nil_conv)
  next
    case False
    then have "rune_at (drop n s) (Suc (p - n))"
      using 1(1) [of "p - n"] 1(3,4) n v s le by (auto simp: n_def)
    then show ?thesis using False le by (auto simp: rune_at_def Suc_diff_le)
  qed
qed

section \<open>The fallback cut\<close>

lemma slice_nth: "k < length (slice s a b) \<Longrightarrow> slice s a b ! k = s ! (a + k) \<and> a + k < length s"
  by (cases "a \<le> length s") (auto simp: slice_def)

lemma hasPrefix_nth: "hasPrefix s p \<Longrightarrow> k < length p \<Longrightarrow> s ! k = p ! k"
  unfolding hasPrefix_def by (metis nth_take)

lemma found_nth:
  assumes "lastIndex (slice s a b) p = Some i" "p \<noteq> []" "k < length p"
  shows "s ! (a + i + k) = p ! k \<and> a + i + k < length s"
proof -
  have i: "i + length p \<le> length (slice s a b)" using lastIndex_bound assms by blast
  have "slice s a b ! (i + k) = p ! k"
    using hasPrefix_nth [OF lastIndex_Some [OF assms(1)] assms(3)] i by simp
  then show ?thesis using slice_nth [of "i + k" s a b] i assms(3) by (simp add: add.assoc)
qed

lemma found_behind:
  assumes "lastIndex (slice s a b) p = Some i" "p \<noteq> []" "byte (last p) < 0x80" "utf8Valid s"
  shows "rune_at s (a + (i + length p))"
proof -
  have "s ! (a + i + (length p - 1)) = last p" "a + i + (length p - 1) < length s"
    using found_nth [OF assms(1,2), of "length p - 1"] assms(2) by (auto simp: last_conv_nth)
  then have "rune_at s (Suc (a + i + (length p - 1)))"
    using rune_at_behind [OF assms(4)] assms(3) by simp
  then show ?thesis using assms(2) by (cases p) (simp_all add: add.assoc)
qed

lemma runeBack_le: "runeBack s start c \<le> c"
  by (induction s start c rule: runeBack.induct) auto

lemma runeBack_start: "runeBack s start c \<noteq> 0 \<Longrightarrow> RuneStart (s ! (start + runeBack s start c))"
  by (induction s start c rule: runeBack.induct) (auto split: if_splits)

lemma decodeWidth_bounds: "start < length s \<Longrightarrow> 0 < decodeWidth (drop start s) \<and> decodeWidth (drop start s) \<le> 4"
  using runeLen_le(2) [of "drop start s"] by (auto simp: decodeWidth_def)

lemma hardCut_pos: "start < length s \<Longrightarrow> 0 < hardCut s start limit"
  using decodeWidth_bounds [of start s] by (auto simp: hardCut_def Let_def split: option.splits)

lemma hardCut_le: "start < length s \<Longrightarrow> 4 \<le> limit \<Longrightarrow> hardCut s start limit \<le> limit"
proof -
  assume a: "start < length s" "4 \<le> limit"
  have "length (slice s start (start + limit)) \<le> limit" by (simp add: slice_def)
  then have "lastIndex (slice s start (start + limit)) p = Some i \<Longrightarrow> p \<noteq> [] \<Longrightarrow> i + length p \<le> limit" for p i
    using lastIndex_bound [of "slice s start (start + limit)" p i] by simp
  from this [of "[newline, newline]"] this [of "[newline]"] this [of "'' ''"]
  show ?thesis
    using decodeWidth_bounds [OF a(1)] runeBack_le [of s start limit] a(2)
    by (auto simp: hardCut_def Let_def split: option.splits)
qed

lemma newline_ascii [simp]: "byte newline < 0x80"
  by (simp add: newline_def)

lemma rune_at_width:
  assumes "utf8Valid s" "rune_at s start" "start < length s"
  shows "rune_at s (start + decodeWidth (drop start s))"
proof -
  have v: "utf8Valid (drop start s)" "drop start s \<noteq> []" using utf8Valid_cut assms by auto
  then have r: "runeLen (drop start s) \<noteq> 0" "utf8Valid (drop (runeLen (drop start s)) (drop start s))"
    using utf8Valid_head by blast+
  then have "rune_at (drop (start + runeLen (drop start s)) s) 0" using rune_at_0 by (simp add: add.commute)
  moreover have "start + runeLen (drop start s) \<le> length s" using runeLen_le(1) [of "drop start s"] assms(3) by simp
  ultimately show ?thesis using r(1) v(2) by (auto simp: rune_at_def decodeWidth_def)
qed

lemma hardCut_rune:
  assumes "utf8Valid s" "rune_at s start" "start + limit < length s"
  shows "rune_at s (start + hardCut s start limit)"
proof -
  let ?w = "slice s start (start + limit)"
  note f = found_behind [of s start "start + limit", OF _ _ _ assms(1)]
  have a: "lastIndex ?w [newline, newline] = Some i \<Longrightarrow> rune_at s (start + (i + 2))" for i
    using f [of "[newline, newline]" i] by simp
  have b: "lastIndex ?w [newline] = Some i \<Longrightarrow> rune_at s (start + (i + 1))" for i
    using f [of "[newline]" i] by simp
  have c: "lastIndex ?w '' '' = Some i \<Longrightarrow> rune_at s (start + (i + 1))" for i
    using f [of "'' ''" i] by simp
  have d: "runeBack s start limit \<noteq> 0 \<Longrightarrow> rune_at s (start + runeBack s start limit)"
    using runeBack_start [of s start limit] runeBack_le [of s start limit] assms(3)
    by (simp add: rune_at_def)
  show ?thesis
    using a b c d rune_at_width [OF assms(1,2)] assms(3)
    unfolding hardCut_def Let_def
    by (simp split: option.split)
qed

text \<open>Contiguous non-empty pieces from \<open>a\<close> to \<open>b\<close>.\<close>

fun pieces :: "nat \<Rightarrow> (nat \<times> nat) list \<Rightarrow> nat \<Rightarrow> bool" where
  "pieces a [] b = (a = b)"
| "pieces a (p # ps) b = (fst p = a \<and> a < snd p \<and> pieces (snd p) ps b)"

lemma hardSplit_pieces:
  assumes "start \<le> fin" "fin \<le> length s" "4 \<le> limit"
  shows "pieces start (hardSplit s start fin limit) fin \<and>
    (\<forall>p \<in> set (hardSplit s start fin limit). snd p - fst p \<le> limit)"
  using assms
proof (induction s start fin limit rule: hardSplit.induct)
  case (1 s start fin limit)
  show ?case
  proof (cases "start < fin \<and> \<not> fin - start \<le> limit")
    case True
    define c where "c = hardCut s start limit"
    have c: "0 < c" "c \<le> limit" using True 1 hardCut_pos [of start s limit] hardCut_le [of start s limit] by (simp_all add: c_def)
    then have "pieces (start + c) (hardSplit s (start + c) fin limit) fin \<and>
        (\<forall>p \<in> set (hardSplit s (start + c) fin limit). snd p - fst p \<le> limit)"
      using 1 True by (intro 1(1) [of c]) (auto simp: c_def)
    then show ?thesis using True c by (subst (1 2) hardSplit.simps) (auto simp: c_def [symmetric])
  next
    case False
    then show ?thesis using 1(2) by (subst (1 2) hardSplit.simps) auto
  qed
qed

lemma hardSplit_rune:
  assumes "utf8Valid s" "rune_at s start" "rune_at s fin" "start \<le> fin"
  shows "\<forall>p \<in> set (hardSplit s start fin limit). rune_at s (fst p) \<and> rune_at s (snd p)"
  using assms
proof (induction s start fin limit rule: hardSplit.induct)
  case (1 s start fin limit)
  show ?case
  proof (cases "start < fin \<and> \<not> fin - start \<le> limit \<and> hardCut s start limit \<noteq> 0")
    case True
    define c where "c = hardCut s start limit"
    have fl: "fin \<le> length s" using 1(4) by (auto simp: rune_at_def)
    have r: "rune_at s (start + c)" unfolding c_def using 1 True fl by (intro hardCut_rune) auto
    have "\<forall>p \<in> set (hardSplit s (start + c) fin limit). rune_at s (fst p) \<and> rune_at s (snd p)"
    proof (cases "start + c \<le> fin")
      case le: True
      show ?thesis using 1 True r le by (intro 1(1) [of c]) (auto simp: c_def)
    next
      case False
      then show ?thesis by (subst hardSplit.simps) simp
    qed
    then show ?thesis using True r 1(3) by (subst hardSplit.simps) (auto simp: c_def [symmetric])
  next
    case False
    then show ?thesis using 1 by (subst hardSplit.simps) auto
  qed
qed

section \<open>Blocks in order\<close>

definition in_order :: "mdBlock list \<Rightarrow> bool" where
  "in_order bs \<longleftrightarrow> sorted_wrt (\<lambda>k l. b_end k \<le> b_start l) bs \<and> (\<forall>k \<in> set bs. b_start k < b_end k)"

lemma in_order_append:
  "in_order (xs @ ys) \<longleftrightarrow> in_order xs \<and> in_order ys \<and> (\<forall>x \<in> set xs. \<forall>y \<in> set ys. b_end x \<le> b_start y)"
  by (auto simp: in_order_def sorted_wrt_append)

lemma in_order_Nil [simp]: "in_order []"
  by (simp add: in_order_def)

lemma in_order_single [simp]: "in_order [b] = (b_start b < b_end b)"
  by (simp add: in_order_def)

lemma in_order_drop: "in_order xs \<Longrightarrow> in_order (drop i xs)"
  by (metis append_take_drop_id in_order_append)

lemma in_order_filter: "in_order xs \<Longrightarrow> in_order (filter P xs)"
  by (simp add: in_order_def sorted_wrt_filter)

lemma spans_in_order:
  "spans a bs z \<Longrightarrow> in_order bs \<and> (\<forall>k \<in> set bs. a \<le> b_start k \<and> b_end k \<le> z) \<and> a \<le> z"
proof (induction bs arbitrary: a)
  case (Cons k ks)
  then have ih: "in_order ks \<and> (\<forall>l \<in> set ks. b_end k \<le> b_start l \<and> b_end l \<le> z) \<and> b_end k \<le> z"
    using Cons.IH [of "b_end k"] by simp
  then show ?case using Cons.prems by (fastforce simp: in_order_def)
qed simp

lemma in_order_hd_last:
  assumes "in_order g" "b \<in> set g"
  shows "b_start (hd g) \<le> b_start b" "b_end b \<le> b_end (last g)"
proof -
  obtain xs ys where g: "g = xs @ b # ys" using assms(2) by (auto dest: split_list)
  show "b_start (hd g) \<le> b_start b"
    using assms(1) unfolding g by (cases xs) (auto simp: in_order_def)
  show "b_end b \<le> b_end (last g)"
  proof (cases ys rule: rev_cases)
    case (snoc zs z)
    then have "b_end b \<le> b_start z" "b_start z < b_end z"
      using assms(1) unfolding g by (auto simp: in_order_def sorted_wrt_append)
    then show ?thesis using snoc g by simp
  qed (simp add: g)
qed

section \<open>Greedy packing\<close>

lemma overlapIndex_props:
  "overlapIndex g m \<le> m \<and> (0 < m \<longrightarrow> 0 < overlapIndex g m) \<and>
   (overlapIndex g m < m \<longrightarrow> bspan (g ! overlapIndex g m) (g ! (length g - 1)) \<le> overlapBytes)"
proof (induction g m rule: overlapIndex.induct)
  case (2 g i)
  then show ?case by (cases "overlapIndex g i < i") (auto simp: le_less)
qed simp

lemma overlapSuffix_cases:
  assumes "g \<noteq> []"
  obtains "overlapSuffix g = []"
  | i where "0 < i" "i < length g" "overlapSuffix g = drop i g" "bspan (g ! i) (last g) \<le> overlapBytes"
proof (cases "overlapIndex g (length g) = length g")
  case False
  note x = overlapIndex_props [of g "length g"]
  show ?thesis
    using False x assms
    by (intro that(2) [of "overlapIndex g (length g)"]) (auto simp: overlapSuffix_def Let_def last_conv_nth)
qed (use that(1) in \<open>simp add: overlapSuffix_def\<close>)

definition group_ok :: "int \<Rightarrow> mdBlock list \<Rightarrow> bool" where
  "group_ok capB g \<longleftrightarrow> g \<noteq> [] \<and> in_order g \<and> (length g = 1 \<or> bspan (hd g) (last g) \<le> capB)"

text \<open>What holds between a group and the next: progress at both ends, bounded overlap.\<close>

definition follows :: "mdBlock list \<Rightarrow> mdBlock list \<Rightarrow> bool" where
  "follows g g' \<longleftrightarrow> b_start (hd g) < b_start (hd g') \<and> b_end (last g) < b_end (last g') \<and>
     int (b_end (last g)) \<le> int (b_start (hd g')) + overlapBytes \<and>
     (length g = 1 \<or> length g' = 1 \<longrightarrow> b_end (last g) \<le> b_start (hd g'))"

definition packed :: "int \<Rightarrow> mdBlock list \<Rightarrow> mdBlock list list \<Rightarrow> bool" where
  "packed capB bs gs \<longleftrightarrow> gs \<noteq> [] \<and> successively follows gs \<and> (\<forall>g \<in> set gs. group_ok capB g) \<and>
     last (last gs) = last bs \<and> set bs = \<Union> (set ` set gs)"

lemma follows_seed:
  assumes o: "in_order (cur @ b # bs)" "cur \<noteq> []" and g: "in_order g" "prefix (seed @ [b]) g"
    and seed: "seed = [] \<or> (\<exists>i. 0 < i \<and> i < length cur \<and> seed = drop i cur \<and> bspan (cur ! i) (last cur) \<le> overlapBytes)"
  shows "follows cur g"
proof -
  have "in_order cur" "\<forall>x \<in> set cur. b_end x \<le> b_start b" "b_start b < b_end b"
    using o(1) by (auto simp: in_order_append) (auto simp: in_order_def)
  moreover from this have "b_start (hd cur) < b_end (hd cur)" "b_end (hd cur) \<le> b_end (last cur)"
    using o(2) in_order_hd_last(2) [of cur "hd cur"] by (auto simp: in_order_def)
  ultimately have b: "b \<in> set g" "b_end (last cur) \<le> b_start b" "b_start b < b_end b" "b_start (hd cur) < b_end (last cur)"
    using o(2) g(2) by (auto simp: prefix_def)
  have e: "b_end (last cur) < b_end (last g)"
    using in_order_hd_last(2) [OF g(1) b(1)] b by simp
  have h: "hd g = hd (seed @ [b])" using g(2) by (cases seed) (auto simp: prefix_def)
  show ?thesis
  proof (cases "seed = []")
    case True
    then show ?thesis using b e h by (simp add: follows_def overlapBytes_def)
  next
    case False
    then obtain i where i: "0 < i" "i < length cur" "seed = drop i cur" "bspan (cur ! i) (last cur) \<le> overlapBytes"
      using seed by auto
    have hd_i: "hd g = cur ! i" using h i by (simp add: hd_drop_conv_nth)
    have "in_order cur" using o(1) by (simp only: in_order_append)
    then have "b_end (hd cur) \<le> b_start (cur ! i)" "b_start (hd cur) < b_end (hd cur)"
      using o(2) i by (auto simp: in_order_def sorted_wrt_iff_nth_less hd_conv_nth)
    moreover have "length g \<noteq> 1" "length cur \<noteq> 1"
      using i g(2) by (auto simp: prefix_def)
    ultimately show ?thesis using i(4) e hd_i by (auto simp: follows_def bspan_def)
  qed
qed

lemma packLoop_packed:
  assumes "in_order (cur @ bs)" "group_ok capB cur" "target \<le> capB"
  shows "packed capB (cur @ bs) (packLoop target capB bs cur) \<and> prefix cur (hd (packLoop target capB bs cur))"
  using assms
proof (induction target capB bs cur rule: packLoop.induct)
  case (1 target capB cur)
  then show ?case by (auto simp: packed_def group_ok_def)
next
  case (2 target capB b bs cur)
  have ne: "cur \<noteq> []" and oc: "in_order cur" using 2(4) by (simp_all add: group_ok_def)
  show ?case
  proof (cases "bspan (cur ! 0) b > target")
    case True
    define seed where "seed = (if overlapSuffix cur \<noteq> [] \<and> bspan (overlapSuffix cur ! 0) b > capB then [] else overlapSuffix cur)"
    have sd: "seed = [] \<or> (\<exists>i. 0 < i \<and> i < length cur \<and> seed = drop i cur \<and> bspan (cur ! i) (last cur) \<le> overlapBytes)"
      by (rule overlapSuffix_cases [OF ne]) (auto simp: seed_def)
    have capd: "seed \<noteq> [] \<Longrightarrow> bspan (hd seed) b \<le> capB"
      by (auto simp: seed_def hd_conv_nth split: if_splits)
    have sub: "set seed \<subseteq> set cur" using sd by (auto dest: in_set_dropD)
    have ord: "in_order ((seed @ [b]) @ bs)"
      using 2(3) sd sub in_order_drop [OF oc] by (auto simp: in_order_append)
    have "in_order (seed @ [b])" using in_order_append [of "seed @ [b]" bs] ord by blast
    then have "group_ok capB (seed @ [b])"
      using capd by (cases seed) (simp_all add: group_ok_def)
    then have ih: "packed capB ((seed @ [b]) @ bs) (packLoop target capB bs (seed @ [b]))"
      "prefix (seed @ [b]) (hd (packLoop target capB bs (seed @ [b])))"
      using 2(1) [of "overlapSuffix cur" seed] ne True ord 2(5) by (simp_all add: seed_def)
    obtain g gs where gs: "packLoop target capB bs (seed @ [b]) = g # gs"
      using ih(1) by (cases "packLoop target capB bs (seed @ [b])") (auto simp: packed_def)
    have "follows cur g"
      using 2(3) ne ih gs sd by (intro follows_seed [of cur b bs g seed]) (auto simp: packed_def group_ok_def)
    moreover have "packLoop target capB (b # bs) cur = cur # g # gs"
      using True ne gs by (simp add: seed_def Let_def)
    ultimately show ?thesis
      using ih gs sub 2(4) by (auto simp: packed_def)
  next
    case False
    have "group_ok capB (cur @ [b])"
      using False ne 2(3,5) in_order_drop [of "b # bs" 0]
      by (auto simp: group_ok_def in_order_append hd_conv_nth nth_append) (auto simp: in_order_def)
    then have "packed capB ((cur @ [b]) @ bs) (packLoop target capB bs (cur @ [b]))"
      "prefix (cur @ [b]) (hd (packLoop target capB bs (cur @ [b])))"
      using 2(2) False ne 2(3,5) by simp_all
    then show ?thesis using False ne by (auto dest: append_prefixD)
  qed
qed

section \<open>Candidates\<close>

text \<open>
  What every candidate satisfies, whatever stage it comes from. \<open>B\<close> are the content blocks: a
  candidate over \<open>maxBytes\<close> lies within one of them.
\<close>

definition cand_ok :: "string \<Rightarrow> int \<Rightarrow> mdBlock set \<Rightarrow> candidate \<Rightarrow> bool" where
  "cand_ok s base B c \<longleftrightarrow> cd_start c < cd_end c \<and> cd_end c \<le> length s \<and>
     (base > 0 \<longrightarrow> cdlen c \<le> sectionCeiling base (cd_path c)) \<and>
     (cdlen c \<le> maxBytes \<or> (\<exists>b \<in> B. b_start b \<le> cd_start c \<and> cd_end c \<le> b_end b)) \<and>
     (utf8Valid s \<longrightarrow> rune_at s (cd_start c) \<and> rune_at s (cd_end c))"

definition next_cd :: "candidate \<Rightarrow> candidate \<Rightarrow> bool" where
  "next_cd c d \<longleftrightarrow> cd_start c < cd_start d \<and> cd_end c < cd_end d \<and> int (cd_end c) \<le> int (cd_start d) + overlapBytes"

definition covers :: "candidate list \<Rightarrow> nat \<Rightarrow> bool" where
  "covers cs p \<longleftrightarrow> (\<exists>c \<in> set cs. cd_start c \<le> p \<and> p < cd_end c)"

text \<open>A list of candidates that starts at \<open>a\<close>, ends at \<open>z\<close> and advances in between.\<close>

definition runs :: "string \<Rightarrow> int \<Rightarrow> mdBlock set \<Rightarrow> candidate list \<Rightarrow> nat \<Rightarrow> nat \<Rightarrow> bool" where
  "runs s base B cs a z \<longleftrightarrow> cs \<noteq> [] \<and> cd_start (hd cs) = a \<and> cd_end (last cs) = z \<and>
     successively next_cd cs \<and> (\<forall>c \<in> set cs. cand_ok s base B c)"

lemma successively_concat:
  "(\<forall>xs \<in> set xss. xs \<noteq> [] \<and> successively P xs) \<Longrightarrow> successively (\<lambda>xs ys. P (last xs) (hd ys)) xss \<Longrightarrow>
   successively P (List.concat xss)"
proof (induction xss rule: induct_list012)
  case (3 xs ys zss)
  then show ?case by (auto simp: successively_append_iff)
qed auto

lemma successively_map: "successively P (map f xs) = successively (\<lambda>x y. P (f x) (f y)) xs"
  by (induction xs rule: induct_list012) auto

lemma successively_mono_in:
  "successively P xs \<Longrightarrow> (\<And>x y. x \<in> set xs \<Longrightarrow> y \<in> set xs \<Longrightarrow> P x y \<Longrightarrow> Q x y) \<Longrightarrow> successively Q xs"
  by (induction xs rule: induct_list012) auto

subsection \<open>One group\<close>

lemma pieces_less: "pieces a ps z \<Longrightarrow> a \<le> z \<and> (ps \<noteq> [] \<longrightarrow> a < z)"
  by (induction ps arbitrary: a) fastforce+

lemma pieces_bounds: "pieces a ps z \<Longrightarrow> p \<in> set ps \<Longrightarrow> a \<le> fst p \<and> fst p < snd p \<and> snd p \<le> z"
  by (induction ps arbitrary: a) (fastforce dest: pieces_less)+

lemma pieces_runs:
  assumes "pieces a ps z" "a < z" "\<forall>p \<in> set ps. cand_ok s base B (f p)"
    and "\<And>p. cd_start (f p) = fst p" "\<And>p. cd_end (f p) = snd p"
  shows "runs s base B (map f ps) a z \<and> (\<forall>p. a \<le> p \<and> p < z \<longrightarrow> covers (map f ps) p)"
  using assms(1-3)
proof (induction ps arbitrary: a)
  case (Cons x ps)
  note prems = Cons.prems and IH = Cons.IH
  show ?case
  proof (cases ps)
    case Nil
    then show ?thesis using prems assms(4,5) by (auto simp: runs_def covers_def)
  next
    case (Cons y qs)
    have x: "fst x = a" "a < snd x" "pieces (snd x) ps z" using prems by auto
    then have "snd x < z" using Cons pieces_less by blast
    then have ih: "runs s base B (map f ps) (snd x) z" "\<forall>p. snd x \<le> p \<and> p < z \<longrightarrow> covers (map f ps) p"
      using IH [of "snd x"] prems x by auto
    have "next_cd (f x) (f y)"
      using x Cons assms(4,5) by (auto simp: next_cd_def overlapBytes_def)
    then have "runs s base B (map f (x # ps)) a z"
      using ih(1) Cons x assms(4) prems(3) by (auto simp: runs_def)
    moreover have "covers (map f (x # ps)) p" if "a \<le> p \<and> p < z" for p
      using that ih(2) x assms(4,5) by (cases "p < snd x") (auto simp: covers_def)
    ultimately show ?thesis by blast
  qed
qed simp

lemma sectionCeiling_pos: "base > 0 \<Longrightarrow> 64 \<le> sectionCeiling base p"
  by (simp add: sectionCeiling_def Let_def)

lemma sectionCeiling_unlimited: "base \<le> 0 \<Longrightarrow> sectionCeiling base p = 0"
  by (simp add: sectionCeiling_def)

lemma packingCap_le: "packingCap c \<le> maxBytes" "c > 0 \<Longrightarrow> packingCap c \<le> c"
  by (simp_all add: packingCap_def)

text \<open>The blocks of a section lie in the text, and at rune boundaries when it is valid.\<close>

definition placed :: "string \<Rightarrow> mdBlock \<Rightarrow> bool" where
  "placed s b \<longleftrightarrow> b_end b \<le> length s \<and> (utf8Valid s \<longrightarrow> rune_at s (b_start b) \<and> rune_at s (b_end b))"

lemma groupCands_runs:
  assumes g: "group_ok (packingCap cb) g" "\<forall>b \<in> set g. placed s b" "set g \<subseteq> B"
    and c: "cb = sectionCeiling base (sec_path sec)"
  shows "runs s base B (groupCands s sec cb g) (b_start (hd g)) (b_end (last g)) \<and>
    (\<forall>p. b_start (hd g) \<le> p \<and> p < b_end (last g) \<longrightarrow> covers (groupCands s sec cb g) p)"
proof -
  define a z where "a = b_start (hd g)" and "z = b_end (last g)"
  have ne: "g \<noteq> []" and o: "in_order g" using g(1) by (simp_all add: group_ok_def)
  have az: "a < z"
    using o ne in_order_hd_last(2) [OF o, of "hd g"] by (force simp: in_order_def a_def z_def dest: bspec [of _ _ "hd g"])
  have pl: "placed s (hd g)" "placed s (last g)" using g(2) ne by auto
  have eq: "b_start (g ! 0) = a" "b_end (g ! (length g - 1)) = z"
    using ne by (simp_all add: a_def z_def hd_conv_nth last_conv_nth)
  have single: "length g = 1 \<Longrightarrow> hd g \<in> B \<and> last g = hd g"
    using g(3) by (cases g) auto
  show ?thesis
  proof (cases "cb > 0 \<and> int z - int a > cb")
    case True
    then have "\<not> bspan (hd g) (last g) \<le> packingCap cb"
      using packingCap_le(2) [of cb] by (simp add: bspan_def a_def z_def)
    then have one: "hd g \<in> B" "last g = hd g" using g(1) single by (auto simp: group_ok_def)
    have b: "base > 0" using True c sectionCeiling_unlimited [of base "sec_path sec"] by (cases "base > 0") auto
    then have lim: "4 \<le> nat cb" using c sectionCeiling_pos [of base "sec_path sec"] by simp
    define ps where "ps = hardSplit s a z (nat cb)"
    define f where "f = (\<lambda>(x, y). (mkCand sec x y)\<lparr>cd_warn := splitWarn\<rparr>)"
    have hs: "pieces a ps z" "\<forall>p \<in> set ps. snd p - fst p \<le> nat cb"
      using hardSplit_pieces [of a z s "nat cb"] az pl lim by (simp_all add: ps_def placed_def z_def)
    have "\<forall>p \<in> set ps. a \<le> fst p \<and> fst p < snd p \<and> snd p \<le> z"
      using hs(1) pieces_bounds by blast
    moreover have "utf8Valid s \<Longrightarrow> \<forall>p \<in> set ps. rune_at s (fst p) \<and> rune_at s (snd p)"
      using hardSplit_rune [of s a z "nat cb"] pl az by (auto simp: ps_def placed_def a_def z_def)
    ultimately have "\<forall>p \<in> set ps. cand_ok s base B (f p)"
      using hs(2) pl b one c
      by (fastforce simp: cand_ok_def f_def mkCand_def cdlen_def placed_def a_def z_def split: prod.splits)
    then have "runs s base B (map f ps) a z \<and> (\<forall>p. a \<le> p \<and> p < z \<longrightarrow> covers (map f ps) p)"
      using hs(1) az by (intro pieces_runs) (auto simp: f_def mkCand_def split: prod.splits)
    moreover have "groupCands s sec cb g = map f ps"
      using True eq by (simp add: groupCands_def f_def ps_def)
    ultimately show ?thesis by (simp add: a_def z_def)
  next
    case False
    have "cand_ok s base B (mkCand sec a z)"
      unfolding cand_ok_def
    proof (intro conjI impI)
      show "cd_start (mkCand sec a z) < cd_end (mkCand sec a z)" using az by (simp add: mkCand_def)
      show "cd_end (mkCand sec a z) \<le> length s" using pl by (simp add: mkCand_def placed_def z_def)
      show "cdlen (mkCand sec a z) \<le> sectionCeiling base (cd_path (mkCand sec a z))" if "base > 0"
        using False that sectionCeiling_pos [of base "sec_path sec"] c by (simp add: mkCand_def cdlen_def)
      show "cdlen (mkCand sec a z) \<le> maxBytes \<or>
          (\<exists>b \<in> B. b_start b \<le> cd_start (mkCand sec a z) \<and> cd_end (mkCand sec a z) \<le> b_end b)"
        using g(1) single packingCap_le(1) [of cb]
        by (force simp: group_ok_def mkCand_def cdlen_def bspan_def a_def z_def)
      show "rune_at s (cd_start (mkCand sec a z))" "rune_at s (cd_end (mkCand sec a z))" if "utf8Valid s"
        using pl that by (simp_all add: mkCand_def placed_def a_def z_def)
    qed
    moreover have "groupCands s sec cb g = [mkCand sec a z]"
      using False eq by (auto simp: groupCands_def Let_def)
    ultimately show ?thesis by (auto simp: runs_def covers_def mkCand_def a_def z_def)
  qed
qed

text \<open>How a group may be split, for the step to the next group.\<close>

lemma groupCands_edges:
  assumes "group_ok (packingCap cb) g"
  shows "length g = 1 \<or> groupCands s sec cb g = [mkCand sec (b_start (hd g)) (b_end (last g))]"
proof (cases "length g = 1")
  case False
  then have "bspan (hd g) (last g) \<le> packingCap cb" "g \<noteq> []" using assms by (auto simp: group_ok_def)
  then show ?thesis
    using packingCap_le(2) [of cb] by (auto simp: groupCands_def Let_def bspan_def hd_conv_nth last_conv_nth)
qed simp

lemma groupCands_next:
  assumes "runs s base B (groupCands s sec cb g) (b_start (hd g)) (b_end (last g))"
    "runs s base B (groupCands s sec cb g') (b_start (hd g')) (b_end (last g'))"
    "group_ok (packingCap cb) g" "group_ok (packingCap cb) g'" "follows g g'"
  shows "next_cd (last (groupCands s sec cb g)) (hd (groupCands s sec cb g'))"
proof -
  define c d where "c = last (groupCands s sec cb g)" and "d = hd (groupCands s sec cb g')"
  have "\<forall>c \<in> set (groupCands s sec cb g). cd_start c < cd_end c" "\<forall>c \<in> set (groupCands s sec cb g'). cd_start c < cd_end c"
    using assms(1,2) by (auto simp: runs_def cand_ok_def)
  moreover have "c \<in> set (groupCands s sec cb g)" "d \<in> set (groupCands s sec cb g')"
    using assms(1,2) by (auto simp: runs_def c_def d_def)
  ultimately have ok: "cd_start c < cd_end c" "cd_start d < cd_end d" by blast+
  have ends: "cd_end c = b_end (last g)" "cd_start d = b_start (hd g')"
    using assms(1,2) by (simp_all add: runs_def c_def d_def)
  have c: "length g = 1 \<or> cd_start c = b_start (hd g)"
    using groupCands_edges [OF assms(3), of s sec] by (auto simp: c_def mkCand_def)
  have d: "length g' = 1 \<or> cd_end d = b_end (last g')"
    using groupCands_edges [OF assms(4), of s sec] by (auto simp: d_def mkCand_def)
  show ?thesis
    unfolding next_cd_def c_def [symmetric] d_def [symmetric]
    using ok ends c d assms(5) by (auto simp: follows_def overlapBytes_def)
qed

subsection \<open>A section, and all of them\<close>

lemma hd_concat: "xss \<noteq> [] \<Longrightarrow> hd xss \<noteq> [] \<Longrightarrow> hd (List.concat xss) = hd (hd xss)"
  by (cases xss) auto

lemma last_concat: "xss \<noteq> [] \<Longrightarrow> last xss \<noteq> [] \<Longrightarrow> last (List.concat xss) = last (last xss)"
  by (cases xss rule: rev_cases) auto

lemma runs_concat:
  assumes "gs \<noteq> []" "\<forall>g \<in> set gs. runs s base B (f g) (lo g) (hi g)"
    "successively (\<lambda>g h. next_cd (last (f g)) (hd (f h))) gs"
  shows "runs s base B (List.concat (map f gs)) (lo (hd gs)) (hi (last gs))"
proof -
  have "successively next_cd (List.concat (map f gs))"
    using assms by (intro successively_concat) (auto simp: runs_def successively_map)
  moreover have "hd (List.concat (map f gs)) = hd (f (hd gs))"
    using assms(1,2) by (subst hd_concat) (auto simp: runs_def hd_map)
  moreover have "last (List.concat (map f gs)) = last (f (last gs))"
    using assms(1,2) by (subst last_concat) (auto simp: runs_def last_map)
  ultimately show ?thesis
    using assms(1,2) by (auto simp: runs_def)
qed

lemma chunkSection_runs:
  assumes ne: "sec_blocks sec \<noteq> []" and o: "in_order (sec_blocks sec)"
    and pl: "\<forall>b \<in> set (sec_blocks sec). placed s b" and B: "set (sec_blocks sec) \<subseteq> B"
  shows "runs s base B (chunkSection s sec base) (b_start (hd (sec_blocks sec))) (b_end (last (sec_blocks sec))) \<and>
    (\<forall>b \<in> set (sec_blocks sec). \<forall>p. b_start b \<le> p \<and> p < b_end b \<longrightarrow> covers (chunkSection s sec base) p)"
proof -
  define cb where "cb = sectionCeiling base (sec_path sec)"
  define bs where "bs = sec_blocks sec"
  define target where "target = (if targetBytes > packingCap cb then packingCap cb else targetBytes)"
  have ends: "bs ! 0 = hd bs" "bs ! (length bs - 1) = last bs" using ne by (simp_all add: bs_def hd_conv_nth last_conv_nth)
  have in_span: "b_start (hd bs) \<le> b_start b \<and> b_end b \<le> b_end (last bs)" if "b \<in> set bs" for b
    using in_order_hd_last [OF o [folded bs_def] that] by blast
  show ?thesis
  proof (cases "bspan (hd bs) (last bs) \<le> packingCap cb")
    case True
    have g: "group_ok (packingCap cb) bs" using True ne o by (simp add: group_ok_def bs_def)
    have "chunkSection s sec base = [mkCand sec (b_start (hd bs)) (b_end (last bs))]"
      using True ends by (simp add: chunkSection_def bs_def [symmetric] cb_def [symmetric] Let_def)
    also have "\<dots> = groupCands s sec cb bs"
      using True packingCap_le(2) [of cb] ends by (auto simp: groupCands_def bspan_def Let_def)
    finally show ?thesis
      using groupCands_runs [OF g _ _ cb_def, of s B] pl B in_span by (fastforce simp: bs_def)
  next
    case False
    define gs where "gs = packLoop target (packingCap cb) bs []"
    have eq: "chunkSection s sec base = List.concat (map (groupCands s sec cb) gs)"
      using False ends by (simp add: chunkSection_def gs_def target_def bs_def [symmetric] cb_def [symmetric] Let_def)
    obtain b bt where b: "bs = b # bt" using ne by (cases bs) (auto simp: bs_def)
    have "packed (packingCap cb) ([b] @ bt) (packLoop target (packingCap cb) bt [b]) \<and>
        prefix [b] (hd (packLoop target (packingCap cb) bt [b]))"
      using o b by (intro packLoop_packed) (auto simp: group_ok_def target_def bs_def in_order_def)
    then have pk: "packed (packingCap cb) bs gs" and pre: "prefix [b] (hd gs)" by (simp_all add: gs_def b)
    have gp: "group_ok (packingCap cb) g" "\<forall>b \<in> set g. placed s b" "set g \<subseteq> B" if "g \<in> set gs" for g
      using that pk pl B by (auto simp: packed_def bs_def [symmetric])
    have r: "runs s base B (groupCands s sec cb g) (b_start (hd g)) (b_end (last g))"
      "\<forall>p. b_start (hd g) \<le> p \<and> p < b_end (last g) \<longrightarrow> covers (groupCands s sec cb g) p" if "g \<in> set gs" for g
      using groupCands_runs [OF gp [OF that] cb_def] by blast+
    have "successively (\<lambda>g h. next_cd (last (groupCands s sec cb g)) (hd (groupCands s sec cb h))) gs"
      using pk by (auto simp: packed_def intro: successively_mono_in groupCands_next [OF r(1) r(1) gp(1) gp(1)])
    then have "runs s base B (List.concat (map (groupCands s sec cb) gs)) (b_start (hd (hd gs))) (b_end (last (last gs)))"
      using pk r by (intro runs_concat [where lo = "\<lambda>g. b_start (hd g)" and hi = "\<lambda>g. b_end (last g)"])
        (auto simp: packed_def)
    moreover have "hd (hd gs) = hd bs" using pre b by (auto simp: prefix_def)
    moreover have "last (last gs) = last bs" using pk by (simp add: packed_def)
    moreover have "covers (List.concat (map (groupCands s sec cb) gs)) p"
      if x: "x \<in> set bs" "b_start x \<le> p" "p < b_end x" for x p
    proof -
      obtain g where g: "g \<in> set gs" "x \<in> set g" using x pk by (auto simp: packed_def)
      have "in_order g" using gp(1) [OF g(1)] by (simp add: group_ok_def)
      then have "covers (groupCands s sec cb g) p"
        using r(2) [OF g(1)] x in_order_hd_last [of g x] g(2) by fastforce
      then show ?thesis using g(1) by (auto simp: covers_def)
    qed
    ultimately show ?thesis by (auto simp: eq bs_def [symmetric])
  qed
qed

lemma sectionsLoop_blocks:
  "List.concat (map sec_blocks (sectionsLoop bs stack cur)) =
     sec_blocks cur @ filter (\<lambda>b. b_kind b \<noteq> blockHeading) bs"
  by (induction bs stack cur rule: sectionsLoop.induct) (auto simp: flushSection_def Let_def)

lemma sectionsLoop_nonempty: "sec \<in> set (sectionsLoop bs stack cur) \<Longrightarrow> sec_blocks sec \<noteq> []"
  by (induction bs stack cur rule: sectionsLoop.induct) (auto simp: flushSection_def Let_def split: if_splits)

text \<open>The blocks that are content: the sections hold exactly them, in order.\<close>

definition contentBlocks :: "string \<Rightarrow> mdBlock list" where
  "contentBlocks s = filter (\<lambda>b. b_kind b \<noteq> blockHeading) (scanBlocks s)"

lemma sections_blocks: "List.concat (map sec_blocks (sections s)) = contentBlocks s"
  by (simp add: sections_def sectionsLoop_blocks contentBlocks_def)

lemma sections_nonempty: "sec \<in> set (sections s) \<Longrightarrow> sec_blocks sec \<noteq> []"
  unfolding sections_def by (rule sectionsLoop_nonempty)

lemma in_order_concat:
  "in_order (List.concat (map f xs)) \<Longrightarrow> (\<forall>x \<in> set xs. f x \<noteq> []) \<Longrightarrow>
   successively (\<lambda>x y. b_end (last (f x)) \<le> b_start (hd (f y))) xs \<and> (\<forall>x \<in> set xs. in_order (f x))"
proof (induction xs rule: induct_list012)
  case (3 x y zs)
  then have "in_order (List.concat (map f (y # zs)))" "in_order (f x)"
    "\<forall>a \<in> set (f x). \<forall>b \<in> set (f y). b_end a \<le> b_start b"
    by (auto simp: in_order_append)
  then show ?case using 3 by simp
qed (auto simp: in_order_append)

text \<open>Where block ends can be: at line ends, hence at rune boundaries of a valid text.\<close>

lemma splitLoop_ends:
  "l \<in> set (splitLoop s start i) \<Longrightarrow> l_end l = i + length s \<or> (i < l_end l \<and> l_end l \<le> i + length s \<and> s ! (l_end l - 1 - i) = newline)"
proof (induction s start i rule: splitLoop.induct)
  case (2 c cs start i)
  consider "c = newline" "l_end l = i + 1"
    | "c = newline \<and> l \<in> set (splitLoop cs (i + 1) (i + 1)) \<or> c \<noteq> newline \<and> l \<in> set (splitLoop cs start (i + 1))"
    using 2(3) by (auto simp: mkLine_def split: if_splits)
  then show ?case
  proof cases
    case 2
    then have "l_end l = i + 1 + length cs \<or>
        (i + 1 < l_end l \<and> l_end l \<le> i + 1 + length cs \<and> cs ! (l_end l - 1 - (i + 1)) = newline)"
      using "2.IH" by auto
    moreover have "(c # cs) ! (l_end l - 1 - i) = cs ! (l_end l - 1 - (i + 1))" if "i + 1 < l_end l"
    proof -
      have "l_end l - 1 - i = Suc (l_end l - 1 - (i + 1))" using that by simp
      then show ?thesis by simp
    qed
    ultimately show ?thesis by auto
  qed auto
qed (auto simp: mkLine_def split: if_splits)

lemma line_ends_rune:
  assumes "utf8Valid s"
  shows "rune_at s (linePos (splitLines s) (length s) i)"
proof (induction i)
  case 0
  have "l_start (splitLines s ! 0) = 0" if "splitLines s \<noteq> []"
    using that splitLines_tiles [of s] by (cases "splitLines s") auto
  then show ?case using rune_at_0 [OF assms] by (auto simp: linePos_def rune_at_def)
next
  case (Suc i)
  show ?case
  proof (cases "i < length (splitLines s)")
    case True
    define e where "e = l_end (splitLines s ! i)"
    have e: "linePos (splitLines s) (length s) (Suc i) = e" using tiles_end [OF splitLines_tiles True] by (simp add: e_def)
    have "splitLines s ! i \<in> set (splitLoop s 0 0)" using True by (simp add: splitLines_def)
    then have "e = length s \<or> (0 < e \<and> e \<le> length s \<and> s ! (e - 1) = newline)"
      using splitLoop_ends by (fastforce simp: e_def)
    moreover have "0 < e \<Longrightarrow> e \<le> length s \<Longrightarrow> s ! (e - 1) = newline \<Longrightarrow> rune_at s e"
      using rune_at_behind [OF assms, of "e - 1"] by simp
    ultimately show ?thesis using e by (auto simp: rune_at_def)
  qed (simp add: linePos_def rune_at_def)
qed

text \<open>Blocks start and end where lines do.\<close>

definition at_lines :: "string \<Rightarrow> mdLine list \<Rightarrow> mdBlock \<Rightarrow> bool" where
  "at_lines s ls b \<longleftrightarrow> b_start b \<in> range (linePos ls (length s)) \<and> b_end b \<in> range (linePos ls (length s))"

lemma flushPara_at_lines:
  assumes "tiles 0 ls (length s)" "\<forall>p. para = Some p \<longrightarrow> p < i" "i \<le> length ls" "b \<in> set (flushPara ls para i)"
  shows "at_lines s ls b"
proof (cases para)
  case (Some p)
  then have "b_start b = linePos ls (length s) p" "b_end b = linePos ls (length s) (Suc (i - 1))"
    using assms tiles_end [OF assms(1), of "i - 1"] by (auto simp: flushPara_def mkBlock_def linePos_def [of ls _ p])
  then show ?thesis by (simp add: at_lines_def)
qed (use assms(4) in \<open>simp add: flushPara_def\<close>)

lemma scanStep_at_lines:
  assumes t: "tiles 0 ls (length s)" and p: "\<forall>p. para = Some p \<longrightarrow> p < i" and i: "i < length ls"
    and st: "scanStep s ls i para = (bs, i', para')" and b: "b \<in> set bs"
  shows "at_lines s ls b"
proof -
  have fl: "x \<in> set (flushPara ls para i) \<Longrightarrow> at_lines s ls x" for x
    using flushPara_at_lines [OF t p] i by simp
  have x: "j < length ls \<Longrightarrow> l_start (ls ! j) \<in> range (linePos ls (length s))" for j
    by (metis linePos_def rangeI)
  have y: "j < length ls \<Longrightarrow> l_end (ls ! j) \<in> range (linePos ls (length s))" for j
    using tiles_end [OF t] by (metis rangeI)
  have z: "length s \<in> range (linePos ls (length s))"
    by (metis less_irrefl linePos_def rangeI)
  have w: "l_end (ls ! (scanWhile c ls (Suc (Suc i)) - Suc 0)) \<in> range (linePos ls (length s))" if "Suc i < length ls" for c
    using scanWhile_le [of "Suc (Suc i)" ls c] scanWhile_ge [of "Suc (Suc i)" c ls] that by (intro y) linarith
  show ?thesis
    using st b x [OF i] y [OF i] y z w
    by (auto simp: scanStep_def Let_def at_lines_def mkBlock_def split: if_splits option.splits prod.splits
        dest!: fl [unfolded at_lines_def])
qed

lemma scanLoop_at_lines:
  assumes "tiles 0 ls (length s)" "\<forall>p. para = Some p \<longrightarrow> p < i" "i \<le> length ls" "b \<in> set (scanLoop s ls i para)"
  shows "at_lines s ls b"
  using assms
proof (induction s ls i para rule: scanLoop.induct)
  case (1 s ls i para)
  show ?case
  proof (cases "i < length ls")
    case True
    obtain bs i' para' where st: "scanStep s ls i para = (bs, i', para')"
      by (metis prod_cases3)
    have "b \<in> set bs \<or> b \<in> set (scanLoop s ls i' para')"
      using 1(5) True st by (subst (asm) scanLoop.simps) auto
    then show ?thesis
      using scanStep_at_lines [OF 1(2,3) True st] scanStep_accounts [OF 1(2,3) True st]
        1(1) [OF True st [symmetric] refl 1(2)] scanStep_progress [OF True st] by blast
  next
    case False
    then have "b \<in> set (flushPara ls para (length ls))" "i = length ls"
      using 1(4,5) by (simp_all add: scanLoop.simps)
    then show ?thesis using flushPara_at_lines [OF 1(2)] 1(3) by blast
  qed
qed

lemma scanBlocks_placed:
  assumes "b \<in> set (scanBlocks s)"
  shows "placed s b"
proof -
  have "at_lines s (splitLines s) b"
    using assms skipFrontmatter_le by (intro scanLoop_at_lines [OF splitLines_tiles, of None]) (auto simp: scanBlocks_def Let_def)
  then have "utf8Valid s \<Longrightarrow> rune_at s (b_start b) \<and> rune_at s (b_end b)"
    using line_ends_rune by (auto simp: at_lines_def)
  moreover have "b_end b \<le> length s"
    using scanBlocks_spans [of s] spans_in_order assms by blast
  ultimately show ?thesis by (simp add: placed_def)
qed

section \<open>Merging\<close>

definition cands_inv :: "string \<Rightarrow> int \<Rightarrow> mdBlock set \<Rightarrow> candidate list \<Rightarrow> bool" where
  "cands_inv s base B cs \<longleftrightarrow> successively next_cd cs \<and> (\<forall>c \<in> set cs. cand_ok s base B c)"

lemma mergeInto_Some:
  assumes "mergeInto base cs i = Some into"
  shows "mergeable (cs ! i) \<and> fits base (cs ! i) (cs ! into) \<and> into < length cs \<or> i = length cs \<or> length cs < i"
    and "into = i - 1 \<and> 0 < i \<or> into = Suc i \<and> Suc i < length cs"
    and "mergeable (cs ! i) \<and> fits base (cs ! i) (cs ! into)"
  using assms by (auto simp: mergeInto_def Let_def split: if_splits)

text \<open>The two adjacent candidates a merge replaces by one.\<close>

lemma merge_split:
  assumes "i < length cs" "mergeInto base cs i = Some into"
  obtains xs a b ys where "cs = xs @ [a, b] @ ys" "{a, b} = {cs ! i, cs ! into}"
    "take i (cs[into := m]) @ drop (i + 1) (cs[into := m]) = xs @ [m] @ ys"
proof (cases "into = Suc i")
  case True
  then have l: "Suc i < length cs" using mergeInto_Some(2) [OF assms(2)] assms(1) by auto
  have "cs = take i cs @ [cs ! i, cs ! into] @ drop (Suc (Suc i)) cs"
    using l True by (simp add: Cons_nth_drop_Suc id_take_nth_drop [symmetric])
  moreover have "take i (cs[into := m]) @ drop (i + 1) (cs[into := m]) = take i cs @ [m] @ drop (Suc (Suc i)) cs"
    using l True by (simp add: drop_update_swap Cons_nth_drop_Suc [symmetric])
  ultimately show ?thesis using that [of "take i cs" "cs ! i" "cs ! into" "drop (Suc (Suc i)) cs"] by simp
next
  case False
  then have l: "0 < i" "into = i - 1" using mergeInto_Some(2) [OF assms(2)] by auto
  then obtain j where j: "i = Suc j" "into = j" by (cases i) auto
  have "cs = take j cs @ [cs ! j, cs ! Suc j] @ drop (Suc (Suc j)) cs"
    using assms(1) j by (simp add: Cons_nth_drop_Suc id_take_nth_drop [symmetric])
  moreover have "take i (cs[into := m]) @ drop (i + 1) (cs[into := m]) = take j cs @ [m] @ drop (Suc (Suc j)) cs"
    using assms(1) j by (simp add: take_Suc_conv_app_nth take_update_swap list_update_append)
  ultimately show ?thesis
    using that [of "take j cs" "cs ! j" "cs ! Suc j" "drop (Suc (Suc j)) cs"] j by (auto simp: insert_commute)
qed

lemma mergedCand_span:
  assumes "{a, b} = {n, c}" "next_cd a b"
  shows "cd_start (mergedCand n c) = cd_start a \<and> cd_end (mergedCand n c) = cd_end b"
  using assms by (auto simp: doubleton_eq_iff mergedCand_def next_cd_def)

lemma mergedCand_ok:
  assumes "fits base c n" "cand_ok s base B c" "cand_ok s base B n"
  shows "cand_ok s base B (mergedCand n c)"
proof -
  have "base > 0 \<Longrightarrow> sectionCeiling base (commonPathPrefix (cd_path n) (cd_path c)) \<noteq> 0"
    using sectionCeiling_pos [of base "commonPathPrefix (cd_path n) (cd_path c)"] by simp
  then show ?thesis
    using assms by (auto simp: fits_def cand_ok_def mergedCand_def cdlen_def Let_def max_def min_def split: if_splits)
qed

lemma successively_merge:
  assumes "successively next_cd (xs @ [a, b] @ ys)" "cd_start m = cd_start a" "cd_end m = cd_end b"
  shows "successively next_cd (xs @ [m] @ ys)"
proof -
  have ab: "next_cd a b" "successively next_cd xs" "successively next_cd ys"
    using assms(1) by (auto simp: successively_append_iff successively_Cons)
  have "xs \<noteq> [] \<Longrightarrow> next_cd (last xs) m"
    using assms ab(1) by (auto simp: successively_append_iff next_cd_def)
  moreover have "ys \<noteq> [] \<Longrightarrow> next_cd m (hd ys)"
    using assms ab(1) by (cases ys) (auto simp: successively_append_iff next_cd_def)
  ultimately show ?thesis using ab by (cases ys) (auto simp: successively_append_iff successively_Cons)
qed

lemma mergeLoop_inv:
  "cands_inv s base B cs \<Longrightarrow> cands_inv s base B (mergeLoop base cs i) \<and>
     (\<forall>p. covers cs p \<longrightarrow> covers (mergeLoop base cs i) p) \<and>
     filter (\<lambda>c. \<not> mergeable c) (mergeLoop base cs i) = filter (\<lambda>c. \<not> mergeable c) cs"
proof (induction base cs i rule: mergeLoop.induct)
  case (1 base cs i)
  show ?case
  proof (cases "i < length cs")
    case False
    then show ?thesis using 1(3) by (simp add: mergeLoop.simps)
  next
    case i: True
    show ?thesis
    proof (cases "mergeInto base cs i")
      case None
      then show ?thesis using 1(1) [OF i None 1(3)] i by (simp add: mergeLoop.simps [of _ cs])
    next
      case (Some into)
      define m where "m = mergedCand (cs ! into) (cs ! i)"
      obtain xs a b ys where sp: "cs = xs @ [a, b] @ ys" "{a, b} = {cs ! i, cs ! into}"
        and new: "take i (cs[into := m]) @ drop (i + 1) (cs[into := m]) = xs @ [m] @ ys"
        by (rule merge_split [OF i Some])
      have nx: "next_cd a b" using 1(3) sp(1) by (simp add: cands_inv_def successively_append_iff)
      have ok: "cand_ok s base B (cs ! i)" "cand_ok s base B (cs ! into)" "\<forall>c \<in> set (xs @ ys). cand_ok s base B c"
        using 1(3) sp by (auto simp: cands_inv_def doubleton_eq_iff)
      note ft = mergeInto_Some(3) [OF Some]
      have ms: "cd_start m = cd_start a" "cd_end m = cd_end b"
        using mergedCand_span [of a b "cs ! into" "cs ! i"] sp(2) nx by (auto simp: m_def insert_commute)
      have "cands_inv s base B (xs @ [m] @ ys)"
        using successively_merge [of xs a b ys m] 1(3) sp(1) ms ok mergedCand_ok [of base "cs ! i" "cs ! into"] ft
        by (auto simp: cands_inv_def m_def)
      then have ih: "cands_inv s base B (mergeLoop base (xs @ [m] @ ys) i)"
        "\<forall>p. covers (xs @ [m] @ ys) p \<longrightarrow> covers (mergeLoop base (xs @ [m] @ ys) i) p"
        "filter (\<lambda>c. \<not> mergeable c) (mergeLoop base (xs @ [m] @ ys) i) = filter (\<lambda>c. \<not> mergeable c) (xs @ [m] @ ys)"
        using 1(2) [OF i Some refl, folded m_def, unfolded new] by blast+
      have cov: "covers cs p \<Longrightarrow> covers (xs @ [m] @ ys) p" for p
        using sp(1) ms nx by (auto simp: covers_def next_cd_def)
      have "mergeable a" "mergeable b"
        using ft sp(2) by (auto simp: doubleton_eq_iff fits_def split: if_splits)
      moreover have "mergeable m" by (simp add: m_def mergedCand_def mergeable_def)
      ultimately have "filter (\<lambda>c. \<not> mergeable c) (xs @ [m] @ ys) = filter (\<lambda>c. \<not> mergeable c) cs"
        using sp(1) by simp
      moreover have "mergeLoop base cs i = mergeLoop base (xs @ [m] @ ys) i"
        using i Some new by (subst mergeLoop.simps) (simp add: m_def Let_def)
      ultimately show ?thesis using ih cov by simp
    qed
  qed
qed

section \<open>Properties of Chunk\<close>

lemma runs_ends:
  "runs s base B cs a z \<Longrightarrow> cd_start (last cs) < cd_end (last cs) \<and> cd_start (hd cs) < cd_end (hd cs)"
  unfolding runs_def cand_ok_def by (meson hd_in_set last_in_set)

lemma sections_runs:
  "List.concat (map (\<lambda>sec. chunkSection s sec base) (sections s)) = [] \<and> sections s = [] \<or>
   (\<exists>a z. runs s base (set (contentBlocks s)) (List.concat (map (\<lambda>sec. chunkSection s sec base) (sections s))) a z)"
proof (cases "sections s = []")
  case False
  have o: "in_order (List.concat (map sec_blocks (sections s)))"
    using spans_in_order [OF scanBlocks_spans] by (simp add: sections_blocks contentBlocks_def in_order_filter)
  have ne: "\<forall>sec \<in> set (sections s). sec_blocks sec \<noteq> []" using sections_nonempty by blast
  note oc = in_order_concat [OF o ne]
  have B: "set (sec_blocks sec) \<subseteq> set (contentBlocks s)" if "sec \<in> set (sections s)" for sec
    using that sections_blocks [of s] by (metis UN_upper set_concat set_map image_eqI)
  then have pl: "\<forall>b \<in> set (sec_blocks sec). placed s b" if "sec \<in> set (sections s)" for sec
    using that scanBlocks_placed by (fastforce simp: contentBlocks_def)
  have r: "runs s base (set (contentBlocks s)) (chunkSection s sec base) (b_start (hd (sec_blocks sec))) (b_end (last (sec_blocks sec)))"
    if "sec \<in> set (sections s)" for sec
    using chunkSection_runs [of sec s "set (contentBlocks s)" base] ne oc B pl that by blast
  have nx: "next_cd (last (chunkSection s x base)) (hd (chunkSection s y base))"
    if xy: "x \<in> set (sections s)" "y \<in> set (sections s)" "b_end (last (sec_blocks x)) \<le> b_start (hd (sec_blocks y))" for x y
  proof -
    have "cd_start (last (chunkSection s x base)) < cd_end (last (chunkSection s x base))"
      "cd_start (hd (chunkSection s y base)) < cd_end (hd (chunkSection s y base))"
      using runs_ends [OF r [OF xy(1)]] runs_ends [OF r [OF xy(2)]] by blast+
    then show ?thesis using r [OF xy(1)] r [OF xy(2)] xy(3) by (auto simp: runs_def next_cd_def overlapBytes_def)
  qed
  have "successively (\<lambda>x y. next_cd (last (chunkSection s x base)) (hd (chunkSection s y base))) (sections s)"
    using oc nx by (auto intro: successively_mono_in)
  then show ?thesis
    using runs_concat [of "sections s" s base "set (contentBlocks s)" "\<lambda>sec. chunkSection s sec base"
        "\<lambda>sec. b_start (hd (sec_blocks sec))" "\<lambda>sec. b_end (last (sec_blocks sec))"] False r by blast
qed simp

lemma sections_cover:
  assumes "b \<in> set (contentBlocks s)" "b_start b \<le> p" "p < b_end b"
  shows "covers (List.concat (map (\<lambda>sec. chunkSection s sec base) (sections s))) p"
proof -
  have o: "in_order (List.concat (map sec_blocks (sections s)))"
    using spans_in_order [OF scanBlocks_spans] by (simp add: sections_blocks contentBlocks_def in_order_filter)
  have ne: "\<forall>sec \<in> set (sections s). sec_blocks sec \<noteq> []" using sections_nonempty by blast
  obtain sec where sec: "sec \<in> set (sections s)" "b \<in> set (sec_blocks sec)"
    using assms(1) by (auto simp: sections_blocks [symmetric])
  have "set (sec_blocks sec) \<subseteq> set (contentBlocks s)"
    using sec(1) sections_blocks [of s] by (metis UN_upper set_concat set_map image_eqI)
  then have "covers (chunkSection s sec base) p"
    using chunkSection_runs [of sec s "set (contentBlocks s)" base] in_order_concat [OF o ne] ne sec assms(2,3) scanBlocks_placed
    by (fastforce simp: contentBlocks_def)
  then show ?thesis using sec(1) by (auto simp: covers_def)
qed

lemma candidates_inv:
  "cands_inv s base (set (contentBlocks s)) (candidates s base) \<and>
   (\<forall>b \<in> set (contentBlocks s). \<forall>p. b_start b \<le> p \<and> p < b_end b \<longrightarrow> covers (candidates s base) p)"
proof -
  have "cands_inv s base (set (contentBlocks s)) (List.concat (map (\<lambda>sec. chunkSection s sec base) (sections s)))"
    using sections_runs [of s base] by (auto simp: cands_inv_def runs_def)
  from mergeLoop_inv [OF this, of 0] show ?thesis
    using sections_cover by (auto simp: candidates_def mergeTiny_def)
qed

abbreviation chunks :: "string \<Rightarrow> int \<Rightarrow> Chunk list" where
  "chunks s tokens \<equiv> res_Chunks (ChunkText s tokens)"

lemma chunks_length [simp]: "length (chunks s n) = length (candidates s (baseCeilingOf n))"
  by (simp add: ChunkText_def Let_def)

lemma chunks_nth:
  "i < length (chunks s n) \<Longrightarrow> chunks s n ! i = toDomainChunk s i (candidates s (baseCeilingOf n) ! i)"
  by (simp add: ChunkText_def Let_def nth_enumerate_eq)

lemma chunks_mem:
  assumes "c \<in> set (chunks s n)"
  obtains cd i where "cd \<in> set (candidates s (baseCeilingOf n))" "c = toDomainChunk s i cd"
    "cand_ok s (baseCeilingOf n) (set (contentBlocks s)) cd"
  using assms candidates_inv [of s "baseCeilingOf n"]
  by (metis cands_inv_def chunks_length chunks_nth in_set_conv_nth)

lemma slice_length: "a \<le> b \<Longrightarrow> b \<le> length s \<Longrightarrow> length (slice s a b) = b - a"
  by (simp add: slice_def)

lemma slice_append: "a \<le> b \<Longrightarrow> b \<le> z \<Longrightarrow> slice s a b @ slice s b z = slice s a z"
  using take_add [of "b - a" "z - b" "drop a s"] by (simp add: slice_def)

lemma pieces_concat:
  "pieces a ps z \<Longrightarrow> List.concat (map (\<lambda>(x, y). slice s x y) ps) = slice s a z"
proof (induction ps arbitrary: a)
  case (Cons p ps)
  then have p: "fst p = a" "a < snd p" "pieces (snd p) ps z" by auto
  then show ?case using Cons.IH [OF p(3)] slice_append [of a "snd p" z s] pieces_less [OF p(3)] by (auto simp: case_prod_beta)
qed (simp add: slice_def)

lemma chunk_ordinals: "map ch_Ordinal (chunks s tokens) = [0..<length (chunks s tokens)]"
  by (rule nth_equalityI) (simp_all add: chunks_nth toDomainChunk_def del: chunks_length)

text \<open>A text whose only paragraph exceeds the smallest ceiling.\<close>

definition demo_text :: string where "demo_text = replicate 70 CHR ''a''"

lemma demo_chunk_texts:
  "map ch_Text (chunks demo_text 80) = [replicate 64 CHR ''a'', replicate 6 CHR ''a'']"
  "map ch_Ordinal (chunks demo_text 80) = [0, 1]"
  "map w_Ordinal (res_Warnings (ChunkText demo_text 80)) = [0, 1]"
  by code_simp+

lemma demo_scan: "scanBlocks demo_text = [mkBlock blockParagraph 0 70]"
  by code_simp

text \<open>
  The chunks advance: ordinals are 0, 1, 2, ... (so one content's chunks never collide on the
  ordinal), each text is the bytes between its offsets, within the text and not empty, and
  from one chunk to the next both ends move forward and at most \<open>overlapBytes\<close> are repeated, so
  no chunk repeats another.
\<close>

theorem Chunk_advances:
  "map ch_Ordinal (chunks s tokens) = [0..<length (chunks s tokens)] \<and>
   (\<forall>c \<in> set (chunks s tokens). ch_ByteStart c < ch_ByteEnd c \<and> ch_ByteEnd c \<le> length s \<and>
      ch_Text c = slice s (ch_ByteStart c) (ch_ByteEnd c)) \<and>
   successively (\<lambda>c d. ch_ByteStart c < ch_ByteStart d \<and> ch_ByteEnd c < ch_ByteEnd d \<and>
      int (ch_ByteEnd c) \<le> int (ch_ByteStart d) + overlapBytes) (chunks s tokens)"
proof (intro conjI ballI)
  let ?cs = "candidates s (baseCeilingOf tokens)"
  show "map ch_Ordinal (chunks s tokens) = [0..<length (chunks s tokens)]" by (rule chunk_ordinals)
  have "successively next_cd ?cs" using candidates_inv [of s "baseCeilingOf tokens"] by (simp add: cands_inv_def)
  then show "successively (\<lambda>c d. ch_ByteStart c < ch_ByteStart d \<and> ch_ByteEnd c < ch_ByteEnd d \<and>
      int (ch_ByteEnd c) \<le> int (ch_ByteStart d) + overlapBytes) (chunks s tokens)"
    by (auto simp: successively_conv_nth chunks_nth toDomainChunk_def next_cd_def)
qed (erule chunks_mem, simp add: toDomainChunk_def cand_ok_def)+

theorem Chunk_advances_witness:
  "length (chunks demo_text 80) = 2 \<and> ch_Text (hd (chunks demo_text 80)) \<noteq> '''' \<and>
   map ch_Ordinal (chunks demo_text 80) = [0, 1]"
proof -
  note x = Chunk_advances [of demo_text 80]
  have "length (map ch_Ordinal (chunks demo_text 80)) = 2" by (simp only: demo_chunk_texts) simp
  then have l: "length (chunks demo_text 80) = 2" by (simp only: length_map)
  then have "chunks demo_text 80 \<noteq> []" by force
  then have "hd (chunks demo_text 80) \<in> set (chunks demo_text 80)" by (rule hd_in_set)
  then have "ch_Text (hd (chunks demo_text 80)) \<noteq> ''''"
    using x by (auto simp: slice_def)
  then show ?thesis using l demo_chunk_texts(2) by blast
qed

text \<open>
  C40: No content is dropped: every byte of every block that is not a heading (the headings live on in
  the heading path) lies in some chunk, whatever the ceiling, the splits and the merges.
\<close>

theorem Chunk_covers:
  "\<forall>k \<in> set (scanBlocks s). b_kind k \<noteq> blockHeading \<longrightarrow>
     (\<forall>p. b_start k \<le> p \<and> p < b_end k \<longrightarrow>
        (\<exists>c \<in> set (chunks s tokens). ch_ByteStart c \<le> p \<and> p < ch_ByteEnd c))"
proof (intro ballI allI impI)
  fix k p assume a: "k \<in> set (scanBlocks s)" "b_kind k \<noteq> blockHeading" "b_start k \<le> p \<and> p < b_end k"
  then have "covers (candidates s (baseCeilingOf tokens)) p"
    using candidates_inv [of s "baseCeilingOf tokens"] by (simp add: contentBlocks_def)
  then obtain i where "i < length (chunks s tokens)" "cd_start (candidates s (baseCeilingOf tokens) ! i) \<le> p"
    "p < cd_end (candidates s (baseCeilingOf tokens) ! i)"
    unfolding covers_def by (metis chunks_length in_set_conv_nth)
  then have "ch_ByteStart (chunks s tokens ! i) \<le> p \<and> p < ch_ByteEnd (chunks s tokens ! i)"
    "chunks s tokens ! i \<in> set (chunks s tokens)"
    by (simp add: chunks_nth toDomainChunk_def del: chunks_length) (use \<open>i < length (chunks s tokens)\<close> nth_mem in blast)
  then show "\<exists>c \<in> set (chunks s tokens). ch_ByteStart c \<le> p \<and> p < ch_ByteEnd c" by blast
qed

theorem Chunk_covers_witness:
  "\<exists>c \<in> set (chunks demo_text 80). ch_ByteStart c \<le> 69 \<and> 69 < ch_ByteEnd c"
  using Chunk_covers [of demo_text 80] by (simp add: demo_scan mkBlock_def)

lemma chunk_ceiling:
  "c \<in> set (chunks s tokens) \<Longrightarrow>
     (0 < baseCeilingOf tokens \<longrightarrow>
        int (length (ch_Text c)) \<le> sectionCeiling (baseCeilingOf tokens) (ch_HeadingPath c)) \<and>
     (int (length (ch_Text c)) \<le> maxBytes \<or>
        (\<exists>k \<in> set (scanBlocks s). b_start k \<le> ch_ByteStart c \<and> ch_ByteEnd c \<le> b_end k))"
  by (erule chunks_mem)
    (auto simp: toDomainChunk_def cand_ok_def cdlen_def slice_length of_nat_diff contentBlocks_def)

lemma chunk_nonempty: "c \<in> set (chunks s tokens) \<Longrightarrow> ch_Text c \<noteq> ''''"
  by (erule chunks_mem) (auto simp: toDomainChunk_def cand_ok_def slice_def)

text \<open>
  C35: Chunks respect the budgets. Under an input ceiling whose bytes exceed the reserve for the prefix
  template (and of less than \<open>2 ^ 60\<close> tokens), a chunk whose heading path leaves at least 64 bytes has text, heading path and
  reserve together within the ceiling; under a longer heading path its text is at most 64 bytes, so that
  there, and only there, the sum can exceed the ceiling. Whatever the ceiling, a chunk over \<open>maxBytes\<close> is
  (part of) one block.
\<close>

theorem Chunk_within_ceiling:
  "\<forall>c \<in> set (chunks s tokens).
     (TemplateReserveBytes < tokens * BytesPerToken \<and> tokens < 2 ^ 60 \<longrightarrow>
        (if int (length (ch_HeadingPath c)) + 64 \<le> tokens * BytesPerToken - TemplateReserveBytes
         then int (length (ch_Text c)) + int (length (ch_HeadingPath c)) + TemplateReserveBytes \<le> tokens * BytesPerToken
         else int (length (ch_Text c)) \<le> 64)) \<and>
     (int (length (ch_Text c)) \<le> maxBytes \<or>
        (\<exists>k \<in> set (scanBlocks s). b_start k \<le> ch_ByteStart c \<and> ch_ByteEnd c \<le> b_end k))"
proof
  fix c
  assume c: "c \<in> set (chunks s tokens)"
  have base: "baseCeilingOf tokens = tokens * BytesPerToken - TemplateReserveBytes"
    if "TemplateReserveBytes < tokens * BytesPerToken" "tokens < 2 ^ 60"
    using that by (simp add: baseCeilingOf_def BytesPerToken_def prefixReserve_def TemplateReserveBytes_def)
  show "(TemplateReserveBytes < tokens * BytesPerToken \<and> tokens < 2 ^ 60 \<longrightarrow>
        (if int (length (ch_HeadingPath c)) + 64 \<le> tokens * BytesPerToken - TemplateReserveBytes
         then int (length (ch_Text c)) + int (length (ch_HeadingPath c)) + TemplateReserveBytes \<le> tokens * BytesPerToken
         else int (length (ch_Text c)) \<le> 64)) \<and>
     (int (length (ch_Text c)) \<le> maxBytes \<or>
        (\<exists>k \<in> set (scanBlocks s). b_start k \<le> ch_ByteStart c \<and> ch_ByteEnd c \<le> b_end k))"
    using chunk_ceiling [OF c] base by (auto simp: sectionCeiling_def Let_def split: if_splits)
qed

theorem Chunk_within_ceiling_witness:
  "\<exists>c. c \<in> set (chunks demo_text 80) \<and> length (ch_Text c) = 64 \<and> int (length (ch_Text c)) + int (length (ch_HeadingPath c)) + 256 \<le> 320"
proof -
  have ne: "chunks demo_text 80 \<noteq> []" "ch_Text (hd (chunks demo_text 80)) = replicate 64 CHR ''a''"
    using demo_chunk_texts(1) by (auto simp del: chunks_length simp: map_eq_Cons_conv)
  have "list_all (\<lambda>c. ch_HeadingPath c = '''') (chunks demo_text 80)" by code_simp
  then have h: "ch_HeadingPath (hd (chunks demo_text 80)) = ''''" using ne(1) by (simp add: list_all_iff)
  show ?thesis
    using bspec [OF Chunk_within_ceiling [of demo_text 80] hd_in_set [OF ne(1)]] ne(2) h hd_in_set [OF ne(1)]
    by (intro exI [of _ "hd (chunks demo_text 80)"]) (simp add: TemplateReserveBytes_def BytesPerToken_def)
qed

text \<open>
  Chunking never breaks a rune: the chunks of a valid UTF-8 text are valid UTF-8, even where an
  oversize block is cut at a byte budget.
\<close>

theorem Chunk_valid_utf8:
  assumes "utf8Valid s" "c \<in> set (chunks s tokens)"
  shows "utf8Valid (ch_Text c)"
  using assms(2)
proof (rule chunks_mem)
  fix cd i
  assume "c = toDomainChunk s i cd" "cand_ok s (baseCeilingOf tokens) (set (contentBlocks s)) cd"
  then show ?thesis
    using utf8Valid_slice [OF assms(1), of "cd_start cd" "cd_end cd"] assms(1)
    by (simp add: toDomainChunk_def cand_ok_def)
qed

theorem Chunk_valid_utf8_witness:
  "utf8Valid (ch_Text (hd (chunks demo_text 80))) \<and> length (chunks demo_text 80) \<noteq> 0"
proof -
  have v: "utf8Valid demo_text" by code_simp
  have "map ch_Text (chunks demo_text 80) \<noteq> []" by (simp only: demo_chunk_texts) simp
  then have "chunks demo_text 80 \<noteq> []" by blast
  then show ?thesis using Chunk_valid_utf8 [OF v, of "hd (chunks demo_text 80)" 80] by (metis hd_in_set length_0_conv)
qed

text \<open>
  The fallback cut loses nothing and terminates: the pieces of an oversize block, joined, are the
  block, and none is over the limit.
\<close>

theorem hardSplit_lossless:
  assumes "start \<le> fin" "fin \<le> length s" "4 \<le> limit"
  shows "List.concat (map (\<lambda>(x, y). slice s x y) (hardSplit s start fin limit)) = slice s start fin \<and>
    (\<forall>(x, y) \<in> set (hardSplit s start fin limit). start \<le> x \<and> x < y \<and> y \<le> fin \<and> y - x \<le> limit)"
  using hardSplit_pieces [OF assms] pieces_concat [of start _ fin s] pieces_bounds [of start _ fin] assms(2)
  by fastforce

theorem hardSplit_lossless_witness:
  "List.concat (map (\<lambda>(x, y). slice demo_text x y) (hardSplit demo_text 0 70 64)) = slice demo_text 0 70"
  using hardSplit_lossless [of 0 70 demo_text 64] by (simp add: demo_text_def)

end
