(* ===== verification/Passages.thy ===== *)
theory Passages
  imports ChunkFacts
begin

text \<open>
  The two sides of the embedding budget meet: what \<open>ComposePassage\<close> (domain/embedding.go) makes of a
  chunk that \<open>Chunk\<close> (chunker/chunker.go) cut for the same ceiling.
\<close>

section \<open>The length of a substitution\<close>

text \<open>The positions at which a pattern occurs.\<close>

fun occurrences :: "string \<Rightarrow> string \<Rightarrow> nat" where
  "occurrences [] p = 0"
| "occurrences (c # s) p = (if hasPrefix (c # s) p then 1 else 0) + occurrences s p"

lemma occurrences_drop: "occurrences (drop n s) p \<le> occurrences s p"
proof (induction n arbitrary: s)
  case (Suc n)
  then show ?case by (cases s) (auto intro: le_trans le_SucI)
qed simp

lemma occurrences_skip: "0 < n \<Longrightarrow> hasPrefix (c # s) p \<Longrightarrow> Suc (occurrences (drop n (c # s)) p) \<le> occurrences (c # s) p"
  using occurrences_drop [of "n - 1" s p] by (cases n) auto

lemma occurrences_skip_other: "occurrences (drop n (c # s)) p \<le> occurrences (c # s) p"
  by (rule occurrences_drop)

lemma replaceAll_length:
  "p \<noteq> [] \<Longrightarrow> \<exists>n \<le> occurrences s p. length (replaceAll s p r) + n * length p = length s + n * length r"
proof (induction s p r rule: replaceAll.induct)
  case (2 c s p r)
  show ?case
  proof (cases "hasPrefix (c # s) p")
    case True
    then obtain n where n: "n \<le> occurrences (drop (length p) (c # s)) p"
      "length (replaceAll (drop (length p) (c # s)) p r) + n * length p = length (drop (length p) (c # s)) + n * length r"
      using 2(1,3) by blast
    have "Suc n \<le> occurrences (c # s) p"
      using occurrences_skip [of "length p" c s p] True 2(3) n(1) by simp
    moreover have "length (replaceAll (c # s) p r) + Suc n * length p = length (c # s) + Suc n * length r"
      using n(2) True 2(3) hasPrefix_shorter [OF True] by simp
    ultimately show ?thesis by blast
  next
    case False
    then obtain n where n: "n \<le> occurrences s p" "length (replaceAll s p r) + n * length p = length s + n * length r"
      using 2 by auto
    then show ?thesis using False by (intro exI [of _ n]) auto
  qed
qed simp

lemma replacer2_length:
  "p1 \<noteq> [] \<Longrightarrow> p2 \<noteq> [] \<Longrightarrow> \<exists>n \<le> occurrences s p1. \<exists>m \<le> occurrences s p2.
     length (replacer2 p1 r1 p2 r2 s) + n * length p1 + m * length p2 = length s + n * length r1 + m * length r2"
proof (induction p1 r1 p2 r2 s rule: replacer2.induct)
  case (2 p1 r1 p2 r2 c s)
  consider "hasPrefix (c # s) p1" | "\<not> hasPrefix (c # s) p1" "hasPrefix (c # s) p2"
    | "\<not> hasPrefix (c # s) p1" "\<not> hasPrefix (c # s) p2" by blast
  then show ?case
  proof cases
    case 1
    define t where "t = drop (length p1) (c # s)"
    obtain n m where n: "n \<le> occurrences t p1" "m \<le> occurrences t p2"
      "length (replacer2 p1 r1 p2 r2 t) + n * length p1 + m * length p2 = length t + n * length r1 + m * length r2"
      using 2(1) [OF conjI [OF 2(4) 1]] 2(4,5) unfolding t_def by blast
    have "Suc n \<le> occurrences (c # s) p1" "m \<le> occurrences (c # s) p2"
      using occurrences_skip [of "length p1" c s p1] occurrences_skip_other [of "length p1" c s p2] 1 2(4) n(1,2)
      unfolding t_def by simp_all
    moreover have "length t + length p1 = length (c # s)"
      using hasPrefix_shorter [OF 1] by (simp add: t_def)
    moreover have "replacer2 p1 r1 p2 r2 (c # s) = r1 @ replacer2 p1 r1 p2 r2 t"
      using 1 2(4) by (simp add: t_def)
    ultimately show ?thesis using n(3) by (intro exI [of _ "Suc n"] conjI exI [of _ m]) simp_all
  next
    case 2: 2
    define t where "t = drop (length p2) (c # s)"
    obtain n m where n: "n \<le> occurrences t p1" "m \<le> occurrences t p2"
      "length (replacer2 p1 r1 p2 r2 t) + n * length p1 + m * length p2 = length t + n * length r1 + m * length r2"
      using "2.IH"(2) 2 "2.prems" unfolding t_def by blast
    have "n \<le> occurrences (c # s) p1" "Suc m \<le> occurrences (c # s) p2"
      using occurrences_skip [of "length p2" c s p2] occurrences_skip_other [of "length p2" c s p1] 2 "2.prems" n(1,2)
      unfolding t_def by simp_all
    moreover have "length t + length p2 = length (c # s)"
      using hasPrefix_shorter [OF 2(2)] by (simp add: t_def)
    moreover have "replacer2 p1 r1 p2 r2 (c # s) = r2 @ replacer2 p1 r1 p2 r2 t"
      using 2 "2.prems" by (simp add: t_def)
    ultimately show ?thesis using n(3) by (intro exI [of _ n] conjI exI [of _ "Suc m"]) simp_all
  next
    case 3
    obtain n m where n: "n \<le> occurrences s p1" "m \<le> occurrences s p2"
      "length (replacer2 p1 r1 p2 r2 s) + n * length p1 + m * length p2 = length s + n * length r1 + m * length r2"
      using "2.IH"(3) 3 "2.prems" by blast
    then show ?thesis using 3 by (intro exI [of _ n] conjI exI [of _ m]) simp_all
  qed
qed simp

section \<open>The composed passage\<close>

lemma ComposePassage_length:
  assumes one: "occurrences (es_PassageTemplate spec) PlaceholderPassage \<le> 1"
    "occurrences (es_PassageTemplate spec) PlaceholderTitle \<le> 1"
    and t: "length (es_PassageTemplate spec) \<le> 256" "ch_Text c \<noteq> ''''"
  shows "length (ComposePassage spec c) \<le> 256 + length (ch_HeadingPath c) + length (ch_Text c)"
proof (cases "containsStr (es_PassageTemplate spec) PlaceholderTitle")
  case True
  define title where "title = (if ch_HeadingPath c = '''' then ''none'' else ch_HeadingPath c)"
  have cp: "ComposePassage spec c = replacer2 PlaceholderTitle title PlaceholderPassage (ch_Text c) (es_PassageTemplate spec)"
    using True by (simp add: ComposePassage_def title_def)
  have three: "length PlaceholderTitle = 3" "length PlaceholderPassage = 3" "PlaceholderTitle \<noteq> []" "PlaceholderPassage \<noteq> []"
    by (simp_all add: PlaceholderTitle_def PlaceholderPassage_def)
  obtain n m where "n \<le> 1" "m \<le> 1" "length (ComposePassage spec c) + n * 3 + m * 3 =
      length (es_PassageTemplate spec) + n * length title + m * length (ch_Text c)"
    using replacer2_length [OF three(3,4), of "es_PassageTemplate spec" title "ch_Text c"] one
    unfolding cp three by (meson le_trans)

  moreover have "length title \<le> length (ch_HeadingPath c) + 4" by (simp add: title_def)
  moreover have "1 \<le> length (ch_Text c)" using t(2) by (cases "ch_Text c") auto
  ultimately show ?thesis using t(1) by (cases n; cases m) auto
next
  case False
  define text' where "text' = (if ch_HeadingPath c \<noteq> '''' then ch_HeadingPath c @ [newline, newline] @ ch_Text c else ch_Text c)"
  have l: "length text' \<le> length (ch_HeadingPath c) + length (ch_Text c) + 2" by (simp add: text'_def)
  show ?thesis
  proof (cases "es_PassageTemplate spec = ''''")
    case True
    then show ?thesis using False l by (simp add: ComposePassage_def text'_def)
  next
    case ne: False
    have cp: "ComposePassage spec c = replaceAll (es_PassageTemplate spec) PlaceholderPassage text'"
      using False ne by (simp add: ComposePassage_def text'_def)
    have three: "length PlaceholderPassage = 3" "PlaceholderPassage \<noteq> []"
      by (simp_all add: PlaceholderPassage_def)
    obtain n where "n \<le> 1" "length (ComposePassage spec c) + n * 3 = length (es_PassageTemplate spec) + n * length text'"
      using replaceAll_length [of PlaceholderPassage "es_PassageTemplate spec" text'] one(1) cp three
      by (metis le_trans)
    then show ?thesis using l t by (cases n) auto
  qed
qed

text \<open>
  The chunker's budget is the embedder's: for a spec that \<open>Validate\<close> accepts and whose template
  uses each placeholder at most once, every chunk cut for the spec's ceiling composes to a passage
  within that ceiling, as long as the heading path leaves the 64 bytes the chunker insists on.
\<close>

theorem passage_within_ceiling:
  assumes "Validate spec = None" "0 < es_CeilingTokens spec" "es_CeilingTokens spec < 2 ^ 60"
    and "occurrences (es_PassageTemplate spec) PlaceholderPassage \<le> 1"
    and "occurrences (es_PassageTemplate spec) PlaceholderTitle \<le> 1"
    and "c \<in> set (chunks s (es_CeilingTokens spec))"
    and "int (length (ch_HeadingPath c)) + 64 \<le> es_CeilingTokens spec * BytesPerToken - TemplateReserveBytes"
  shows "int (length (ComposePassage spec c)) \<le> es_CeilingTokens spec * BytesPerToken"
proof -
  define base where "base = baseCeilingOf (es_CeilingTokens spec)"
  have base: "base = es_CeilingTokens spec * 4 - 256" "0 < base"
    using assms(2,3,7) by (simp_all add: base_def baseCeilingOf_def BytesPerToken_def prefixReserve_def TemplateReserveBytes_def)
  have "length (es_PassageTemplate spec) \<le> 256"
    using assms(1) by (auto simp: Validate_def TemplateReserveBytes_def split: if_splits)
  then have "length (ComposePassage spec c) \<le> 256 + length (ch_HeadingPath c) + length (ch_Text c)"
    using ComposePassage_length assms(4,5) chunk_nonempty [OF assms(6)] by blast
  moreover have "int (length (ch_Text c)) \<le> sectionCeiling base (ch_HeadingPath c)"
    using chunk_ceiling [OF assms(6)] base(2) by (simp add: base_def)
  moreover have "sectionCeiling base (ch_HeadingPath c) = base - int (length (ch_HeadingPath c))"
    using base assms(7) by (simp add: sectionCeiling_def BytesPerToken_def TemplateReserveBytes_def)
  ultimately show ?thesis using base(1) by (simp add: BytesPerToken_def)
qed

definition gemma_spec :: EmbeddingSpec where
  "gemma_spec = \<lparr>es_Model = ''m'', es_QueryTemplate = ''q: {q}'',
     es_PassageTemplate = ''title: {t} | text: {d}'', es_CeilingTokens = 80\<rparr>"

theorem passage_within_ceiling_witness:
  "int (length (ComposePassage gemma_spec (hd (chunks demo_text 80)))) \<le> 320"
proof -
  have "map ch_Text (chunks demo_text 80) \<noteq> []" by (simp only: demo_chunk_texts) simp
  then have m: "hd (chunks demo_text 80) \<in> set (chunks demo_text 80)" by auto
  have p: "ch_HeadingPath (hd (chunks demo_text 80)) = ''''" by code_simp
  have "Validate gemma_spec = None" by code_simp
  moreover have "occurrences (es_PassageTemplate gemma_spec) PlaceholderPassage \<le> 1"
    "occurrences (es_PassageTemplate gemma_spec) PlaceholderTitle \<le> 1" by code_simp+
  ultimately show ?thesis
    using passage_within_ceiling [of gemma_spec "hd (chunks demo_text 80)" demo_text] m p
    by (simp add: gemma_spec_def BytesPerToken_def TemplateReserveBytes_def)
qed

text \<open>
  The length check of \<open>Validate\<close> does not bound the composed passage when a placeholder repeats:
  an accepted template of six bytes takes a chunk that was cut for the spec's own ceiling over it.
\<close>

definition twice_spec :: EmbeddingSpec where
  "twice_spec = \<lparr>es_Model = ''m'', es_QueryTemplate = '''', es_PassageTemplate = ''{d}{d}'', es_CeilingTokens = 129\<rparr>"

theorem Validate_accepts_overflow:
  "Validate twice_spec = None \<and>
   (\<exists>c \<in> set (chunks (replicate 260 CHR ''a'') (es_CeilingTokens twice_spec)).
      int (length (ComposePassage twice_spec c)) > es_CeilingTokens twice_spec * BytesPerToken)"
  by code_simp

end
