(* ===== verification/Catalog.thy ===== *)
theory Catalog
  imports Domain
begin

text \<open>
  The catalog database (src/internal/adapters/sqlite): the tables of the schema in migrate.go,
  the transaction wrapper of store.go, and the well-formedness invariant every writer keeps.

  A table is a list of rows in no particular order; a \<open>SELECT\<close> is a \<open>filter\<close> and a sort, an
  \<open>UPDATE\<close> a \<open>map\<close>, a \<open>DELETE\<close> a \<open>filter\<close>. The schema's constraints (primary keys, the
  NULL exclusion, the foreign keys, UNIQUE) are checked where a statement could violate them.
  The \<open>meta\<close> table is kept as its three key families: \<open>vec_current\<close>, \<open>vec_table:<name>\<close>
  and \<open>discovery.mounts\<close>; a JSON value is the value it decodes to, or \<open>None\<close> when it does not.
\<close>

section \<open>Rows and tables (migrate.go, meta.go, vec.go)\<close>

record documentRow =
  d_path :: path
  d_hash :: "hash option"
  d_unread :: "UnreadReason option"
  d_size :: int
  d_mtime :: int

record contentRow =
  r_hash :: hash
  r_state :: ContentState
  r_stage :: "string \<rightharpoonup> string"
  r_attempts :: int
  r_next_retry :: "int option"
  r_last_error :: "string option"
  r_created :: int
  r_updated :: int

record chunkRow =
  k_id :: nat
  k_hash :: hash
  k_ordinal :: nat
  k_text :: string
  k_heading :: string
  k_start :: nat
  k_end :: nat

record vecDescriptor =
  vd_Model :: string
  vd_Dims :: int
  vd_Layout :: string
  vd_Metric :: string
  vd_QueryTemplate :: string
  vd_PassageTemplate :: string
  vd_CeilingTokens :: int

type_synonym vecRows = "(nat \<times> float32 list) list"

record DB =
  db_documents :: "documentRow list"
  db_content :: "contentRow list"
  db_chunks :: "chunkRow list"
  db_chunk_seq :: nat
  db_vec_tables :: "(string \<times> vecRows) list"
  db_vec_descs :: "(string \<times> vecDescriptor option) list"
  db_vec_current :: "string option"
  db_mounts :: "path list option option"

definition empty_db :: DB where
  "empty_db = \<lparr>db_documents = [], db_content = [], db_chunks = [], db_chunk_seq = 0,
     db_vec_tables = [], db_vec_descs = [], db_vec_current = None, db_mounts = None\<rparr>"

section \<open>Errors, the outside world, transactions (ports.go, store.go)\<close>

datatype StoreErr =
    ErrContentGone | ErrContentSuperseded | ErrNoVecTable | ErrScanStateCorrupt
  | ErrCtx | ErrStore string

text \<open>
  What the world answers to one call of the driver: the time of the call and whether it goes
  through, fails (any driver, disk or commit error) or finds the context cancelled. The script is
  arbitrary; past its end calls go through. Cancellation is sticky.
\<close>

datatype Answer = Ok | Fault string | Cancel

record Store =
  st_db :: DB
  st_world :: "(int \<times> Answer) list"
  st_now :: int
  st_done :: bool

definition driver :: "Store \<Rightarrow> StoreErr option \<times> Store" where
  "driver s =
     (if st_done s then (Some ErrCtx, s)
      else case st_world s of
        [] \<Rightarrow> (None, s)
      | (t, Ok) # w \<Rightarrow> (None, s\<lparr>st_world := w, st_now := t\<rparr>)
      | (t, Fault m) # w \<Rightarrow> (Some (ErrStore m), s\<lparr>st_world := w, st_now := t\<rparr>)
      | (t, Cancel) # w \<Rightarrow> (Some ErrCtx, s\<lparr>st_world := w, st_now := t, st_done := True\<rparr>))"

text \<open>
  \<open>withTx\<close> runs its body in one transaction: the driver answers once for the statements and once
  for the commit, and the database changes exactly when both went through and the body returned
  no error. The body sees the time of the call. A Go closure may assign to a variable outside it;
  \<open>withTxCap\<close> also returns what the body computed, whether or not the commit landed.
\<close>

definition withTxCap ::
  "(int \<Rightarrow> DB \<Rightarrow> StoreErr + DB \<times> 'a) \<Rightarrow> Store \<Rightarrow> (StoreErr option \<times> 'a option) \<times> Store" where
  "withTxCap body s =
     (case driver s of
        (Some e, s1) \<Rightarrow> ((Some e, None), s1)
      | (None, s1) \<Rightarrow>
          (case body (st_now s1) (st_db s1) of
             Inl e \<Rightarrow> ((Some e, None), s1)
           | Inr (db, a) \<Rightarrow>
               (case driver s1 of
                  (Some e, s2) \<Rightarrow> ((Some e, Some a), s2)
                | (None, s2) \<Rightarrow> ((None, Some a), s2\<lparr>st_db := db\<rparr>))))"

definition withTx :: "(int \<Rightarrow> DB \<Rightarrow> StoreErr + DB \<times> 'a) \<Rightarrow> Store \<Rightarrow> (StoreErr + 'a) \<times> Store" where
  "withTx body s =
     (case withTxCap body s of
        ((Some e, _), s') \<Rightarrow> (Inl e, s')
      | ((None, a), s') \<Rightarrow> (Inr (the a), s'))"

definition withReader :: "(DB \<Rightarrow> StoreErr + 'a) \<Rightarrow> Store \<Rightarrow> (StoreErr + 'a) \<times> Store" where
  "withReader query s =
     (case driver s of
        (Some e, s') \<Rightarrow> (Inl e, s')
      | (None, s') \<Rightarrow> (query (st_db s'), s'))"

text \<open>\<open>ctx.Err()\<close> between two calls: the context may have been cancelled meanwhile.\<close>

definition ctxErr :: "Store \<Rightarrow> bool \<times> Store" where
  "ctxErr s =
     (if st_done s then (True, s)
      else case st_world s of
        (t, Cancel) # w \<Rightarrow> (True, s\<lparr>st_world := w, st_now := t, st_done := True\<rparr>)
      | _ \<Rightarrow> (False, s))"

subsection \<open>Laws of the wrapper\<close>

lemma driver_db [simp]: "st_db (snd (driver s)) = st_db s"
  by (auto simp: driver_def split: list.splits Answer.splits)

lemma ctxErr_db [simp]: "st_db (snd (ctxErr s)) = st_db s"
  by (auto simp: ctxErr_def split: list.splits Answer.splits)

lemma driver_db_result: "driver s = (r, s') \<Longrightarrow> st_db s' = st_db s"
  using driver_db [of s] by simp

lemma withReader_db [simp]: "st_db (snd (withReader q s)) = st_db s"
  by (auto simp: withReader_def dest: driver_db_result split: prod.splits option.splits)

lemma withTxCap_cases:
  obtains (failed) e a s' where "withTxCap body s = ((Some e, a), s')" "st_db s' = st_db s"
  | (committed) t db a s' where "body t (st_db s) = Inr (db, a)"
      "withTxCap body s = ((None, Some a), s')" "st_db s' = db"
proof -
  obtain r s1 where d: "driver s = (r, s1)" by fastforce
  note db1 = driver_db_result [OF d]
  show ?thesis
  proof (cases r)
    case (Some e)
    show ?thesis by (rule failed [of e None s1]) (simp_all add: withTxCap_def d db1 Some)
  next
    case None
    note none = None
    show ?thesis
    proof (cases "body (st_now s1) (st_db s)")
      case (Inl e)
      show ?thesis by (rule failed [of e None s1]) (simp_all add: withTxCap_def d db1 None Inl)
    next
      case (Inr x)
      obtain r2 s2 where d2: "driver s1 = (r2, s2)" by fastforce
      note db2 = driver_db_result [OF d2]
      show ?thesis
      proof (cases r2)
        case (Some e)
        show ?thesis
          by (rule failed [of e "Some (snd x)" s2])
            (simp_all add: withTxCap_def d d2 db1 db2 none Some Inr split: prod.split)
      next
        case None
        show ?thesis
          by (rule committed [of "st_now s1" "fst x" "snd x" "s2\<lparr>st_db := fst x\<rparr>"])
            (simp_all add: withTxCap_def d d2 db1 db2 none None Inr split: prod.split)
      qed
    qed
  qed
qed

lemma withTx_cases:
  obtains (failed) e where "fst (withTx body s) = Inl e" "st_db (snd (withTx body s)) = st_db s"
  | (committed) t db a where "body t (st_db s) = Inr (db, a)"
      "fst (withTx body s) = Inr a" "st_db (snd (withTx body s)) = db"
  by (cases body s rule: withTxCap_cases) (auto simp: withTx_def)

lemma withTx_failed: "fst (withTx body s) = Inl e \<Longrightarrow> st_db (snd (withTx body s)) = st_db s"
  by (cases body s rule: withTx_cases) auto

lemma withTx_keeps:
  assumes "P (st_db s)"
    and "\<And>t db a. body t (st_db s) = Inr (db, a) \<Longrightarrow> P db"
  shows "P (st_db (snd (withTx body s)))"
  by (cases body s rule: withTx_cases) (use assms in auto)

text \<open>A quiet world: nothing fails and the context is live.\<close>

definition quiet :: "Store \<Rightarrow> bool" where
  "quiet s \<longleftrightarrow> \<not> st_done s \<and> (\<forall>(t, a) \<in> set (st_world s). a = Ok)"

lemma driver_quiet:
  assumes "quiet s"
  obtains s' where "driver s = (None, s')" "st_db s' = st_db s" "quiet s'"
proof (cases "st_world s")
  case Nil
  with assms that show ?thesis by (auto simp: driver_def quiet_def)
next
  case (Cons x w)
  with assms that show ?thesis by (cases x) (auto simp: driver_def quiet_def)
qed

lemma withTxCap_quiet:
  assumes "quiet s"
  obtains t s' where "quiet s'"
    "withTxCap body s =
      ((case body t (st_db s) of Inl e \<Rightarrow> (Some e, None) | Inr (db, a) \<Rightarrow> (None, Some a)), s')"
    "st_db s' = (case body t (st_db s) of Inl _ \<Rightarrow> st_db s | Inr (db, _) \<Rightarrow> db)"
proof -
  obtain s1 where s1: "driver s = (None, s1)" "st_db s1 = st_db s" "quiet s1"
    using driver_quiet [OF assms] .
  obtain s2 where s2: "driver s1 = (None, s2)" "st_db s2 = st_db s1" "quiet s2"
    using driver_quiet [OF s1(3)] .
  show ?thesis
  proof (cases "body (st_now s1) (st_db s1)")
    case (Inl e)
    show ?thesis
      by (rule that [of s1 "st_now s1"]) (use s1 Inl in \<open>simp_all add: withTxCap_def\<close>)
  next
    case (Inr x)
    show ?thesis
      by (rule that [of "s2\<lparr>st_db := fst x\<rparr>" "st_now s1"])
        (use s1 s2 Inr in \<open>auto simp: withTxCap_def quiet_def split: prod.split\<close>)
  qed
qed

lemma withTx_quiet:
  assumes "quiet s"
  obtains t where
    "fst (withTx body s) = map_sum id snd (body t (st_db s))"
    "st_db (snd (withTx body s)) = (case body t (st_db s) of Inl _ \<Rightarrow> st_db s | Inr (db, _) \<Rightarrow> db)"
    "quiet (snd (withTx body s))"
proof -
  obtain t s' where "quiet s'"
    "withTxCap body s =
      ((case body t (st_db s) of Inl e \<Rightarrow> (Some e, None) | Inr (db, a) \<Rightarrow> (None, Some a)), s')"
    "st_db s' = (case body t (st_db s) of Inl _ \<Rightarrow> st_db s | Inr (db, _) \<Rightarrow> db)"
    using withTxCap_quiet [OF assms] .
  then show ?thesis
    by (intro that [of t]) (auto simp: withTx_def split: sum.splits prod.splits)
qed

lemma withReader_quiet:
  assumes "quiet s"
  shows "fst (withReader q s) = q (st_db s)" and "quiet (snd (withReader q s))"
proof -
  obtain s' where "driver s = (None, s')" "st_db s' = st_db s" "quiet s'"
    using driver_quiet [OF assms] .
  then show "fst (withReader q s) = q (st_db s)" "quiet (snd (withReader q s))"
    by (simp_all add: withReader_def)
qed

section \<open>The contract of a store operation\<close>

text \<open>
  Every operation of the store is transactional: an error leaves the database as it was, and the
  invariant of the catalog is kept whatever the world answers.
\<close>

definition vecTableGen :: "string \<Rightarrow> string option" where
  "vecTableGen name =
     (if hasPrefix name ''vec_chunks_'' \<and> drop 11 name \<noteq> '''' \<and>
         (\<forall>c \<in> set (drop 11 name). CHR ''0'' \<le> c \<and> c \<le> CHR ''9'')
      then Some (drop 11 name) else None)"

definition chunk_ids :: "DB \<Rightarrow> nat set" where
  "chunk_ids db = k_id ` set (db_chunks db)"

definition hashes :: "DB \<Rightarrow> hash set" where
  "hashes db = r_hash ` set (db_content db)"

text \<open>A documents row: exactly one of the hash and the unread reason, and the hash is a content row's.\<close>

definition doc_row_ok :: "hash set \<Rightarrow> documentRow \<Rightarrow> bool" where
  "doc_row_ok H d \<longleftrightarrow>
     (d_hash d = None) \<noteq> (d_unread d = None) \<and> (\<forall>h. d_hash d = Some h \<longrightarrow> h \<in> H)"

definition documents_inv :: "DB \<Rightarrow> bool" where
  "documents_inv db \<longleftrightarrow>
     distinct (map d_path (db_documents db)) \<and>
     (\<forall>d \<in> set (db_documents db). doc_row_ok (hashes db) d)"

text \<open>A chunk row: its id has been handed out by the sequence, its content row exists.\<close>

definition chunk_row_ok :: "nat \<Rightarrow> hash set \<Rightarrow> chunkRow \<Rightarrow> bool" where
  "chunk_row_ok sq H k \<longleftrightarrow> k_id k \<le> sq \<and> k_hash k \<in> H"

definition content_inv :: "DB \<Rightarrow> bool" where
  "content_inv db \<longleftrightarrow>
     distinct (map r_hash (db_content db)) \<and> '''' \<notin> hashes db \<and>
     distinct (map k_id (db_chunks db)) \<and>
     distinct (map (\<lambda>k. (k_hash k, k_ordinal k)) (db_chunks db)) \<and>
     (\<forall>k \<in> set (db_chunks db). chunk_row_ok (db_chunk_seq db) (hashes db) k)"

text \<open>
  A vector table and its descriptor: the name is a generation name, the descriptor decodes, every
  vector has the descriptor's dimensions, and every row id is the id of a live chunk.
\<close>

definition vec_table_ok :: "nat set \<Rightarrow> string \<times> vecRows \<Rightarrow> string \<times> vecDescriptor option \<Rightarrow> bool" where
  "vec_table_ok ids tbl dsc \<longleftrightarrow>
     fst tbl = fst dsc \<and> vecTableGen (fst tbl) \<noteq> None \<and>
     distinct (map fst (snd tbl)) \<and> fst ` set (snd tbl) \<subseteq> ids \<and>
     (\<exists>d. snd dsc = Some d \<and> (\<forall>r \<in> set (snd tbl). int (length (snd r)) = vd_Dims d))"

definition vectors_inv :: "DB \<Rightarrow> bool" where
  "vectors_inv db \<longleftrightarrow>
     distinct (map fst (db_vec_tables db)) \<and>
     list_all2 (vec_table_ok (chunk_ids db)) (db_vec_tables db) (db_vec_descs db)"

definition catalog_inv :: "DB \<Rightarrow> bool" where
  "catalog_inv db \<longleftrightarrow> documents_inv db \<and> content_inv db \<and> vectors_inv db"

lemmas catalog_inv_defs = catalog_inv_def documents_inv_def content_inv_def vectors_inv_def
  chunk_ids_def hashes_def

lemma doc_row_ok_mono: "doc_row_ok H d \<Longrightarrow> H \<subseteq> H' \<Longrightarrow> doc_row_ok H' d"
  by (auto simp: doc_row_ok_def)

lemma chunk_row_ok_mono:
  "chunk_row_ok sq H k \<Longrightarrow> sq \<le> sq' \<Longrightarrow> H \<subseteq> H' \<Longrightarrow> chunk_row_ok sq' H' k"
  by (auto simp: chunk_row_ok_def)

lemma vec_table_ok_mono: "vec_table_ok ids t d \<Longrightarrow> ids \<subseteq> ids' \<Longrightarrow> vec_table_ok ids' t d"
  by (auto simp: vec_table_ok_def)

lemma catalog_inv_empty: "catalog_inv empty_db"
  by (simp add: catalog_inv_defs empty_db_def)

locale store_op =
  fixes op :: "Store \<Rightarrow> (StoreErr + 'a) \<times> Store"
  assumes keeps: "catalog_inv (st_db s) \<Longrightarrow> catalog_inv (st_db (snd (op s)))"
    and atomic: "fst (op s) = Inl e \<Longrightarrow> st_db (snd (op s)) = st_db s"
begin

lemma keeps_result: "op s = (r, s') \<Longrightarrow> catalog_inv (st_db s) \<Longrightarrow> catalog_inv (st_db s')"
  using keeps [of s] by simp

lemma atomic_result: "op s = (Inl e, s') \<Longrightarrow> st_db s' = st_db s"
  using atomic [of s e] by simp

end

lemma store_op_withTx:
  assumes "\<And>t db db' a. catalog_inv db \<Longrightarrow> body t db = Inr (db', a) \<Longrightarrow> catalog_inv db'"
  shows "store_op (withTx body)"
proof
  fix s :: Store
  assume "catalog_inv (st_db s)"
  then show "catalog_inv (st_db (snd (withTx body s)))"
    by (rule withTx_keeps) (use assms \<open>catalog_inv (st_db s)\<close> in blast)
next
  fix s :: Store and e
  assume "fst (withTx body s) = Inl e"
  then show "st_db (snd (withTx body s)) = st_db s" by (rule withTx_failed)
qed

lemma store_op_withReader: "store_op (withReader q)"
  by unfold_locales auto

lemma store_op_if:
  "(b \<Longrightarrow> store_op f) \<Longrightarrow> (\<not> b \<Longrightarrow> store_op g) \<Longrightarrow> store_op (\<lambda>s. if b then f s else g s)"
  by (cases b) simp_all

text \<open>An early return before any call of the driver.\<close>

lemma store_op_return: "store_op (\<lambda>s. (r, s))"
  by unfold_locales auto

section \<open>A small catalog\<close>

text \<open>
  A catalog with one document, two content rows (the second unreferenced), a chunk and a vector of
  each, on which the hypotheses of the properties are discharged.
\<close>

definition demo_content_row :: "hash \<Rightarrow> ContentState \<Rightarrow> contentRow" where
  "demo_content_row h state = \<lparr>r_hash = h, r_state = state, r_stage = Map.empty, r_attempts = 2,
     r_next_retry = None, r_last_error = None, r_created = 1, r_updated = 1\<rparr>"

definition demo_db :: DB where
  "demo_db = empty_db\<lparr>
     db_documents := [\<lparr>d_path = ''/a'', d_hash = Some ''h1'', d_unread = None, d_size = 3, d_mtime = 7\<rparr>,
                      \<lparr>d_path = ''/u'', d_hash = None, d_unread = Some UnreadDenied, d_size = 3, d_mtime = 7\<rparr>],
     db_content := [demo_content_row ''h1'' Discovered, demo_content_row ''h2'' Indexed],
     db_chunks := [\<lparr>k_id = 1, k_hash = ''h1'', k_ordinal = 0, k_text = ''x'', k_heading = '''', k_start = 0, k_end = 1\<rparr>,
                   \<lparr>k_id = 2, k_hash = ''h2'', k_ordinal = 0, k_text = ''y'', k_heading = '''', k_start = 0, k_end = 1\<rparr>],
     db_chunk_seq := 2,
     db_vec_tables := [(''vec_chunks_1'', [(1, [0, 1]), (2, [1, 0])])],
     db_vec_descs := [(''vec_chunks_1'', Some \<lparr>vd_Model = ''m'', vd_Dims = 2, vd_Layout = ''float32'',
       vd_Metric = ''cosine'', vd_QueryTemplate = '''', vd_PassageTemplate = '''', vd_CeilingTokens = 0\<rparr>)],
     db_vec_current := Some ''vec_chunks_1''\<rparr>"

definition demo_store :: "DB \<Rightarrow> Store" where
  "demo_store db = \<lparr>st_db = db, st_world = [], st_now = 10, st_done = False\<rparr>"

lemma quiet_demo [simp]: "quiet (demo_store db)"
  by (simp add: quiet_def demo_store_def)

lemma st_db_demo [simp]: "st_db (demo_store db) = db"
  by (simp add: demo_store_def)

lemma catalog_inv_demo: "catalog_inv demo_db"
  by (simp add: catalog_inv_defs demo_db_def demo_content_row_def empty_db_def doc_row_ok_def
      chunk_row_ok_def vec_table_ok_def vecTableGen_def hasPrefix_def)

end
