(* ===== verification/Outside.thy ===== *)
theory Outside
  imports Catalog
begin

text \<open>
  What surrounds the components: the world they act on (the store, and a count of the calls made to
  the file system, the embedding service, the clock), the errors a file system answers with, and the
  contract of an operation on that world.

  An answer from outside is a function of the number of calls made so far and of its arguments, so
  any history of answers is allowed and the same question may be answered differently later.
\<close>

section \<open>The world\<close>

datatype FsErr = FsNotExist | FsPermission | FsOther string

record World =
  w_store :: Store
  w_tick :: nat

definition tick :: "World \<Rightarrow> World" where
  "tick w = w\<lparr>w_tick := Suc (w_tick w)\<rparr>"

definition onStore :: "(Store \<Rightarrow> 'a \<times> Store) \<Rightarrow> World \<Rightarrow> 'a \<times> World" where
  "onStore f w = (case f (w_store w) of (r, s) \<Rightarrow> (r, w\<lparr>w_store := s\<rparr>))"

abbreviation wdb :: "World \<Rightarrow> DB" where "wdb w \<equiv> st_db (w_store w)"

section \<open>Operations on the world\<close>

text \<open>The contract of whatever moves the world: the catalog's invariant survives it.\<close>

locale world_op =
  fixes op :: "World \<Rightarrow> 'a \<times> World"
  assumes keeps: "catalog_inv (wdb w) \<Longrightarrow> catalog_inv (wdb (snd (op w)))"
begin

lemma keeps_result: "op w = (r, w') \<Longrightarrow> catalog_inv (wdb w) \<Longrightarrow> catalog_inv (wdb w')"
  using keeps [of w] by simp

end

sublocale store_op \<subseteq> lifted: world_op "onStore op"
  by unfold_locales (auto simp: onStore_def split: prod.splits dest: keeps_result)

lemma tick_db [simp]: "wdb (tick w) = wdb w"
  by (simp add: tick_def)

lemma world_op_return: "world_op (\<lambda>w. (f w, w))"
  by unfold_locales simp

lemma world_op_tick: "world_op op \<Longrightarrow> world_op (\<lambda>w. op (tick w))"
  by (simp add: world_op_def)

lemma world_op_bind: "world_op f \<Longrightarrow> (\<And>r. world_op (g r)) \<Longrightarrow> world_op (\<lambda>w. case f w of (r, w') \<Rightarrow> g r w')"
  by (fastforce simp: world_op_def split: prod.splits)

lemma onStore_ctxErr_db: "onStore ctxErr w = (b, w') \<Longrightarrow> wdb w' = wdb w"
  by (cases "ctxErr (w_store w)") (use ctxErr_db [of "w_store w"] in \<open>auto simp: onStore_def\<close>)

lemma world_op_ctxErr: "world_op (onStore ctxErr)"
  by unfold_locales (metis onStore_ctxErr_db prod.collapse)

section \<open>A transaction seen from the outside\<close>

lemma driver_error: "driver s = (Some e, s') \<Longrightarrow> e = ErrCtx \<or> (\<exists>m. e = ErrStore m)"
  by (auto simp: driver_def split: if_splits list.splits Answer.splits)

lemma withTx_error:
  "fst (withTx body s) = Inl e \<Longrightarrow> (\<exists>t. body t (st_db s) = Inl e) \<or> e = ErrCtx \<or> (\<exists>m. e = ErrStore m)"
  by (auto simp: withTx_def withTxCap_def split: prod.splits option.splits sum.splits
      dest: driver_error driver_db_result)

lemma onStore_tx:
  assumes "onStore (withTx body) w = (r, w')"
  obtains (failed) e where "r = Inl e" "wdb w' = wdb w"
      "(\<exists>t. body t (wdb w) = Inl e) \<or> e = ErrCtx \<or> (\<exists>m. e = ErrStore m)"
  | (committed) t a where "r = Inr a" "body t (wdb w) = Inr (wdb w', a)"
proof (cases body "w_store w" rule: withTx_cases)
  case (failed e)
  have "r = Inl e" "wdb w' = wdb w" using failed assms by (auto simp: onStore_def split: prod.splits)
  then show ?thesis using that(1) withTx_error [OF failed(1)] by blast
next
  case (committed t wdb' a)
  then show ?thesis using assms that(2) by (auto simp: onStore_def split: prod.splits)
qed

lemma withReader_result:
  "withReader q s = (r, s') \<Longrightarrow> st_db s' = st_db s \<and> ((\<exists>e. r = Inl e) \<or> r = q (st_db s))"
  by (auto simp: withReader_def dest: driver_db_result split: prod.splits option.splits)

lemma onStore_fails:
  "store_op f \<Longrightarrow> onStore f w = (Inl e, w') \<Longrightarrow> wdb w' = wdb w"
  using store_op.atomic [of f "w_store w" e] by (auto simp: onStore_def split: prod.splits)

end
