(* ===== verification/Documents.thy ===== *)
theory Documents
  imports Outside
begin

text \<open>
  The documents half of the store (store.go): \<open>UpsertDocuments\<close>, \<open>GetByPath\<close>, the two
  deletions, the catalog cursor \<open>ListPaths\<close> and the remembered mounts. The map
  \<open>doc_map\<close> from paths to rows is the abstract view; each operation is proved to be the
  corresponding operation on the map.
\<close>

section \<open>Upsert (store.go: UpsertDocuments)\<close>

definition nullable :: "string \<Rightarrow> string option" where
  "nullable s = (if s = '''' then None else Some s)"

definition upsert_by :: "('r \<Rightarrow> 'k) \<Rightarrow> 'r \<Rightarrow> ('r \<Rightarrow> 'r) \<Rightarrow> 'r list \<Rightarrow> 'r list" where
  "upsert_by key new upd rows =
     (if key new \<in> key ` set rows then map (\<lambda>r. if key r = key new then upd r else r) rows
      else rows @ [new])"

definition insContent :: "int \<Rightarrow> hash \<Rightarrow> DB \<Rightarrow> DB" where
  "insContent now h db =
     db\<lparr>db_content :=
       upsert_by r_hash
         \<lparr>r_hash = h, r_state = Discovered, r_stage = Map.empty, r_attempts = 0,
          r_next_retry = None, r_last_error = None, r_created = now, r_updated = now\<rparr>
         (\<lambda>r. if \<not> Terminal (r_state r) then r\<lparr>r_updated := now\<rparr> else r)
         (db_content db)\<rparr>"

definition toRow :: "Document \<Rightarrow> documentRow" where
  "toRow doc = \<lparr>d_path = doc_Path doc, d_hash = nullable (doc_ContentHash doc),
     d_unread = doc_UnreadReason doc, d_size = doc_Size doc, d_mtime = doc_MTime doc\<rparr>"

definition insDoc :: "Document \<Rightarrow> DB \<Rightarrow> StoreErr + DB" where
  "insDoc doc db =
     (let row = toRow doc in
      if (d_hash row = None) = (d_unread row = None) then Inl (ErrStore ''CHECK constraint failed'')
      else if \<exists>h. d_hash row = Some h \<and> h \<notin> hashes db then Inl (ErrStore ''FOREIGN KEY constraint failed'')
      else Inr (db\<lparr>db_documents := upsert_by d_path row (\<lambda>_. row) (db_documents db)\<rparr>))"

lemma insDoc_code [code]:
  "insDoc doc db =
     (let row = toRow doc in
      if (d_hash row = None) = (d_unread row = None) then Inl (ErrStore ''CHECK constraint failed'')
      else if (case d_hash row of None \<Rightarrow> False | Some h \<Rightarrow> h \<notin> hashes db) then Inl (ErrStore ''FOREIGN KEY constraint failed'')
      else Inr (db\<lparr>db_documents := upsert_by d_path row (\<lambda>_. row) (db_documents db)\<rparr>))"
  by (auto simp: insDoc_def Let_def split: option.splits)

fun upsertDocs :: "Document list \<Rightarrow> int \<Rightarrow> DB \<Rightarrow> StoreErr + DB \<times> unit" where
  "upsertDocs [] now db = Inr (db, ())"
| "upsertDocs (doc # docs) now db =
     (let db1 = (if doc_ContentHash doc \<noteq> '''' then insContent now (doc_ContentHash doc) db else db)
      in case insDoc doc db1 of
           Inl e \<Rightarrow> Inl e
         | Inr db2 \<Rightarrow> upsertDocs docs now db2)"

definition UpsertDocuments :: "Document list \<Rightarrow> Store \<Rightarrow> (StoreErr + unit) \<times> Store" where
  "UpsertDocuments docs s =
     (if docs = [] then (Inr (), s) else withTx (upsertDocs docs) s)"

section \<open>Lookup (store.go: GetByPath, meta.go: documentRow)\<close>

definition fromRow :: "documentRow \<Rightarrow> Document" where
  "fromRow row = \<lparr>doc_Path = d_path row,
     doc_ContentHash = (case d_hash row of None \<Rightarrow> '''' | Some h \<Rightarrow> h),
     doc_UnreadReason = d_unread row, doc_Size = d_size row, doc_MTime = d_mtime row\<rparr>"

definition GetByPath :: "path \<Rightarrow> Store \<Rightarrow> (StoreErr + Document option) \<times> Store" where
  "GetByPath path =
     withReader (\<lambda>db. Inr (map_option fromRow (find (\<lambda>r. d_path r = path) (db_documents db))))"

section \<open>Deletion (store.go: DeleteByPathPrefix, DeleteByPaths)\<close>

definition delete_docs :: "(path \<Rightarrow> bool) \<Rightarrow> int \<Rightarrow> DB \<Rightarrow> StoreErr + DB \<times> nat" where
  "delete_docs P now db =
     Inr (db\<lparr>db_documents := filter (\<lambda>r. \<not> P (d_path r)) (db_documents db)\<rparr>,
          length (filter (\<lambda>r. P (d_path r)) (db_documents db)))"

definition DeleteByPathPrefix :: "path \<Rightarrow> Store \<Rightarrow> (StoreErr + nat) \<times> Store" where
  "DeleteByPathPrefix dir s =
     (let trimmed = trimRightSet dir ''/'' in
      if trimmed = '''' then (Inl (ErrStore ''refusing to purge the catalog''), s)
      else withTx (delete_docs
             (\<lambda>p. p = trimmed \<or> (p > trimmed @ ''/'' \<and> p < trimmed @ ''0''))) s)"

definition pathBatch :: nat where "pathBatch = 256"

function deleteChunks :: "path list \<Rightarrow> nat \<Rightarrow> Store \<Rightarrow> (nat \<times> StoreErr option) \<times> Store" where
  "deleteChunks paths removed s =
     (if paths = [] then ((removed, None), s)
      else case withTx (delete_docs (\<lambda>p. p \<in> set (take pathBatch paths))) s of
             (Inl e, s') \<Rightarrow> ((removed, Some e), s')
           | (Inr n, s') \<Rightarrow> deleteChunks (drop pathBatch paths) (removed + n) s')"
  by pat_completeness auto
termination
  by (relation "measure (\<lambda>(paths, n, s). length paths)") (auto simp: pathBatch_def)

declare deleteChunks.simps [simp del]

definition DeleteByPaths :: "path list \<Rightarrow> Store \<Rightarrow> (nat \<times> StoreErr option) \<times> Store" where
  "DeleteByPaths paths s =
     (if paths = [] then ((0, None), s)
      else if '''' \<in> set paths then ((0, Some (ErrStore ''refusing a batch containing an empty path'')), s)
      else deleteChunks paths 0 s)"

section \<open>Enumeration and remembered mounts (store.go: ListPaths, KnownMounts, SetKnownMounts)\<close>

definition ListPaths :: "path \<Rightarrow> nat \<Rightarrow> Store \<Rightarrow> (StoreErr + path list) \<times> Store" where
  "ListPaths after limit =
     withReader (\<lambda>db. Inr (take limit (sort (filter (\<lambda>p. p > after) (map d_path (db_documents db))))))"

definition KnownMounts :: "Store \<Rightarrow> (StoreErr + path list \<times> bool) \<times> Store" where
  "KnownMounts =
     withReader (\<lambda>db. case db_mounts db of
        None \<Rightarrow> Inr ([], False)
      | Some None \<Rightarrow> Inl ErrScanStateCorrupt
      | Some (Some mounts) \<Rightarrow> Inr (mounts, True))"

definition SetKnownMounts :: "path list \<Rightarrow> Store \<Rightarrow> (StoreErr + unit) \<times> Store" where
  "SetKnownMounts mounts = withTx (\<lambda>now db. Inr (db\<lparr>db_mounts := Some (Some mounts)\<rparr>, ()))"

section \<open>The abstract view\<close>

definition doc_map :: "DB \<Rightarrow> path \<rightharpoonup> documentRow" where
  "doc_map db = map_of (map (\<lambda>r. (d_path r, r)) (db_documents db))"

lemma keys_upsert_by:
  assumes "\<And>r. key r = key new \<Longrightarrow> key (upd r) = key r"
  shows "map key (upsert_by key new upd rows) =
    (if key new \<in> set (map key rows) then map key rows else map key rows @ [key new])"
  using assms by (simp add: upsert_by_def)

lemma keys_upsert_by':
  assumes "\<And>r. key r = key new \<Longrightarrow> key (upd r) = key r"
  shows "distinct (map key rows) \<Longrightarrow> distinct (map key (upsert_by key new upd rows))"
    and "key ` set (upsert_by key new upd rows) = insert (key new) (key ` set rows)"
proof -
  note keys = keys_upsert_by [of key new upd rows, OF assms]
  show "distinct (map key rows) \<Longrightarrow> distinct (map key (upsert_by key new upd rows))"
    by (subst keys) simp_all
  have "set (map key (upsert_by key new upd rows)) = insert (key new) (set (map key rows))"
    by (subst keys) auto
  then show "key ` set (upsert_by key new upd rows) = insert (key new) (key ` set rows)"
    by simp
qed

lemma find_map_of:
  "find (\<lambda>r. f r = k) rows = map_of (map (\<lambda>r. (f r, r)) rows) k"
  by (induction rows) auto

lemma doc_map_find: "find (\<lambda>r. d_path r = p) (db_documents db) = doc_map db p"
  by (simp add: doc_map_def find_map_of)

lemma map_of_upsert:
  assumes "\<And>r. key r = key new \<Longrightarrow> upd r = new"
  shows "map_of (map (\<lambda>r. (key r, r)) (upsert_by key new upd rows)) =
    (map_of (map (\<lambda>r. (key r, r)) rows))(key new \<mapsto> new)"
proof (cases "key new \<in> key ` set rows")
  case True
  have "map_of (map (\<lambda>r. (key r, r)) (map (\<lambda>r. if key r = key new then upd r else r) rows)) k =
      ((map_of (map (\<lambda>r. (key r, r)) rows))(key new \<mapsto> new)) k"
    if "k \<noteq> key new \<or> key new \<in> key ` set rows" for k
    using that by (induction rows) (auto simp: assms)
  with True show ?thesis by (auto simp: upsert_by_def)
next
  case False
  then have "map_of (map (\<lambda>r. (key r, r)) rows) (key new) = None"
    by (auto simp: map_of_eq_None_iff)
  with False show ?thesis by (auto simp: upsert_by_def map_add_def split: option.splits)
qed

lemma map_of_filter_keys:
  "map_of (map (\<lambda>r. (key r, r)) (filter (\<lambda>r. P (key r)) rows)) =
    map_of (map (\<lambda>r. (key r, r)) rows) |` {k. P k}"
  by (rule ext, induction rows) (auto simp: restrict_map_def)

lemma doc_map_delete:
  "delete_docs P now db = Inr (db', n) \<Longrightarrow> doc_map db' = doc_map db |` {p. \<not> P p}"
  using map_of_filter_keys [of d_path "\<lambda>p. \<not> P p" "db_documents db"]
  by (auto simp: delete_docs_def doc_map_def)

section \<open>The invariant is kept\<close>

lemma hashes_insContent: "hashes (insContent now h db) = insert h (hashes db)"
  unfolding hashes_def insContent_def by (simp, subst keys_upsert_by'(2)) auto

lemma insContent_frame [simp]:
  "db_documents (insContent now h db) = db_documents db"
  "db_chunks (insContent now h db) = db_chunks db"
  "db_chunk_seq (insContent now h db) = db_chunk_seq db"
  "db_vec_tables (insContent now h db) = db_vec_tables db"
  "db_vec_descs (insContent now h db) = db_vec_descs db"
  "chunk_ids (insContent now h db) = chunk_ids db"
  by (simp_all add: insContent_def chunk_ids_def)

lemma catalog_inv_insContent:
  assumes "catalog_inv db" "h \<noteq> ''''"
  shows "catalog_inv (insContent now h db)"
proof -
  have "distinct (map r_hash (db_content (insContent now h db)))"
    unfolding insContent_def using assms
    by (simp, intro keys_upsert_by'(1)) (auto simp: catalog_inv_def content_inv_def)
  then show ?thesis
    using assms
    by (auto simp: catalog_inv_def documents_inv_def content_inv_def vectors_inv_def
        hashes_insContent intro: doc_row_ok_mono chunk_row_ok_mono)
qed

lemma catalog_inv_insDoc:
  assumes inv: "catalog_inv db" and ins: "insDoc doc db = Inr db'"
  shows "catalog_inv db'"
proof -
  let ?row = "toRow doc"
  have db': "db' = db\<lparr>db_documents := upsert_by d_path ?row (\<lambda>_. ?row) (db_documents db)\<rparr>"
    and ok: "(d_hash ?row = None) \<noteq> (d_unread ?row = None)"
      "\<And>h. d_hash ?row = Some h \<Longrightarrow> h \<in> hashes db"
    using ins by (auto simp: insDoc_def Let_def split: if_splits)
  have rows: "set (upsert_by d_path ?row (\<lambda>_. ?row) (db_documents db)) \<subseteq>
      insert ?row (set (db_documents db))"
    by (auto simp: upsert_by_def split: if_splits)
  have "distinct (map d_path (upsert_by d_path ?row (\<lambda>_. ?row) (db_documents db)))"
    by (rule keys_upsert_by'(1)) (use inv in \<open>simp_all add: catalog_inv_def documents_inv_def\<close>)

  moreover have "doc_row_ok (hashes db) ?row"
    using ok by (auto simp: doc_row_ok_def)
  ultimately have "documents_inv db'"
    using inv rows by (auto simp: documents_inv_def catalog_inv_def db' hashes_def)
  then show ?thesis
    using inv by (simp add: db' catalog_inv_def content_inv_def vectors_inv_def hashes_def chunk_ids_def)
qed

lemma catalog_inv_upsertDocs:
  "catalog_inv db \<Longrightarrow> upsertDocs docs now db = Inr (db', u) \<Longrightarrow> catalog_inv db'"
proof (induction docs arbitrary: db)
  case (Cons doc docs)
  let ?db1 = "if doc_ContentHash doc \<noteq> '''' then insContent now (doc_ContentHash doc) db else db"
  obtain db2 where ins: "insDoc doc ?db1 = Inr db2" and rest: "upsertDocs docs now db2 = Inr (db', u)"
    using Cons.prems(2) by (simp add: Let_def split: sum.splits)
  have "catalog_inv ?db1" using Cons.prems(1) by (simp add: catalog_inv_insContent)
  from Cons.IH [OF catalog_inv_insDoc [OF this ins] rest] show ?case .
qed simp

lemma catalog_inv_delete_docs:
  "catalog_inv db \<Longrightarrow> delete_docs P now db = Inr (db', n) \<Longrightarrow> catalog_inv db'"
  by (auto simp: delete_docs_def catalog_inv_defs distinct_map_filter)

interpretation upsertDocuments: store_op "UpsertDocuments docs" for docs
proof -
  show "store_op (UpsertDocuments docs)"
    unfolding UpsertDocuments_def
    by (cases "docs = []")
      (auto intro!: store_op_return store_op_withTx dest: catalog_inv_upsertDocs)
qed

interpretation getByPath: store_op "GetByPath path" for path
  unfolding GetByPath_def by (rule store_op_withReader)

interpretation deleteByPathPrefix: store_op "DeleteByPathPrefix dir" for dir
proof -
  show "store_op (DeleteByPathPrefix dir)"
    unfolding DeleteByPathPrefix_def Let_def
    by (cases "trimRightSet dir ''/'' = ''''")
      (auto intro!: store_op_return store_op_withTx dest: catalog_inv_delete_docs)
qed

interpretation listPaths: store_op "ListPaths after limit" for after limit
  unfolding ListPaths_def by (rule store_op_withReader)

interpretation knownMounts: store_op KnownMounts
  unfolding KnownMounts_def by (rule store_op_withReader)

interpretation setKnownMounts: store_op "SetKnownMounts mounts" for mounts
  unfolding SetKnownMounts_def
  by (rule store_op_withTx) (auto simp: catalog_inv_defs)

section \<open>What an upsert does\<close>

definition content_map :: "DB \<Rightarrow> hash \<rightharpoonup> contentRow" where
  "content_map db = map_of (map (\<lambda>r. (r_hash r, r)) (db_content db))"

lemma content_map_find: "find (\<lambda>r. r_hash r = h) (db_content db) = content_map db h"
  by (simp add: content_map_def find_map_of)

lemma content_map_None: "content_map db h = None \<longleftrightarrow> h \<notin> hashes db"
  by (auto simp: content_map_def hashes_def map_of_eq_None_iff image_image)

lemma content_map_hash: "content_map db h = Some r \<Longrightarrow> r_hash r = h \<and> r \<in> set (db_content db)"
  unfolding content_map_def by (drule map_of_SomeD) auto

lemma content_map_row:
  "distinct (map r_hash (db_content db)) \<Longrightarrow> r \<in> set (db_content db) \<Longrightarrow>
   content_map db (r_hash r) = Some r"
  unfolding content_map_def by (rule map_of_is_SomeI) (auto simp: comp_def)

text \<open>The row a re-discovery leaves behind: a new row, a bumped row, or the terminal row as it was.\<close>

fun rediscovered :: "int \<Rightarrow> hash \<Rightarrow> contentRow option \<Rightarrow> contentRow" where
  "rediscovered now h None =
     \<lparr>r_hash = h, r_state = Discovered, r_stage = Map.empty, r_attempts = 0,
      r_next_retry = None, r_last_error = None, r_created = now, r_updated = now\<rparr>"
| "rediscovered now h (Some r) = (if Terminal (r_state r) then r else r\<lparr>r_updated := now\<rparr>)"

lemma map_of_map_update:
  assumes "\<And>r. key (f r) = key r"
  shows "map_of (map (\<lambda>r. (key r, r)) (map (\<lambda>r. if key r = k then f r else r) rows)) =
    (\<lambda>x. map_option (if x = k then f else id) (map_of (map (\<lambda>r. (key r, r)) rows) x))"
  by (rule ext, induction rows) (auto simp: assms)

lemma content_map_insContent:
  "content_map (insContent now h db) = (content_map db)(h \<mapsto> rediscovered now h (content_map db h))"
proof (cases "content_map db h")
  case None
  then have "h \<notin> r_hash ` set (db_content db)"
    by (simp add: content_map_None hashes_def)
  then show ?thesis
    using None by (auto simp: content_map_def insContent_def upsert_by_def map_add_def split: option.splits)
next
  case (Some r)
  then have h: "h \<in> r_hash ` set (db_content db)"
    by (metis content_map_None hashes_def option.distinct(1))
  let ?f = "\<lambda>r. if \<not> Terminal (r_state r) then r\<lparr>r_updated := now\<rparr> else r"
  have "content_map (insContent now h db) =
      (\<lambda>x. map_option (if x = h then ?f else id) (content_map db x))"
    using map_of_map_update [of r_hash ?f h "db_content db"] h
    by (simp add: content_map_def insContent_def upsert_by_def)
  then show ?thesis using Some by (auto simp: fun_eq_iff option.map_id)
qed

definition doc_hashes :: "Document list \<Rightarrow> hash set" where
  "doc_hashes docs = {doc_ContentHash d | d. d \<in> set docs \<and> doc_ContentHash d \<noteq> ''''}"

text \<open>A document that carries either a hash or a reason, as discovery builds them.\<close>

definition exclusive :: "Document \<Rightarrow> bool" where
  "exclusive d \<longleftrightarrow> (doc_ContentHash d = '''') \<noteq> (doc_UnreadReason d = None)"

lemma rediscovered_twice:
  "rediscovered now h (Some (rediscovered now h r)) = rediscovered now h r"
  by (cases r) auto

lemma insDoc_ok:
  assumes "exclusive doc" "doc_ContentHash doc \<noteq> '''' \<Longrightarrow> doc_ContentHash doc \<in> hashes db"
  shows "insDoc doc db =
    Inr (db\<lparr>db_documents := upsert_by d_path (toRow doc) (\<lambda>_. toRow doc) (db_documents db)\<rparr>)"
  using assms by (auto simp: insDoc_def Let_def exclusive_def toRow_def nullable_def)

lemma doc_map_insDoc:
  "insDoc doc db = Inr db' \<Longrightarrow> doc_map db' = (doc_map db)(doc_Path doc \<mapsto> toRow doc)"
  using map_of_upsert [of d_path "toRow doc" "\<lambda>_. toRow doc" "db_documents db"]
  by (auto simp: insDoc_def Let_def doc_map_def toRow_def split: if_splits)

lemma insDoc_frame:
  "insDoc doc db = Inr db' \<Longrightarrow> content_map db' = content_map db \<and> hashes db' = hashes db"
  by (auto simp: insDoc_def Let_def content_map_def hashes_def split: if_splits)

lemma upsertDocs_spec:
  assumes "\<forall>d \<in> set docs. exclusive d"
  obtains db' where "upsertDocs docs now db = Inr (db', ())"
    and "doc_map db' = doc_map db ++ map_of (rev (map (\<lambda>d. (doc_Path d, toRow d)) docs))"
    and "content_map db' = (\<lambda>h. if h \<in> doc_hashes docs
           then Some (rediscovered now h (content_map db h)) else content_map db h)"
  using assms
proof (induction docs arbitrary: db thesis)
  case Nil
  show ?case by (rule Nil.prems(1)) (simp_all add: doc_hashes_def)
next
  case (Cons doc docs)
  let ?h = "doc_ContentHash doc"
  let ?db1 = "if ?h \<noteq> '''' then insContent now ?h db else db"
  have "?h \<noteq> '''' \<Longrightarrow> ?h \<in> hashes ?db1" by (simp add: hashes_insContent)
  then obtain db2 where ins: "insDoc doc ?db1 = Inr db2"
    using insDoc_ok [of doc ?db1] Cons.prems(2) by auto
  obtain db' where db': "upsertDocs docs now db2 = Inr (db', ())"
    "doc_map db' = doc_map db2 ++ map_of (rev (map (\<lambda>d. (doc_Path d, toRow d)) docs))"
    "content_map db' = (\<lambda>h. if h \<in> doc_hashes docs
           then Some (rediscovered now h (content_map db2 h)) else content_map db2 h)"
    using Cons.IH [of db2] Cons.prems(2) by auto
  have docs: "doc_map db2 = (doc_map db)(doc_Path doc \<mapsto> toRow doc)"
    using doc_map_insDoc [OF ins] by (simp add: doc_map_def split: if_splits)
  have content: "content_map db2 =
      (if ?h \<noteq> '''' then (content_map db)(?h \<mapsto> rediscovered now ?h (content_map db ?h)) else content_map db)"
    using insDoc_frame [OF ins] by (simp add: content_map_insContent)
  have hs: "doc_hashes (doc # docs) = (if ?h \<noteq> '''' then insert ?h (doc_hashes docs) else doc_hashes docs)"
    by (auto simp: doc_hashes_def)
  show ?case
  proof (rule Cons.prems(1) [of db'], goal_cases)
    case 1
    show ?case using ins db'(1) by (simp add: Let_def)
  next
    case 2
    show ?case using db'(2) docs by (simp add: map_add_upd_left map_add_def fun_eq_iff split: option.split)
  next
    case 3
    show ?case unfolding db'(3) content hs by (auto simp: fun_eq_iff rediscovered_twice simp del: rediscovered.simps)
  qed
qed

section \<open>Which paths a deletion removes\<close>

text \<open>
  \<open>'/'\<close> and \<open>'0'\<close> are adjacent bytes, so the strings between \<open>dir + "/"\<close> and \<open>dir + "0"\<close> are
  those that start with \<open>dir + "/"\<close> and go on.
\<close>

lemma char_between: "CHR ''/'' \<le> c \<Longrightarrow> c < CHR ''0'' \<Longrightarrow> c = CHR ''/''"
  by (simp add: less_eq_char_def less_char_def of_char_eq_iff [symmetric, where 'a = nat] del: of_char_eq_iff)

lemma range_is_prefix:
  "(dir @ ''/'' < p \<and> p < dir @ ''0'') \<longleftrightarrow> (\<exists>x. x \<noteq> [] \<and> p = dir @ ''/'' @ x)"
proof (induction dir arbitrary: p)
  case Nil
  show ?case
  proof (cases p)
    case (Cons c q)
    then show ?thesis
      using char_between [of c] by (cases q) (auto simp: less_eq_char_def less_char_def)
  qed simp
next
  case (Cons a dir)
  show ?case
  proof (cases p)
    case (Cons c q)
    then show ?thesis using Cons.IH [of q] by (auto dest: less_asym)
  qed simp
qed

lemma deleteChunks_spec:
  assumes "quiet s"
  shows "fst (deleteChunks paths removed s) =
      (removed + length (filter (\<lambda>r. d_path r \<in> set paths) (db_documents (st_db s))), None)"
    and "st_db (snd (deleteChunks paths removed s)) =
      (st_db s)\<lparr>db_documents := filter (\<lambda>r. d_path r \<notin> set paths) (db_documents (st_db s))\<rparr>"
    and "quiet (snd (deleteChunks paths removed s))"
proof -
  have "fst (deleteChunks paths removed s) =
      (removed + length (filter (\<lambda>r. d_path r \<in> set paths) (db_documents (st_db s))), None) \<and>
    st_db (snd (deleteChunks paths removed s)) =
      (st_db s)\<lparr>db_documents := filter (\<lambda>r. d_path r \<notin> set paths) (db_documents (st_db s))\<rparr> \<and>
    quiet (snd (deleteChunks paths removed s))"
    using assms
  proof (induction paths removed s rule: deleteChunks.induct)
    case (1 paths removed s)
    show ?case
    proof (cases "paths = []")
      case True
      with 1 show ?thesis by (simp add: deleteChunks.simps)
    next
      case False
      let ?A = "set (take pathBatch paths)" and ?B = "set (drop pathBatch paths)"
      let ?tx = "withTx (delete_docs (\<lambda>p. p \<in> ?A)) s"
      have AB: "set paths = ?A \<union> ?B" by (metis append_take_drop_id set_append)
      obtain n s' where tx: "?tx = (Inr n, s')"
        "n = length (filter (\<lambda>r. d_path r \<in> ?A) (db_documents (st_db s)))"
        "st_db s' = (st_db s)\<lparr>db_documents := filter (\<lambda>r. d_path r \<notin> ?A) (db_documents (st_db s))\<rparr>"
        "quiet s'"
        by (rule withTx_quiet [OF 1(2), of "delete_docs (\<lambda>p. p \<in> ?A)"])
          (cases ?tx, simp add: delete_docs_def)
      have len: "length (filter (\<lambda>r. d_path r \<in> ?A) rows) +
          length (filter (\<lambda>r. d_path r \<in> ?B \<and> d_path r \<notin> ?A) rows) =
          length (filter (\<lambda>r. d_path r \<in> set paths) rows)" for rows :: "documentRow list"
        by (induction rows) (auto simp: AB)
      have both: "filter (\<lambda>r. d_path r \<notin> ?B \<and> d_path r \<notin> ?A) rows =
          filter (\<lambda>r. d_path r \<notin> set paths) rows" for rows :: "documentRow list"
        by (rule filter_cong) (auto simp: AB)
      have "deleteChunks paths removed s = deleteChunks (drop pathBatch paths) (removed + n) s'"
        using False tx(1) by (simp add: deleteChunks.simps [of paths])
      with "1.IH" [OF False tx(1) [symmetric] refl tx(4)] tx(2,3) len show ?thesis
        by (simp add: conj_commute both add.assoc)
    qed
  qed
  then show "fst (deleteChunks paths removed s) =
      (removed + length (filter (\<lambda>r. d_path r \<in> set paths) (db_documents (st_db s))), None)"
    "st_db (snd (deleteChunks paths removed s)) =
      (st_db s)\<lparr>db_documents := filter (\<lambda>r. d_path r \<notin> set paths) (db_documents (st_db s))\<rparr>"
    "quiet (snd (deleteChunks paths removed s))" by auto
qed

section \<open>Properties\<close>

text \<open>
  C29: In a quiet world \<open>UpsertDocuments\<close> of documents that each carry a hash or an unread reason
  refines map update: afterwards the catalog maps every path of the batch to the row of its last
  document and every other path as before, each hash of the batch has a content row (a new one
  \<open>discovered\<close>, a non-terminal one bumped, a terminal one untouched), no other content row moves.
\<close>

theorem UpsertDocuments_refines:
  assumes "quiet s" "\<forall>d \<in> set docs. exclusive d"
  shows "\<exists>now. fst (UpsertDocuments docs s) = Inr () \<and>
    doc_map (st_db (snd (UpsertDocuments docs s))) =
      doc_map (st_db s) ++ map_of (rev (map (\<lambda>d. (doc_Path d, toRow d)) docs)) \<and>
    content_map (st_db (snd (UpsertDocuments docs s))) =
      (\<lambda>h. if h \<in> doc_hashes docs then Some (rediscovered now h (content_map (st_db s) h))
           else content_map (st_db s) h)"
proof (cases "docs = []")
  case True
  then show ?thesis by (simp add: UpsertDocuments_def doc_hashes_def)
next
  case False
  obtain now where res: "fst (withTx (upsertDocs docs) s) = map_sum id snd (upsertDocs docs now (st_db s))"
    "st_db (snd (withTx (upsertDocs docs) s)) =
      (case upsertDocs docs now (st_db s) of Inl _ \<Rightarrow> st_db s | Inr (db, _) \<Rightarrow> db)"
    using withTx_quiet [OF assms(1)] by metis
  obtain db' where "upsertDocs docs now (st_db s) = Inr (db', ())"
    and "doc_map db' = doc_map (st_db s) ++ map_of (rev (map (\<lambda>d. (doc_Path d, toRow d)) docs))"
    and "content_map db' = (\<lambda>h. if h \<in> doc_hashes docs
           then Some (rediscovered now h (content_map (st_db s) h)) else content_map (st_db s) h)"
    using upsertDocs_spec [OF assms(2)] .
  then show ?thesis using res False by (auto simp: UpsertDocuments_def)
qed

definition demo_docs :: "Document list" where
  "demo_docs = [\<lparr>doc_Path = ''/b'', doc_ContentHash = ''h3'', doc_UnreadReason = None, doc_Size = 1, doc_MTime = 5\<rparr>,
                \<lparr>doc_Path = ''/a'', doc_ContentHash = '''', doc_UnreadReason = Some UnreadDenied, doc_Size = 1, doc_MTime = 6\<rparr>]"

lemma demo_docs_exclusive: "\<forall>d \<in> set demo_docs. exclusive d"
  by (simp add: demo_docs_def exclusive_def)

theorem UpsertDocuments_refines_witness:
  "fst (UpsertDocuments demo_docs (demo_store demo_db)) = Inr ()"
  using UpsertDocuments_refines [OF quiet_demo demo_docs_exclusive] by auto

text \<open>
  What \<open>UpsertDocuments\<close> stores \<open>GetByPath\<close> reads back: after a batch with distinct paths in a
  quiet world, looking up the path of any document of the batch yields that document.
\<close>

lemma fromRow_toRow: "fromRow (toRow d) = d"
  by (simp add: fromRow_def toRow_def nullable_def)

lemma doc_map_upserted:
  assumes "quiet s" "\<forall>d \<in> set docs. exclusive d" "distinct (map doc_Path docs)" "d \<in> set docs"
  shows "doc_map (st_db (snd (UpsertDocuments docs s))) (doc_Path d) = Some (toRow d)"
proof -
  have "docs \<noteq> []" using assms(4) by auto
  obtain now where res: "st_db (snd (withTx (upsertDocs docs) s)) =
      (case upsertDocs docs now (st_db s) of Inl _ \<Rightarrow> st_db s | Inr (db, _) \<Rightarrow> db)"
    using withTx_quiet [OF assms(1)] by metis
  obtain db' where db': "upsertDocs docs now (st_db s) = Inr (db', ())"
    "doc_map db' = doc_map (st_db s) ++ map_of (rev (map (\<lambda>d. (doc_Path d, toRow d)) docs))"
    using upsertDocs_spec [OF assms(2)] by metis
  have "map_of (rev (map (\<lambda>d. (doc_Path d, toRow d)) docs)) (doc_Path d) = Some (toRow d)"
    using assms(3,4)
    by (intro map_of_is_SomeI) (auto simp: rev_map comp_def distinct_map simp flip: rev_map)
  then show ?thesis using res db' \<open>docs \<noteq> []\<close> by (simp add: UpsertDocuments_def)
qed

theorem upsert_get_roundtrip:
  assumes "quiet s" "\<forall>d \<in> set docs. exclusive d" "distinct (map doc_Path docs)" "d \<in> set docs"
    and "quiet s'" "st_db s' = st_db (snd (UpsertDocuments docs s))"
  shows "fst (GetByPath (doc_Path d) s') = Inr (Some d)"
  unfolding GetByPath_def withReader_quiet(1) [OF assms(5)]
  using doc_map_upserted [OF assms(1-4)] by (simp add: doc_map_find assms(6) fromRow_toRow)

theorem upsert_get_roundtrip_witness:
  "fst (GetByPath ''/a'' (demo_store (st_db (snd (UpsertDocuments demo_docs (demo_store demo_db)))))) =
     Inr (Some (demo_docs ! 1))"
proof -
  have "distinct (map doc_Path demo_docs)" "demo_docs ! 1 \<in> set demo_docs" "doc_Path (demo_docs ! 1) = ''/a''"
    by (simp_all add: demo_docs_def)
  then show ?thesis
    using upsert_get_roundtrip [OF quiet_demo demo_docs_exclusive, of "demo_docs ! 1"
        "demo_store (st_db (snd (UpsertDocuments demo_docs (demo_store demo_db))))"] by simp
qed

text \<open>
  In a quiet world \<open>DeleteByPathPrefix\<close> removes the document at \<open>dir\<close> (trailing separators
  dropped) and the documents whose path continues \<open>dir + "/"\<close>, and nothing else, and reports how
  many; a \<open>dir\<close> of separators only is refused and removes nothing.
\<close>

definition beneath :: "path \<Rightarrow> path \<Rightarrow> bool" where
  "beneath dir p \<longleftrightarrow> p = dir \<or> (\<exists>x. x \<noteq> [] \<and> p = dir @ ''/'' @ x)"

theorem DeleteByPathPrefix_within:
  assumes "quiet s"
  shows "if trimRightSet dir ''/'' = '''' then DeleteByPathPrefix dir s = (Inl (ErrStore ''refusing to purge the catalog''), s)
    else fst (DeleteByPathPrefix dir s) =
        Inr (length (filter (\<lambda>r. beneath (trimRightSet dir ''/'') (d_path r)) (db_documents (st_db s)))) \<and>
      st_db (snd (DeleteByPathPrefix dir s)) =
        (st_db s)\<lparr>db_documents := filter (\<lambda>r. \<not> beneath (trimRightSet dir ''/'') (d_path r)) (db_documents (st_db s))\<rparr>"
proof (cases "trimRightSet dir ''/'' = ''''")
  case False
  let ?d = "trimRightSet dir ''/''"
  have eq: "(\<lambda>p. p = ?d \<or> (p > ?d @ ''/'' \<and> p < ?d @ ''0'')) = beneath ?d"
    by (simp add: fun_eq_iff beneath_def range_is_prefix)
  show ?thesis
    using False unfolding DeleteByPathPrefix_def Let_def eq
    by (rule_tac withTx_quiet [OF assms, of "delete_docs (beneath ?d)"]) (simp add: delete_docs_def)
qed (simp add: DeleteByPathPrefix_def)

theorem DeleteByPathPrefix_within_witness:
  "fst (DeleteByPathPrefix ''/a/'' (demo_store demo_db)) = Inr 1"
proof -
  have "trimRightSet ''/a/'' ''/'' = ''/a''" by (simp add: trimRightSet_def)
  then show ?thesis
    using DeleteByPathPrefix_within [OF quiet_demo, of "''/a/''" demo_db]
    by (simp add: demo_db_def beneath_def)
qed

text \<open>
  In a quiet world \<open>DeleteByPaths\<close> on a list without the empty path removes exactly the
  documents stored under one of the named paths, whatever the number of 256-path transactions it
  takes, and reports how many rows went; content rows are untouched.
\<close>

theorem DeleteByPaths_exact:
  assumes "quiet s" "'''' \<notin> set paths"
  shows "fst (DeleteByPaths paths s) =
      (length (filter (\<lambda>r. d_path r \<in> set paths) (db_documents (st_db s))), None) \<and>
    st_db (snd (DeleteByPaths paths s)) =
      (st_db s)\<lparr>db_documents := filter (\<lambda>r. d_path r \<notin> set paths) (db_documents (st_db s))\<rparr>"
  using deleteChunks_spec [OF assms(1), of paths 0] assms(2)
  by (auto simp: DeleteByPaths_def)

theorem DeleteByPaths_exact_witness:
  "fst (DeleteByPaths [''/u'', ''/zz''] (demo_store demo_db)) = (1, None)"
  using DeleteByPaths_exact [OF quiet_demo, of "[''/u'', ''/zz'']" demo_db]
  by (simp add: demo_db_def)

end
