(* ===== verification/Contents.thy ===== *)
theory Contents
  imports Documents
begin

text \<open>
  The content half of the store (store.go): chunks and their vectors, the state changes of a
  content row, the work items, and the orphan sweep with its batches and its re-verification.
\<close>

section \<open>Vector tables as the writers see them (vec.go: listVecTables; store.go: deleteVectorsTx)\<close>

definition normalizeDesc :: "vecDescriptor \<Rightarrow> vecDescriptor" where
  "normalizeDesc d =
     (let d1 = (if vd_Layout d = '''' then d\<lparr>vd_Layout := ''float32''\<rparr> else d)
      in if vd_Metric d1 = '''' then d1\<lparr>vd_Metric := ''l2''\<rparr> else d1)"

definition listVecTables :: "DB \<Rightarrow> StoreErr + (string \<times> vecDescriptor) list" where
  "listVecTables db =
     (if \<exists>(name, desc) \<in> set (db_vec_descs db). vecTableGen name = None
      then Inl (ErrStore ''corrupt vec table key'')
      else if \<exists>(name, desc) \<in> set (db_vec_descs db). desc = None
      then Inl (ErrStore ''corrupt descriptor'')
      else Inr (map (\<lambda>(name, desc). (name, normalizeDesc (the desc))) (db_vec_descs db)))"

definition chunk_ids_of :: "hash \<Rightarrow> DB \<Rightarrow> nat set" where
  "chunk_ids_of h db = k_id ` {k \<in> set (db_chunks db). k_hash k = h}"

definition deleteVectorsTx :: "hash \<Rightarrow> DB \<Rightarrow> StoreErr + DB" where
  "deleteVectorsTx h db =
     (case listVecTables db of
        Inl e \<Rightarrow> Inl e
      | Inr tables \<Rightarrow>
          (if \<not> fst ` set tables \<subseteq> fst ` set (db_vec_tables db) then Inl (ErrStore ''no such table'')
           else Inr (db\<lparr>db_vec_tables :=
             map (\<lambda>(name, rows).
               (name, if name \<in> fst ` set tables
                      then filter (\<lambda>r. fst r \<notin> chunk_ids_of h db) rows else rows))
             (db_vec_tables db)\<rparr>)))"

section \<open>Chunks and state changes (store.go: StoreChunks, UpdateContentState, MarkFailed)\<close>

definition update_content :: "hash \<Rightarrow> (contentRow \<Rightarrow> contentRow) \<Rightarrow> DB \<Rightarrow> DB" where
  "update_content h f db =
     db\<lparr>db_content := map (\<lambda>r. if r_hash r = h then f r else r) (db_content db)\<rparr>"

definition deleteChunksOf :: "hash \<Rightarrow> DB \<Rightarrow> DB" where
  "deleteChunksOf h db = db\<lparr>db_chunks := filter (\<lambda>k. k_hash k \<noteq> h) (db_chunks db)\<rparr>"

fun insertChunks :: "hash \<Rightarrow> Chunk list \<Rightarrow> DB \<Rightarrow> StoreErr + DB \<times> nat list" where
  "insertChunks h [] db = Inr (db, [])"
| "insertChunks h (ch # chs) db =
     (if \<exists>k \<in> set (db_chunks db). k_hash k = h \<and> k_ordinal k = ch_Ordinal ch
      then Inl (ErrStore ''UNIQUE constraint failed'')
      else
        let i = Suc (db_chunk_seq db);
            row = \<lparr>k_id = i, k_hash = h, k_ordinal = ch_Ordinal ch, k_text = ch_Text ch,
                   k_heading = ch_HeadingPath ch, k_start = ch_ByteStart ch, k_end = ch_ByteEnd ch\<rparr>
        in case insertChunks h chs (db\<lparr>db_chunks := db_chunks db @ [row], db_chunk_seq := i\<rparr>) of
             Inl e \<Rightarrow> Inl e
           | Inr (db', ids) \<Rightarrow> Inr (db', i # ids))"

definition storeChunksTx :: "Content \<Rightarrow> Chunk list \<Rightarrow> int \<Rightarrow> DB \<Rightarrow> StoreErr + DB \<times> nat list" where
  "storeChunksTx c chunks now db =
     (if c_Hash c \<notin> hashes db then Inl ErrContentGone
      else case deleteVectorsTx (c_Hash c)
             (update_content (c_Hash c)
                (\<lambda>r. r\<lparr>r_state := c_State c, r_stage := c_StageVersions c, r_updated := now\<rparr>) db) of
             Inl e \<Rightarrow> Inl e
           | Inr db2 \<Rightarrow> insertChunks (c_Hash c) chunks (deleteChunksOf (c_Hash c) db2))"

definition StoreChunks :: "Content \<Rightarrow> Chunk list \<Rightarrow> Store \<Rightarrow> (StoreErr + nat list) \<times> Store" where
  "StoreChunks c chunks = withTx (storeChunksTx c chunks)"

definition updateContent :: "hash \<Rightarrow> (int \<Rightarrow> contentRow \<Rightarrow> contentRow) \<Rightarrow> Store \<Rightarrow> (StoreErr + unit) \<times> Store" where
  "updateContent h f =
     withTx (\<lambda>now db.
       if h \<notin> hashes db then Inl ErrContentGone else Inr (update_content h (f now) db, ()))"

definition UpdateContentState :: "hash \<Rightarrow> ContentState \<Rightarrow> Store \<Rightarrow> (StoreErr + unit) \<times> Store" where
  "UpdateContentState h state = updateContent h (\<lambda>now r. r\<lparr>r_state := state, r_updated := now\<rparr>)"

definition markFailedTx :: "hash \<Rightarrow> string \<Rightarrow> int \<Rightarrow> DB \<Rightarrow> StoreErr + DB \<times> unit" where
  "markFailedTx h reason now db =
     (if h \<notin> hashes db then Inl ErrContentGone
      else case deleteVectorsTx h
             (update_content h
                (\<lambda>r. r\<lparr>r_state := Failed, r_last_error := Some reason, r_updated := now\<rparr>) db) of
             Inl e \<Rightarrow> Inl e
           | Inr db2 \<Rightarrow> Inr (deleteChunksOf h db2, ()))"

definition MarkFailed :: "hash \<Rightarrow> string \<Rightarrow> Store \<Rightarrow> (StoreErr + unit) \<times> Store" where
  "MarkFailed h reason = withTx (markFailedTx h reason)"

section \<open>Work items (store.go: ListWorkItems; meta.go: contentRow)\<close>

definition fromContentRow :: "contentRow \<Rightarrow> Content" where
  "fromContentRow r = \<lparr>c_Hash = r_hash r, c_State = r_state r, c_StageVersions = r_stage r,
     c_Attempts = r_attempts r, c_NextRetryAt = r_next_retry r,
     c_LastError = (case r_last_error r of None \<Rightarrow> '''' | Some e \<Rightarrow> e)\<rparr>"

text \<open>\<open>ORDER BY mtime DESC, path ASC\<close> over the documents that hold a hash.\<close>

definition holders :: "hash \<Rightarrow> DB \<Rightarrow> documentRow list" where
  "holders h db =
     sort_key (\<lambda>d. (- d_mtime d, d_path d)) (filter (\<lambda>d. d_hash d = Some h) (db_documents db))"

definition ListWorkItems :: "Store \<Rightarrow> (StoreErr + WorkItem list) \<times> Store" where
  "ListWorkItems =
     withReader (\<lambda>db. Inr (sort_key wi_Path
       (List.concat (map (\<lambda>r.
          (case holders (r_hash r) db of
             [] \<Rightarrow> []
           | d # _ \<Rightarrow> [\<lparr>wi_Content = fromContentRow r, wi_Path = d_path d, wi_Paths = [d_path d]\<rparr>]))
        (db_content db)))))"

section \<open>The orphan sweep (store.go: SweepOrphans, sweepCandidates, verifyOrphans)\<close>

definition orphaned :: "SweepScope \<Rightarrow> DB \<Rightarrow> contentRow \<Rightarrow> bool" where
  "orphaned scope db r \<longleftrightarrow>
     (scope = SweepScopeQueue \<longrightarrow> \<not> Terminal (r_state r)) \<and>
     \<not> (\<exists>d \<in> set (db_documents db). d_hash d = Some (r_hash r))"

definition sweepBatch :: nat where "sweepBatch = 256"

definition sweepCandidates :: "SweepScope \<Rightarrow> hash \<Rightarrow> Store \<Rightarrow> (StoreErr + hash list) \<times> Store" where
  "sweepCandidates scope cursor =
     withReader (\<lambda>db. Inr (take sweepBatch
       (sort (map r_hash (filter (\<lambda>r. r_hash r > cursor \<and> orphaned scope db r) (db_content db))))))"

definition verifyOrphans :: "SweepScope \<Rightarrow> hash list \<Rightarrow> DB \<Rightarrow> hash list" where
  "verifyOrphans scope batch db =
     map r_hash (filter (\<lambda>r. r_hash r \<in> set batch \<and> orphaned scope db r) (db_content db))"

fun deleteVectorsAll :: "hash list \<Rightarrow> DB \<Rightarrow> StoreErr + DB" where
  "deleteVectorsAll [] db = Inr db"
| "deleteVectorsAll (h # hs) db =
     (case deleteVectorsTx h db of Inl e \<Rightarrow> Inl e | Inr db' \<Rightarrow> deleteVectorsAll hs db')"

text \<open>\<open>DELETE FROM content\<close>: refused while a document references a row, cascading to chunks.\<close>

definition deleteContent :: "hash set \<Rightarrow> DB \<Rightarrow> StoreErr + DB" where
  "deleteContent H db =
     (if \<exists>d \<in> set (db_documents db). \<exists>h \<in> H. d_hash d = Some h
      then Inl (ErrStore ''FOREIGN KEY constraint failed'')
      else Inr (db\<lparr>db_content := filter (\<lambda>r. r_hash r \<notin> H) (db_content db),
                   db_chunks := filter (\<lambda>k. k_hash k \<notin> H) (db_chunks db)\<rparr>))"

definition sweepTx :: "SweepScope \<Rightarrow> hash list \<Rightarrow> int \<Rightarrow> DB \<Rightarrow> StoreErr + DB \<times> nat" where
  "sweepTx scope batch now db =
     (let doomed = verifyOrphans scope batch db in
      case deleteVectorsAll doomed db of
        Inl e \<Rightarrow> Inl e
      | Inr db1 \<Rightarrow>
          (if doomed = [] then Inr (db1, 0)
           else case deleteContent (set doomed) db1 of
                  Inl e \<Rightarrow> Inl e
                | Inr db2 \<Rightarrow> Inr (db2, length (filter (\<lambda>r. r_hash r \<in> set doomed) (db_content db1)))))"

lemma deleteVectorsTx_frame:
  assumes "deleteVectorsTx h db = Inr db'"
  shows "db_content db' = db_content db" "db_documents db' = db_documents db"
    "db_chunks db' = db_chunks db" "db_chunk_seq db' = db_chunk_seq db"
    "db_vec_descs db' = db_vec_descs db" "db_vec_current db' = db_vec_current db"
    "db_mounts db' = db_mounts db"
  using assms by (auto simp: deleteVectorsTx_def split: sum.splits if_splits)

lemma deleteVectorsAll_frame:
  assumes "deleteVectorsAll hs db = Inr db'"
  shows "db_content db' = db_content db" "db_documents db' = db_documents db"
    "db_chunks db' = db_chunks db" "db_chunk_seq db' = db_chunk_seq db"
    "db_vec_descs db' = db_vec_descs db" "db_vec_current db' = db_vec_current db"
    "db_mounts db' = db_mounts db"
  using assms
  by (induction hs arbitrary: db) (auto simp: deleteVectorsTx_frame split: sum.splits)

lemma verifyOrphans_nil:
  "verifyOrphans scope batch db = [] \<Longrightarrow> r \<in> set (db_content db) \<Longrightarrow>
    \<not> (r_hash r \<in> set batch \<and> orphaned scope db r)"
  by (auto simp: verifyOrphans_def filter_empty_conv)

lemma set_verifyOrphans:
  "set (verifyOrphans scope batch db) =
    r_hash ` {r \<in> set (db_content db). r_hash r \<in> set batch \<and> orphaned scope db r}"
  by (auto simp: verifyOrphans_def)

lemma sweepTx_content:
  assumes "sweepTx scope batch now db = Inr (db', n)"
  shows "db_content db' =
      filter (\<lambda>r. r_hash r \<notin> set (verifyOrphans scope batch db)) (db_content db)"
    and "db_documents db' = db_documents db"
proof -
  let ?doomed = "verifyOrphans scope batch db"
  obtain db1 where db1: "deleteVectorsAll ?doomed db = Inr db1"
    using assms by (auto simp: sweepTx_def Let_def split: sum.splits)
  note frame = deleteVectorsAll_frame [OF db1]
  have "db_content db' = filter (\<lambda>r. r_hash r \<notin> set ?doomed) (db_content db) \<and>
    db_documents db' = db_documents db"
  proof (cases "?doomed = []")
    case True
    with assms db1 frame show ?thesis by (simp add: sweepTx_def Let_def)
  next
    case False
    with assms db1 frame show ?thesis
      by (auto simp: sweepTx_def Let_def deleteContent_def split: if_splits)
  qed
  then show "db_content db' = filter (\<lambda>r. r_hash r \<notin> set ?doomed) (db_content db)"
    and "db_documents db' = db_documents db" by blast+
qed

lemma sweepCandidates_result:
  assumes "sweepCandidates scope cursor s = (Inr batch, s1)"
  shows "batch = take sweepBatch (sort (map r_hash
      (filter (\<lambda>r. r_hash r > cursor \<and> orphaned scope (st_db s) r) (db_content (st_db s)))))"
    and "st_db s1 = st_db s"
proof -
  obtain r s' where d: "driver s = (r, s')" by fastforce
  note db = driver_db_result [OF d]
  from assms d db show "st_db s1 = st_db s" "batch = take sweepBatch (sort (map r_hash
      (filter (\<lambda>r. r_hash r > cursor \<and> orphaned scope (st_db s) r) (db_content (st_db s)))))"
    by (cases r; simp add: sweepCandidates_def withReader_def)+
qed

lemma filter_sublist_length: "length (filter P (filter Q xs)) \<le> length (filter P xs)"
  by (induction xs) auto

lemma length_filter_mono: "(\<And>x. x \<in> set xs \<Longrightarrow> P x \<Longrightarrow> Q x) \<Longrightarrow> length (filter P xs) \<le> length (filter Q xs)"
  by (induction xs) auto

lemma length_filter_strict:
  assumes "\<And>x. x \<in> set xs \<Longrightarrow> P x \<Longrightarrow> Q x" "y \<in> set xs" "Q y" "\<not> P y"
  shows "length (filter P xs) < length (filter Q xs)"
  using assms
proof (induction xs)
  case (Cons x xs)
  show ?case
  proof (cases "x = y")
    case True
    with Cons.prems length_filter_mono [of xs P Q] show ?thesis by (simp add: less_Suc_eq_le)
  next
    case False
    with Cons.prems Cons.IH show ?thesis by auto
  qed
qed simp

lemma withTxCap_sweep_content:
  assumes "withTxCap (sweepTx scope batch) s = (r, s')"
  obtains P where "db_content (st_db s') = filter P (db_content (st_db s))"
proof (cases "sweepTx scope batch" s rule: withTxCap_cases)
  case (failed e a s2)
  with assms show ?thesis by (intro that [of "\<lambda>_. True"]) auto
next
  case (committed t db n s2)
  with assms sweepTx_content(1) [OF committed(1)] that show ?thesis by auto
qed

function sweepLoop ::
  "SweepScope \<Rightarrow> hash \<Rightarrow> nat \<Rightarrow> Store \<Rightarrow> (nat \<times> StoreErr option) \<times> Store" where
  "sweepLoop scope cursor removed s =
     (case sweepCandidates scope cursor s of
        (Inl e, s1) \<Rightarrow> ((removed, Some e), s1)
      | (Inr batch, s1) \<Rightarrow>
          (if batch = [] then ((removed, None), s1)
           else case withTxCap (sweepTx scope batch) s1 of
                  ((Some e, n), s2) \<Rightarrow>
                    ((removed + (case n of None \<Rightarrow> 0 | Some n \<Rightarrow> n), Some e), s2)
                | ((None, n), s2) \<Rightarrow>
                    (let removed' = removed + (case n of None \<Rightarrow> 0 | Some n \<Rightarrow> n) in
                     if length batch < sweepBatch then ((removed', None), s2)
                     else sweepLoop scope (last batch) removed' s2)))"
  by pat_completeness auto
termination
proof (relation "measure (\<lambda>(scope, cursor, removed, s).
    length (filter (\<lambda>r. cursor < r_hash r) (db_content (st_db s))))", goal_cases)
  case 1
  show ?case by simp
next
  case (2 scope cursor removed s c1 s1 batch c2 s2 n removed')
  let ?rows = "db_content (st_db s)"
  have cand: "sweepCandidates scope cursor s = (Inr batch, s1)" using 2(1,2) by simp
  note s1 = sweepCandidates_result(2) [OF cand]
  note batch = sweepCandidates_result(1) [OF cand]
  obtain P where P: "db_content (st_db s2) = filter P (db_content (st_db s1))"
    using withTxCap_sweep_content 2(4) by metis


  have "last batch \<in> set batch" using 2(3) by simp
  then have "last batch \<in> r_hash ` {r \<in> set ?rows. r_hash r > cursor}"
    unfolding batch by (auto dest!: in_set_takeD)
  then obtain r where r: "r \<in> set ?rows" "r_hash r = last batch" "cursor < last batch" by auto
  have "length (filter (\<lambda>r. last batch < r_hash r) (db_content (st_db s2))) \<le>
      length (filter (\<lambda>r. last batch < r_hash r) ?rows)"
    unfolding P s1 by (rule filter_sublist_length)
  also have "\<dots> < length (filter (\<lambda>r. cursor < r_hash r) ?rows)"
    by (rule length_filter_strict [of _ _ _ r]) (use r in auto)
  finally show ?case by simp
qed

declare sweepLoop.simps [simp del]

definition SweepOrphans :: "SweepScope \<Rightarrow> Store \<Rightarrow> (nat \<times> StoreErr option) \<times> Store" where
  "SweepOrphans scope s =
     (case withReader (\<lambda>db. Inr (\<exists>r \<in> set (db_content db). orphaned scope db r)) s of
        (Inl e, s') \<Rightarrow> ((0, Some e), s')
      | (Inr due, s') \<Rightarrow> (if \<not> due then ((0, None), s') else sweepLoop scope '''' 0 s'))"

section \<open>Dropping vectors, chunks and content together\<close>

text \<open>
  The effect the writers above have on the three tables that hang together: the chunk ids of the
  hashes, the vectors of those ids in every generation, and the chunks (and content rows) themselves.
\<close>

definition ids_of :: "hash set \<Rightarrow> DB \<Rightarrow> nat set" where
  "ids_of H db = k_id ` {k \<in> set (db_chunks db). k_hash k \<in> H}"

definition drop_vectors :: "nat set \<Rightarrow> DB \<Rightarrow> DB" where
  "drop_vectors ids db =
     db\<lparr>db_vec_tables := map (\<lambda>(name, rows). (name, filter (\<lambda>r. fst r \<notin> ids) rows)) (db_vec_tables db)\<rparr>"

definition drop_chunks :: "hash set \<Rightarrow> DB \<Rightarrow> DB" where
  "drop_chunks H db =
     (drop_vectors (ids_of H db) db)\<lparr>db_chunks := filter (\<lambda>k. k_hash k \<notin> H) (db_chunks db)\<rparr>"

definition drop_content :: "hash set \<Rightarrow> DB \<Rightarrow> DB" where
  "drop_content H db =
     (drop_chunks H db)\<lparr>db_content := filter (\<lambda>r. r_hash r \<notin> H) (db_content db)\<rparr>"

lemma drop_frame [simp]:
  "db_content (drop_vectors ids db) = db_content db"
  "db_documents (drop_vectors ids db) = db_documents db"
  "db_chunks (drop_vectors ids db) = db_chunks db"
  "db_chunk_seq (drop_vectors ids db) = db_chunk_seq db"
  "db_vec_descs (drop_vectors ids db) = db_vec_descs db"
  "db_vec_current (drop_vectors ids db) = db_vec_current db"
  "db_mounts (drop_vectors ids db) = db_mounts db"
  "db_content (drop_chunks H db) = db_content db"
  "db_documents (drop_chunks H db) = db_documents db"
  "db_chunks (drop_chunks H db) = filter (\<lambda>k. k_hash k \<notin> H) (db_chunks db)"
  "db_chunk_seq (drop_chunks H db) = db_chunk_seq db"
  "db_vec_descs (drop_chunks H db) = db_vec_descs db"
  "db_documents (drop_content H db) = db_documents db"
  "db_content (drop_content H db) = filter (\<lambda>r. r_hash r \<notin> H) (db_content db)"
  "db_chunks (drop_content H db) = filter (\<lambda>k. k_hash k \<notin> H) (db_chunks db)"
  "db_chunk_seq (drop_content H db) = db_chunk_seq db"
  by (simp_all add: drop_vectors_def drop_chunks_def drop_content_def)

lemma drop_vectors_comp: "drop_vectors J (drop_vectors I db) = drop_vectors (I \<union> J) db"
  by (simp add: drop_vectors_def case_prod_unfold comp_def conj_commute)

lemma drop_vectors_empty [simp]: "drop_vectors {} db = db"
  by (simp add: drop_vectors_def case_prod_unfold)

lemma ids_of_Un: "ids_of (H \<union> K) db = ids_of H db \<union> ids_of K db"
  by (auto simp: ids_of_def)

lemma ids_of_drop_vectors [simp]: "ids_of H (drop_vectors ids db) = ids_of H db"
  by (simp add: ids_of_def)

lemma drop_content_empty [simp]: "drop_content {} db = db"
  by (simp add: drop_content_def drop_chunks_def ids_of_def)

lemma drop_content_comp: "drop_content K (drop_content H db) = drop_content (H \<union> K) db"
proof -
  have "ids_of H db \<union> ids_of K (drop_content H db) = ids_of (H \<union> K) db"
    by (auto simp: ids_of_def)
  then have "db_vec_tables (drop_vectors (ids_of K (drop_content H db)) (drop_vectors (ids_of H db) db)) =
      db_vec_tables (drop_vectors (ids_of (H \<union> K) db) db)"
    by (simp add: drop_vectors_comp)
  then have "db_vec_tables (drop_content K (drop_content H db)) = db_vec_tables (drop_content (H \<union> K) db)"
    by (simp add: drop_content_def drop_chunks_def drop_vectors_def)
  then show ?thesis
    by (intro DB.equality) (auto simp: drop_content_def drop_chunks_def drop_vectors_def intro!: filter_cong)
qed

subsection \<open>The catalog keeps its invariant\<close>

lemma listVecTables_ok:
  assumes "vectors_inv db"
  obtains tables where "listVecTables db = Inr tables" "map fst tables = map fst (db_vec_tables db)"
proof -
  have rel: "list_all2 (vec_table_ok (chunk_ids db)) (db_vec_tables db) (db_vec_descs db)"
    using assms by (simp add: vectors_inv_def)
  then have len: "length (db_vec_tables db) = length (db_vec_descs db)"
    by (rule list_all2_lengthD)
  have ok: "vec_table_ok (chunk_ids db) (db_vec_tables db ! i) (db_vec_descs db ! i)"
    if "i < length (db_vec_descs db)" for i
    using list_all2_nthD2 [OF rel that] .
  have "vecTableGen (fst d) \<noteq> None \<and> snd d \<noteq> None" if d: "d \<in> set (db_vec_descs db)" for d
  proof -
    obtain i where "i < length (db_vec_descs db)" "d = db_vec_descs db ! i"
      using d by (auto simp: in_set_conv_nth)
    with ok [of i] show ?thesis unfolding vec_table_ok_def by auto
  qed
  moreover have "map fst (db_vec_descs db) = map fst (db_vec_tables db)"
    by (rule nth_equalityI) (use len ok in \<open>auto simp: vec_table_ok_def\<close>)

  ultimately show ?thesis
    by (intro that [of "map (\<lambda>(name, desc). (name, normalizeDesc (the desc))) (db_vec_descs db)"])
      (fastforce simp: listVecTables_def case_prod_unfold comp_def)+

qed

lemma deleteVectorsTx_ok:
  assumes "vectors_inv db"
  shows "deleteVectorsTx h db = Inr (drop_vectors (ids_of {h} db) db)"
proof -
  obtain tables where t: "listVecTables db = Inr tables" "map fst tables = map fst (db_vec_tables db)"
    using listVecTables_ok [OF assms] .
  then have sub: "fst ` set tables = fst ` set (db_vec_tables db)"
    by (metis set_map)
  have "ids_of {h} db = chunk_ids_of h db" by (simp add: ids_of_def chunk_ids_of_def)
  moreover have "map (\<lambda>(name, rows). (name, if name \<in> fst ` set tables
        then filter (\<lambda>r. fst r \<notin> chunk_ids_of h db) rows else rows)) (db_vec_tables db) =
      map (\<lambda>(name, rows). (name, filter (\<lambda>r. fst r \<notin> chunk_ids_of h db) rows)) (db_vec_tables db)"
    by (rule map_cong) (force simp: sub)+
  ultimately show ?thesis
    by (simp add: deleteVectorsTx_def t(1) sub drop_vectors_def)
qed

lemma vec_table_ok_filter:
  "vec_table_ok ids tbl dsc \<Longrightarrow> fst ` set (filter P (snd tbl)) \<subseteq> ids' \<Longrightarrow>
   vec_table_ok ids' (fst tbl, filter P (snd tbl)) dsc"
  unfolding vec_table_ok_def by (fastforce simp: distinct_map_filter)

lemma drop_vectors_rel:
  assumes "list_all2 (vec_table_ok (chunk_ids db)) (db_vec_tables db) (db_vec_descs db)"
    and "chunk_ids db - ids \<subseteq> J"
  shows "list_all2 (vec_table_ok J) (db_vec_tables (drop_vectors ids db)) (db_vec_descs db)"
  unfolding drop_vectors_def
  using assms(1)
proof (simp add: list_all2_map1 case_prod_unfold, elim list_all2_mono)
  fix tbl dsc
  assume ok: "vec_table_ok (chunk_ids db) tbl dsc"
  then have "fst ` set (filter (\<lambda>r. fst r \<notin> ids) (snd tbl)) \<subseteq> J"
    using assms(2) by (auto simp: vec_table_ok_def)
  from vec_table_ok_filter [OF ok this]
  show "vec_table_ok J (fst tbl, filter (\<lambda>r. fst r \<notin> ids) (snd tbl)) dsc" .
qed

lemma drop_vectors_names: "map fst (db_vec_tables (drop_vectors ids db)) = map fst (db_vec_tables db)"
  by (simp add: drop_vectors_def case_prod_unfold comp_def)

lemma catalog_inv_drop_vectors:
  assumes "catalog_inv db"
  shows "catalog_inv (drop_vectors ids db)"
proof -
  have "list_all2 (vec_table_ok (chunk_ids db)) (db_vec_tables (drop_vectors ids db)) (db_vec_descs db)"
    by (rule drop_vectors_rel) (use assms in \<open>auto simp: catalog_inv_def vectors_inv_def\<close>)
  with drop_vectors_names [of ids db] show ?thesis
    using assms by (simp add: catalog_inv_def documents_inv_def content_inv_def vectors_inv_def
        chunk_ids_def hashes_def)
qed

lemma catalog_inv_drop_chunks:
  assumes "catalog_inv db"
  shows "catalog_inv (drop_chunks H db)"
proof -
  have "chunk_ids db - ids_of H db \<subseteq> chunk_ids (drop_chunks H db)"
    by (auto simp: chunk_ids_def ids_of_def)
  then have "list_all2 (vec_table_ok (chunk_ids (drop_chunks H db)))
      (db_vec_tables (drop_vectors (ids_of H db) db)) (db_vec_descs db)"
    by (intro drop_vectors_rel) (use assms in \<open>auto simp: catalog_inv_def vectors_inv_def\<close>)
  then have "vectors_inv (drop_chunks H db)"
    using assms drop_vectors_names [of "ids_of H db" db]
    by (simp add: vectors_inv_def catalog_inv_def drop_chunks_def)
  then show ?thesis
    using assms by (auto simp: catalog_inv_def documents_inv_def content_inv_def hashes_def distinct_map_filter)
qed

text \<open>Content goes only when no document references it.\<close>

lemma catalog_inv_drop_content:
  assumes inv: "catalog_inv db"
    and free: "\<And>d h. d \<in> set (db_documents db) \<Longrightarrow> d_hash d = Some h \<Longrightarrow> h \<notin> H"
  shows "catalog_inv (drop_content H db)"
proof -
  have "catalog_inv (drop_chunks H db)" using inv by (rule catalog_inv_drop_chunks)
  moreover have "hashes (drop_content H db) = hashes db - H"
    by (auto simp: hashes_def)
  moreover have "vectors_inv (drop_chunks H db) \<Longrightarrow> vectors_inv (drop_content H db)"
    by (simp add: vectors_inv_def drop_content_def chunk_ids_def)
  ultimately show ?thesis
    using free inv
    by (auto simp: catalog_inv_def documents_inv_def content_inv_def doc_row_ok_def chunk_row_ok_def
        distinct_map_filter)
qed

subsection \<open>The transaction bodies in those terms\<close>

lemma update_content_keys:
  "(\<And>r. r_hash (f r) = r_hash r) \<Longrightarrow>
   map r_hash (db_content (update_content h f db)) = map r_hash (db_content db)"
  by (simp add: update_content_def comp_def if_distrib [of r_hash] cong: if_cong)

lemma hashes_update_content:
  "(\<And>r. r_hash (f r) = r_hash r) \<Longrightarrow> hashes (update_content h f db) = hashes db"
  using update_content_keys [of f h db] by (simp add: hashes_def flip: set_map)

lemma update_content_frame [simp]:
  "db_documents (update_content h f db) = db_documents db"
  "db_chunks (update_content h f db) = db_chunks db"
  "db_chunk_seq (update_content h f db) = db_chunk_seq db"
  "db_vec_tables (update_content h f db) = db_vec_tables db"
  "db_vec_descs (update_content h f db) = db_vec_descs db"
  "ids_of H (update_content h f db) = ids_of H db"
  "chunk_ids (update_content h f db) = chunk_ids db"
  by (simp_all add: update_content_def ids_of_def chunk_ids_def)

lemma catalog_inv_update_content:
  assumes "catalog_inv db" "\<And>r. r_hash (f r) = r_hash r"
  shows "catalog_inv (update_content h f db)"
proof -
  have "map r_hash (db_content (update_content h f db)) = map r_hash (db_content db)"
    using assms(2) by (rule update_content_keys)
  moreover note hashes_update_content [of f h db, OF assms(2)]
  ultimately show ?thesis
    using assms(1) by (simp add: catalog_inv_def documents_inv_def content_inv_def vectors_inv_def)
qed

lemma deleteChunksOf_drop: "deleteChunksOf h (drop_vectors (ids_of {h} db) db) = drop_chunks {h} db"
  by (simp add: deleteChunksOf_def drop_chunks_def)

lemma vectors_inv_update_content: "vectors_inv db \<Longrightarrow> vectors_inv (update_content h f db)"
  by (simp add: vectors_inv_def)

lemma storeChunksTx_eq:
  assumes "catalog_inv db"
  shows "storeChunksTx c chunks now db =
    (if c_Hash c \<notin> hashes db then Inl ErrContentGone
     else insertChunks (c_Hash c) chunks (drop_chunks {c_Hash c}
       (update_content (c_Hash c)
         (\<lambda>r. r\<lparr>r_state := c_State c, r_stage := c_StageVersions c, r_updated := now\<rparr>) db)))"
proof -
  let ?db1 = "update_content (c_Hash c)
    (\<lambda>r. r\<lparr>r_state := c_State c, r_stage := c_StageVersions c, r_updated := now\<rparr>) db"
  have "vectors_inv ?db1"
    using assms by (simp add: catalog_inv_def vectors_inv_update_content)
  note del = deleteVectorsTx_ok [OF this, of "c_Hash c"]
  have "deleteChunksOf (c_Hash c) (drop_vectors (ids_of {c_Hash c} db) ?db1) = drop_chunks {c_Hash c} ?db1"
    using deleteChunksOf_drop [of "c_Hash c" ?db1] by simp
  with del show ?thesis by (simp add: storeChunksTx_def)
qed

lemma markFailedTx_eq:
  assumes "catalog_inv db"
  shows "markFailedTx h reason now db =
    (if h \<notin> hashes db then Inl ErrContentGone
     else Inr (drop_chunks {h} (update_content h
       (\<lambda>r. r\<lparr>r_state := Failed, r_last_error := Some reason, r_updated := now\<rparr>) db), ()))"
proof -
  let ?db1 = "update_content h
    (\<lambda>r. r\<lparr>r_state := Failed, r_last_error := Some reason, r_updated := now\<rparr>) db"
  have "vectors_inv ?db1"
    using assms by (simp add: catalog_inv_def vectors_inv_update_content)
  note del = deleteVectorsTx_ok [OF this, of h]
  have "deleteChunksOf h (drop_vectors (ids_of {h} db) ?db1) = drop_chunks {h} ?db1"
    using deleteChunksOf_drop [of h ?db1] by simp
  with del show ?thesis by (simp add: markFailedTx_def)
qed

text \<open>The rows an insertion adds: ids in sequence, in the order of the chunks.\<close>

definition chunk_row :: "hash \<Rightarrow> nat \<Rightarrow> Chunk \<Rightarrow> chunkRow" where
  "chunk_row h i ch = \<lparr>k_id = i, k_hash = h, k_ordinal = ch_Ordinal ch, k_text = ch_Text ch,
     k_heading = ch_HeadingPath ch, k_start = ch_ByteStart ch, k_end = ch_ByteEnd ch\<rparr>"

lemma insertChunks_result:
  assumes "insertChunks h chs db = Inr (db', ids)"
  shows "ids = [Suc (db_chunk_seq db)..<Suc (db_chunk_seq db + length chs)]"
    and "db' = db\<lparr>db_chunks := db_chunks db @ map2 (chunk_row h) ids chs,
                 db_chunk_seq := db_chunk_seq db + length chs\<rparr>"
    and "distinct (map ch_Ordinal chs)"
    and "\<And>k ch. k \<in> set (db_chunks db) \<Longrightarrow> ch \<in> set chs \<Longrightarrow> k_hash k = h \<Longrightarrow> k_ordinal k \<noteq> ch_Ordinal ch"
proof -
  have "ids = [Suc (db_chunk_seq db)..<Suc (db_chunk_seq db + length chs)] \<and>
    db' = db\<lparr>db_chunks := db_chunks db @ map2 (chunk_row h) ids chs,
             db_chunk_seq := db_chunk_seq db + length chs\<rparr> \<and>
    distinct (map ch_Ordinal chs) \<and>
    (\<forall>k \<in> set (db_chunks db). \<forall>ch \<in> set chs. k_hash k = h \<longrightarrow> k_ordinal k \<noteq> ch_Ordinal ch)"
    using assms
  proof (induction chs arbitrary: db ids)
    case (Cons ch chs)
    let ?i = "Suc (db_chunk_seq db)"
    let ?db1 = "db\<lparr>db_chunks := db_chunks db @ [chunk_row h ?i ch], db_chunk_seq := ?i\<rparr>"
    have fresh: "\<not> (\<exists>k \<in> set (db_chunks db). k_hash k = h \<and> k_ordinal k = ch_Ordinal ch)"
      using Cons.prems by (auto split: if_splits)
    then obtain ids1 where ids1: "insertChunks h chs ?db1 = Inr (db', ids1)" "ids = ?i # ids1"
      using Cons.prems unfolding insertChunks.simps if_not_P [OF fresh] Let_def
      by (auto simp: chunk_row_def split: sum.splits)
    have upt: "[?i..<Suc (db_chunk_seq db + length (ch # chs))] =
        ?i # [Suc ?i..<Suc (?i + length chs)]"
      by (subst upt_conv_Cons) auto
    show ?case
      using Cons.IH [OF ids1(1)] ids1(2) fresh upt by (auto simp: chunk_row_def simp del: upt_Suc)
  qed simp
  then show "ids = [Suc (db_chunk_seq db)..<Suc (db_chunk_seq db + length chs)]"
    "db' = db\<lparr>db_chunks := db_chunks db @ map2 (chunk_row h) ids chs,
             db_chunk_seq := db_chunk_seq db + length chs\<rparr>"
    "distinct (map ch_Ordinal chs)"
    "\<And>k ch. k \<in> set (db_chunks db) \<Longrightarrow> ch \<in> set chs \<Longrightarrow> k_hash k = h \<Longrightarrow> k_ordinal k \<noteq> ch_Ordinal ch"
    by blast+
qed

lemma chunk_row_sel [simp]:
  "k_id (chunk_row h i ch) = i" "k_hash (chunk_row h i ch) = h"
  "k_ordinal (chunk_row h i ch) = ch_Ordinal ch"
  by (simp_all add: chunk_row_def)

lemma insertChunks_ok:
  assumes "distinct (map ch_Ordinal chs)"
    and "\<And>k ch. k \<in> set (db_chunks db) \<Longrightarrow> ch \<in> set chs \<Longrightarrow> k_hash k = h \<Longrightarrow> k_ordinal k \<noteq> ch_Ordinal ch"
  obtains db' ids where "insertChunks h chs db = Inr (db', ids)"
  using assms
proof (induction chs arbitrary: db thesis)
  case Nil
  then show ?case by simp
next
  case (Cons ch chs)
  let ?i = "Suc (db_chunk_seq db)"
  let ?db1 = "db\<lparr>db_chunks := db_chunks db @ [chunk_row h ?i ch], db_chunk_seq := ?i\<rparr>"
  have fresh: "\<not> (\<exists>k \<in> set (db_chunks db). k_hash k = h \<and> k_ordinal k = ch_Ordinal ch)"
    using Cons.prems(3) by auto
  obtain db' ids where rest: "insertChunks h chs ?db1 = Inr (db', ids)"
  proof (rule Cons.IH [of ?db1])
    show "distinct (map ch_Ordinal chs)" using Cons.prems(2) by simp
    fix k c
    assume k: "k \<in> set (db_chunks ?db1)" "c \<in> set chs" "k_hash k = h"
    show "k_ordinal k \<noteq> ch_Ordinal c"
    proof (cases "k \<in> set (db_chunks db)")
      case True
      with Cons.prems(3) [of k c] k show ?thesis by simp
    next
      case False
      with k have "k_ordinal k = ch_Ordinal ch" by auto
      with k(2) Cons.prems(2) show ?thesis by auto
    qed

  qed
  show ?case
    by (rule Cons.prems(1) [of db' "?i # ids"])
      (use rest in \<open>simp add: if_not_P [OF fresh] Let_def chunk_row_def del: insertChunks.simps
        add: insertChunks.simps(2)\<close>)
qed



lemma map_chunk_rows:
  assumes "length ids = length chs"
  shows "map k_id (map2 (chunk_row h) ids chs) = ids"
    and "map (\<lambda>k. (k_hash k, k_ordinal k)) (map2 (chunk_row h) ids chs) = map (\<lambda>ch. (h, ch_Ordinal ch)) chs"
  using assms by (induction ids chs rule: list_induct2) auto

lemma catalog_inv_insertChunks:
  assumes inv: "catalog_inv db" and h: "h \<in> hashes db" and ins: "insertChunks h chs db = Inr (db', ids)"
  shows "catalog_inv db'"
proof -
  note res = insertChunks_result [OF ins]
  have len: "length ids = length chs" unfolding res(1) by (simp del: upt_Suc)
  let ?rows = "map2 (chunk_row h) ids chs"
  have ids: "distinct ids" "\<And>i. i \<in> set ids \<Longrightarrow> db_chunk_seq db < i \<and> i \<le> db_chunk_seq db + length chs"
    unfolding res(1) by auto
  have old: "\<And>k. k \<in> set (db_chunks db) \<Longrightarrow> k_id k \<le> db_chunk_seq db"
    using inv by (auto simp: catalog_inv_def content_inv_def chunk_row_ok_def)
  have rows: "k_hash k = h \<and> k_id k \<in> set ids" if "k \<in> set ?rows" for k
    using that by (auto dest: set_zip_leftD)
  have chunks: "db_chunks db' = db_chunks db @ ?rows" by (simp add: res(2))
  have "distinct (map k_id (db_chunks db))" "distinct (map (\<lambda>k. (k_hash k, k_ordinal k)) (db_chunks db))"
    using inv by (auto simp: catalog_inv_def content_inv_def)
  note old_distinct = this
  have "set (map k_id (db_chunks db)) \<inter> set ids = {}"
    using ids(2) old by fastforce
  then have d1: "distinct (map k_id (db_chunks db'))"
    unfolding chunks map_append map_chunk_rows(1) [OF len] distinct_append
    using old_distinct ids(1) by blast
  have "distinct (map (\<lambda>ch. (h, ch_Ordinal ch)) chs)"
    using res(3) by (auto simp: distinct_map inj_on_def)
  moreover have "set (map (\<lambda>k. (k_hash k, k_ordinal k)) (db_chunks db)) \<inter>
      set (map (\<lambda>ch. (h, ch_Ordinal ch)) chs) = {}"
    using res(4) by auto
  ultimately have d2: "distinct (map (\<lambda>k. (k_hash k, k_ordinal k)) (db_chunks db'))"
    unfolding chunks map_append map_chunk_rows(2) [OF len] distinct_append
    using old_distinct by blast
  have rows_ok: "chunk_row_ok (db_chunk_seq db') (hashes db') k" if "k \<in> set (db_chunks db')" for k
  proof -
    have H: "hashes db' = hashes db" by (simp add: res(2) hashes_def)
    have sq: "db_chunk_seq db' = db_chunk_seq db + length chs" by (simp add: res(2))
    from that consider "k \<in> set (db_chunks db)" | "k \<in> set ?rows" by (auto simp: res(2))
    then show ?thesis
    proof cases
      case 1
      then have "chunk_row_ok (db_chunk_seq db) (hashes db) k"
        using inv by (simp add: catalog_inv_def content_inv_def)
      then show ?thesis by (rule chunk_row_ok_mono) (simp_all add: H sq)
    next
      case 2
      from rows [OF 2] ids(2) [of "k_id k"] h show ?thesis
        by (simp add: chunk_row_ok_def H sq)
    qed
  qed
  have "chunk_ids db \<subseteq> chunk_ids db'" by (auto simp: res(2) chunk_ids_def)
  then have "vectors_inv db'"
    using inv by (auto simp: catalog_inv_def vectors_inv_def res(2) elim!: list_all2_mono vec_table_ok_mono)
  with d1 d2 rows_ok inv show ?thesis
    by (simp add: catalog_inv_def content_inv_def documents_inv_def hashes_def res(2))
qed

lemma catalog_inv_storeChunksTx:
  assumes inv: "catalog_inv db" and tx: "storeChunksTx c chunks now db = Inr (db', ids)"
  shows "catalog_inv db'"
proof -
  let ?db1 = "update_content (c_Hash c)
    (\<lambda>r. r\<lparr>r_state := c_State c, r_stage := c_StageVersions c, r_updated := now\<rparr>) db"
  have h: "c_Hash c \<in> hashes db"
    and ins: "insertChunks (c_Hash c) chunks (drop_chunks {c_Hash c} ?db1) = Inr (db', ids)"
    using tx unfolding storeChunksTx_eq [OF inv] by (auto split: if_splits)
  have "catalog_inv (drop_chunks {c_Hash c} ?db1)"
    by (intro catalog_inv_drop_chunks catalog_inv_update_content) (simp_all add: inv)
  moreover have "c_Hash c \<in> hashes (drop_chunks {c_Hash c} ?db1)"
    using h hashes_update_content [of "\<lambda>r. r\<lparr>r_state := c_State c, r_stage := c_StageVersions c, r_updated := now\<rparr>" "c_Hash c" db]
    by (simp add: hashes_def)
  ultimately show ?thesis using ins by (rule catalog_inv_insertChunks)
qed

lemma catalog_inv_markFailedTx:
  assumes inv: "catalog_inv db" and tx: "markFailedTx h reason now db = Inr (db', u)"
  shows "catalog_inv db'"
  using tx unfolding markFailedTx_eq [OF inv]
  by (auto split: if_splits intro!: catalog_inv_drop_chunks catalog_inv_update_content inv)

interpretation storeChunks: store_op "StoreChunks c chunks" for c chunks
  unfolding StoreChunks_def by (rule store_op_withTx) (rule catalog_inv_storeChunksTx)

interpretation markFailed: store_op "MarkFailed h reason" for h reason
  unfolding MarkFailed_def by (rule store_op_withTx) (rule catalog_inv_markFailedTx)

lemma store_op_updateContent:
  "(\<And>now r. r_hash (f now r) = r_hash r) \<Longrightarrow> store_op (updateContent h f)"
  unfolding updateContent_def
  by (rule store_op_withTx) (auto split: if_splits intro: catalog_inv_update_content)

interpretation updateContentState: store_op "UpdateContentState h state" for h state
  unfolding UpdateContentState_def by (rule store_op_updateContent) simp

interpretation listWorkItems: store_op ListWorkItems
  unfolding ListWorkItems_def by (rule store_op_withReader)

section \<open>What the sweep does\<close>

definition orphan_hashes :: "SweepScope \<Rightarrow> DB \<Rightarrow> hash set" where
  "orphan_hashes scope db = r_hash ` {r \<in> set (db_content db). orphaned scope db r}"

lemma orphan_hashes_set:
  "orphan_hashes scope db = set (map r_hash (filter (orphaned scope db) (db_content db)))"
  by (auto simp: orphan_hashes_def)

lemma orphaned_documents:
  "db_documents db' = db_documents db \<Longrightarrow> orphaned scope db' = orphaned scope db"
  by (simp add: orphaned_def fun_eq_iff)

lemma deleteVectorsAll_ok:
  "vectors_inv db \<Longrightarrow> catalog_inv db \<Longrightarrow>
   deleteVectorsAll hs db = Inr (drop_vectors (ids_of (set hs) db) db)"
proof (induction hs arbitrary: db)
  case Nil
  then show ?case by (simp add: ids_of_def)
next
  case (Cons h hs)
  let ?db1 = "drop_vectors (ids_of {h} db) db"
  have inv: "catalog_inv ?db1" by (rule catalog_inv_drop_vectors [OF Cons.prems(2)])
  then have "deleteVectorsAll hs ?db1 = Inr (drop_vectors (ids_of (set hs) ?db1) ?db1)"
    by (intro Cons.IH) (simp add: catalog_inv_def)
  moreover have "ids_of {h} db \<union> ids_of (set hs) db = ids_of (set (h # hs)) db"
    by (auto simp: ids_of_def)
  ultimately show ?case
    using deleteVectorsTx_ok [OF Cons.prems(1), of h] by (simp add: drop_vectors_comp)
qed

lemma distinct_hash_inj:
  "distinct (map r_hash rows) \<Longrightarrow> r \<in> set rows \<Longrightarrow> r' \<in> set rows \<Longrightarrow> r_hash r = r_hash r' \<Longrightarrow> r = r'"
  by (auto simp: distinct_map inj_on_def)

lemma set_verifyOrphans_orphans:
  "set (verifyOrphans scope batch db) \<subseteq> orphan_hashes scope db \<inter> set batch"
  by (auto simp: verifyOrphans_def orphan_hashes_def)

lemma orphan_free:
  "d \<in> set (db_documents db) \<Longrightarrow> d_hash d = Some h \<Longrightarrow> h \<notin> orphan_hashes scope db"
  by (auto simp: orphan_hashes_def orphaned_def)

lemma sweepTx_eq:
  assumes inv: "catalog_inv db"
  shows "sweepTx scope batch now db =
    Inr (drop_content (set (verifyOrphans scope batch db)) db, length (verifyOrphans scope batch db))"
proof -
  let ?D = "verifyOrphans scope batch db"
  have all: "deleteVectorsAll ?D db = Inr (drop_vectors (ids_of (set ?D) db) db)"
    by (rule deleteVectorsAll_ok) (use inv in \<open>auto simp: catalog_inv_def\<close>)
  have free: "\<not> (\<exists>d \<in> set (db_documents db). \<exists>h \<in> set ?D. d_hash d = Some h)"
    using set_verifyOrphans_orphans orphan_free by blast
  have dist: "distinct (map r_hash (db_content db))"
    using inv by (simp add: catalog_inv_def content_inv_def)
  have "filter (\<lambda>r. r_hash r \<in> set ?D) (db_content db) =
      filter (\<lambda>r. r_hash r \<in> set batch \<and> orphaned scope db r) (db_content db)"
    using distinct_hash_inj [OF dist] by (auto simp: set_verifyOrphans intro!: filter_cong)
  then have count: "length (filter (\<lambda>r. r_hash r \<in> set ?D) (db_content db)) = length ?D"
    by (simp add: verifyOrphans_def)
  have "deleteContent (set ?D) (drop_vectors (ids_of (set ?D) db) db) = Inr (drop_content (set ?D) db)"
    using free by (simp add: deleteContent_def drop_content_def drop_chunks_def)
  with count show ?thesis by (auto simp: sweepTx_def Let_def all ids_of_def)
qed

interpretation sweepTx: store_op "withTx (sweepTx scope batch)" for scope batch
proof (rule store_op_withTx)
  fix t db db' a
  assume inv: "catalog_inv db" and tx: "sweepTx scope batch t db = Inr (db', a)"
  then have "db' = drop_content (set (verifyOrphans scope batch db)) db"
    by (simp add: sweepTx_eq)
  moreover have "h \<notin> set (verifyOrphans scope batch db)"
    if "d \<in> set (db_documents db)" "d_hash d = Some h" for d h
    using orphan_free [OF that] set_verifyOrphans_orphans by blast
  ultimately show "catalog_inv db'"
    using inv by (simp add: catalog_inv_drop_content)
qed

lemma sorted_le_last:
  fixes xs :: "'a::linorder list"
  assumes "sorted xs" "x \<in> set xs"
  shows "x \<le> last xs"
  using assms by (induction xs) (auto split: if_splits)

lemma sorted_take_split:
  fixes xs :: "'a::linorder list"
  assumes "sorted xs" "distinct xs" "take n xs \<noteq> []"
  shows "set (drop n xs) = {x \<in> set xs. last (take n xs) < x}"
proof -
  have "sorted_wrt (<) (take n xs @ drop n xs)"
    using assms(1,2) by (simp add: strict_sorted_iff)
  then have lt: "\<And>x y. x \<in> set (take n xs) \<Longrightarrow> y \<in> set (drop n xs) \<Longrightarrow> x < y"
    unfolding sorted_wrt_append by blast
  have last: "last (take n xs) \<in> set (take n xs)" using assms(3) by (rule last_in_set)
  have le: "x \<le> last (take n xs)" if "x \<in> set (take n xs)" for x
    using sorted_wrt_take [OF assms(1)] that by (rule sorted_le_last)
  have un: "set xs = set (take n xs) \<union> set (drop n xs)"
    by (metis append_take_drop_id set_append)
  show ?thesis
    unfolding un using lt [OF last] le by fastforce
qed

lemma sweepCandidates_quiet:
  assumes "quiet s"
  obtains s1 where "sweepCandidates scope cursor s =
      (Inr (take sweepBatch (sort (map r_hash
        (filter (\<lambda>r. r_hash r > cursor \<and> orphaned scope (st_db s) r) (db_content (st_db s)))))), s1)"
    "quiet s1" "st_db s1 = st_db s"
proof -
  obtain s1 where "driver s = (None, s1)" "st_db s1 = st_db s" "quiet s1"
    using driver_quiet [OF assms] .
  then show ?thesis by (intro that [of s1]) (simp_all add: sweepCandidates_def withReader_def)
qed

lemma sorted_distinct_hashes:
  "distinct (map r_hash rows) \<Longrightarrow> distinct (sort (map r_hash (filter P rows)))"
  by (simp add: distinct_map_filter)

text \<open>
  In a quiet world the loop removes every orphan past its cursor: each batch is the next 256 of
  them, the transaction finds them orphaned still, and the cursor moves past them.
\<close>

lemma sweepLoop_spec:
  assumes "quiet s" "catalog_inv (st_db s)"
  shows "fst (sweepLoop scope cursor removed s) =
      (removed + card {h \<in> orphan_hashes scope (st_db s). cursor < h}, None) \<and>
    st_db (snd (sweepLoop scope cursor removed s)) =
      drop_content {h \<in> orphan_hashes scope (st_db s). cursor < h} (st_db s) \<and>
    quiet (snd (sweepLoop scope cursor removed s))"
  using assms
proof (induction scope cursor removed s rule: sweepLoop.induct)
  case (1 scope cursor removed s)
  let ?db = "st_db s"
  define all where
    "all = sort (map r_hash (filter (\<lambda>r. r_hash r > cursor \<and> orphaned scope ?db r) (db_content ?db)))"
  let ?todo = "{h \<in> orphan_hashes scope ?db. cursor < h}"
  define batch where "batch = take sweepBatch all"
  have len: "length batch < sweepBatch \<Longrightarrow> batch = all" by (simp add: batch_def)
  have dist_rows: "distinct (map r_hash (db_content ?db))"
    using 1(3) by (simp add: catalog_inv_def content_inv_def)
  have dist: "distinct all" unfolding all_def using dist_rows by (rule sorted_distinct_hashes)
  have set_all: "set all = ?todo" by (auto simp: all_def orphan_hashes_def)
  have sorted: "sorted all" by (simp add: all_def)
  have batch_all: "\<And>h. h \<in> set batch \<Longrightarrow> h \<in> set all" unfolding batch_def by (rule in_set_takeD)
  have card: "card ?todo = length all" using distinct_card [OF dist] set_all by simp
  obtain s1 where cand: "sweepCandidates scope cursor s = (Inr batch, s1)" "quiet s1" "st_db s1 = ?db"
    using sweepCandidates_quiet [OF 1(2), of scope cursor] unfolding all_def batch_def .
  show ?case
  proof (cases "batch = []")
    case True
    then have "all = []" by (simp add: batch_def sweepBatch_def)
    then have none: "?todo = {}" using set_all by simp
    have "sweepLoop scope cursor removed s = ((removed, None), s1)"
      using cand True by (simp add: sweepLoop.simps [of scope cursor])
    then show ?thesis unfolding none using cand by simp
  next
    case False
    have doomed: "set (verifyOrphans scope batch ?db) = set batch"
    proof
      show "set batch \<subseteq> set (verifyOrphans scope batch ?db)"
      proof
        fix h
        assume h: "h \<in> set batch"
        then have "h \<in> ?todo" using batch_all set_all by blast
        then obtain r where "r \<in> set (db_content ?db)" "r_hash r = h" "orphaned scope ?db r"
          by (auto simp: orphan_hashes_def)
        with h show "h \<in> set (verifyOrphans scope batch ?db)" unfolding set_verifyOrphans by blast
      qed
    qed (auto simp: set_verifyOrphans)
    have dv: "distinct (verifyOrphans scope batch ?db)"
      using dist_rows by (simp add: verifyOrphans_def distinct_map_filter)
    have dist_batch: "distinct batch" unfolding batch_def using dist by (rule distinct_take)
    have n: "length (verifyOrphans scope batch ?db) = length batch"
      unfolding distinct_card [OF dv, symmetric] distinct_card [OF dist_batch, symmetric]
        doomed ..
    obtain s2 where tx: "withTxCap (sweepTx scope batch) s1 = ((None, Some (length batch)), s2)"
      "st_db s2 = drop_content (set batch) ?db" "quiet s2"
      by (rule withTxCap_quiet [OF cand(2), of "sweepTx scope batch"])
        (simp del: length_take add: cand(3) sweepTx_eq [OF 1(3)] doomed n)
    show ?thesis
    proof (cases "length batch < sweepBatch")
      case True
      note all = len [OF True]
      have "set batch = ?todo" "length batch = card ?todo" using set_all card all by simp_all
      moreover have "sweepLoop scope cursor removed s = ((removed + length batch, None), s2)"
        using cand tx(1) False True by (simp add: sweepLoop.simps [of scope cursor])
      ultimately show ?thesis using tx by simp
    next
      case full: False
      let ?next = "last batch"
      have inv2: "catalog_inv (st_db s2)"
        unfolding tx(2) using 1(3)
      proof (rule catalog_inv_drop_content)
        fix d h
        assume "d \<in> set (db_documents ?db)" "d_hash d = Some h"
        then show "h \<notin> set batch"
          using orphan_free [of d ?db h scope] set_all batch_all by blast
      qed
      have step: "sweepLoop scope cursor removed s = sweepLoop scope ?next (removed + length batch) s2"
        using cand tx(1) False full by (simp add: sweepLoop.simps [of scope cursor] Let_def)
      have orph2: "orphan_hashes scope (st_db s2) = orphan_hashes scope ?db - set batch"
        by (auto simp: tx(2) orphan_hashes_def orphaned_def)
      have rest: "{h \<in> orphan_hashes scope (st_db s2). ?next < h} = set (drop sweepBatch all)"
      proof -
        have "set (drop sweepBatch all) = {x \<in> set all. ?next < x}"
          using sorted_take_split [of all sweepBatch] dist sorted False by (simp add: batch_def)
        moreover have "\<And>h. h \<in> set batch \<Longrightarrow> \<not> ?next < h"
          using sorted_le_last [of batch] sorted by (simp add: batch_def sorted_wrt_take leD)
        moreover have "cursor < ?next"
          using batch_all [OF last_in_set [OF False]] set_all by blast
        ultimately show ?thesis unfolding orph2 set_all by (auto dest: less_trans)
      qed
      have un: "set batch \<union> set (drop sweepBatch all) = ?todo"
        unfolding set_all [symmetric] batch_def by (metis append_take_drop_id set_append)
      have "card (set (drop sweepBatch all)) = length (drop sweepBatch all)"
        using dist by (metis distinct_card distinct_drop)
      then have count: "length batch + card (set (drop sweepBatch all)) = card ?todo"
        unfolding card using full by (simp add: batch_def)
      have "fst (sweepLoop scope ?next (removed + length batch) s2) =
          (removed + length batch + card {h \<in> orphan_hashes scope (st_db s2). ?next < h}, None) \<and>
        st_db (snd (sweepLoop scope ?next (removed + length batch) s2)) =
          drop_content {h \<in> orphan_hashes scope (st_db s2). ?next < h} (st_db s2) \<and>
        quiet (snd (sweepLoop scope ?next (removed + length batch) s2))"
        by (rule 1(1) [OF cand(1) [symmetric] refl False tx(1) [symmetric] refl refl])
          (use full tx(3) inv2 in simp_all)
      then show ?thesis
        unfolding step rest unfolding tx(2) drop_content_comp un using count by (simp add: add.assoc)
    qed
  qed
qed

text \<open>The sweep as a whole, in a quiet world: exactly the orphans of its scope go, counted.\<close>

lemma orphan_hashes_nonempty: "catalog_inv db \<Longrightarrow> h \<in> orphan_hashes scope db \<Longrightarrow> '''' < h"
  by (cases h) (auto simp: catalog_inv_def content_inv_def orphan_hashes_def hashes_def)

lemma SweepOrphans_quiet:
  assumes "quiet s" "catalog_inv (st_db s)"
  shows "fst (SweepOrphans scope s) = (card (orphan_hashes scope (st_db s)), None)"
    and "st_db (snd (SweepOrphans scope s)) = drop_content (orphan_hashes scope (st_db s)) (st_db s)"
    and "quiet (snd (SweepOrphans scope s))"
proof -
  obtain s1 where s1: "driver s = (None, s1)" "st_db s1 = st_db s" "quiet s1"
    using driver_quiet [OF assms(1)] .
  have all: "{h \<in> orphan_hashes scope (st_db s). '''' < h} = orphan_hashes scope (st_db s)"
    using orphan_hashes_nonempty [OF assms(2)] by blast
  have loop: "fst (sweepLoop scope '''' 0 s1) = (card (orphan_hashes scope (st_db s)), None) \<and>
      st_db (snd (sweepLoop scope '''' 0 s1)) = drop_content (orphan_hashes scope (st_db s)) (st_db s) \<and>
      quiet (snd (sweepLoop scope '''' 0 s1))"
    using sweepLoop_spec [of s1 scope "''''" 0] s1 assms(2) unfolding s1(2) all by simp
  have "fst (SweepOrphans scope s) = (card (orphan_hashes scope (st_db s)), None) \<and>
      st_db (snd (SweepOrphans scope s)) = drop_content (orphan_hashes scope (st_db s)) (st_db s) \<and>
      quiet (snd (SweepOrphans scope s))"
  proof (cases "\<exists>r \<in> set (db_content (st_db s)). orphaned scope (st_db s) r")
    case True
    then show ?thesis using loop s1 by (simp add: SweepOrphans_def withReader_def)
  next
    case False
    then have "orphan_hashes scope (st_db s) = {}" by (auto simp: orphan_hashes_def)
    with False s1 show ?thesis by (simp add: SweepOrphans_def withReader_def)
  qed
  then show "fst (SweepOrphans scope s) = (card (orphan_hashes scope (st_db s)), None)"
    "st_db (snd (SweepOrphans scope s)) = drop_content (orphan_hashes scope (st_db s)) (st_db s)"
    "quiet (snd (SweepOrphans scope s))" by blast+
qed

text \<open>Whatever the world answers: the invariant is kept, and only orphans go.\<close>

lemma sweepLoop_safe:
  assumes "catalog_inv (st_db s)"
  shows "catalog_inv (st_db (snd (sweepLoop scope cursor removed s))) \<and>
    (\<exists>H \<subseteq> orphan_hashes scope (st_db s).
       st_db (snd (sweepLoop scope cursor removed s)) = drop_content H (st_db s))"
  using assms
proof (induction scope cursor removed s rule: sweepLoop.induct)
  case (1 scope cursor removed s)
  obtain r s1 where c: "sweepCandidates scope cursor s = (r, s1)" by fastforce
  have "st_db (snd (sweepCandidates scope cursor s)) = st_db s"
    unfolding sweepCandidates_def by (rule withReader_db)
  with c have db1: "st_db s1 = st_db s" by simp
  show ?case
  proof (cases r)
    case (Inl e)
    then show ?thesis using c db1 1(2)
      by (simp add: sweepLoop.simps [of scope cursor]) (metis drop_content_empty empty_subsetI)
  next
    case (Inr batch)
    show ?thesis
    proof (cases "batch = []")
      case True
      then show ?thesis using c Inr db1 1(2)
        by (simp add: sweepLoop.simps [of scope cursor]) (metis drop_content_empty empty_subsetI)
    next
      case False
      obtain eo n s2 where t: "withTxCap (sweepTx scope batch) s1 = ((eo, n), s2)" by (metis surj_pair)
      define D where "D = set (verifyOrphans scope batch (st_db s))"
      have D: "D \<subseteq> orphan_hashes scope (st_db s)"
        unfolding D_def using set_verifyOrphans_orphans by blast
      have dropD: "catalog_inv (drop_content D (st_db s))"
        using 1(2) by (rule catalog_inv_drop_content) (use orphan_free D in blast)
      have s2: "st_db s2 = st_db s \<or> st_db s2 = drop_content D (st_db s)"
        by (cases "sweepTx scope batch" s1 rule: withTxCap_cases)
          (use t db1 sweepTx_eq [OF 1(2)] in \<open>auto simp: D_def\<close>)
      then have inv2: "catalog_inv (st_db s2)" using dropD 1(2) by auto
      have sub2: "orphan_hashes scope (st_db s2) \<subseteq> orphan_hashes scope (st_db s)"
        using s2 by (auto simp: orphan_hashes_def orphaned_def)
      have done2: "\<exists>H \<subseteq> orphan_hashes scope (st_db s). st_db s2 = drop_content H (st_db s)"
        using s2 D by (metis drop_content_empty empty_subsetI)
      show ?thesis
      proof (cases "eo \<noteq> None \<or> length batch < sweepBatch")
        case True
        then have "snd (sweepLoop scope cursor removed s) = s2"
          using c Inr False t
          by (cases eo) (auto simp: sweepLoop.simps [of scope cursor] Let_def)
        then show ?thesis using inv2 done2 by simp
      next
        case go: False
        let ?r = "removed + (case n of None \<Rightarrow> 0 | Some n \<Rightarrow> n)"
        have step: "sweepLoop scope cursor removed s = sweepLoop scope (last batch) ?r s2"
          using c Inr False t go by (auto simp: sweepLoop.simps [of scope cursor] Let_def)
        obtain H where H: "H \<subseteq> orphan_hashes scope (st_db s2)"
          "st_db (snd (sweepLoop scope (last batch) ?r s2)) = drop_content H (st_db s2)"
          and inv': "catalog_inv (st_db (snd (sweepLoop scope (last batch) ?r s2)))"
          using 1(1) [OF c [symmetric] Inr False t [symmetric] refl] go inv2 by auto
        have "\<exists>H' \<subseteq> orphan_hashes scope (st_db s). drop_content H (st_db s2) = drop_content H' (st_db s)"
          using s2
        proof
          assume "st_db s2 = st_db s"
          then show ?thesis using H(1) by auto
        next
          assume eq: "st_db s2 = drop_content D (st_db s)"
          have "D \<union> H \<subseteq> orphan_hashes scope (st_db s)" using D H(1) sub2 by blast
          then show ?thesis unfolding eq drop_content_comp by blast
        qed
        then show ?thesis unfolding step H(2) using inv' H(2) by simp
      qed
    qed
  qed
qed

section \<open>Reading the chunks of a content back\<close>

definition toChunk :: "chunkRow \<Rightarrow> Chunk" where
  "toChunk k = \<lparr>ch_Ordinal = k_ordinal k, ch_Text = k_text k, ch_HeadingPath = k_heading k,
     ch_ByteStart = k_start k, ch_ByteEnd = k_end k\<rparr>"

definition chunks_of :: "hash \<Rightarrow> DB \<Rightarrow> Chunk list" where
  "chunks_of h db = map toChunk (filter (\<lambda>k. k_hash k = h) (db_chunks db))"

definition vectors_of :: "hash \<Rightarrow> DB \<Rightarrow> (string \<times> vecRows) list" where
  "vectors_of h db =
     map (\<lambda>(name, rows). (name, filter (\<lambda>r. fst r \<in> chunk_ids_of h db) rows)) (db_vec_tables db)"

lemma toChunk_row [simp]: "toChunk (chunk_row h i ch) = ch"
  by (simp add: toChunk_def chunk_row_def)

lemma map_toChunk_rows: "length ids = length chs \<Longrightarrow> map toChunk (map2 (chunk_row h) ids chs) = chs"
  by (induction ids chs rule: list_induct2) auto

lemma filter_rows_same: "filter (\<lambda>k. k_hash k = h) (map2 (chunk_row h) ids chs) = map2 (chunk_row h) ids chs"
  by (induction ids chs rule: list_induct2') auto

lemma filter_rows_other: "h' \<noteq> h \<Longrightarrow> filter (\<lambda>k. k_hash k = h') (map2 (chunk_row h) ids chs) = []"
  by (induction ids chs rule: list_induct2') auto

lemma filter_none: "(\<And>x. x \<in> set xs \<Longrightarrow> \<not> P x) \<Longrightarrow> filter P xs = []"
  by (induction xs) auto

lemma filter_conj_absorb: "(\<And>x. Q x \<Longrightarrow> P x) \<Longrightarrow> filter (\<lambda>x. Q x \<and> P x) xs = filter Q xs"
  by (induction xs) auto

text \<open>The state \<open>storeChunksTx\<close> leaves: old chunks and vectors gone, the new ones in order.\<close>

lemma storeChunksTx_spec:
  assumes inv: "catalog_inv db" and h: "c_Hash c \<in> hashes db" and d: "distinct (map ch_Ordinal chunks)"
  obtains db' where "storeChunksTx c chunks now db =
      Inr (db', [Suc (db_chunk_seq db)..<Suc (db_chunk_seq db + length chunks)])"
    "chunks_of (c_Hash c) db' = chunks"
    "\<And>h'. h' \<noteq> c_Hash c \<Longrightarrow> chunks_of h' db' = chunks_of h' db"
    "db_vec_tables db' = db_vec_tables (drop_vectors (ids_of {c_Hash c} db) db)"
    "db_content db' = db_content (update_content (c_Hash c)
      (\<lambda>r. r\<lparr>r_state := c_State c, r_stage := c_StageVersions c, r_updated := now\<rparr>) db)"
    "db_documents db' = db_documents db"
    "\<And>k. k \<in> set (db_chunks db') \<Longrightarrow> k_hash k = c_Hash c \<Longrightarrow> db_chunk_seq db < k_id k"
proof -
  let ?h = "c_Hash c"
  let ?u = "update_content ?h
    (\<lambda>r. r\<lparr>r_state := c_State c, r_stage := c_StageVersions c, r_updated := now\<rparr>) db"
  let ?db2 = "drop_chunks {?h} ?u"
  obtain db' ids where ins: "insertChunks ?h chunks ?db2 = Inr (db', ids)"
    by (rule insertChunks_ok [of chunks ?db2 ?h]) (use d in auto)
  note res = insertChunks_result [OF ins]
  have seq: "db_chunk_seq ?db2 = db_chunk_seq db" by simp
  have len: "length ids = length chunks" unfolding res(1) by (simp del: upt_Suc)
  have rows: "db_chunks db' = filter (\<lambda>k. k_hash k \<noteq> ?h) (db_chunks db) @ map2 (chunk_row ?h) ids chunks"
    by (simp add: res(2))
  show ?thesis
  proof (rule that [of db'], goal_cases)
    case 1
    show ?case using h ins res(1) seq by (simp add: storeChunksTx_eq [OF inv] del: upt_Suc)
  next
    case 2
    have "filter (\<lambda>k. k_hash k = ?h) (db_chunks db') = map2 (chunk_row ?h) ids chunks"
      unfolding rows filter_append filter_rows_same by (simp add: filter_none)
    then show ?case using map_toChunk_rows [OF len] by (simp add: chunks_of_def del: map_map)
  next
    case (3 h')
    have "filter (\<lambda>k. k_hash k = h') (filter (\<lambda>k. k_hash k \<noteq> ?h) (db_chunks db)) =
        filter (\<lambda>k. k_hash k = h') (db_chunks db)"
      unfolding filter_filter by (rule filter_cong) (use 3 in auto)
    then show ?case by (simp add: chunks_of_def rows filter_rows_other [OF 3] del: filter_filter)
  next
    case 4
    show ?case by (simp add: res(2) drop_chunks_def drop_vectors_def)
  next
    case 5
    show ?case by (simp add: res(2))
  next
    case 6
    show ?case by (simp add: res(2))
  next
    case (7 k)
    then have "k \<in> set (map2 (chunk_row ?h) ids chunks)" by (auto simp: rows)
    then have "k_id k \<in> set ids" by (auto dest: set_zip_leftD)
    then show ?case unfolding res(1) seq by auto
  qed
qed

lemma vector_id_live:
  assumes "catalog_inv db" "(name, rows) \<in> set (db_vec_tables db)" "r \<in> set rows"
  shows "fst r \<in> chunk_ids db"
proof -
  obtain i where i: "i < length (db_vec_tables db)" "db_vec_tables db ! i = (name, rows)"
    using assms(2) by (auto simp: in_set_conv_nth)
  have "list_all2 (vec_table_ok (chunk_ids db)) (db_vec_tables db) (db_vec_descs db)"
    using assms(1) by (simp add: catalog_inv_def vectors_inv_def)
  from list_all2_nthD [OF this i(1)] assms(3) show ?thesis
    unfolding i(2) vec_table_ok_def by auto
qed

lemma vector_id_seq:
  assumes "catalog_inv db" "(name, rows) \<in> set (db_vec_tables db)" "r \<in> set rows"
  shows "fst r \<le> db_chunk_seq db"
  using vector_id_live [OF assms] assms(1)
  by (auto simp: chunk_ids_def catalog_inv_def content_inv_def chunk_row_ok_def)

section \<open>Properties\<close>

text \<open>
  In a quiet world \<open>StoreChunks\<close> on an existing content with distinct ordinals returns
  consecutive fresh ids, leaves exactly the given chunks for the content in their order and every
  other content's chunks as they were, sets the state and the stage versions, keeps the retry
  columns, and leaves no vector of the content in any generation.
\<close>

theorem StoreChunks_replaces:
  assumes "quiet s" "catalog_inv (st_db s)" "content_map (st_db s) (c_Hash c) = Some r"
    and "distinct (map ch_Ordinal chunks)"
  shows "\<exists>now ids. fst (StoreChunks c chunks s) = Inr ids \<and>
    ids = [Suc (db_chunk_seq (st_db s))..<Suc (db_chunk_seq (st_db s) + length chunks)] \<and>
    chunks_of (c_Hash c) (st_db (snd (StoreChunks c chunks s))) = chunks \<and>
    (\<forall>h. h \<noteq> c_Hash c \<longrightarrow>
       chunks_of h (st_db (snd (StoreChunks c chunks s))) = chunks_of h (st_db s)) \<and>
    content_map (st_db (snd (StoreChunks c chunks s))) (c_Hash c) =
      Some (r\<lparr>r_state := c_State c, r_stage := c_StageVersions c, r_updated := now\<rparr>) \<and>
    (\<forall>t \<in> set (vectors_of (c_Hash c) (st_db (snd (StoreChunks c chunks s)))). snd t = [])"
proof -
  let ?s' = "snd (StoreChunks c chunks s)"
  have h: "c_Hash c \<in> hashes (st_db s)" using assms(3) content_map_None by (metis option.distinct(1))
  obtain now where res: "fst (StoreChunks c chunks s) = map_sum id snd (storeChunksTx c chunks now (st_db s))"
    "st_db ?s' = (case storeChunksTx c chunks now (st_db s) of Inl _ \<Rightarrow> st_db s | Inr (db, _) \<Rightarrow> db)"
    unfolding StoreChunks_def using withTx_quiet [OF assms(1)] by metis
  obtain db' where tx: "storeChunksTx c chunks now (st_db s) =
      Inr (db', [Suc (db_chunk_seq (st_db s))..<Suc (db_chunk_seq (st_db s) + length chunks)])"
    and chunks: "chunks_of (c_Hash c) db' = chunks" "\<And>h'. h' \<noteq> c_Hash c \<Longrightarrow> chunks_of h' db' = chunks_of h' (st_db s)"
    and vecs: "db_vec_tables db' = db_vec_tables (drop_vectors (ids_of {c_Hash c} (st_db s)) (st_db s))"
    and content: "db_content db' = db_content (update_content (c_Hash c)
      (\<lambda>r. r\<lparr>r_state := c_State c, r_stage := c_StageVersions c, r_updated := now\<rparr>) (st_db s))"
    and fresh: "\<And>k. k \<in> set (db_chunks db') \<Longrightarrow> k_hash k = c_Hash c \<Longrightarrow> db_chunk_seq (st_db s) < k_id k"
    using storeChunksTx_spec [OF assms(2) h assms(4), of now] by metis
  have db': "st_db ?s' = db'" by (simp add: res(2) tx)
  have "content_map db' (c_Hash c) =
      Some (r\<lparr>r_state := c_State c, r_stage := c_StageVersions c, r_updated := now\<rparr>)"
    using map_of_map_update [of r_hash "\<lambda>r. r\<lparr>r_state := c_State c, r_stage := c_StageVersions c, r_updated := now\<rparr>"
        "c_Hash c" "db_content (st_db s)"] assms(3)
    by (simp add: content_map_def content update_content_def)
  moreover have "snd t = []" if t: "t \<in> set (vectors_of (c_Hash c) db')" for t
  proof -
    obtain name rows where tbl: "(name, rows) \<in> set (db_vec_tables db')"
      "t = (name, filter (\<lambda>r. fst r \<in> chunk_ids_of (c_Hash c) db') rows)"
      using t by (auto simp: vectors_of_def)
    have "fst r \<le> db_chunk_seq (st_db s)" if r: "r \<in> set rows" for r
    proof -
      obtain rows0 where "(name, rows0) \<in> set (db_vec_tables (st_db s))" "r \<in> set rows0"
        using tbl(1) r by (auto simp: vecs drop_vectors_def)
      then show ?thesis by (rule vector_id_seq [OF assms(2)])
    qed
    moreover have "\<And>i. i \<in> chunk_ids_of (c_Hash c) db' \<Longrightarrow> db_chunk_seq (st_db s) < i"
      using fresh by (auto simp: chunk_ids_of_def)
    ultimately show ?thesis unfolding tbl(2) by (auto intro!: filter_none) (metis not_less)
  qed
  ultimately show ?thesis
    using res(1) tx db' chunks by auto
qed

definition demo_content :: Content where
  "demo_content = \<lparr>c_Hash = ''h1'', c_State = Chunked, c_StageVersions = [StageChunker \<mapsto> ''v2''],
     c_Attempts = 0, c_NextRetryAt = None, c_LastError = ''''\<rparr>"

definition demo_chunks :: "Chunk list" where
  "demo_chunks =
     [\<lparr>ch_Ordinal = 0, ch_Text = ''p'', ch_HeadingPath = '''', ch_ByteStart = 0, ch_ByteEnd = 1\<rparr>,
      \<lparr>ch_Ordinal = 1, ch_Text = ''q'', ch_HeadingPath = '''', ch_ByteStart = 1, ch_ByteEnd = 2\<rparr>]"

theorem StoreChunks_replaces_witness:
  "fst (StoreChunks demo_content demo_chunks (demo_store demo_db)) = Inr [3, 4] \<and>
   chunks_of ''h1'' (st_db (snd (StoreChunks demo_content demo_chunks (demo_store demo_db)))) = demo_chunks"
proof -
  have row: "content_map demo_db (c_Hash demo_content) = Some (demo_content_row ''h1'' Discovered)"
    by (simp add: content_map_def demo_db_def demo_content_def demo_content_row_def)
  have d: "distinct (map ch_Ordinal demo_chunks)" by (simp add: demo_chunks_def)
  have h: "c_Hash demo_content = ''h1''" by (simp add: demo_content_def)
  have ids: "[Suc (db_chunk_seq demo_db)..<Suc (db_chunk_seq demo_db + length demo_chunks)] = [3, 4]"
    by (simp add: demo_db_def demo_chunks_def)
  show ?thesis
    using StoreChunks_replaces [of "demo_store demo_db" demo_content _ demo_chunks, unfolded st_db_demo,
        OF quiet_demo catalog_inv_demo row d]
    unfolding ids h by auto
qed

text \<open>
  In a quiet world \<open>MarkFailed\<close> on an existing content leaves it failed with the reason, with no
  chunk and no vector in any generation, and every other content's row and chunks as they were;
  on a content that is gone it reports \<open>ErrContentGone\<close> and changes nothing.
\<close>

theorem MarkFailed_clears:
  assumes "quiet s" "catalog_inv (st_db s)"
  shows "case content_map (st_db s) h of
      None \<Rightarrow> fst (MarkFailed h reason s) = Inl ErrContentGone \<and> st_db (snd (MarkFailed h reason s)) = st_db s
    | Some r \<Rightarrow> (\<exists>now. fst (MarkFailed h reason s) = Inr () \<and>
        content_map (st_db (snd (MarkFailed h reason s))) =
          (content_map (st_db s))(h \<mapsto> r\<lparr>r_state := Failed, r_last_error := Some reason, r_updated := now\<rparr>) \<and>
        (\<forall>h'. chunks_of h' (st_db (snd (MarkFailed h reason s))) =
          (if h' = h then [] else chunks_of h' (st_db s))) \<and>
        db_vec_tables (st_db (snd (MarkFailed h reason s))) =
          map (\<lambda>(name, rows). (name, filter (\<lambda>v. fst v \<notin> chunk_ids_of h (st_db s)) rows))
            (db_vec_tables (st_db s)))"
proof -
  let ?s' = "snd (MarkFailed h reason s)"
  obtain now where res: "fst (MarkFailed h reason s) = map_sum id snd (markFailedTx h reason now (st_db s))"
    "st_db ?s' = (case markFailedTx h reason now (st_db s) of Inl _ \<Rightarrow> st_db s | Inr (db, _) \<Rightarrow> db)"
    unfolding MarkFailed_def using withTx_quiet [OF assms(1)] by metis
  let ?f = "\<lambda>r. r\<lparr>r_state := Failed, r_last_error := Some reason, r_updated := now\<rparr>"
  show ?thesis
  proof (cases "content_map (st_db s) h")
    case None
    then have "h \<notin> hashes (st_db s)" using content_map_None by metis
    with None show ?thesis using res by (simp add: markFailedTx_eq [OF assms(2)])
  next
    case (Some r)
    then have h: "h \<in> hashes (st_db s)" using content_map_None by (metis option.distinct(1))
    have db': "st_db ?s' = drop_chunks {h} (update_content h ?f (st_db s))"
      using res(2) h by (simp add: markFailedTx_eq [OF assms(2)])
    have "content_map (st_db ?s') = (content_map (st_db s))(h \<mapsto> ?f r)"
      using map_of_map_update [of r_hash ?f h "db_content (st_db s)"] Some
      by (simp add: db' content_map_def update_content_def fun_eq_iff option.map_id)
    moreover have "chunks_of h' (st_db ?s') = (if h' = h then [] else chunks_of h' (st_db s))" for h'
      unfolding db' chunks_of_def
      by (auto intro!: arg_cong [where f = "map toChunk"] filter_cong filter_none)
    moreover have "db_vec_tables (st_db ?s') =
        map (\<lambda>(name, rows). (name, filter (\<lambda>v. fst v \<notin> chunk_ids_of h (st_db s)) rows)) (db_vec_tables (st_db s))"
      by (simp add: db' drop_chunks_def drop_vectors_def) (simp add: ids_of_def chunk_ids_of_def)
    moreover have "fst (MarkFailed h reason s) = Inr ()"
      using res(1) h by (simp add: markFailedTx_eq [OF assms(2)])
    ultimately show ?thesis using Some by auto
  qed
qed

theorem MarkFailed_clears_witness:
  "fst (MarkFailed ''h1'' ''bad'' (demo_store demo_db)) = Inr ()"
proof -
  have row: "content_map demo_db ''h1'' = Some (demo_content_row ''h1'' Discovered)"
    by (simp add: content_map_def demo_db_def demo_content_row_def)
  show ?thesis
    using MarkFailed_clears [of "demo_store demo_db" "''h1''" "''bad''"] catalog_inv_demo row by auto
qed

text \<open>
  C28: In a quiet world the orphan sweep removes exactly the content rows of its scope that no
  documents row references, with their chunks and their vectors in every generation, and reports
  their number; nothing referenced and no documents row is touched.
\<close>

theorem SweepOrphans_exact:
  assumes "quiet s" "catalog_inv (st_db s)"
  shows "fst (SweepOrphans scope s) = (card (orphan_hashes scope (st_db s)), None) \<and>
    st_db (snd (SweepOrphans scope s)) = drop_content (orphan_hashes scope (st_db s)) (st_db s)"
  using SweepOrphans_quiet [OF assms] by simp

theorem SweepOrphans_exact_witness:
  "fst (SweepOrphans SweepScopeAll (demo_store demo_db)) = (1, None)"
proof -
  have "orphan_hashes SweepScopeAll demo_db = {''h2''}"
    unfolding orphan_hashes_set by (simp add: orphaned_def demo_db_def demo_content_row_def)
  then show ?thesis
    using SweepOrphans_exact [of "demo_store demo_db" SweepScopeAll] catalog_inv_demo by simp
qed

text \<open>
  Whatever the world answers (errors, failed commits, cancellation between any two statements),
  the sweep keeps the catalog's invariant and the database it leaves is the old one less some set
  of orphans: no content that a document references ever loses its row, chunks or vectors.
\<close>

theorem SweepOrphans_only_orphans:
  assumes "catalog_inv (st_db s)"
  shows "catalog_inv (st_db (snd (SweepOrphans scope s))) \<and>
    (\<exists>H \<subseteq> orphan_hashes scope (st_db s). st_db (snd (SweepOrphans scope s)) = drop_content H (st_db s))"
proof -
  obtain r s1 where q: "withReader (\<lambda>db. Inr (\<exists>r \<in> set (db_content db). orphaned scope db r)) s = (r, s1)"
    by fastforce
  have db1: "st_db s1 = st_db s"
    using withReader_db [of "\<lambda>db. Inr (\<exists>r \<in> set (db_content db). orphaned scope db r)" s] q by simp
  have same: "\<exists>H \<subseteq> orphan_hashes scope (st_db s). st_db s = drop_content H (st_db s)"
    by (metis drop_content_empty empty_subsetI)
  show ?thesis
  proof (cases r)
    case (Inr due)
    then show ?thesis
      using q same db1 assms sweepLoop_safe [of s1 scope "''''" 0]
      by (cases due) (simp_all add: SweepOrphans_def)
  qed (use q same db1 assms in \<open>simp add: SweepOrphans_def\<close>)
qed

theorem SweepOrphans_only_orphans_witness:
  "catalog_inv (st_db (snd (SweepOrphans SweepScopeQueue
     ((demo_store demo_db)\<lparr>st_world := [(1, Ok), (2, Ok), (3, Ok), (4, Fault ''disk full'')]\<rparr>))))"
  using SweepOrphans_only_orphans [of "(demo_store demo_db)\<lparr>st_world := [(1, Ok), (2, Ok), (3, Ok), (4, Fault ''disk full'')]\<rparr>"]
    catalog_inv_demo by (simp add: demo_store_def)

end
