(* ===== verification/Queue.thy ===== *)
theory Queue
  imports Contents
begin

text \<open>
  The work queue over content rows (queue.go): the claim with its aging share, the re-read of one
  item before it is worked, the reschedule of a transient failure and the reset of stale rows.
\<close>

section \<open>Claiming (queue.go: ClaimBatch)\<close>

definition agingShare :: int where "agingShare = 4"

definition due :: "int \<Rightarrow> contentRow \<Rightarrow> bool" where
  "due now r \<longleftrightarrow> \<not> Terminal (r_state r) \<and>
     (case r_next_retry r of None \<Rightarrow> True | Some t \<Rightarrow> t \<le> now)"

text \<open>\<open>ORDER BY updated_at ASC, content_hash ASC\<close>; the other order is its reverse.\<close>

definition claimOrder :: "int \<Rightarrow> DB \<Rightarrow> contentRow list" where
  "claimOrder now db = sort_key (\<lambda>r. (r_updated r, r_hash r)) (filter (due now) (db_content db))"

definition ClaimBatch :: "int \<Rightarrow> int \<Rightarrow> Store \<Rightarrow> (StoreErr + Content list) \<times> Store" where
  "ClaimBatch now limit s =
     (if limit \<le> 0 then (Inr [], s)
      else
        let aging = limit div agingShare;
            recent = limit - aging
        in case withReader (\<lambda>db. Inr (map fromContentRow (take (nat recent) (rev (claimOrder now db))))) s of
             (Inl e, s1) \<Rightarrow> (Inl e, s1)
           | (Inr contents, s1) \<Rightarrow>
               (if aging > 0 then
                  (case withReader (\<lambda>db. Inr (map fromContentRow (take (nat aging) (claimOrder now db)))) s1 of
                     (Inl e, s2) \<Rightarrow> (Inl e, s2)
                   | (Inr old, s2) \<Rightarrow>
                       (Inr (contents @ filter (\<lambda>c. c_Hash c \<notin> c_Hash ` set contents) old), s2))
                else (Inr contents, s1)))"

section \<open>Re-reading one item (queue.go: GetWork)\<close>

definition GetWork :: "hash \<Rightarrow> Store \<Rightarrow> (StoreErr + WorkItem) \<times> Store" where
  "GetWork h =
     withReader (\<lambda>db.
       (case find (\<lambda>r. r_hash r = h) (db_content db) of
          None \<Rightarrow> Inl ErrContentGone
        | Some r \<Rightarrow>
            (case map d_path (holders h db) of
               [] \<Rightarrow> Inl ErrContentGone
             | p # ps \<Rightarrow> Inr \<lparr>wi_Content = fromContentRow r, wi_Path = p, wi_Paths = p # ps\<rparr>)))"

section \<open>Retry and reset (queue.go: Reschedule, ResetStale)\<close>

definition Reschedule :: "hash \<Rightarrow> int \<Rightarrow> int \<Rightarrow> string \<Rightarrow> Store \<Rightarrow> (StoreErr + unit) \<times> Store" where
  "Reschedule h attempts retryAt reason =
     updateContent h (\<lambda>now r. r\<lparr>r_attempts := attempts, r_next_retry := Some retryAt,
       r_last_error := Some reason, r_updated := now\<rparr>)"

text \<open>\<open>current\<close> is a Go map, written as its list of entries.\<close>

definition staleRow :: "(string \<times> string) list \<Rightarrow> contentRow \<Rightarrow> bool" where
  "staleRow current r \<longleftrightarrow> (r_state r = Indexed \<or> r_state r = Failed) \<and>
     (\<exists>(k, v) \<in> set current. r_stage r k \<noteq> Some v)"

definition resetRow :: "contentRow \<Rightarrow> contentRow" where
  "resetRow r = r\<lparr>r_state := Discovered, r_attempts := 0, r_next_retry := None, r_last_error := None\<rparr>"

definition resetStaleTx :: "(string \<times> string) list \<Rightarrow> int \<Rightarrow> DB \<Rightarrow> StoreErr + DB \<times> nat" where
  "resetStaleTx current now db =
     Inr (db\<lparr>db_content := map (\<lambda>r. if staleRow current r then resetRow r else r) (db_content db)\<rparr>,
          length (filter (staleRow current) (db_content db)))"

text \<open>
  The count is assigned inside the closure and returned with the error, so a failed commit still
  reports the rows the statement matched.
\<close>

definition ResetStale :: "(string \<times> string) list \<Rightarrow> Store \<Rightarrow> (nat \<times> StoreErr option) \<times> Store" where
  "ResetStale current s =
     (if current = [] then ((0, None), s)
      else case withTxCap (resetStaleTx current) s of
             ((e, n), s') \<Rightarrow> ((case n of None \<Rightarrow> 0 | Some n \<Rightarrow> n, e), s'))"

section \<open>The invariant\<close>

interpretation claimBatch: store_op "ClaimBatch now limit" for now limit
proof
  fix s :: Store
  have same: "st_db (snd (ClaimBatch now limit s)) = st_db s"
  proof (cases "limit \<le> 0")
    case False
    let ?q = "\<lambda>db. Inr (map fromContentRow (take (nat (limit - limit div agingShare)) (rev (claimOrder now db))))"
    let ?o = "\<lambda>db. Inr (map fromContentRow (take (nat (limit div agingShare)) (claimOrder now db)))"
    obtain r s1 where q: "withReader ?q s = (r, s1)" by fastforce
    obtain r2 s2 where o: "withReader ?o s1 = (r2, s2)" by fastforce
    have "st_db s1 = st_db s" "st_db s2 = st_db s1"
      using withReader_db [of ?q s] withReader_db [of ?o s1] q o by simp_all
    then show ?thesis
      using False q o by (cases r; cases r2; simp add: ClaimBatch_def Let_def)
  qed (simp add: ClaimBatch_def)
  then show "catalog_inv (st_db s) \<Longrightarrow> catalog_inv (st_db (snd (ClaimBatch now limit s)))" by simp
  show "st_db (snd (ClaimBatch now limit s)) = st_db s" by (rule same)
qed

interpretation getWork: store_op "GetWork h" for h
  unfolding GetWork_def by (rule store_op_withReader)

interpretation reschedule: store_op "Reschedule h attempts retryAt reason" for h attempts retryAt reason
  unfolding Reschedule_def by (rule store_op_updateContent) simp

lemma resetRow_hash [simp]: "r_hash (resetRow r) = r_hash r"
  by (simp add: resetRow_def)

lemma catalog_inv_content_rows:
  assumes "catalog_inv db" "map r_hash rows = map r_hash (db_content db)"
  shows "catalog_inv (db\<lparr>db_content := rows\<rparr>)"
proof -
  have "hashes (db\<lparr>db_content := rows\<rparr>) = hashes db"
    unfolding hashes_def using assms(2) by (simp flip: set_map)
  then show ?thesis
    using assms by (simp add: catalog_inv_def documents_inv_def content_inv_def vectors_inv_def chunk_ids_def)
qed

lemma reset_rows_keys:
  "map r_hash (map (\<lambda>r. if P r then resetRow r else r) rows) = map r_hash rows"
  by (induction rows) auto

lemma catalog_inv_resetStaleTx:
  "catalog_inv db \<Longrightarrow> resetStaleTx current now db = Inr (db', n) \<Longrightarrow> catalog_inv db'"
  unfolding resetStaleTx_def by (auto intro!: catalog_inv_content_rows simp: reset_rows_keys simp del: map_map)

lemma ResetStale_keeps:
  assumes "catalog_inv (st_db s)"
  shows "catalog_inv (st_db (snd (ResetStale current s)))"
proof (cases "current = []")
  case False
  then show ?thesis
    by (cases "resetStaleTx current" s rule: withTxCap_cases)
      (use assms catalog_inv_resetStaleTx [OF assms] in \<open>auto simp: ResetStale_def\<close>)
qed (use assms in \<open>simp add: ResetStale_def\<close>)

section \<open>What the claim returns\<close>

lemma claim_rows:
  "set (claimOrder now db) = {r \<in> set (db_content db). due now r}"
  "length (claimOrder now db) = length (filter (due now) (db_content db))"
  "distinct (map r_hash (db_content db)) \<Longrightarrow> distinct (map r_hash (claimOrder now db))"
  "sorted (map (\<lambda>r. (r_updated r, r_hash r)) (claimOrder now db))"
proof -
  show "set (claimOrder now db) = {r \<in> set (db_content db). due now r}"
    "length (claimOrder now db) = length (filter (due now) (db_content db))"
    "sorted (map (\<lambda>r. (r_updated r, r_hash r)) (claimOrder now db))"
    by (auto simp: claimOrder_def)
  assume d: "distinct (map r_hash (db_content db))"
  have "mset (map r_hash (claimOrder now db)) = mset (map r_hash (filter (due now) (db_content db)))"
    by (simp add: claimOrder_def)
  then show "distinct (map r_hash (claimOrder now db))"
    using d by (metis distinct_map_filter mset_eq_imp_distinct_iff)
qed

text \<open>
  The newest \<open>recent\<close> rows and the oldest \<open>aging\<close> rows of a list sorted oldest first, without the
  overlap: as many as the limit allows, and all when there are no more than that.
\<close>

lemma composed_batch:
  assumes "distinct (map key xs)" "xs' = rev xs"
  shows "length (take m xs' @ filter (\<lambda>x. key x \<notin> key ` set (take m xs')) (take n xs)) =
      min (m + n) (length xs)"
    and "distinct (map key (take m xs' @ filter (\<lambda>x. key x \<notin> key ` set (take m xs')) (take n xs)))"
    and "take m xs' @ filter (\<lambda>x. key x \<notin> key ` set (take m xs')) (take n xs) =
      rev (drop (length xs - m) xs) @ take (min n (length xs - m)) xs"
proof -
  let ?k = "length xs - m"
  have rev: "take m xs' = rev (drop ?k xs)" unfolding assms(2) by (simp add: take_rev)
  have split: "xs = take ?k xs @ drop ?k xs" by simp
  have disj: "key ` set (take ?k xs) \<inter> key ` set (drop ?k xs) = {}"
  proof -
    have "distinct (map key (take ?k xs) @ map key (drop ?k xs))"
      using assms(1) split by (metis map_append)
    then show ?thesis by (simp only: distinct_append set_map)
  qed
  have in_drop: "x \<in> set (drop ?k xs) \<longleftrightarrow> key x \<in> key ` set (drop ?k xs)" if "x \<in> set xs" for x
  proof -
    have "x \<in> set (take ?k xs) \<or> x \<in> set (drop ?k xs)" using that split by (metis Un_iff set_append)
    then show ?thesis using disj by blast
  qed
  have "filter (\<lambda>x. key x \<notin> key ` set (drop ?k xs)) (take n xs) = take (min n ?k) xs"
  proof -
    have keep: "filter (\<lambda>x. key x \<notin> key ` set (drop ?k xs)) (take ?k xs) = take ?k xs"
      using disj by (auto simp: filter_id_conv)
    have gone: "filter (\<lambda>x. key x \<notin> key ` set (drop ?k xs)) (drop ?k xs) = []"
      by (auto simp: filter_empty_conv)
    show ?thesis
    proof (cases "n \<le> ?k")
      case True
      then have "set (take n xs) \<subseteq> set (take ?k xs)" by (simp add: set_take_subset_set_take)
      then show ?thesis using disj True by (auto simp: filter_id_conv)
    next
      case False
      then have "take n xs = take ?k xs @ take (n - ?k) (drop ?k xs)"
        by (metis add_diff_inverse_nat not_less not_le_imp_less take_add less_imp_le)
      moreover have "filter (\<lambda>x. key x \<notin> key ` set (drop ?k xs)) (take (n - ?k) (drop ?k xs)) = []"
        using gone by (auto simp: filter_empty_conv dest: in_set_takeD)
      ultimately show ?thesis using keep False by simp
    qed
  qed
  then have eq: "take m xs' @ filter (\<lambda>x. key x \<notin> key ` set (take m xs')) (take n xs) =
      rev (drop ?k xs) @ take (min n ?k) xs"
    unfolding rev set_rev by simp
  then show "take m xs' @ filter (\<lambda>x. key x \<notin> key ` set (take m xs')) (take n xs) =
      rev (drop ?k xs) @ take (min n ?k) xs" .
  show "length (take m xs' @ filter (\<lambda>x. key x \<notin> key ` set (take m xs')) (take n xs)) =
      min (m + n) (length xs)"
    unfolding eq length_append length_rev length_drop length_take by arith
  have "distinct (map key (drop ?k xs))" "distinct (map key (take (min n ?k) xs))"
    using assms(1) by (simp_all add: drop_map [symmetric] take_map [symmetric] del: drop_map take_map)
  moreover have "key ` set (take (min n ?k) xs) \<subseteq> key ` set (take ?k xs)"
    by (intro image_mono set_take_subset_set_take) simp
  ultimately show "distinct (map key (take m xs' @ filter (\<lambda>x. key x \<notin> key ` set (take m xs')) (take n xs)))"
    unfolding eq using disj by (auto simp: rev_map [symmetric])
qed

definition claimAging :: "int \<Rightarrow> nat" where "claimAging limit = nat (limit div agingShare)"
definition claimRecent :: "int \<Rightarrow> nat" where "claimRecent limit = nat (limit - limit div agingShare)"

definition claimRows :: "int \<Rightarrow> int \<Rightarrow> DB \<Rightarrow> contentRow list" where
  "claimRows now limit db =
     (let new = take (claimRecent limit) (rev (claimOrder now db))
      in new @ filter (\<lambda>r. r_hash r \<notin> r_hash ` set new) (take (claimAging limit) (claimOrder now db)))"

lemma fromContentRow_hash [simp]: "c_Hash (fromContentRow r) = r_hash r"
  by (simp add: fromContentRow_def)

lemma ClaimBatch_rows:
  assumes "quiet s" "0 < limit"
  shows "fst (ClaimBatch now limit s) = Inr (map fromContentRow (claimRows now limit (st_db s)))"
    and "quiet (snd (ClaimBatch now limit s))"
proof -
  let ?db = "st_db s"
  obtain s1 where s1: "driver s = (None, s1)" "st_db s1 = ?db" "quiet s1"
    using driver_quiet [OF assms(1)] .
  obtain s2 where s2: "driver s1 = (None, s2)" "st_db s2 = st_db s1" "quiet s2"
    using driver_quiet [OF s1(3)] .
  have hashes: "c_Hash ` set (map fromContentRow rows) = r_hash ` set rows" for rows
    by (simp add: image_image)
  have fm: "filter (\<lambda>c. c_Hash c \<notin> H) (map fromContentRow rows) =
      map fromContentRow (filter (\<lambda>r. r_hash r \<notin> H) rows)" for H rows
    by (simp add: filter_map comp_def)
  have "fst (ClaimBatch now limit s) = Inr (map fromContentRow (claimRows now limit ?db)) \<and>
    quiet (snd (ClaimBatch now limit s))"
  proof (cases "limit div agingShare > 0")
    case True
    then show ?thesis
      using assms(2) s1 s2
      by (simp add: ClaimBatch_def claimRows_def Let_def withReader_def claimAging_def claimRecent_def
          hashes fm del: set_map)
  next
    case False
    then have "claimAging limit = 0" by (simp add: claimAging_def)
    then show ?thesis
      using assms(2) s1 False
      by (simp add: ClaimBatch_def claimRows_def Let_def withReader_def claimRecent_def)
  qed
  then show "fst (ClaimBatch now limit s) = Inr (map fromContentRow (claimRows now limit ?db))"
    "quiet (snd (ClaimBatch now limit s))" by blast+
qed

lemma set_slices: "set (take m (rev xs) @ filter P (take n xs)) \<subseteq> set xs"
  by (auto dest: in_set_takeD)

lemma claimRows_props:
  assumes "distinct (map r_hash (db_content db))" "0 < limit"
  shows "length (claimRows now limit db) = min (nat limit) (length (filter (due now) (db_content db)))"
    and "distinct (map r_hash (claimRows now limit db))"
    and "set (claimRows now limit db) \<subseteq> {r \<in> set (db_content db). due now r}"
proof -
  have sum: "claimRecent limit + claimAging limit = nat limit"
    using assms(2) by (auto simp: claimRecent_def claimAging_def agingShare_def)
  note batch = composed_batch [OF claim_rows(3) [OF assms(1), of now] refl, of "claimRecent limit" "claimAging limit"]
  show "length (claimRows now limit db) = min (nat limit) (length (filter (due now) (db_content db)))"
    unfolding claimRows_def Let_def using batch(1) [unfolded sum claim_rows(2)] .
  show "distinct (map r_hash (claimRows now limit db))"
    unfolding claimRows_def Let_def using batch(2) .
  show "set (claimRows now limit db) \<subseteq> {r \<in> set (db_content db). due now r}"
    unfolding claim_rows(1) [symmetric] claimRows_def Let_def by (rule set_slices)
qed

text \<open>The two slices of a strictly sorted list.\<close>

lemma strict_sorted:
  assumes "sorted (map f xs)" "distinct (map f xs)"
  shows "sorted_wrt (\<lambda>x y. f x < f y) xs"
  using assms by (induction xs) (auto simp: order.strict_iff_order)

lemma sorted_wrt_parts:
  assumes "sorted_wrt R xs"
  shows "sorted_wrt (\<lambda>x y. R y x) (rev (drop k xs))" "sorted_wrt R (take n xs)"
    "x \<in> set (take n xs) \<Longrightarrow> y \<in> set (drop n xs) \<Longrightarrow> R x y"
proof -
  have s: "sorted_wrt R (take n xs @ drop n xs)" "sorted_wrt R (take k xs @ drop k xs)" using assms by simp_all
  show "sorted_wrt (\<lambda>x y. R y x) (rev (drop k xs))" "sorted_wrt R (take n xs)"
    using s unfolding sorted_wrt_append sorted_wrt_rev by blast+
  show "x \<in> set (take n xs) \<Longrightarrow> y \<in> set (drop n xs) \<Longrightarrow> R x y" using s(1) unfolding sorted_wrt_append by blast
qed

section \<open>Properties\<close>

text \<open>
  C23: In a quiet world over a well-formed catalog, for a positive limit, \<open>ClaimBatch\<close> returns first the \<open>limit - limit/4\<close> most recently
  updated of the claimable rows (not indexed or failed, retry time unset or passed), newest first, then the
  \<open>limit/4\<close> least recently updated of the others, oldest first, ties broken by hash, and all there are when
  there are fewer: every claimable row left out is older than each row of the first slice and newer than
  each of the second, so neither a fresh save nor the oldest backlog can be starved.
\<close>

theorem ClaimBatch_composed:
  assumes "quiet s" "catalog_inv (st_db s)" "0 < limit"
    and "key = (\<lambda>r. (r_updated r, r_hash r))"
    and "claimable = {r \<in> set (db_content (st_db s)). r_state r \<notin> {Indexed, Failed} \<and>
      (\<forall>t. r_next_retry r = Some t \<longrightarrow> t \<le> now)}"
  shows "\<exists>new old. fst (ClaimBatch now limit s) = Inr (map fromContentRow (new @ old)) \<and>
    length new = min (nat (limit - limit div 4)) (card claimable) \<and>
    length old = min (nat (limit div 4)) (card claimable - length new) \<and>
    set new \<subseteq> claimable \<and> set old \<subseteq> claimable - set new \<and>
    sorted_wrt (\<lambda>x y. key x > key y) new \<and> (\<forall>x \<in> set new. \<forall>y \<in> claimable - set new. key x > key y) \<and>
    sorted_wrt (\<lambda>x y. key x < key y) old \<and> (\<forall>x \<in> set old. \<forall>y \<in> claimable - set new - set old. key x < key y)"
proof -
  let ?db = "st_db s" and ?xs = "claimOrder now (st_db s)"
  let ?k = "length ?xs - claimRecent limit"
  define new where "new = rev (drop ?k ?xs)"
  define old where "old = take (min (claimAging limit) ?k) ?xs"
  have d: "distinct (map r_hash (db_content ?db))"
    using assms(2) by (simp add: catalog_inv_def content_inv_def)
  have rows: "claimRows now limit ?db = new @ old"
    unfolding claimRows_def Let_def new_def old_def
    by (rule composed_batch(3)) (use claim_rows(3) [OF d] in simp_all)
  have dist: "distinct (map key ?xs)"
    using claim_rows(3) [OF d, of now] unfolding assms(4) by (auto simp: distinct_map inj_on_def)
  then have sorted: "sorted_wrt (\<lambda>x y. key x < key y) ?xs"
    using claim_rows(4) [of now ?db] unfolding assms(4) by (intro strict_sorted)
  have xs: "set ?xs = claimable" unfolding claim_rows(1) assms(5)
    by (auto simp: due_def Terminal_def TerminalContentStates_def split: option.splits)
  have card: "card claimable = length ?xs"
    using distinct_card [of ?xs] dist xs by (simp add: distinct_map)
  have parts: "set new = set (drop ?k ?xs)" "claimable = set (take ?k ?xs) \<union> set new" "set (take ?k ?xs) \<inter> set new = {}"
    using dist xs [symmetric] by (simp_all add: new_def distinct_map flip: set_append)
      (metis append_take_drop_id distinct_append)
  have old: "set old \<subseteq> set (take ?k ?xs)" by (simp add: old_def set_take_subset_set_take)
  have rest: "claimable - set new - set old \<subseteq> set (drop (min (claimAging limit) ?k) ?xs)"
    using xs unfolding old_def by (metis Diff_subset Diff_subset_conv append_take_drop_id set_append sup_commute Diff_mono)
  have "length new = min (claimRecent limit) (card claimable)" "length old = min (claimAging limit) (card claimable - length new)"
    unfolding card by (auto simp: new_def old_def)
  then have len: "length new = min (nat (limit - limit div 4)) (card claimable)"
    "length old = min (nat (limit div 4)) (card claimable - length new)"
    by (simp_all add: claimRecent_def claimAging_def agingShare_def)
  have ord: "sorted_wrt (\<lambda>x y. key x > key y) new" "sorted_wrt (\<lambda>x y. key x < key y) old"
    using sorted_wrt_parts(1,2) [OF sorted] by (simp_all add: new_def old_def)
  have "\<forall>x \<in> set new. \<forall>y \<in> claimable - set new. key x > key y"
    using sorted_wrt_parts(3) [OF sorted, of _ ?k] parts by blast
  moreover have "\<forall>x \<in> set old. \<forall>y \<in> claimable - set new - set old. key x < key y"
    using sorted_wrt_parts(3) [OF sorted, of _ "min (claimAging limit) ?k"] rest unfolding old_def by blast
  moreover have "set new \<subseteq> claimable" "set old \<subseteq> claimable - set new" using parts old by blast+
  ultimately show ?thesis
    using ClaimBatch_rows(1) [OF assms(1,3), of now] len ord unfolding rows by blast
qed

theorem ClaimBatch_composed_witness:
  "\<exists>new old. fst (ClaimBatch 50 8 (demo_store demo_db)) = Inr (map fromContentRow (new @ old)) \<and>
    length new = 1 \<and> old = []"
proof -
  have one: "{r \<in> set (db_content (st_db (demo_store demo_db))). r_state r \<notin> {Indexed, Failed} \<and>
      (\<forall>t. r_next_retry r = Some t \<longrightarrow> t \<le> 50)} = {demo_content_row ''h1'' Discovered}"
    by (auto simp: demo_db_def demo_content_row_def)
  show ?thesis
    using ClaimBatch_composed [of "demo_store demo_db" 8 _ _ 50, OF _ _ _ refl refl, unfolded one] catalog_inv_demo by auto
qed

text \<open>
  C24: In a quiet world \<open>ResetStale\<close> moves exactly the indexed and failed contents for which some current
  stage version is not the recorded one, a version never recorded included, back to \<open>discovered\<close>, with no
  attempts, no retry time and no error; it keeps their recency and everything else of the catalog, and
  reports how many rows it moved. None is left, and a second call finds nothing to move.
\<close>

theorem ResetStale_settles:
  assumes "quiet s" "current \<noteq> []"
    and "stale = (\<lambda>r. r_state r \<in> {Indexed, Failed} \<and> (\<exists>(k, v) \<in> set current. r_stage r k \<noteq> Some v))"
  shows "\<exists>s' s''. ResetStale current s = ((length (filter stale (db_content (st_db s))), None), s') \<and>
    st_db s' = (st_db s)\<lparr>db_content := map (\<lambda>r. if stale r
      then r\<lparr>r_state := Discovered, r_attempts := 0, r_next_retry := None, r_last_error := None\<rparr> else r) (db_content (st_db s))\<rparr> \<and>
    (\<forall>r \<in> set (db_content (st_db s')). \<not> stale r) \<and>
    ResetStale current s' = ((0, None), s'') \<and> st_db s'' = st_db s'"
proof -
  let ?reset = "\<lambda>rows. map (\<lambda>r. if staleRow current r then resetRow r else r) rows"
  have stale: "stale = staleRow current" by (rule ext) (auto simp: assms(3) staleRow_def)
  have run: "\<exists>s'. ResetStale current u = ((length (filter stale (db_content (st_db u))), None), s') \<and> quiet s' \<and>
      st_db s' = (st_db u)\<lparr>db_content := ?reset (db_content (st_db u))\<rparr>" if q: "quiet u" for u
  proof -
    obtain t s' where "quiet s'" "withTxCap (resetStaleTx current) u =
        ((case resetStaleTx current t (st_db u) of Inl e \<Rightarrow> (Some e, None) | Inr (db, a) \<Rightarrow> (None, Some a)), s')"
      "st_db s' = (case resetStaleTx current t (st_db u) of Inl _ \<Rightarrow> st_db u | Inr (db, _) \<Rightarrow> db)"
      by (rule withTxCap_quiet [OF q])
    then show ?thesis using assms(2) unfolding stale by (simp add: ResetStale_def resetStaleTx_def)
  qed
  obtain s' where s': "ResetStale current s = ((length (filter stale (db_content (st_db s))), None), s')" "quiet s'"
    "st_db s' = (st_db s)\<lparr>db_content := ?reset (db_content (st_db s))\<rparr>"
    using run [OF assms(1)] by blast
  have none: "\<not> staleRow current (resetRow r)" for r by (simp add: staleRow_def resetRow_def)
  then have fresh: "\<forall>r \<in> set (db_content (st_db s')). \<not> staleRow current r" by (auto simp: s'(3) split: if_splits)
  obtain s'' where s'': "ResetStale current s' = ((length (filter stale (db_content (st_db s'))), None), s'')"
    "st_db s'' = (st_db s')\<lparr>db_content := ?reset (db_content (st_db s'))\<rparr>"
    using run [OF s'(2)] by blast
  have "filter stale (db_content (st_db s')) = []" "?reset (db_content (st_db s')) = db_content (st_db s')"
    using fresh by (auto simp: stale filter_empty_conv intro: map_idI)
  then have "ResetStale current s' = ((0, None), s'')" "st_db s'' = st_db s'" using s'' by simp_all
  then show ?thesis
    using s'(1,3) fresh unfolding stale resetRow_def by blast
qed

theorem ResetStale_settles_witness:
  "fst (ResetStale [(StageChunker, ''v2'')] (demo_store demo_db)) = (1, None)"
  using ResetStale_settles [OF quiet_demo _ refl, of "[(StageChunker, ''v2'')]" demo_db]
  by (auto simp: demo_db_def demo_content_row_def)

text \<open>The holder of a hash that the primary-path rule picks: newest mtime, then smallest path.\<close>

definition primary_of :: "DB \<Rightarrow> hash \<Rightarrow> documentRow \<Rightarrow> bool" where
  "primary_of db h d \<longleftrightarrow> d \<in> set (db_documents db) \<and> d_hash d = Some h \<and>
     (\<forall>d' \<in> set (db_documents db). d_hash d' = Some h \<longrightarrow>
        d_mtime d' < d_mtime d \<or> d_mtime d' = d_mtime d \<and> d_path d \<le> d_path d')"

lemma set_holders: "set (holders h db) = {d \<in> set (db_documents db). d_hash d = Some h}"
  by (auto simp: holders_def)

lemma holders_primary:
  assumes "holders h db = d # ds"
  shows "primary_of db h d"
proof -
  have "sorted (map (\<lambda>d. (- d_mtime d, d_path d)) (holders h db))" by (simp add: holders_def)
  then have "\<forall>d' \<in> set (holders h db). (- d_mtime d, d_path d) \<le> (- d_mtime d', d_path d')"
    unfolding assms by auto
  moreover have "d \<in> set (holders h db)" by (simp add: assms)
  ultimately show ?thesis unfolding primary_of_def set_holders by (force simp: less_eq_prod_def)
qed

lemma primary_unique:
  assumes "distinct (map d_path (db_documents db))" "primary_of db h d" "primary_of db h d'"
  shows "d = d'"
proof -
  have "d_path d = d_path d'" using assms(2,3) by (fastforce simp: primary_of_def)
  with assms show ?thesis by (auto simp: primary_of_def distinct_map inj_on_def)
qed

text \<open>
  In a quiet world \<open>GetWork\<close> resolves a content to its work item exactly when the content row
  exists and a document references it (else \<open>ErrContentGone\<close>); the item lists all the referencing
  paths, its primary is the newest mtime's with ties broken by path, and \<open>ListWorkItems\<close> names the
  same primary for that content.
\<close>

theorem GetWork_primary:
  assumes "quiet s" "catalog_inv (st_db s)"
  shows "(if h \<in> hashes (st_db s) \<and> (\<exists>d \<in> set (db_documents (st_db s)). d_hash d = Some h)
    then \<exists>w d. fst (GetWork h s) = Inr w \<and> c_Hash (wi_Content w) = h \<and> primary_of (st_db s) h d \<and>
      wi_Path w = d_path d \<and>
      set (wi_Paths w) = d_path ` {d \<in> set (db_documents (st_db s)). d_hash d = Some h} \<and>
      (\<forall>ws. fst (ListWorkItems s) = Inr ws \<longrightarrow>
         (\<forall>v \<in> set ws. c_Hash (wi_Content v) = h \<longrightarrow> wi_Path v = wi_Path w))
    else fst (GetWork h s) = Inl ErrContentGone)"
proof -
  let ?db = "st_db s"
  note q = withReader_quiet(1) [OF assms(1)]
  show ?thesis
  proof (cases "h \<in> hashes ?db \<and> (\<exists>d \<in> set (db_documents ?db). d_hash d = Some h)")
    case True
    then obtain r where r: "content_map ?db h = Some r" using content_map_None by fastforce
    have "holders h ?db \<noteq> []" using True set_holders [of h ?db] by force
    then obtain d ds where hd: "holders h ?db = d # ds" by (cases "holders h ?db") auto
    have work: "fst (GetWork h s) = Inr \<lparr>wi_Content = fromContentRow r, wi_Path = d_path d,
        wi_Paths = d_path d # map d_path ds\<rparr>"
      unfolding GetWork_def q content_map_find by (simp add: r hd)
    have paths: "set (d_path d # map d_path ds) = d_path ` {d \<in> set (db_documents ?db). d_hash d = Some h}"
      unfolding set_holders [symmetric] hd by simp
    have rows: "wi_Path v = d_path d"
      if "fst (ListWorkItems s) = Inr ws" "v \<in> set ws" "c_Hash (wi_Content v) = h" for ws v
    proof -
      note hash = that(3)
      let ?item = "\<lambda>r. case holders (r_hash r) ?db of [] \<Rightarrow> []
          | d # _ \<Rightarrow> [\<lparr>wi_Content = fromContentRow r, wi_Path = d_path d, wi_Paths = [d_path d]\<rparr>]"
      have "ws = sort_key wi_Path (List.concat (map ?item (db_content ?db)))"
        using that(1) unfolding ListWorkItems_def q by simp
      then have "v \<in> set (List.concat (map ?item (db_content ?db)))" using that(2) by simp
      then have "v \<in> (\<Union>r \<in> set (db_content ?db). set (?item r))"
        by (simp only: set_concat set_map image_image)
      then obtain r' where r': "v \<in> set (?item r')" by blast
      then have "r_hash r' = h" using hash by (auto split: list.splits)
      with r' show ?thesis by (simp add: hd)
    qed
    have "r_hash r = h" using content_map_hash [OF r] by simp
    then show ?thesis
      using True work paths rows holders_primary [OF hd] by (auto intro!: exI [of _ d])
  next
    case False
    then consider "content_map ?db h = None" | "holders h ?db = []"
    proof (cases "h \<in> hashes ?db")
      case True
      with False have "set (holders h ?db) = {}" unfolding set_holders by blast
      with that(2) show thesis by simp
    next
      case False
      with that(1) content_map_None [of ?db h] show thesis by simp
    qed
    then have "fst (GetWork h s) = Inl ErrContentGone"
      by cases (simp_all add: GetWork_def q content_map_find split: option.split)
    with False show ?thesis by auto
  qed
qed

theorem GetWork_primary_witness:
  "fst (GetWork ''h2'' (demo_store demo_db)) = Inl ErrContentGone"
proof -
  have "\<not> (''h2'' \<in> hashes demo_db \<and> (\<exists>d \<in> set (db_documents demo_db). d_hash d = Some ''h2''))"
    by (simp add: demo_db_def)
  then show ?thesis
    using GetWork_primary [of "demo_store demo_db" "''h2''"] catalog_inv_demo by (auto split: if_splits)
qed

end
