(* ===== verification/Vectors.thy ===== *)
theory Vectors
  imports Queue
begin

text \<open>
  Vector-table generations and vector search (vec.go). The nearest-neighbour query itself belongs
  to the sqlite-vec extension and is the parameter \<open>knn\<close>: given the rows of a table, a query and
  a count it returns row ids with distances.
\<close>

section \<open>Decimal numbers in table names\<close>

definition atoi :: "string \<Rightarrow> int" where
  "atoi s = min (foldl (\<lambda>n c. 10 * n + (of_char c - 48)) 0 s) (2 ^ 63 - 1)"

fun itoa :: "nat \<Rightarrow> string" where
  "itoa n = (if n < 10 then [char_of (48 + n)] else itoa (n div 10) @ [char_of (48 + n mod 10)])"

declare itoa.simps [simp del]

section \<open>Generations (vec.go: identity, EnsureVecTable, currentVecTable, CurrentVecSpec)\<close>

definition identity :: "vecDescriptor \<Rightarrow> vecDescriptor" where
  "identity d = d\<lparr>vd_CeilingTokens := 0\<rparr>"

definition setVecDesc :: "string \<Rightarrow> vecDescriptor \<Rightarrow> DB \<Rightarrow> DB" where
  "setVecDesc name desc db =
     db\<lparr>db_vec_descs := upsert_by fst (name, Some desc) (\<lambda>_. (name, Some desc)) (db_vec_descs db)\<rparr>"

text \<open>The loop over the generations: the matching name, the largest number, the refreshed descriptor.\<close>

fun genLoop :: "vecDescriptor \<Rightarrow> (string \<times> vecDescriptor) list \<Rightarrow> string \<Rightarrow> int \<Rightarrow> DB \<Rightarrow> string \<times> int \<times> DB" where
  "genLoop want [] name maxGen db = (name, maxGen, db)"
| "genLoop want ((existing, desc) # tables) name maxGen db =
     (let maxGen' = max maxGen (atoi (drop 11 existing)) in
      if identity desc = identity want
      then genLoop want tables existing maxGen' (if desc \<noteq> want then setVecDesc existing want db else db)
      else genLoop want tables name maxGen' db)"

definition wantDesc :: "EmbeddingSpec \<Rightarrow> int \<Rightarrow> vecDescriptor" where
  "wantDesc spec dims = \<lparr>vd_Model = es_Model spec, vd_Dims = dims, vd_Layout = ''float32'',
     vd_Metric = VectorMetric, vd_QueryTemplate = es_QueryTemplate spec,
     vd_PassageTemplate = es_PassageTemplate spec, vd_CeilingTokens = es_CeilingTokens spec\<rparr>"

definition genName :: "int \<Rightarrow> string" where
  "genName gen = ''vec_chunks_'' @ itoa (nat gen)"

definition createVecTable :: "int \<Rightarrow> DB \<Rightarrow> StoreErr + DB \<times> string" where
  "createVecTable gen db =
     (let name = genName gen in
      if gen \<ge> 2 ^ 63 then Inl (ErrStore ''syntax error'')
      else if name \<in> fst ` set (db_vec_tables db) then Inl (ErrStore ''table already exists'')
      else Inr (db\<lparr>db_vec_tables := db_vec_tables db @ [(name, [])]\<rparr>, name))"

definition ensureVecTableTx :: "vecDescriptor \<Rightarrow> int \<Rightarrow> DB \<Rightarrow> StoreErr + DB \<times> unit" where
  "ensureVecTableTx want now db =
     (case listVecTables db of
        Inl e \<Rightarrow> Inl e
      | Inr tables \<Rightarrow>
          (case genLoop want tables '''' 0 db of
             (name, maxGen, db1) \<Rightarrow>
               (if name = ''''
                then (case createVecTable (maxGen + 1) db1 of
                        Inl e \<Rightarrow> Inl e
                      | Inr (db2, name') \<Rightarrow>
                          Inr ((setVecDesc name' want db2)\<lparr>db_vec_current := Some name'\<rparr>, ()))
                else Inr (db1\<lparr>db_vec_current := Some name\<rparr>, ()))))"

definition EnsureVecTable :: "EmbeddingSpec \<Rightarrow> int \<Rightarrow> Store \<Rightarrow> (StoreErr + unit) \<times> Store" where
  "EnsureVecTable spec dims s =
     (if es_Model spec = '''' then (Inl (ErrStore ''model must not be empty''), s)
      else if dims < 1 \<or> dims > 8192 then (Inl (ErrStore ''dims out of range''), s)
      else withTx (ensureVecTableTx (wantDesc spec dims)) s)"

definition currentVecTable :: "DB \<Rightarrow> StoreErr + string \<times> vecDescriptor" where
  "currentVecTable db =
     (case db_vec_current db of
        None \<Rightarrow> Inl ErrNoVecTable
      | Some name \<Rightarrow>
          (case map_of (db_vec_descs db) name of
             None \<Rightarrow> Inl (ErrStore ''vec_current points at a table with no descriptor'')
           | Some desc \<Rightarrow>
               (if vecTableGen name = None then Inl (ErrStore ''corrupt vec_current'')
                else case desc of
                       None \<Rightarrow> Inl (ErrStore ''corrupt descriptor'')
                     | Some d \<Rightarrow> Inr (name, normalizeDesc d))))"

definition CurrentVecSpec :: "Store \<Rightarrow> (StoreErr + EmbeddingSpec \<times> int) \<times> Store" where
  "CurrentVecSpec =
     withReader (\<lambda>db.
       (case currentVecTable db of
          Inl e \<Rightarrow> Inl e
        | Inr (_, desc) \<Rightarrow>
            Inr (\<lparr>es_Model = vd_Model desc, es_QueryTemplate = vd_QueryTemplate desc,
                  es_PassageTemplate = vd_PassageTemplate desc, es_CeilingTokens = 0\<rparr>, vd_Dims desc)))"

section \<open>Storing vectors (vec.go: UpsertVectors)\<close>

definition update_table :: "string \<Rightarrow> (vecRows \<Rightarrow> vecRows) \<Rightarrow> DB \<Rightarrow> DB" where
  "update_table table f db =
     db\<lparr>db_vec_tables := map (\<lambda>(name, rows). (name, if name = table then f rows else rows)) (db_vec_tables db)\<rparr>"

fun insertVectors :: "string \<Rightarrow> int \<Rightarrow> (nat \<times> float32 list) list \<Rightarrow> DB \<Rightarrow> StoreErr + DB" where
  "insertVectors table dims [] db = Inr db"
| "insertVectors table dims ((i, vec) # rest) db =
     (if int (length vec) \<noteq> dims then Inl (ErrStore ''wrong dims'')
      else insertVectors table dims rest
             (update_table table (\<lambda>rows. filter (\<lambda>r. fst r \<noteq> i) rows @ [(i, vec)]) db))"

definition upsertVectorsTx :: "nat list \<Rightarrow> float32 list list \<Rightarrow> int \<Rightarrow> DB \<Rightarrow> StoreErr + DB \<times> unit" where
  "upsertVectorsTx chunkIDs vectors now db =
     (case currentVecTable db of
        Inl e \<Rightarrow> Inl e
      | Inr (table, desc) \<Rightarrow>
          (if length (filter (\<lambda>k. k_id k \<in> set chunkIDs) (db_chunks db)) \<noteq> length chunkIDs
           then Inl ErrContentSuperseded
           else if table \<notin> fst ` set (db_vec_tables db) then Inl (ErrStore ''no such table'')
           else case insertVectors table (vd_Dims desc) (zip chunkIDs vectors) db of
                  Inl e \<Rightarrow> Inl e
                | Inr db' \<Rightarrow> Inr (db', ())))"

definition UpsertVectors :: "nat list \<Rightarrow> float32 list list \<Rightarrow> Store \<Rightarrow> (StoreErr + unit) \<times> Store" where
  "UpsertVectors chunkIDs vectors s =
     (if length chunkIDs \<noteq> length vectors then (Inl (ErrStore ''chunk ids and vectors mismatch''), s)
      else if chunkIDs = [] then (Inr (), s)
      else withTx (upsertVectorsTx chunkIDs vectors) s)"

section \<open>Search (vec.go: SearchVectors, knnChunks, chunkHashes, documentsByHash)\<close>

type_synonym knn = "vecRows \<Rightarrow> float32 list \<Rightarrow> int \<Rightarrow> (nat \<times> rat) list"

definition noDoc :: "hash \<Rightarrow> Document" where
  "noDoc h = \<lparr>doc_Path = '''', doc_ContentHash = h, doc_UnreadReason = None, doc_Size = 0, doc_MTime = 0\<rparr>"

definition chunkHit :: "chunkRow \<Rightarrow> rat \<Rightarrow> Hit" where
  "chunkHit k x = \<lparr>h_Doc = noDoc (k_hash k),
     h_Chunk = \<lparr>ch_Ordinal = k_ordinal k, ch_Text = k_text k, ch_HeadingPath = k_heading k,
                ch_ByteStart = k_start k, ch_ByteEnd = k_end k\<rparr>,
     h_Distance = x\<rparr>"

text \<open>The k nearest rows joined to their chunks, in the order of distance, then chunk id.\<close>

definition knnJoin :: "knn \<Rightarrow> vecRows \<Rightarrow> float32 list \<Rightarrow> int \<Rightarrow> DB \<Rightarrow> (chunkRow \<times> rat) list" where
  "knnJoin knn rows query limit db =
     sort_key (\<lambda>(k, x). (x, k_id k))
       (List.concat (map (\<lambda>(i, x). map (\<lambda>k. (k, x)) (filter (\<lambda>k. k_id k = i) (db_chunks db)))
         (knn rows query limit)))"

definition knnChunks :: "knn \<Rightarrow> string \<Rightarrow> float32 list \<Rightarrow> int \<Rightarrow> DB \<Rightarrow> StoreErr + Hit list" where
  "knnChunks knn table query limit db =
     (case map_of (db_vec_tables db) table of
        None \<Rightarrow> Inl ErrNoVecTable
      | Some rows \<Rightarrow> Inr (map (\<lambda>(k, x). chunkHit k x) (knnJoin knn rows query limit db)))"

fun hashLoop :: "Hit list \<Rightarrow> hash set \<Rightarrow> hash list" where
  "hashLoop [] seen = []"
| "hashLoop (ch # chunks) seen =
     (if hit_hash ch \<in> seen then hashLoop chunks seen
      else hit_hash ch # hashLoop chunks (insert (hit_hash ch) seen))"

definition chunkHashes :: "Hit list \<Rightarrow> hash list" where
  "chunkHashes chunks = hashLoop chunks {}"

definition hitDoc :: "hash \<Rightarrow> documentRow \<Rightarrow> Document" where
  "hitDoc h d = \<lparr>doc_Path = d_path d, doc_ContentHash = h, doc_UnreadReason = None,
     doc_Size = d_size d, doc_MTime = d_mtime d\<rparr>"

definition documentsByHash :: "hash list \<Rightarrow> DB \<Rightarrow> hash \<Rightarrow> Document list" where
  "documentsByHash hs db h =
     (if h \<in> set hs
      then sort_key (\<lambda>doc. (- doc_MTime doc, doc_Path doc))
             (map (hitDoc h) (filter (\<lambda>d. d_hash d = Some h) (db_documents db)))
      else [])"

definition SearchVectors :: "knn \<Rightarrow> float32 list \<Rightarrow> int \<Rightarrow> Store \<Rightarrow> (StoreErr + Hit list) \<times> Store" where
  "SearchVectors knn query limit =
     withReader (\<lambda>db.
       (case currentVecTable db of
          Inl e \<Rightarrow> Inl e
        | Inr (table, desc) \<Rightarrow>
            (if int (length query) \<noteq> vd_Dims desc then Inl (ErrStore ''query has wrong dims'')
             else case knnChunks knn table query limit db of
                    Inl e \<Rightarrow> Inl e
                  | Inr chunks \<Rightarrow>
                      (let docs = documentsByHash (chunkHashes chunks) db
                       in Inr (List.concat (map (\<lambda>ch. map (\<lambda>doc. ch\<lparr>h_Doc := doc\<rparr>) (docs (hit_hash ch))) chunks))))))"

section \<open>Numbers round-trip\<close>

lemma itoa_digits: "c \<in> set (itoa n) \<Longrightarrow> CHR ''0'' \<le> c \<and> c \<le> CHR ''9''"
proof (induction n rule: itoa.induct)
  case (1 n)
  have digit: "CHR ''0'' \<le> (char_of (48 + k) :: char) \<and> (char_of (48 + k) :: char) \<le> CHR ''9''"
    if "k < 10" for k :: nat
    using that by (simp add: less_eq_char_def)
  show ?case
    using 1 digit by (cases "n < 10") (auto simp: itoa.simps [of n])
qed

lemma itoa_nonempty [simp]: "itoa n \<noteq> []"
  by (simp add: itoa.simps [of n])

lemma digit_value:
  assumes "k < 10"
  shows "(of_char (char_of (48 + k) :: char) :: int) = 48 + int k"
proof -
  have "(of_char (char_of (48 + k) :: char) :: int) = int (of_char (char_of (48 + k) :: char))"
    by (simp only: of_nat_of_char)
  also have "\<dots> = 48 + int k" using assms by (simp add: take_bit_eq_mod)
  finally show ?thesis .
qed

lemma itoa_value: "foldl (\<lambda>n c. 10 * n + (of_char c - 48)) 0 (itoa n) = (int n :: int)"
proof (induction n rule: itoa.induct)
  case (1 n)
  show ?case
  proof (cases "n < 10")
    case True
    then show ?thesis using digit_value [of n] by (simp add: itoa.simps [of n])
  next
    case False
    have "(of_char (char_of (48 + n mod 10) :: char) :: int) = 48 + int (n mod 10)"
      by (rule digit_value) simp
    with False 1 show ?thesis by (simp add: itoa.simps [of n] zdiv_int zmod_int)
  qed
qed

lemma atoi_itoa: "int n < 2 ^ 63 \<Longrightarrow> atoi (itoa n) = int n"
  by (simp add: atoi_def itoa_value)

lemma vecTableGen_itoa: "vecTableGen (genName n) = Some (itoa (nat n))"
  using itoa_digits by (auto simp: genName_def vecTableGen_def hasPrefix_def)

lemma drop_prefix: "drop 11 (''vec_chunks_'' @ s) = s"
  by simp

section \<open>The generation loop\<close>

definition refreshed :: "vecDescriptor \<Rightarrow> string set \<Rightarrow> (string \<times> vecDescriptor option) list \<Rightarrow>
    (string \<times> vecDescriptor option) list" where
  "refreshed want M descs = map (\<lambda>e. if fst e \<in> M then (fst e, Some want) else e) descs"

definition matching :: "vecDescriptor \<Rightarrow> (string \<times> vecDescriptor) list \<Rightarrow> string set" where
  "matching want tables = fst ` set (filter (\<lambda>t. identity (snd t) = identity want) tables)"

definition outdated :: "vecDescriptor \<Rightarrow> (string \<times> vecDescriptor) list \<Rightarrow> string set" where
  "outdated want tables = fst ` set (filter (\<lambda>t. identity (snd t) = identity want \<and> snd t \<noteq> want) tables)"

lemma refreshed_fst [simp]: "map fst (refreshed want M descs) = map fst descs"
  by (simp add: refreshed_def comp_def if_distrib [of fst] cong: if_cong)

lemma refreshed_comp: "refreshed want N (refreshed want M descs) = refreshed want (M \<union> N) descs"
  by (auto simp: refreshed_def)

lemma refreshed_empty [simp]: "refreshed want {} descs = descs"
  by (simp add: refreshed_def)

lemma setVecDesc_refreshed:
  assumes "name \<in> fst ` set (db_vec_descs db)"
  shows "setVecDesc name want db = db\<lparr>db_vec_descs := refreshed want {name} (db_vec_descs db)\<rparr>"
  using assms by (auto simp: setVecDesc_def upsert_by_def refreshed_def)

lemma genLoop_result:
  assumes "fst ` set tables \<subseteq> fst ` set (db_vec_descs db)"
    and "genLoop want tables name m db = (name', m', db')"
  shows "m \<le> m'" and "\<And>t. t \<in> set tables \<Longrightarrow> atoi (drop 11 (fst t)) \<le> m'"
    and "if matching want tables = {} then name' = name else name' \<in> matching want tables"
    and "db' = db\<lparr>db_vec_descs := refreshed want (outdated want tables) (db_vec_descs db)\<rparr>"
proof -
  have "m \<le> m' \<and> (\<forall>t \<in> set tables. atoi (drop 11 (fst t)) \<le> m') \<and>
    (if matching want tables = {} then name' = name else name' \<in> matching want tables) \<and>
    db' = db\<lparr>db_vec_descs := refreshed want (outdated want tables) (db_vec_descs db)\<rparr>"
    using assms
  proof (induction tables arbitrary: name m db)
    case Nil
    then show ?case by (simp add: matching_def outdated_def)
  next
    case (Cons t tables)
    obtain existing desc where t: "t = (existing, desc)" by (cases t)
    let ?m = "max m (atoi (drop 11 existing))"
    show ?case
    proof (cases "identity desc = identity want")
      case False
      then have "genLoop want tables name ?m db = (name', m', db')"
        using Cons.prems(2) by (simp add: t Let_def)
      moreover have "matching want (t # tables) = matching want tables"
        "outdated want (t # tables) = outdated want tables"
        using False by (simp_all add: matching_def outdated_def t del: set_filter)
      ultimately show ?thesis using Cons.IH [of db name ?m] Cons.prems(1) by (simp add: t)
    next
      case True
      let ?N = "if desc \<noteq> want then {existing} else {}"
      let ?db1 = "db\<lparr>db_vec_descs := refreshed want ?N (db_vec_descs db)\<rparr>"
      have "existing \<in> fst ` set (db_vec_descs db)" using Cons.prems(1) by (simp add: t)
      then have rec: "genLoop want tables existing ?m ?db1 = (name', m', db')"
        using Cons.prems(2) True by (simp add: t Let_def setVecDesc_refreshed split: if_splits)
      have keys: "fst ` set (db_vec_descs ?db1) = fst ` set (db_vec_descs db)"
        unfolding set_map [symmetric] by simp
      have m: "matching want (t # tables) = insert existing (matching want tables)"
        "outdated want (t # tables) = ?N \<union> outdated want tables"
        using True by (simp_all add: matching_def outdated_def t del: set_filter)
      have "?m \<le> m' \<and> (\<forall>t \<in> set tables. atoi (drop 11 (fst t)) \<le> m') \<and>
        (if matching want tables = {} then name' = existing else name' \<in> matching want tables) \<and>
        db' = ?db1\<lparr>db_vec_descs := refreshed want (outdated want tables) (db_vec_descs ?db1)\<rparr>"
        using Cons.prems(1) by (intro Cons.IH [OF _ rec]) (unfold keys, simp)
      then show ?thesis unfolding m by (auto simp: t refreshed_comp split: if_splits)
    qed
  qed
  then show "m \<le> m'" "\<And>t. t \<in> set tables \<Longrightarrow> atoi (drop 11 (fst t)) \<le> m'"
    "if matching want tables = {} then name' = name else name' \<in> matching want tables"
    "db' = db\<lparr>db_vec_descs := refreshed want (outdated want tables) (db_vec_descs db)\<rparr>"
    by blast+
qed

section \<open>The invariant is kept\<close>

lemma identity_dims: "identity d = identity d' \<Longrightarrow> vd_Dims d = vd_Dims d'"
  by (metis identity_def vecDescriptor.select_convs(2) vecDescriptor.surjective vecDescriptor.update_convs(7))

lemma normalize_dims [simp]: "vd_Dims (normalizeDesc d) = vd_Dims d"
  by (simp add: normalizeDesc_def Let_def)

text \<open>Under the invariant the list of generations is the descriptor table, decoded and normalised.\<close>

lemma listVecTables_descs:
  assumes "vectors_inv db"
  shows "listVecTables db = Inr (map (\<lambda>e. (fst e, normalizeDesc (the (snd e)))) (db_vec_descs db))"
    and "map fst (db_vec_descs db) = map fst (db_vec_tables db)"
    and "\<And>e. e \<in> set (db_vec_descs db) \<Longrightarrow> snd e \<noteq> None \<and> vecTableGen (fst e) \<noteq> None"
proof -
  obtain tables where t: "listVecTables db = Inr tables" "map fst tables = map fst (db_vec_tables db)"
    using listVecTables_ok [OF assms] .
  then have tables: "tables = map (\<lambda>e. (fst e, normalizeDesc (the (snd e)))) (db_vec_descs db)"
    by (auto simp: listVecTables_def case_prod_unfold split: if_splits)
  then show "listVecTables db = Inr (map (\<lambda>e. (fst e, normalizeDesc (the (snd e)))) (db_vec_descs db))"
    using t(1) by simp
  show "map fst (db_vec_descs db) = map fst (db_vec_tables db)"
    using t(2) unfolding tables by (simp add: comp_def)
  show "\<And>e. e \<in> set (db_vec_descs db) \<Longrightarrow> snd e \<noteq> None \<and> vecTableGen (fst e) \<noteq> None"
    using t(1) by (fastforce simp: listVecTables_def split: if_splits)
qed

lemma distinct_fst_unique: "distinct (map fst xs) \<Longrightarrow> (a, b) \<in> set xs \<Longrightarrow> (a, c) \<in> set xs \<Longrightarrow> b = c"
  by (rule eq_key_imp_eq_value)

lemma catalog_inv_refreshed:
  assumes inv: "catalog_inv db"
    and M: "\<And>e. e \<in> set (db_vec_descs db) \<Longrightarrow> fst e \<in> M \<Longrightarrow> vd_Dims (the (snd e)) = vd_Dims want"
  shows "catalog_inv (db\<lparr>db_vec_descs := refreshed want M (db_vec_descs db)\<rparr>)"
proof -
  have "list_all2 (vec_table_ok (chunk_ids db)) (db_vec_tables db) (db_vec_descs db)"
    using inv by (simp add: catalog_inv_def vectors_inv_def)
  then have "list_all2 (vec_table_ok (chunk_ids db)) (db_vec_tables db) (refreshed want M (db_vec_descs db))"
    unfolding refreshed_def list_all2_map2
  proof (rule list.rel_mono_strong)
    fix tbl dsc
    assume "dsc \<in> set (db_vec_descs db)" "vec_table_ok (chunk_ids db) tbl dsc"
    then show "vec_table_ok (chunk_ids db) tbl (if fst dsc \<in> M then (fst dsc, Some want) else dsc)"
      using M [of dsc] by (auto simp: vec_table_ok_def)
  qed
  then show ?thesis
    using inv by (simp add: catalog_inv_def documents_inv_def content_inv_def vectors_inv_def hashes_def chunk_ids_def)
qed

lemma outdated_dims:
  assumes "vectors_inv db" "e \<in> set (db_vec_descs db)"
    and "fst e \<in> outdated want (map (\<lambda>e. (fst e, normalizeDesc (the (snd e)))) (db_vec_descs db))"
  shows "vd_Dims (the (snd e)) = vd_Dims want"
proof -
  obtain e' where e': "e' \<in> set (db_vec_descs db)" "fst e' = fst e"
    "identity (normalizeDesc (the (snd e'))) = identity want"
    using assms(3) by (auto simp: outdated_def)
  have "distinct (map fst (db_vec_descs db))"
    using assms(1) listVecTables_descs(2) [OF assms(1)] by (simp add: vectors_inv_def)
  then have "e' = e" using e'(1,2) assms(2) by (auto simp: distinct_map inj_on_def)
  with identity_dims [OF e'(3)] show ?thesis by simp
qed

lemma catalog_inv_new_table:
  assumes inv: "catalog_inv db" and name: "name \<notin> fst ` set (db_vec_tables db)" "vecTableGen name \<noteq> None"
  shows "catalog_inv (db\<lparr>db_vec_tables := db_vec_tables db @ [(name, [])],
    db_vec_descs := db_vec_descs db @ [(name, Some want)]\<rparr>)"
proof -
  have "list_all2 (vec_table_ok (chunk_ids db)) (db_vec_tables db) (db_vec_descs db)"
    using inv by (simp add: catalog_inv_def vectors_inv_def)
  then have "list_all2 (vec_table_ok (chunk_ids db)) (db_vec_tables db @ [(name, [])])
      (db_vec_descs db @ [(name, Some want)])"
    using name(2) by (intro list_all2_appendI) (auto simp: vec_table_ok_def)
  then show ?thesis
    using inv name(1)
    by (simp add: catalog_inv_def documents_inv_def content_inv_def vectors_inv_def hashes_def chunk_ids_def)
qed

lemma catalog_inv_current:
  "catalog_inv db \<Longrightarrow> catalog_inv (db\<lparr>db_vec_current := c\<rparr>)"
  by (simp add: catalog_inv_def documents_inv_def content_inv_def vectors_inv_def hashes_def chunk_ids_def)

text \<open>The transaction of \<open>EnsureVecTable\<close> under the invariant, case by case.\<close>

abbreviation generations :: "DB \<Rightarrow> (string \<times> vecDescriptor) list" where
  "generations db \<equiv> map (\<lambda>e. (fst e, normalizeDesc (the (snd e)))) (db_vec_descs db)"

definition maxGen :: "DB \<Rightarrow> int" where
  "maxGen db = foldr max (map (\<lambda>e. atoi (drop 11 (fst e))) (db_vec_descs db)) 0"

lemma genLoop_gen:
  "genLoop want tables name m db = (name', m', db') \<Longrightarrow>
   m' = foldr max (map (\<lambda>e. atoi (drop 11 (fst e))) tables) m"
proof (induction tables arbitrary: name m db)
  case (Cons t tables)
  have swap: "foldr max (xs::int list) (max m a) = max a (foldr max xs m)" for xs a m
    by (induction xs) (auto simp: max.left_commute max.commute)
  obtain existing desc where t: "t = (existing, desc)" by (cases t)
  show ?case
    using Cons.prems
    by (auto simp: t Let_def swap dest!: Cons.IH split: if_splits)
qed simp

lemma foldr_max_ge: "(x::int) \<in> set xs \<Longrightarrow> x \<le> foldr max xs m"
  by (induction xs) auto

lemma foldr_max_base: "(m::int) \<le> foldr max xs m"
  by (induction xs) (auto simp: le_max_iff_disj)

lemma ensureVecTableTx_cases:
  assumes inv: "catalog_inv db"
  obtains
    (reuse) name where "name \<in> matching want (generations db)"
      "ensureVecTableTx want now db =
        Inr (db\<lparr>db_vec_descs := refreshed want (outdated want (generations db)) (db_vec_descs db),
                db_vec_current := Some name\<rparr>, ())"
  | (mint) "matching want (generations db) = {}" "maxGen db + 1 < 2 ^ 63"
      "genName (maxGen db + 1) \<notin> fst ` set (db_vec_tables db)"
      "ensureVecTableTx want now db =
        (let name = genName (maxGen db + 1) in
         Inr (db\<lparr>db_vec_tables := db_vec_tables db @ [(name, [])],
                 db_vec_descs := db_vec_descs db @ [(name, Some want)],
                 db_vec_current := Some name\<rparr>, ()))"
  | (full) "matching want (generations db) = {}" "maxGen db + 1 \<ge> 2 ^ 63"
      "ensureVecTableTx want now db = Inl (ErrStore ''syntax error'')"
proof -
  have vinv: "vectors_inv db" using inv by (simp add: catalog_inv_def)
  note list = listVecTables_descs [OF vinv]
  obtain name m db1 where loop: "genLoop want (generations db) '''' 0 db = (name, m, db1)"
    by (cases "genLoop want (generations db) '''' 0 db")
  have keys: "fst ` set (generations db) \<subseteq> fst ` set (db_vec_descs db)"
    by (simp add: image_image)
  note res = genLoop_result [OF keys loop]
  have m: "m = maxGen db"
    using genLoop_gen [OF loop] by (simp add: maxGen_def comp_def)
  show ?thesis
  proof (cases "matching want (generations db) = {}")
    case False
    then have name: "name \<in> matching want (generations db)" using res(3) by simp
    then obtain e where "e \<in> set (db_vec_descs db)" "name = fst e"
      by (auto simp: matching_def)
    then have "vecTableGen name \<noteq> None" using list(3) by blast
    then have "name \<noteq> ''''" by (auto simp: vecTableGen_def hasPrefix_def)
    then show ?thesis
      by (intro reuse [OF name]) (simp add: ensureVecTableTx_def list(1) loop res(4))
  next
    case True
    then have name: "name = ''''" using res(3) by simp
    have "outdated want (generations db) = {}"
      using True by (auto simp: outdated_def matching_def)
    then have db1: "db1 = db" using res(4) by simp
    show ?thesis
    proof (cases "maxGen db + 1 \<ge> 2 ^ 63")
      case full: True
      then show ?thesis
        by (intro that(3) [OF True]) (simp_all add: ensureVecTableTx_def list(1) loop db1 name m createVecTable_def Let_def)
    next
      case ok: False
      define new where "new = genName (maxGen db + 1)"
      have pos: "0 \<le> maxGen db" by (simp add: maxGen_def foldr_max_base)
      have atoi: "atoi (drop 11 new) = maxGen db + 1"
        unfolding new_def genName_def drop_prefix using pos ok by (subst atoi_itoa) auto
      have names: "fst ` set (db_vec_tables db) = fst ` set (db_vec_descs db)"
        using list(2) by (metis set_map)
      have fresh: "new \<notin> fst ` set (db_vec_descs db)"
      proof
        assume "new \<in> fst ` set (db_vec_descs db)"
        then have "atoi (drop 11 new) \<in> set (map (\<lambda>e. atoi (drop 11 (fst e))) (db_vec_descs db))"
          by auto
        then have "atoi (drop 11 new) \<le> maxGen db"
          unfolding maxGen_def by (rule foldr_max_ge)
        then show False unfolding atoi by simp
      qed
      then have fresh': "new \<notin> fst ` set (db_vec_tables db)" unfolding names .
      have "ensureVecTableTx want now db =
         Inr (db\<lparr>db_vec_tables := db_vec_tables db @ [(new, [])],
                 db_vec_descs := db_vec_descs db @ [(new, Some want)],
                 db_vec_current := Some new\<rparr>, ())"
        using ok fresh fresh'
        by (simp add: ensureVecTableTx_def list(1) loop db1 name m createVecTable_def Let_def
            setVecDesc_def upsert_by_def flip: new_def)
      then show ?thesis using that(2) [OF True] ok fresh' unfolding new_def Let_def by simp

    qed
  qed
qed

lemma catalog_inv_ensureVecTableTx:
  assumes inv: "catalog_inv db" and tx: "ensureVecTableTx want now db = Inr (db', u)"
  shows "catalog_inv db'"
  using inv
proof (cases rule: ensureVecTableTx_cases [of db want now])
  case (reuse name)
  have vinv: "vectors_inv db" using inv by (simp add: catalog_inv_def)
  have "catalog_inv ((db\<lparr>db_vec_descs := refreshed want (outdated want (generations db)) (db_vec_descs db)\<rparr>)
      \<lparr>db_vec_current := Some name\<rparr>)"
    by (intro catalog_inv_current catalog_inv_refreshed [OF inv]) (rule outdated_dims [OF vinv])
  then show ?thesis using reuse(2) tx by simp
next
  case mint
  let ?new = "genName (maxGen db + 1)"
  have "catalog_inv ((db\<lparr>db_vec_tables := db_vec_tables db @ [(?new, [])],
      db_vec_descs := db_vec_descs db @ [(?new, Some want)]\<rparr>)\<lparr>db_vec_current := Some ?new\<rparr>)"
    by (intro catalog_inv_current catalog_inv_new_table [OF inv mint(3)]) (simp add: vecTableGen_itoa)
  then show ?thesis using mint(4) tx by (simp add: Let_def)
next
  case full
  then show ?thesis using tx by simp
qed

interpretation ensureVecTable: store_op "EnsureVecTable spec dims" for spec dims
proof -
  show "store_op (EnsureVecTable spec dims)"
    unfolding EnsureVecTable_def
    by (intro store_op_if store_op_return store_op_withTx) (rule catalog_inv_ensureVecTableTx)
qed

interpretation currentVecSpec: store_op CurrentVecSpec
  unfolding CurrentVecSpec_def by (rule store_op_withReader)

interpretation searchVectors: store_op "SearchVectors knn query limit" for knn query limit
  unfolding SearchVectors_def by (rule store_op_withReader)

text \<open>Inserting: the rows of the current table become the old rows without the ids, then the new ones.\<close>

lemma update_table_comp:
  "update_table t g (update_table t f db) = update_table t (\<lambda>rows. g (f rows)) db"
  by (simp add: update_table_def case_prod_unfold comp_def)

lemma update_table_id [simp]: "update_table t (\<lambda>rows. rows) db = db"
  by (simp add: update_table_def case_prod_unfold)

lemma insertVectors_result:
  assumes "insertVectors table dims pairs db = Inr db'" "distinct (map fst pairs)"
  shows "db' = update_table table (\<lambda>rows. filter (\<lambda>r. fst r \<notin> fst ` set pairs) rows @ pairs) db"
    and "\<forall>p \<in> set pairs. int (length (snd p)) = dims"
proof -
  have "db' = update_table table (\<lambda>rows. filter (\<lambda>r. fst r \<notin> fst ` set pairs) rows @ pairs) db \<and>
    (\<forall>p \<in> set pairs. int (length (snd p)) = dims)"
    using assms
  proof (induction pairs arbitrary: db)
    case Nil
    then show ?case by simp
  next
    case (Cons p pairs)
    obtain i vec where p: "p = (i, vec)" by (cases p)
    let ?f = "\<lambda>rows. filter (\<lambda>r. fst r \<noteq> i) rows @ [(i, vec)]"
    have dims: "int (length vec) = dims" and rec: "insertVectors table dims pairs (update_table table ?f db) = Inr db'"
      using Cons.prems(1) by (auto simp: p split: if_splits)
    have "i \<notin> fst ` set pairs" using Cons.prems(2) by (simp add: p)
    then have "filter (\<lambda>r. fst r \<notin> fst ` set pairs) (?f rows) @ pairs =
        filter (\<lambda>r. fst r \<notin> fst ` set (p # pairs)) rows @ p # pairs" for rows
      by (simp add: p conj_commute)
    then show ?case
      using Cons.IH [OF rec] Cons.prems(2) dims by (simp add: update_table_comp p)
  qed
  then show "db' = update_table table (\<lambda>rows. filter (\<lambda>r. fst r \<notin> fst ` set pairs) rows @ pairs) db"
    "\<forall>p \<in> set pairs. int (length (snd p)) = dims" by blast+
qed

lemma insertVectors_ok:
  "\<forall>p \<in> set pairs. int (length (snd p)) = dims \<Longrightarrow> \<exists>db'. insertVectors table dims pairs db = Inr db'"
  by (induction pairs arbitrary: db) auto

lemma insertVectors_err: "insertVectors table dims pairs db = Inl e \<Longrightarrow> \<exists>m. e = ErrStore m"
  by (induction table dims pairs db rule: insertVectors.induct) (auto split: if_splits)

lemma live_ids:
  assumes "distinct (map k_id rows)" "length (filter (\<lambda>k. k_id k \<in> set ids) rows) = length ids"
  shows "distinct ids" "set ids \<subseteq> k_id ` set rows"
proof -
  let ?live = "k_id ` {k \<in> set rows. k_id k \<in> set ids}"
  have "card ?live = length (filter (\<lambda>k. k_id k \<in> set ids) rows)"
    using distinct_card [of "map k_id (filter (\<lambda>k. k_id k \<in> set ids) rows)"] assms(1)
    by (simp add: distinct_map_filter)
  then have c: "card ?live = length ids" using assms(2) by simp
  have sub: "?live \<subseteq> set ids" by auto
  have "card (set ids) \<le> length ids" by (rule card_length)
  moreover have "card ?live \<le> card (set ids)" using sub by (intro card_mono) simp_all
  ultimately have "?live = set ids" using c sub by (intro card_subset_eq) simp_all
  with c show "distinct ids" "set ids \<subseteq> k_id ` set rows" by (auto intro: card_distinct)
qed

lemma live_ids_iff:
  assumes "distinct (map k_id rows)"
  shows "length (filter (\<lambda>k. k_id k \<in> set ids) rows) = length ids \<longleftrightarrow>
    distinct ids \<and> set ids \<subseteq> k_id ` set rows"
proof
  assume ids: "distinct ids \<and> set ids \<subseteq> k_id ` set rows"
  have "card (k_id ` {k \<in> set rows. k_id k \<in> set ids}) = length (filter (\<lambda>k. k_id k \<in> set ids) rows)"
    using distinct_card [of "map k_id (filter (\<lambda>k. k_id k \<in> set ids) rows)"] assms
    by (simp add: distinct_map_filter)
  moreover have "k_id ` {k \<in> set rows. k_id k \<in> set ids} = set ids" using ids by auto
  ultimately show "length (filter (\<lambda>k. k_id k \<in> set ids) rows) = length ids"
    using ids by (simp add: distinct_card)
qed (use live_ids [OF assms] in blast)

lemma currentVecTable_desc:
  assumes "currentVecTable db = Inr (table, desc)"
  shows "\<exists>d. (table, Some d) \<in> set (db_vec_descs db) \<and> desc = normalizeDesc d \<and> db_vec_current db = Some table"
  using assms by (auto simp: currentVecTable_def split: option.splits if_splits dest: map_of_SomeD)

lemma catalog_inv_tables:
  assumes "catalog_inv db" "list_all2 (vec_table_ok (chunk_ids db)) tables (db_vec_descs db)"
    and "map fst tables = map fst (db_vec_tables db)"
  shows "catalog_inv (db\<lparr>db_vec_tables := tables\<rparr>)"
  using assms by (simp add: catalog_inv_def documents_inv_def content_inv_def vectors_inv_def hashes_def chunk_ids_def)

lemma catalog_inv_update_table:
  assumes inv: "catalog_inv db"
    and f: "\<And>rows d. (table, rows) \<in> set (db_vec_tables db) \<Longrightarrow> (table, Some d) \<in> set (db_vec_descs db) \<Longrightarrow>
      vec_table_ok (chunk_ids db) (table, rows) (table, Some d) \<Longrightarrow>
      vec_table_ok (chunk_ids db) (table, f rows) (table, Some d)"
  shows "catalog_inv (update_table table f db)"
proof -
  have "list_all2 (vec_table_ok (chunk_ids db)) (db_vec_tables db) (db_vec_descs db)"
    using inv by (simp add: catalog_inv_def vectors_inv_def)
  then have "list_all2 (vec_table_ok (chunk_ids db))
      (map (\<lambda>(name, rows). (name, if name = table then f rows else rows)) (db_vec_tables db)) (db_vec_descs db)"
    unfolding list_all2_map1
  proof (elim list.rel_mono_strong)
    fix tbl dsc
    assume mem: "tbl \<in> set (db_vec_tables db)" "dsc \<in> set (db_vec_descs db)"
      and ok: "vec_table_ok (chunk_ids db) tbl dsc"
    obtain n rows where tbl: "tbl = (n, rows)" by (cases tbl)
    obtain d where dsc: "dsc = (n, Some d)" using ok by (cases dsc) (auto simp: vec_table_ok_def tbl)
    show "vec_table_ok (chunk_ids db) (case tbl of (name, rows) \<Rightarrow> (name, if name = table then f rows else rows)) dsc"
      using f [of rows d] mem ok by (cases "n = table") (simp_all add: tbl dsc)
  qed
  then show ?thesis
    unfolding update_table_def
    by (rule catalog_inv_tables [OF inv]) (simp add: case_prod_unfold comp_def)
qed

lemma upsertVectorsTx_result:
  assumes inv: "catalog_inv db" and tx: "upsertVectorsTx ids vectors now db = Inr (db', u)"
    and len: "length ids = length vectors"
  obtains table desc where "currentVecTable db = Inr (table, desc)" "distinct ids"
    "set ids \<subseteq> chunk_ids db" "\<forall>v \<in> set vectors. int (length v) = vd_Dims desc"
    "db' = update_table table (\<lambda>rows. filter (\<lambda>r. fst r \<notin> set ids) rows @ zip ids vectors) db"
proof -
  obtain table desc where cur: "currentVecTable db = Inr (table, desc)"
    using tx by (auto simp: upsertVectorsTx_def split: sum.splits)
  have live: "length (filter (\<lambda>k. k_id k \<in> set ids) (db_chunks db)) = length ids"
    and ins: "insertVectors table (vd_Dims desc) (zip ids vectors) db = Inr db'"
    using tx by (auto simp: upsertVectorsTx_def cur split: sum.splits if_splits)
  have "distinct (map k_id (db_chunks db))" using inv by (simp add: catalog_inv_def content_inv_def)
  note ids = live_ids [OF this live]
  have z: "map fst (zip ids vectors) = ids" "map snd (zip ids vectors) = vectors" using len by simp_all
  have zf: "fst ` set (zip ids vectors) = set ids" "snd ` set (zip ids vectors) = set vectors"
    using z by (metis set_map)+
  have d: "distinct (map fst (zip ids vectors))" using z(1) ids(1) by simp
  note res = insertVectors_result [OF ins d]
  show ?thesis
  proof (rule that [OF cur ids(1)])
    show "set ids \<subseteq> chunk_ids db" using ids(2) by (simp add: chunk_ids_def)
    show "\<forall>v \<in> set vectors. int (length v) = vd_Dims desc" using res(2) unfolding zf(2) [symmetric] by blast
    show "db' = update_table table (\<lambda>rows. filter (\<lambda>r. fst r \<notin> set ids) rows @ zip ids vectors) db"
      using res(1) unfolding zf(1) .
  qed
qed

lemma catalog_inv_upsertVectorsTx:
  assumes inv: "catalog_inv db" and tx: "upsertVectorsTx ids vectors now db = Inr (db', u)"
    and len: "length ids = length vectors"
  shows "catalog_inv db'"
proof -
  obtain table desc where cur: "currentVecTable db = Inr (table, desc)" and ids: "distinct ids" "set ids \<subseteq> chunk_ids db"
    and dims: "\<forall>v \<in> set vectors. int (length v) = vd_Dims desc"
    and db': "db' = update_table table (\<lambda>rows. filter (\<lambda>r. fst r \<notin> set ids) rows @ zip ids vectors) db"
    using upsertVectorsTx_result [OF inv tx len] .
  obtain d where d: "(table, Some d) \<in> set (db_vec_descs db)" "desc = normalizeDesc d"
    using currentVecTable_desc [OF cur] by blast
  have z: "map fst (zip ids vectors) = ids" using len by simp
  have zf: "fst ` set (zip ids vectors) = set ids" using z by (metis set_map)
  have dd: "distinct (map fst (db_vec_descs db))"
    using inv listVecTables_descs(2) by (auto simp: catalog_inv_def vectors_inv_def)
  show ?thesis
    unfolding db'
  proof (rule catalog_inv_update_table [OF inv])
    fix rows d'
    assume "(table, Some d') \<in> set (db_vec_descs db)" and ok: "vec_table_ok (chunk_ids db) (table, rows) (table, Some d')"
    then have d': "d' = d" using distinct_fst_unique [OF dd d(1)] by blast
    let ?rows = "filter (\<lambda>r. fst r \<notin> set ids) rows @ zip ids vectors"
    have "distinct (map fst ?rows)"
      using ok ids(1) z by (auto simp: vec_table_ok_def distinct_map_filter)
    moreover have "fst ` set ?rows \<subseteq> chunk_ids db"
      using ok ids(2) by (auto simp: vec_table_ok_def dest: set_zip_leftD)
    moreover have "int (length (snd r)) = vd_Dims d" if "r \<in> set ?rows" for r
    proof -
      obtain i v where r: "r = (i, v)" by fastforce
      have "r \<in> set rows \<or> snd r \<in> set vectors"
        using that unfolding r by (auto dest: set_zip_rightD)
      then show ?thesis using ok dims d(2) by (auto simp: vec_table_ok_def d')
    qed
    ultimately show "vec_table_ok (chunk_ids db) (table, ?rows) (table, Some d')"
      using ok by (simp add: vec_table_ok_def d')
  qed
qed

interpretation upsertVectors: store_op "UpsertVectors ids vectors" for ids vectors
proof -
  show "store_op (UpsertVectors ids vectors)"
    unfolding UpsertVectors_def
    by (intro store_op_if store_op_return store_op_withTx) (use catalog_inv_upsertVectorsTx in blast)
qed

section \<open>The fan-out and its collapse\<close>

definition fanOut :: "(hash \<Rightarrow> Document list) \<Rightarrow> Hit list \<Rightarrow> Hit list" where
  "fanOut docs chunks = List.concat (map (\<lambda>ch. map (\<lambda>doc. ch\<lparr>h_Doc := doc\<rparr>) (docs (hit_hash ch))) chunks)"

lemma SearchVectors_fanOut:
  "SearchVectors knn query limit =
     withReader (\<lambda>db.
       (case currentVecTable db of
          Inl e \<Rightarrow> Inl e
        | Inr (table, desc) \<Rightarrow>
            (if int (length query) \<noteq> vd_Dims desc then Inl (ErrStore ''query has wrong dims'')
             else case knnChunks knn table query limit db of
                    Inl e \<Rightarrow> Inl e
                  | Inr chunks \<Rightarrow> Inr (fanOut (documentsByHash (chunkHashes chunks) db) chunks))))"
  unfolding SearchVectors_def fanOut_def Let_def ..

lemma firstPerHash_append_list:
  "firstPerHash (xs @ ys) = firstPerHash xs @ filter (\<lambda>y. hit_hash y \<notin> hit_hash ` set xs) (firstPerHash ys)"
proof (induction xs)
  case (Cons x xs)
  have "filter (\<lambda>z. hit_hash z \<noteq> hit_hash x) (filter (\<lambda>y. hit_hash y \<notin> hit_hash ` set xs) (firstPerHash ys)) =
      filter (\<lambda>y. hit_hash y \<notin> hit_hash ` set (x # xs)) (firstPerHash ys)"
    by (auto intro!: filter_cong)
  with Cons show ?case by simp
qed simp

lemma firstPerHash_same:
  "(\<And>x. x \<in> set xs \<Longrightarrow> hit_hash x = h) \<Longrightarrow> xs \<noteq> [] \<Longrightarrow> firstPerHash xs = [hd xs]"
proof (induction xs)
  case (Cons x xs)
  then have "\<And>y. y \<in> set (firstPerHash xs) \<Longrightarrow> hit_hash y = h"
    using firstPerHash_subset by (metis list.set_intros(2) subsetD)
  with Cons.prems(1) [of x] show ?case by (auto simp: filter_empty_conv)
qed simp

text \<open>The documents listed under a hash carry it.\<close>

definition docs_hashed :: "(hash \<Rightarrow> Document list) \<Rightarrow> bool" where
  "docs_hashed docs \<longleftrightarrow> (\<forall>h. \<forall>d \<in> set (docs h). doc_ContentHash d = h)"

lemma docs_hashedD: "docs_hashed docs \<Longrightarrow> d \<in> set (docs h) \<Longrightarrow> doc_ContentHash d = h"
  by (simp add: docs_hashed_def)

definition bestHit :: "(hash \<Rightarrow> Document list) \<Rightarrow> Hit \<Rightarrow> Hit" where
  "bestHit docs ch = ch\<lparr>h_Doc := hd (docs (hit_hash ch))\<rparr>"

lemma fanOut_Cons:
  "fanOut docs (ch # chunks) = map (\<lambda>doc. ch\<lparr>h_Doc := doc\<rparr>) (docs (hit_hash ch)) @ fanOut docs chunks"
  by (simp add: fanOut_def)

lemma filter_map_comm:
  "(\<And>x. x \<in> set xs \<Longrightarrow> P (f x) = Q x) \<Longrightarrow> filter P (map f xs) = map f (filter Q xs)"
  by (induction xs) auto

lemma firstPerHash_fanOut:
  assumes "docs_hashed docs"
  shows "firstPerHash (fanOut docs chunks) =
    map (bestHit docs) (filter (\<lambda>ch. docs (hit_hash ch) \<noteq> []) (firstPerHash chunks))"
proof (induction chunks)
  case Nil
  then show ?case by (simp add: fanOut_def)
next
  case (Cons ch chunks)
  let ?h = "hit_hash ch" and ?R = "filter (\<lambda>ch. docs (hit_hash ch) \<noteq> []) (firstPerHash chunks)"
  let ?new = "map (\<lambda>doc. ch\<lparr>h_Doc := doc\<rparr>) (docs ?h)"
  have hash: "hit_hash (bestHit docs x) = hit_hash x" if "docs (hit_hash x) \<noteq> []" for x
    using docs_hashedD [OF assms, of "hd (docs (hit_hash x))" "hit_hash x"] that by (simp add: bestHit_def)
  show ?case
  proof (cases "docs ?h = []")
    case True
    then have "filter (\<lambda>x. docs (hit_hash x) \<noteq> []) (filter (\<lambda>x. hit_hash x \<noteq> ?h) (firstPerHash chunks)) = ?R"
      by (auto intro!: filter_cong)
    with True Cons show ?thesis by (simp add: fanOut_Cons)
  next
    case False
    have same: "\<And>x. x \<in> set ?new \<Longrightarrow> hit_hash x = ?h" using docs_hashedD [OF assms] by auto
    have "firstPerHash ?new = [hd ?new]" by (rule firstPerHash_same [OF same]) (use False in simp_all)
    moreover have "hd ?new = bestHit docs ch" using False by (simp add: bestHit_def hd_map)
    moreover have "hit_hash ` set ?new = {?h}"
    proof -
      have "hit_hash ` set ?new = doc_ContentHash ` set (docs ?h)" by (simp add: image_image)
      also have "\<dots> = (\<lambda>_. ?h) ` set (docs ?h)"
        by (rule image_cong) (use docs_hashedD [OF assms] in auto)
      finally show ?thesis using False by (simp add: image_constant_conv)
    qed
    ultimately have "firstPerHash (fanOut docs (ch # chunks)) =
        bestHit docs ch # filter (\<lambda>y. hit_hash y \<noteq> ?h) (map (bestHit docs) ?R)"
      unfolding fanOut_Cons firstPerHash_append_list Cons by simp
    also have "filter (\<lambda>y. hit_hash y \<noteq> ?h) (map (bestHit docs) ?R) =
        map (bestHit docs) (filter (\<lambda>y. hit_hash y \<noteq> ?h) ?R)"
      by (rule filter_map_comm) (use hash in simp)
    also have "filter (\<lambda>y. hit_hash y \<noteq> ?h) ?R =
        filter (\<lambda>x. docs (hit_hash x) \<noteq> []) (filter (\<lambda>x. hit_hash x \<noteq> ?h) (firstPerHash chunks))"
      by (simp add: conj_commute)
    finally show ?thesis using False by simp
  qed
qed

text \<open>The rows of one content in the fan-out: each of its chunks at each of its paths.\<close>

lemma fanOut_hash:
  assumes "docs_hashed docs"
  shows "filter (\<lambda>x. hit_hash x = h) (fanOut docs chunks) =
    fanOut docs (filter (\<lambda>ch. hit_hash ch = h) chunks)"
proof (induction chunks)
  case (Cons ch chunks)
  let ?new = "map (\<lambda>doc. ch\<lparr>h_Doc := doc\<rparr>) (docs (hit_hash ch))"
  have new: "\<forall>x \<in> set ?new. hit_hash x = hit_hash ch" using docs_hashedD [OF assms] by auto
  have "filter (\<lambda>x. hit_hash x = h) ?new = (if hit_hash ch = h then ?new else [])"
  proof (cases "hit_hash ch = h")
    case True
    then have "filter (\<lambda>x. hit_hash x = h) ?new = ?new" using new by (intro filter_True) blast
    with True show ?thesis by presburger
  next
    case False
    then have "filter (\<lambda>x. hit_hash x = h) ?new = []" using new by (intro filter_False) metis
    with False show ?thesis by presburger
  qed
  with Cons show ?case by (simp add: fanOut_Cons)
qed (simp add: fanOut_def)

lemma otherPaths_fanOut:
  assumes docs: "docs_hashed docs"
    and distinct: "distinct (map (\<lambda>ch. (hit_hash ch, hit_ordinal ch)) chunks)"
    and ch: "ch \<in> set (firstPerHash chunks)" "docs (hit_hash ch) \<noteq> []"
  shows "otherPaths (fanOut docs chunks) (bestHit docs ch) = map doc_Path (tl (docs (hit_hash ch)))"
proof -
  let ?h = "hit_hash ch" and ?mine = "filter (\<lambda>x. hit_hash x = hit_hash ch) chunks"
  obtain rest where mine: "?mine = ch # rest"
    using firstPerHash_hd [OF ch(1)] by (cases ?mine) auto
  obtain d ds where ds: "docs ?h = d # ds" using ch(2) by (cases "docs ?h") auto
  have hash: "hit_hash (bestHit docs ch) = ?h" using docs_hashedD [OF docs, of d ?h] ds by (simp add: bestHit_def)
  have "filter (\<lambda>x. hit_hash x = ?h) (fanOut docs chunks) =
      ch\<lparr>h_Doc := d\<rparr> # map (\<lambda>doc. ch\<lparr>h_Doc := doc\<rparr>) ds @ fanOut docs rest"
    by (simp add: fanOut_hash [OF docs] mine fanOut_Cons ds)
  moreover have "filter (\<lambda>x. hit_ordinal x = hit_ordinal ch) (fanOut docs rest) = []"
  proof -
    let ?key = "\<lambda>ch. (hit_hash ch, hit_ordinal ch)"
    have dist: "distinct (map ?key (ch # rest))"
      using distinct_map_filter [OF distinct, of "\<lambda>x. hit_hash x = ?h"] unfolding mine .
    have same: "\<forall>x \<in> set rest. hit_hash x = ?h"
      using arg_cong [OF mine, of set] by auto
    have "hit_ordinal x \<noteq> hit_ordinal ch" if x: "x \<in> set rest" for x
    proof
      assume "hit_ordinal x = hit_ordinal ch"
      with same x have "?key ch = ?key x" by simp
      then have "?key ch \<in> ?key ` set rest" using x by (rule image_eqI)
      with dist show False by simp
    qed
    then show ?thesis by (fastforce simp: fanOut_def filter_empty_conv)
  qed
  ultimately show ?thesis
    unfolding otherPaths_def hash by (simp add: bestHit_def ds comp_def)
qed

lemma collapse_fanOut:
  assumes "docs_hashed docs"
    and "distinct (map (\<lambda>ch. (hit_hash ch, hit_ordinal ch)) chunks)"
  shows "CollapseBestPerContent (fanOut docs chunks) limit =
    map (\<lambda>ch. \<lparr>chit_Hit = bestHit docs ch, chit_AlsoAt = sort (map doc_Path (tl (docs (hit_hash ch))))\<rparr>)
      (take (nat limit) (filter (\<lambda>ch. docs (hit_hash ch) \<noteq> []) (firstPerHash chunks)))"
proof -
  let ?R = "take (nat limit) (filter (\<lambda>ch. docs (hit_hash ch) \<noteq> []) (firstPerHash chunks))"
  have mem: "\<And>ch. ch \<in> set ?R \<Longrightarrow> ch \<in> set (firstPerHash chunks) \<and> docs (hit_hash ch) \<noteq> []"
    by (drule in_set_takeD) simp
  show ?thesis
    unfolding collapse_reference firstPerHash_fanOut [OF assms(1)] take_map map_map
  proof (rule map_cong [OF refl])
    fix ch
    assume "ch \<in> set ?R"
    then have "otherPaths (fanOut docs chunks) (bestHit docs ch) = map doc_Path (tl (docs (hit_hash ch)))"
      using otherPaths_fanOut [OF assms] mem by blast
    then show "((\<lambda>h. \<lparr>chit_Hit = h, chit_AlsoAt = sort (otherPaths (fanOut docs chunks) h)\<rparr>) \<circ> bestHit docs) ch =
        \<lparr>chit_Hit = bestHit docs ch, chit_AlsoAt = sort (map doc_Path (tl (docs (hit_hash ch))))\<rparr>"
      by (simp only: comp_def)
  qed
qed

lemma insort_key_map: "insort_key f (g x) (map g xs) = map g (insort_key (\<lambda>x. f (g x)) x xs)"
  by (induction xs) auto

lemma sort_key_map: "sort_key f (map g xs) = map g (sort_key (\<lambda>x. f (g x)) xs)"
  by (induction xs) (simp_all add: insort_key_map sort_key_simps)

lemma documentsByHash_holders:
  "documentsByHash hs db h = (if h \<in> set hs then map (hitDoc h) (holders h db) else [])"
  by (simp add: documentsByHash_def holders_def sort_key_map) (simp add: hitDoc_def)

lemma set_hashLoop: "set (hashLoop chunks seen) = hit_hash ` set chunks - seen"
  by (induction chunks seen rule: hashLoop.induct) auto

lemma set_chunkHashes: "set (chunkHashes chunks) = hit_hash ` set chunks"
  by (simp add: chunkHashes_def set_hashLoop)

lemma docs_hashed_documentsByHash: "docs_hashed (documentsByHash hs db)"
  by (auto simp: docs_hashed_def documentsByHash_holders hitDoc_def)

lemma fanOut_cong:
  "(\<And>h. h \<in> hit_hash ` set chunks \<Longrightarrow> docs h = docs' h) \<Longrightarrow> fanOut docs chunks = fanOut docs' chunks"
  unfolding fanOut_def by (intro arg_cong [where f = List.concat] map_cong) auto

lemma chunkHit_sel [simp]:
  "hit_hash (chunkHit k x) = k_hash k" "hit_ordinal (chunkHit k x) = k_ordinal k"
  "h_Distance (chunkHit k x) = x"
  by (simp_all add: chunkHit_def noDoc_def)

text \<open>
  What sqlite-vec promises of the k nearest rows: rows of the table, each at most once, at most k.
\<close>

definition knn_law :: "knn \<Rightarrow> bool" where
  "knn_law knn \<longleftrightarrow> (\<forall>rows q n. distinct (map fst rows) \<longrightarrow>
     distinct (map fst (knn rows q n)) \<and> fst ` set (knn rows q n) \<subseteq> fst ` set rows \<and>
     length (knn rows q n) \<le> nat n)"

lemma knnJoin_set:
  "set (knnJoin knn rows q n db) = {(k, x). k \<in> set (db_chunks db) \<and> (k_id k, x) \<in> set (knn rows q n)}"
  by (auto simp: knnJoin_def)

lemma filter_unique:
  "distinct (map f xs) \<Longrightarrow> length (filter (\<lambda>x. f x = a) xs) \<le> 1"
  by (induction xs) (auto simp: filter_empty_conv image_iff length_Suc_conv le_Suc_eq)

lemma distinct_join:
  assumes "distinct (map fst pairs)" "distinct (map k_id chunks)"
  shows "distinct (map (\<lambda>(k, x). k_id k)
    (List.concat (map (\<lambda>(i, x). map (\<lambda>k. (k, x)) (filter (\<lambda>k. k_id k = i) chunks)) pairs)))"
  using assms(1)
proof (induction pairs)
  case (Cons p pairs)
  obtain i x where p: "p = (i, x)" by fastforce
  let ?row = "filter (\<lambda>k. k_id k = i) chunks"
  have "distinct (map k_id ?row)" using assms(2) by (rule distinct_map_filter)
  then have "distinct (map (\<lambda>(k, x). k_id k) (map (\<lambda>k. (k, x)) ?row))" by (simp add: comp_def)
  then show ?case using Cons by (auto simp: p) (metis fst_conv image_eqI)
qed simp

lemma distinct_knnJoin:
  assumes "catalog_inv db" "distinct (map fst (knn rows q n))"
  shows "distinct (map (\<lambda>ch. (hit_hash ch, hit_ordinal ch))
    (map (\<lambda>(k, x). chunkHit k x) (knnJoin knn rows q n db)))"
proof -
  let ?J = "knnJoin knn rows q n db"
  have ids: "distinct (map k_id (db_chunks db))"
    and keys: "distinct (map (\<lambda>k. (k_hash k, k_ordinal k)) (db_chunks db))"
    using assms(1) by (simp_all add: catalog_inv_def content_inv_def)
  let ?raw = "List.concat (map (\<lambda>(i, x). map (\<lambda>k. (k, x)) (filter (\<lambda>k. k_id k = i) (db_chunks db))) (knn rows q n))"
  have "mset ?J = mset ?raw" by (simp add: knnJoin_def)
  then have "mset (map (\<lambda>(k, x). k_id k) ?J) = mset (map (\<lambda>(k, x). k_id k) ?raw)" by (simp add: mset_map)
  then have d: "distinct (map (\<lambda>(k, x). k_id k) ?J)"
    using distinct_join [OF assms(2) ids] by (metis mset_eq_imp_distinct_iff)
  have "inj_on (\<lambda>k. (k_hash k, k_ordinal k)) (set (db_chunks db))"
    using keys by (simp add: distinct_map)
  then have inj: "k = k'" if "k \<in> set (db_chunks db)" "k' \<in> set (db_chunks db)"
      "k_hash k = k_hash k'" "k_ordinal k = k_ordinal k'" for k k'
    using that by (auto simp: inj_on_def)
  have "inj_on (\<lambda>(k, x). (k_hash k, k_ordinal k)) (set ?J)"
  proof (rule inj_onI, clarsimp simp: knnJoin_set)
    fix k x k' x'
    assume a: "k \<in> set (db_chunks db)" "(k_id k, x) \<in> set (knn rows q n)" "k' \<in> set (db_chunks db)"
      "(k_id k', x') \<in> set (knn rows q n)" "k_hash k = k_hash k'" "k_ordinal k = k_ordinal k'"
    then have "k = k'" using inj by blast
    then show "k = k' \<and> x = x'" using a eq_key_imp_eq_value [OF assms(2)] by blast
  qed
  moreover have "distinct ?J" using d by (simp add: distinct_map)
  ultimately have "distinct (map (\<lambda>(k, x). (k_hash k, k_ordinal k)) ?J)" by (simp add: distinct_map)
  then show ?thesis by (simp add: comp_def case_prod_unfold)
qed

section \<open>Properties\<close>

lemma sorted_knnJoin: "sorted (map snd (knnJoin knn rows q n db))"
  by (rule sorted_first [where g = "\<lambda>p. k_id (fst p)"]) (simp add: knnJoin_def case_prod_unfold)

lemma sorted_subseq:
  fixes f :: "'a \<Rightarrow> 'b::linorder"
  assumes "subseq xs ys" "sorted (map f ys)"
  shows "sorted (map f xs)"
  using assms
proof (induction rule: list_emb.induct)
  case (list_emb_Cons2 x y xs ys)
  then have "set xs \<subseteq> set ys" by (auto dest: list_emb_set)
  with list_emb_Cons2 show ?case by auto
qed auto

lemma firstPerHash_nearest:
  assumes "sorted (map h_Distance chunks)" "ch \<in> set (firstPerHash chunks)" "x \<in> set chunks" "hit_hash x = hit_hash ch"
  shows "h_Distance ch \<le> h_Distance x"
proof -
  let ?mine = "filter (\<lambda>x. hit_hash x = hit_hash ch) chunks"
  have "sorted (map h_Distance ?mine)" using assms(1) by (rule sorted_subseq [OF subseq_filter_left])
  moreover obtain rest where "?mine = ch # rest"
    using firstPerHash_hd [OF assms(2)] by (cases ?mine) auto
  moreover have "x \<in> set ?mine" using assms(3,4) by simp
  ultimately show ?thesis by auto
qed

lemma current_table_rows:
  assumes "vectors_inv db" "currentVecTable db = Inr (table, desc)"
  obtains rows where "map_of (db_vec_tables db) table = Some rows" "distinct (map fst rows)"
proof -
  have "table \<in> fst ` set (db_vec_descs db)" using currentVecTable_desc [OF assms(2)] by force
  then have "table \<in> set (map fst (db_vec_tables db))"
    using listVecTables_descs(2) [OF assms(1)] by (metis set_map)
  then obtain rows where rows: "map_of (db_vec_tables db) table = Some rows"
    by (metis list.set_map map_of_eq_None_iff not_Some_eq)
  then obtain i where i: "i < length (db_vec_tables db)" "db_vec_tables db ! i = (table, rows)"
    by (metis in_set_conv_nth map_of_SomeD)
  have "list_all2 (vec_table_ok (chunk_ids db)) (db_vec_tables db) (db_vec_descs db)"
    using assms(1) by (simp add: vectors_inv_def)
  from list_all2_nthD [OF this i(1)] have "distinct (map fst rows)"
    by (simp add: i(2) vec_table_ok_def)
  with rows show ?thesis by (rule that)
qed

text \<open>One search as the service runs it: the store's hits, collapsed.\<close>

lemma search_collapsed:
  assumes "quiet s" "catalog_inv (st_db s)" "knn_law knn"
    and "currentVecTable (st_db s) = Inr (table, desc)" "int (length query) = vd_Dims desc"
  obtains rows hits chunks where "map_of (db_vec_tables (st_db s)) table = Some rows"
    "chunks = map (\<lambda>(k, x). chunkHit k x) (knnJoin knn rows query n (st_db s))"
    "fst (SearchVectors knn query n s) = Inr hits"
    "CollapseBestPerContent hits limit =
      map (\<lambda>ch. \<lparr>chit_Hit = ch\<lparr>h_Doc := hitDoc (hit_hash ch) (hd (holders (hit_hash ch) (st_db s)))\<rparr>,
                 chit_AlsoAt = sort (map d_path (tl (holders (hit_hash ch) (st_db s))))\<rparr>)
        (take (nat limit) (filter (\<lambda>ch. holders (hit_hash ch) (st_db s) \<noteq> []) (firstPerHash chunks)))"
proof -
  let ?db = "st_db s"
  have vinv: "vectors_inv ?db" using assms(2) by (simp add: catalog_inv_def)
  obtain rows where rows: "map_of (db_vec_tables ?db) table = Some rows" "distinct (map fst rows)"
    using current_table_rows [OF vinv assms(4)] .
  define chunks where "chunks = map (\<lambda>(k, x). chunkHit k x) (knnJoin knn rows query n ?db)"
  define docs where "docs = documentsByHash (chunkHashes chunks) ?db"
  have hits: "fst (SearchVectors knn query n s) = Inr (fanOut docs chunks)"
    unfolding SearchVectors_fanOut withReader_quiet(1) [OF assms(1)]
    by (simp add: assms(4,5) knnChunks_def rows(1) docs_def chunks_def)
  have keys: "distinct (map (\<lambda>ch. (hit_hash ch, hit_ordinal ch)) chunks)"
    unfolding chunks_def
    by (rule distinct_knnJoin [OF assms(2)]) (use assms(3) rows(2) in \<open>simp add: knn_law_def\<close>)
  have hashed: "docs_hashed docs" unfolding docs_def by (rule docs_hashed_documentsByHash)
  have docs: "docs (hit_hash ch) = map (hitDoc (hit_hash ch)) (holders (hit_hash ch) ?db)"
    if "ch \<in> set (firstPerHash chunks)" for ch
    using that firstPerHash_subset [of chunks]
    by (auto simp: docs_def documentsByHash_holders set_chunkHashes)
  let ?R = "\<lambda>D. take (nat limit) (filter (\<lambda>ch. D (hit_hash ch)) (firstPerHash chunks))"
  have R: "?R (\<lambda>h. docs h \<noteq> []) = ?R (\<lambda>h. holders h ?db \<noteq> [])"
    using docs by (auto intro!: arg_cong [where f = "take (nat limit)"] filter_cong)
  have "CollapseBestPerContent (fanOut docs chunks) limit =
      map (\<lambda>ch. \<lparr>chit_Hit = bestHit docs ch, chit_AlsoAt = sort (map doc_Path (tl (docs (hit_hash ch))))\<rparr>)
        (?R (\<lambda>h. holders h ?db \<noteq> []))"
    unfolding collapse_fanOut [OF hashed keys] R ..
  also have "\<dots> = map (\<lambda>ch. \<lparr>chit_Hit = ch\<lparr>h_Doc := hitDoc (hit_hash ch) (hd (holders (hit_hash ch) ?db))\<rparr>,
                 chit_AlsoAt = sort (map d_path (tl (holders (hit_hash ch) ?db)))\<rparr>)
        (?R (\<lambda>h. holders h ?db \<noteq> []))"
  proof (rule map_cong [OF refl])
    fix ch
    assume "ch \<in> set (?R (\<lambda>h. holders h ?db \<noteq> []))"
    then have ch: "ch \<in> set (firstPerHash chunks)" "holders (hit_hash ch) ?db \<noteq> []"
      by (auto dest: in_set_takeD)
    have paths: "map doc_Path (tl (map (hitDoc (hit_hash ch)) xs)) = map d_path (tl xs)" for xs
      by (simp add: map_tl [symmetric] hitDoc_def comp_def)
    show "\<lparr>chit_Hit = bestHit docs ch, chit_AlsoAt = sort (map doc_Path (tl (docs (hit_hash ch))))\<rparr> =
      \<lparr>chit_Hit = ch\<lparr>h_Doc := hitDoc (hit_hash ch) (hd (holders (hit_hash ch) ?db))\<rparr>,
       chit_AlsoAt = sort (map d_path (tl (holders (hit_hash ch) ?db)))\<rparr>"
      unfolding bestHit_def docs [OF ch(1)] paths hd_map [OF ch(2)] ..
  qed
  finally show ?thesis using that [OF rows(1) chunks_def hits] by simp
qed

lemma holders_tl_paths:
  assumes "distinct (map d_path (db_documents db))" "holders h db = d # ds"
  shows "set (map d_path ds) = d_path ` {d' \<in> set (db_documents db). d_hash d' = Some h} - {d_path d}"
    and "distinct (map d_path ds)"
proof -
  have "distinct (map d_path (filter (\<lambda>d. d_hash d = Some h) (db_documents db)))"
    using assms(1) by (rule distinct_map_filter)
  moreover have "mset (map d_path (holders h db)) =
      mset (map d_path (filter (\<lambda>d. d_hash d = Some h) (db_documents db)))"
    by (simp add: holders_def)
  ultimately have d: "distinct (map d_path (d # ds))"
    using mset_eq_imp_distinct_iff by (metis assms(2))
  then show "distinct (map d_path ds)" by simp
  show "set (map d_path ds) = d_path ` {d' \<in> set (db_documents db). d_hash d' = Some h} - {d_path d}"
    unfolding set_holders [symmetric] assms(2) using d by auto
qed

text \<open>
  What a search result must be, given the row ids and distances the nearest-neighbour query returned:
  the primary document of its content, the complete sorted list of the other paths, and the
  nearest returned chunk of the content.
\<close>

definition result_ok :: "DB \<Rightarrow> (nat \<times> rat) list \<Rightarrow> ContentHit \<Rightarrow> bool" where
  "result_ok db near c \<longleftrightarrow>
     (\<exists>d. primary_of db (hit_hash (chit_Hit c)) d \<and> h_Doc (chit_Hit c) = hitDoc (hit_hash (chit_Hit c)) d \<and>
        sorted (chit_AlsoAt c) \<and> distinct (chit_AlsoAt c) \<and>
        set (chit_AlsoAt c) = d_path ` {d' \<in> set (db_documents db).
          d_hash d' = Some (hit_hash (chit_Hit c))} - {d_path d}) \<and>
     (\<exists>k \<in> set (db_chunks db). k_hash k = hit_hash (chit_Hit c) \<and> h_Chunk (chit_Hit c) = toChunk k \<and>
        (k_id k, h_Distance (chit_Hit c)) \<in> set near \<and>
        (\<forall>k' \<in> set (db_chunks db). \<forall>x. k_hash k' = k_hash k \<and> (k_id k', x) \<in> set near \<longrightarrow>
           h_Distance (chit_Hit c) \<le> x))"

lemma result_ok_first:
  assumes docs: "distinct (map d_path (db_documents db))"
    and sorted: "sorted (map h_Distance chunks)"
    and chunks: "chunks = map (\<lambda>(k, x). chunkHit k x) (knnJoin knn rows query n db)"
    and ch: "ch \<in> set (firstPerHash chunks)" "holders (hit_hash ch) db \<noteq> []"
  shows "result_ok db (knn rows query n)
    \<lparr>chit_Hit = ch\<lparr>h_Doc := hitDoc (hit_hash ch) (hd (holders (hit_hash ch) db))\<rparr>,
     chit_AlsoAt = sort (map d_path (tl (holders (hit_hash ch) db)))\<rparr>"
proof -
  obtain d ds where hd: "holders (hit_hash ch) db = d # ds"
    using ch(2) by (cases "holders (hit_hash ch) db") auto
  have "ch \<in> set chunks" using ch(1) firstPerHash_subset by blast
  then obtain k x where k: "ch = chunkHit k x" "k \<in> set (db_chunks db)" "(k_id k, x) \<in> set (knn rows query n)"
    by (auto simp: chunks knnJoin_set)
  have near: "x \<le> x'"
    if "k' \<in> set (db_chunks db)" "k_hash k' = k_hash k" "(k_id k', x') \<in> set (knn rows query n)" for k' x'
  proof -
    have "(k', x') \<in> set (knnJoin knn rows query n db)" using that by (simp add: knnJoin_set)
    then have "chunkHit k' x' \<in> set chunks" unfolding chunks by force
    from firstPerHash_nearest [OF sorted ch(1) this] show ?thesis by (simp add: k(1) that(2))
  qed
  have "h_Chunk ch = toChunk k" by (simp add: k(1) chunkHit_def toChunk_def)
  then have "\<exists>k \<in> set (db_chunks db). k_hash k = hit_hash ch \<and> h_Chunk ch = toChunk k \<and>
      (k_id k, h_Distance ch) \<in> set (knn rows query n) \<and>
      (\<forall>k' \<in> set (db_chunks db). \<forall>x. k_hash k' = k_hash k \<and> (k_id k', x) \<in> set (knn rows query n) \<longrightarrow>
         h_Distance ch \<le> x)"
    using k near by (intro bexI [of _ k]) auto
  moreover note holders_primary [OF hd] holders_tl_paths [OF docs hd]
  ultimately show ?thesis
    unfolding result_ok_def hd by (auto simp: hitDoc_def)
qed

text \<open>
  Vector search end to end, in a quiet world and for any nearest-neighbour routine that returns
  each row of the table at most once: after \<open>SearchVectors\<close> and \<open>CollapseBestPerContent\<close> every
  content occurs once, results are in ascending distance, at most \<open>limit\<close>; each result carries a
  document the catalog still has, namely the primary (newest mtime, then smallest path), with all
  the other paths of the content in \<open>AlsoAt\<close>, ascending and complete; its chunk is the nearest
  returned chunk of that content. Content no document references contributes nothing.
\<close>

theorem search_best_per_content:
  assumes "quiet s" "catalog_inv (st_db s)" "knn_law knn"
    and "currentVecTable (st_db s) = Inr (table, desc)" "int (length query) = vd_Dims desc"
  shows "\<exists>rows hits. map_of (db_vec_tables (st_db s)) table = Some rows \<and>
    fst (SearchVectors knn query n s) = Inr hits \<and>
    distinct (map (\<lambda>c. hit_hash (chit_Hit c)) (CollapseBestPerContent hits limit)) \<and>
    sorted (map (\<lambda>c. h_Distance (chit_Hit c)) (CollapseBestPerContent hits limit)) \<and>
    length (CollapseBestPerContent hits limit) \<le> nat limit \<and>
    (\<forall>c \<in> set (CollapseBestPerContent hits limit). result_ok (st_db s) (knn rows query n) c)"
proof -
  let ?db = "st_db s"
  obtain rows hits chunks where rows: "map_of (db_vec_tables ?db) table = Some rows"
    and chunks: "chunks = map (\<lambda>(k, x). chunkHit k x) (knnJoin knn rows query n ?db)"
    and hits: "fst (SearchVectors knn query n s) = Inr hits"
    and res: "CollapseBestPerContent hits limit =
      map (\<lambda>ch. \<lparr>chit_Hit = ch\<lparr>h_Doc := hitDoc (hit_hash ch) (hd (holders (hit_hash ch) ?db))\<rparr>,
                 chit_AlsoAt = sort (map d_path (tl (holders (hit_hash ch) ?db)))\<rparr>)
        (take (nat limit) (filter (\<lambda>ch. holders (hit_hash ch) ?db \<noteq> []) (firstPerHash chunks)))"
    using search_collapsed [OF assms, of n limit] .
  define P where "P = take (nat limit) (filter (\<lambda>ch. holders (hit_hash ch) ?db \<noteq> []) (firstPerHash chunks))"
  have sorted: "sorted (map h_Distance chunks)"
    using sorted_knnJoin [of knn rows query n ?db] by (simp add: chunks comp_def case_prod_unfold)
  have docs: "distinct (map d_path (db_documents ?db))"
    using assms(2) by (simp add: catalog_inv_def documents_inv_def)
  have sub: "subseq P chunks"
    unfolding P_def
    by (meson subseq_order.trans subseq_filter_left subseq_firstPerHash prefix_imp_subseq take_is_prefix)
  have d: "distinct (map hit_hash P)"
    unfolding P_def take_map [symmetric] by (intro distinct_take distinct_map_filter distinct_firstPerHash)
  have so: "sorted (map h_Distance P)"
    using sub sorted by (rule sorted_subseq)
  have len: "length P \<le> nat limit" by (simp add: P_def)
  have ok: "\<forall>ch \<in> set P. result_ok ?db (knn rows query n)
    \<lparr>chit_Hit = ch\<lparr>h_Doc := hitDoc (hit_hash ch) (hd (holders (hit_hash ch) ?db))\<rparr>,
     chit_AlsoAt = sort (map d_path (tl (holders (hit_hash ch) ?db)))\<rparr>"
    unfolding P_def by (auto dest!: in_set_takeD intro!: result_ok_first [OF docs sorted chunks])
  show ?thesis
    unfolding res [folded P_def]
    using rows hits d so len ok res [folded P_def] by (auto simp: comp_def hitDoc_def)
qed

text \<open>The knn of the witness: every row at distance one, in table order, up to the limit.\<close>

definition demo_knn :: knn where
  "demo_knn rows q n = map (\<lambda>r. (fst r, 1)) (take (nat n) rows)"

lemma demo_knn_law: "knn_law demo_knn"
proof -
  have "map fst (demo_knn rows q n) = take (nat n) (map fst rows)" for rows q n
    by (simp add: demo_knn_def comp_def take_map)
  moreover have "fst ` set (demo_knn rows q n) \<subseteq> fst ` set rows" for rows q n
    by (force simp: demo_knn_def dest: in_set_takeD)
  ultimately show ?thesis by (simp add: knn_law_def distinct_take) (simp add: demo_knn_def)
qed

theorem search_best_per_content_witness:
  "\<exists>hits. fst (SearchVectors demo_knn [0, 1] 5 (demo_store demo_db)) = Inr hits \<and>
    length (CollapseBestPerContent hits 3) \<le> 3"
proof -
  have cur: "currentVecTable demo_db = Inr (''vec_chunks_1'', \<lparr>vd_Model = ''m'', vd_Dims = 2,
      vd_Layout = ''float32'', vd_Metric = ''cosine'', vd_QueryTemplate = '''', vd_PassageTemplate = '''',
      vd_CeilingTokens = 0\<rparr>)"
    by (simp add: currentVecTable_def demo_db_def vecTableGen_def hasPrefix_def normalizeDesc_def)
  show ?thesis
    using search_best_per_content [OF quiet_demo, of demo_db demo_knn "''vec_chunks_1''" _ "[0, 1]" 5 3]
      catalog_inv_demo demo_knn_law cur by fastforce
qed

lemma normalize_want: "normalizeDesc (wantDesc spec dims) = wantDesc spec dims"
  by (simp add: normalizeDesc_def wantDesc_def VectorMetric_def)

lemma refreshed_lookup:
  assumes "distinct (map fst descs)" "e \<in> set descs"
  shows "map_of (refreshed want M descs) (fst e) = Some (if fst e \<in> M then Some want else snd e)"
proof (rule map_of_is_SomeI)
  show "distinct (map fst (refreshed want M descs))" using assms(1) by simp
  show "(fst e, if fst e \<in> M then Some want else snd e) \<in> set (refreshed want M descs)"
    using assms(2) by (auto simp: refreshed_def image_iff intro!: bexI [of _ e])
qed

lemma reuse_current:
  assumes vinv: "vectors_inv db" and name: "name \<in> matching (wantDesc spec dims) (generations db)"
  shows "currentVecTable (db\<lparr>db_vec_descs := refreshed (wantDesc spec dims)
      (outdated (wantDesc spec dims) (generations db)) (db_vec_descs db), db_vec_current := Some name\<rparr>) =
    Inr (name, wantDesc spec dims)"
proof -
  let ?want = "wantDesc spec dims"
  obtain e where e: "e \<in> set (db_vec_descs db)" "name = fst e" "identity (normalizeDesc (the (snd e))) = identity ?want"
    using name by (auto simp: matching_def)
  have d: "distinct (map fst (db_vec_descs db))"
    using vinv listVecTables_descs(2) [OF vinv] by (simp add: vectors_inv_def)
  note ok = listVecTables_descs(3) [OF vinv e(1)]
  let ?x = "if fst e \<in> outdated ?want (generations db) then Some ?want else snd e"
  have "normalizeDesc (the ?x) = ?want"
  proof (cases "fst e \<in> outdated ?want (generations db)")
    case True
    then show ?thesis by (simp add: normalize_want)
  next
    case False
    have "normalizeDesc (the (snd e)) = ?want"
    proof (rule ccontr)
      assume "normalizeDesc (the (snd e)) \<noteq> ?want"
      then have "fst e \<in> outdated ?want (generations db)"
        using e(1,3) by (force simp: outdated_def)
      with False show False ..
    qed
    with False show ?thesis by simp
  qed
  then show ?thesis
    using refreshed_lookup [OF d e(1)] ok e(2)
    by (auto simp: currentVecTable_def split: option.splits if_splits)
qed

lemma mint_current:
  assumes "name \<notin> fst ` set (db_vec_descs db)" "vecTableGen name \<noteq> None"
  shows "currentVecTable (db\<lparr>db_vec_tables := T, db_vec_descs := db_vec_descs db @ [(name, Some (wantDesc spec dims))],
      db_vec_current := Some name\<rparr>) = Inr (name, wantDesc spec dims)"
proof -
  have "map_of (db_vec_descs db) name = None" using assms(1) by (simp add: map_of_eq_None_iff)
  then show ?thesis using assms(2) by (simp add: currentVecTable_def map_add_def normalize_want)
qed

text \<open>
  C25: For a valid request in a quiet world \<open>EnsureVecTable\<close> makes a generation with the requested
  descriptor current, which \<open>CurrentVecSpec\<close> then reports (the ceiling apart); a generation with the
  same identity is reused with all its vectors, otherwise a new empty one with a fresh name is
  added behind the untouched old ones; a second call changes nothing.
\<close>

theorem EnsureVecTable_current:
  assumes "quiet s" "catalog_inv (st_db s)" "es_Model spec \<noteq> ''''" "1 \<le> dims" "dims \<le> 8192"
    and "maxGen (st_db s) + 1 < 2 ^ 63"
  shows "fst (EnsureVecTable spec dims s) = Inr () \<and>
    (\<exists>name. currentVecTable (st_db (snd (EnsureVecTable spec dims s))) = Inr (name, wantDesc spec dims) \<and>
      (if matching (wantDesc spec dims) (generations (st_db s)) = {}
       then name \<notin> fst ` set (db_vec_tables (st_db s)) \<and>
         db_vec_tables (st_db (snd (EnsureVecTable spec dims s))) = db_vec_tables (st_db s) @ [(name, [])]
       else name \<in> matching (wantDesc spec dims) (generations (st_db s)) \<and>
         db_vec_tables (st_db (snd (EnsureVecTable spec dims s))) = db_vec_tables (st_db s)))"
proof -
  let ?db = "st_db s" and ?want = "wantDesc spec dims"
  have vinv: "vectors_inv ?db" using assms(2) by (simp add: catalog_inv_def)
  have op: "EnsureVecTable spec dims s = withTx (ensureVecTableTx ?want) s"
    using assms(3-5) by (simp add: EnsureVecTable_def)
  obtain now where tx: "fst (withTx (ensureVecTableTx ?want) s) = map_sum id snd (ensureVecTableTx ?want now ?db)"
    "st_db (snd (withTx (ensureVecTableTx ?want) s)) =
      (case ensureVecTableTx ?want now ?db of Inl _ \<Rightarrow> ?db | Inr (db, _) \<Rightarrow> db)"
    using withTx_quiet [OF assms(1)] by metis
  show ?thesis
    using assms(2)
  proof (cases rule: ensureVecTableTx_cases [of ?db ?want now])
    case (reuse name)
    have "matching ?want (generations ?db) \<noteq> {}" using reuse(1) by blast
    then show ?thesis
      using tx reuse reuse_current [OF vinv reuse(1)]
      unfolding op by (intro conjI exI [of _ name]) simp_all
  next
    case mint
    let ?name = "genName (maxGen ?db + 1)"
    have "?name \<notin> fst ` set (db_vec_descs ?db)"
      using mint(3) listVecTables_descs(2) [OF vinv] by (metis set_map)
    note cur = mint_current [OF this, where T = "db_vec_tables ?db @ [(?name, [])]" and spec = spec and dims = dims]
    then show ?thesis
      using tx mint unfolding op by (intro conjI exI [of _ ?name]) (simp_all add: Let_def vecTableGen_itoa)
  next
    case full
    then show ?thesis using assms(6) by simp
  qed
qed

definition demo_spec :: EmbeddingSpec where
  "demo_spec = \<lparr>es_Model = ''m2'', es_QueryTemplate = '''', es_PassageTemplate = '''', es_CeilingTokens = 512\<rparr>"

theorem EnsureVecTable_current_witness:
  "fst (EnsureVecTable demo_spec 3 (demo_store demo_db)) = Inr ()"
proof -
  have "maxGen demo_db + 1 < 2 ^ 63"
    by (simp add: maxGen_def demo_db_def atoi_def)
  then show ?thesis
    using EnsureVecTable_current [of "demo_store demo_db" demo_spec 3] catalog_inv_demo
    by (simp add: demo_spec_def)
qed

text \<open>
  In a quiet world with a current generation, \<open>UpsertVectors\<close> with as many vectors as ids stores
  exactly when every id is a live chunk, none repeated, and every vector has the generation's
  dimensions; a stale id is \<open>ErrContentSuperseded\<close> with nothing stored. Afterwards the current
  table maps each id to its vector, every other row and every other generation is as it was, and no
  vector belongs to a chunk that does not exist.
\<close>

theorem UpsertVectors_stores:
  assumes "quiet s" "catalog_inv (st_db s)" "currentVecTable (st_db s) = Inr (table, desc)"
    and "length ids = length vectors" "ids \<noteq> []"
  shows "if distinct ids \<and> set ids \<subseteq> chunk_ids (st_db s)
    then (if \<forall>v \<in> set vectors. int (length v) = vd_Dims desc
          then fst (UpsertVectors ids vectors s) = Inr () \<and>
            st_db (snd (UpsertVectors ids vectors s)) =
              update_table table (\<lambda>rows. filter (\<lambda>r. fst r \<notin> set ids) rows @ zip ids vectors) (st_db s) \<and>
            catalog_inv (st_db (snd (UpsertVectors ids vectors s)))
          else st_db (snd (UpsertVectors ids vectors s)) = st_db s \<and>
            (\<exists>e. fst (UpsertVectors ids vectors s) = Inl (ErrStore e)))
    else fst (UpsertVectors ids vectors s) = Inl ErrContentSuperseded \<and>
      st_db (snd (UpsertVectors ids vectors s)) = st_db s"
proof -
  let ?db = "st_db s"
  have op: "UpsertVectors ids vectors s = withTx (upsertVectorsTx ids vectors) s"
    using assms(4,5) by (simp add: UpsertVectors_def)
  obtain now where tx: "fst (withTx (upsertVectorsTx ids vectors) s) = map_sum id snd (upsertVectorsTx ids vectors now ?db)"
    "st_db (snd (withTx (upsertVectorsTx ids vectors) s)) =
      (case upsertVectorsTx ids vectors now ?db of Inl _ \<Rightarrow> ?db | Inr (db, _) \<Rightarrow> db)"
    using withTx_quiet [OF assms(1)] by metis
  have vinv: "vectors_inv ?db" and ids: "distinct (map k_id (db_chunks ?db))"
    using assms(2) by (simp_all add: catalog_inv_def content_inv_def)
  note live = live_ids_iff [OF ids, of ids, folded chunk_ids_def]
  obtain rows where "map_of (db_vec_tables ?db) table = Some rows"
    using current_table_rows [OF vinv assms(3)] by blast
  then have tbl: "table \<in> fst ` set (db_vec_tables ?db)" by (force dest: map_of_SomeD)
  have body: "upsertVectorsTx ids vectors now ?db =
    (if \<not> (distinct ids \<and> set ids \<subseteq> chunk_ids ?db) then Inl ErrContentSuperseded
     else case insertVectors table (vd_Dims desc) (zip ids vectors) ?db of
            Inl e \<Rightarrow> Inl e | Inr db' \<Rightarrow> Inr (db', ()))"
    by (simp add: upsertVectorsTx_def assms(3) tbl live)
  have "snd ` set (zip ids vectors) = set vectors"
    using assms(4) by (metis map_snd_zip set_map)
  then have dims: "(\<forall>p \<in> set (zip ids vectors). int (length (snd p)) = vd_Dims desc) \<longleftrightarrow>
      (\<forall>v \<in> set vectors. int (length v) = vd_Dims desc)"
    by (metis (mono_tags, lifting) image_iff)

  show ?thesis
  proof (cases "distinct ids \<and> set ids \<subseteq> chunk_ids ?db")
    case True
    show ?thesis
    proof (cases "insertVectors table (vd_Dims desc) (zip ids vectors) ?db")
      case (Inr db')
      then have ok: "upsertVectorsTx ids vectors now ?db = Inr (db', ())" using True by (simp add: body)
      have res: "(\<forall>v \<in> set vectors. int (length v) = vd_Dims desc) \<and>
          db' = update_table table (\<lambda>rows. filter (\<lambda>r. fst r \<notin> set ids) rows @ zip ids vectors) ?db"
        by (rule upsertVectorsTx_result [OF assms(2) ok assms(4)]) (use assms(3) in simp)
      moreover have "catalog_inv db'" using catalog_inv_upsertVectorsTx [OF assms(2) ok assms(4)] .
      ultimately show ?thesis using True tx ok by (simp add: op)
    next
      case (Inl e)
      have "\<not> (\<forall>v \<in> set vectors. int (length v) = vd_Dims desc)"
        using Inl insertVectors_ok [of "zip ids vectors" "vd_Dims desc" table ?db] unfolding dims by auto
      moreover have "\<exists>m. e = ErrStore m"
        using Inl by (rule insertVectors_err)
      ultimately show ?thesis using True tx Inl by (auto simp: op body)
    qed
  next
    case False
    then show ?thesis using tx by (simp add: op body)
  qed
qed

theorem UpsertVectors_stores_witness:
  "fst (UpsertVectors [1, 7] [[0, 0], [1, 1]] (demo_store demo_db)) = Inl ErrContentSuperseded \<and>
   fst (UpsertVectors [2] [[5, 6]] (demo_store demo_db)) = Inr ()"
proof -
  have cur: "currentVecTable demo_db = Inr (''vec_chunks_1'', \<lparr>vd_Model = ''m'', vd_Dims = 2,
      vd_Layout = ''float32'', vd_Metric = ''cosine'', vd_QueryTemplate = '''', vd_PassageTemplate = '''',
      vd_CeilingTokens = 0\<rparr>)"
    by (simp add: currentVecTable_def demo_db_def vecTableGen_def hasPrefix_def normalizeDesc_def)
  have ids: "chunk_ids demo_db = {1, 2}"
    by (auto simp: chunk_ids_def demo_db_def)
  show ?thesis
    using UpsertVectors_stores [of "demo_store demo_db" "''vec_chunks_1''" _ "[1, 7]" "[[0, 0], [1, 1]]"]
      UpsertVectors_stores [of "demo_store demo_db" "''vec_chunks_1''" _ "[2]" "[[5, 6]]"]
      catalog_inv_demo cur ids by simp
qed

end
