(* ===== verification/Digest.thy ===== *)
theory Digest
  imports Encoding
begin

text \<open>
  \<open>sha256.Sum256\<close> and \<open>hex.EncodeToString\<close> of Go's standard library, which name a content by its
  bytes (pipeline.go: readVerified; discovery.go: hashing). FIPS 180-4 over 32-bit words.
\<close>

unbundle bit_operations_syntax

text \<open>
  The constants are the first 32 bits of the fractional parts of roots of the first primes: the
  cube roots of the first 64 for the rounds, the square roots of the first 8 for the initial state.
  \<open>rootBits e n k r\<close> finds, bit by bit, the largest number whose \<open>e\<close>-th power is at most \<open>n\<close>.
\<close>

definition firstPrimes :: "int list" where
  "firstPrimes = filter (\<lambda>n. \<forall>d \<in> set [2, 3, 5, 7, 11, 13, 17]. d < n \<longrightarrow> n mod d \<noteq> 0) [2..311]"

fun rootBits :: "nat \<Rightarrow> int \<Rightarrow> nat \<Rightarrow> int \<Rightarrow> int" where
  "rootBits e n 0 r = r"
| "rootBits e n (Suc k) r = rootBits e n k (if (r + 2 ^ k) ^ e \<le> n then r + 2 ^ k else r)"

definition shaK :: "32 word list" where
  "shaK = map (\<lambda>p. of_int (rootBits 3 (p * 2 ^ 96) 36 0)) firstPrimes"

definition shaH :: "32 word list" where
  "shaH = map (\<lambda>p. of_int (rootBits 2 (p * 2 ^ 64) 36 0)) (take 8 firstPrimes)"

lemma length_firstPrimes: "length firstPrimes = 64"
  by code_simp

definition rotr :: "nat \<Rightarrow> 32 word \<Rightarrow> 32 word" where
  "rotr n x = (drop_bit n x) OR (push_bit (32 - n) x)"

text \<open>The message, a one bit, zeros, and the length in bits as eight big-endian bytes.\<close>

definition be_bytes :: "nat \<Rightarrow> nat \<Rightarrow> nat list" where
  "be_bytes k n = map (\<lambda>i. n div 256 ^ (k - 1 - i) mod 256) [0..<k]"

definition shaPad :: "nat list \<Rightarrow> nat list" where
  "shaPad m = m @ [0x80] @ replicate ((119 - length m mod 64) mod 64) 0 @ be_bytes 8 (8 * length m)"

fun words_of :: "nat list \<Rightarrow> 32 word list" where
  "words_of (a # b # c # d # m) = of_nat (((a * 256 + b) * 256 + c) * 256 + d) # words_of m"
| "words_of _ = []"

text \<open>The schedule, newest word first.\<close>

fun shaExtend :: "nat \<Rightarrow> 32 word list \<Rightarrow> 32 word list" where
  "shaExtend 0 ws = ws"
| "shaExtend (Suc n) ws =
     (let a = ws ! 14; b = ws ! 1;
          s0 = rotr 7 a XOR rotr 18 a XOR drop_bit 3 a;
          s1 = rotr 17 b XOR rotr 19 b XOR drop_bit 10 b
      in shaExtend n ((ws ! 15 + s0 + ws ! 6 + s1) # ws))"

definition shaRound :: "32 word list \<Rightarrow> 32 word \<times> 32 word \<Rightarrow> 32 word list" where
  "shaRound v kw =
     (case v of
        [a, b, c, d, e, f, g, h] \<Rightarrow>
          (let s1 = rotr 6 e XOR rotr 11 e XOR rotr 25 e;
               ch = (e AND f) XOR (NOT e AND g);
               t1 = h + s1 + ch + fst kw + snd kw;
               s0 = rotr 2 a XOR rotr 13 a XOR rotr 22 a;
               maj = (a AND b) XOR (a AND c) XOR (b AND c)
           in [t1 + (s0 + maj), a, b, c, d + t1, e, f, g])
      | _ \<Rightarrow> v)"

definition shaBlock :: "32 word list \<Rightarrow> 32 word list \<Rightarrow> 32 word list" where
  "shaBlock H ws = map2 (+) H (foldl shaRound H (zip shaK (rev (shaExtend 48 (rev ws)))))"

function shaBlocks :: "32 word list \<Rightarrow> 32 word list \<Rightarrow> 32 word list" where
  "shaBlocks H ws = (if length ws < 16 then H else shaBlocks (shaBlock H (take 16 ws)) (drop 16 ws))"
  by pat_completeness auto
termination by (relation "measure (\<lambda>(H, ws). length ws)") auto

declare shaBlocks.simps [simp del]

definition hexDigit :: "nat \<Rightarrow> char" where
  "hexDigit n = (if n < 10 then char_of (48 + n) else char_of (87 + n))"

definition hexByte :: "nat \<Rightarrow> string" where
  "hexByte n = [hexDigit (n div 16), hexDigit (n mod 16)]"

definition Sum256 :: "string \<Rightarrow> nat list" where
  "Sum256 b = List.concat (map (\<lambda>w. be_bytes 4 (unat w)) (shaBlocks shaH (words_of (shaPad (map of_char b)))))"

definition contentDigest :: "string \<Rightarrow> hash" where
  "contentDigest b = List.concat (map hexByte (Sum256 b))"

lemma length_shaRound: "length (shaRound v kw) = length v"
  by (auto simp: shaRound_def Let_def split: list.splits)

lemma length_foldl_shaRound: "length (foldl shaRound v kws) = length v"
  by (induction kws arbitrary: v) (simp_all add: length_shaRound)

lemma length_shaBlocks: "length H = 8 \<Longrightarrow> length (shaBlocks H ws) = 8"
proof (induction H ws rule: shaBlocks.induct)
  case (1 H ws)
  then show ?case
    by (subst shaBlocks.simps) (simp add: shaBlock_def length_foldl_shaRound)
qed

text \<open>A digest has 64 hexadecimal digits, so it is never the empty string that stands for NULL.\<close>

lemma contentDigest_length: "length (contentDigest b) = 64"
proof -
  have "length (shaBlocks shaH (words_of (shaPad (map of_char b)))) = 8"
    by (rule length_shaBlocks) (simp add: shaH_def length_firstPrimes)
  then have "length (Sum256 b) = 32"
    by (simp add: Sum256_def length_concat comp_def be_bytes_def sum_list_triv)
  then show ?thesis
    by (simp add: contentDigest_def length_concat comp_def hexByte_def sum_list_triv)
qed

end
