(* ===== verification/Pipeline.thy ===== *)
theory Pipeline
  imports Passages Queue Vectors Digest
begin

text \<open>
  The indexing pipeline (pipeline/pipeline.go): one content at a time is read and verified against
  its hash, decoded, chunked, embedded and stored. The file system and the embedding service
  belong to the outside: a read or an embed is a function of the number of external calls made so
  far (the tick) and its arguments, so any history of answers is allowed.
\<close>

section \<open>The outside world\<close>

type_synonym reader = "nat \<Rightarrow> path \<Rightarrow> FsErr + string"

text \<open>The embedding port (ports.go: Embedder); an embed error is its text.\<close>

record Embedder =
  em_Spec :: EmbeddingSpec
  em_Query :: "nat \<Rightarrow> string \<Rightarrow> string + float32 list"
  em_Passages :: "nat \<Rightarrow> Chunk list \<Rightarrow> string + float32 list list"

section \<open>Outcomes and errors (pipeline.go: Outcome, Result, Summary)\<close>

datatype Outcome =
    OutcomeIndexed | OutcomeFailed | OutcomeSkipped | OutcomeTransient | OutcomeChanged | OutcomeSuperseded

text \<open>The error values, with what \<open>errors.Is\<close> can still find in them.\<close>

datatype PipeErr =
    EStore StoreErr | EFs FsErr | EEmbed string | EChanged path | EReason string
  | ECtx | EProbe string | EZeroDims | ECorpusChanged

record PResult =
  pr_Outcome :: Outcome
  pr_Err :: "PipeErr option"
  pr_Warnings :: nat

record Summary =
  su_Indexed :: nat
  su_UpToDate :: nat
  su_Failed :: nat
  su_Skipped :: nat
  su_Warnings :: nat

section \<open>The indexer (pipeline.go: New, Prepare, StageVersions, versionsCurrent)\<close>

record Indexer =
  ix_Embedder :: Embedder
  ix_Transient :: "string \<Rightarrow> bool"
  ix_spec :: EmbeddingSpec
  ix_fp :: string

record PipeOptions =
  po_Store :: bool
  po_Vectors :: bool
  po_Embedder :: "Embedder option"
  po_Transient :: "(string \<Rightarrow> bool) option"

text \<open>
  \<open>%q\<close> is \<open>strconv.Quote\<close>; which runes it escapes follows Go's Unicode tables, so it is the parameter
  \<open>quote\<close> of the fingerprint.
\<close>

definition decimal :: "int \<Rightarrow> string" where
  "decimal n = (if n < 0 then ''-'' @ itoa (nat (- n)) else itoa (nat n))"

definition Fingerprint :: "(string \<Rightarrow> string) \<Rightarrow> EmbeddingSpec \<Rightarrow> string" where
  "Fingerprint quote s =
     ''model='' @ quote (es_Model s) @ '' q='' @ quote (es_QueryTemplate s) @
     '' d='' @ quote (es_PassageTemplate s) @ '' ceil='' @ decimal (es_CeilingTokens s)"

definition NewIndexer :: "(string \<Rightarrow> string) \<Rightarrow> PipeOptions \<Rightarrow> string + Indexer" where
  "NewIndexer quote opts =
     (case po_Embedder opts of
        None \<Rightarrow> Inl ''pipeline: Store, Vectors, and Embedder are all required''
      | Some e \<Rightarrow>
          if \<not> po_Store opts \<or> \<not> po_Vectors opts
          then Inl ''pipeline: Store, Vectors, and Embedder are all required''
          else Inr \<lparr>ix_Embedder = e,
                 ix_Transient = (case po_Transient opts of None \<Rightarrow> (\<lambda>_. True) | Some f \<Rightarrow> f),
                 ix_spec = em_Spec e, ix_fp = Fingerprint quote (em_Spec e)\<rparr>)"

definition Prepare :: "Indexer \<Rightarrow> World \<Rightarrow> (PipeErr + int) \<times> World" where
  "Prepare ix w =
     (case em_Query (ix_Embedder ix) (w_tick w) ''bsearch dimension probe'' of
        Inl e \<Rightarrow> (Inl (EProbe e), tick w)
      | Inr probe \<Rightarrow>
          if probe = [] then (Inl EZeroDims, tick w)
          else
            (let dims = int (length probe) in
             case onStore (EnsureVecTable (ix_spec ix) dims) (tick w) of
               (Inl e, w') \<Rightarrow> (Inl (EStore e), w')
             | (Inr _, w') \<Rightarrow> (Inr dims, w')))"

definition StageVersions :: "Indexer \<Rightarrow> int \<Rightarrow> (string \<times> string) list" where
  "StageVersions ix dims =
     [(StageChunker, Version), (StageEmbedding, ix_fp ix),
      (StageEmbeddingDims, decimal dims), (StageVecMetric, VectorMetric)]"

definition versionsCurrent :: "Indexer \<Rightarrow> Content \<Rightarrow> bool" where
  "versionsCurrent ix c \<longleftrightarrow>
     c_StageVersions c StageChunker = Some Version \<and>
     c_StageVersions c StageEmbedding = Some (ix_fp ix) \<and>
     c_StageVersions c StageVecMetric = Some VectorMetric"

section \<open>One content (pipeline.go: readVerified, movedOn, failWith, ProcessContent)\<close>

text \<open>The loop over the paths: the bytes and the path that verify, or the first error and whether a copy differed.\<close>

fun readLoop :: "reader \<Rightarrow> hash \<Rightarrow> path list \<Rightarrow> FsErr option \<Rightarrow> bool \<Rightarrow> World \<Rightarrow>
    ((FsErr option \<times> bool) + (string \<times> path)) \<times> World" where
  "readLoop rd h [] firstErr mismatched w = (Inl (firstErr, mismatched), w)"
| "readLoop rd h (p # ps) firstErr mismatched w =
     (case rd (w_tick w) p of
        Inl e \<Rightarrow> readLoop rd h ps (case firstErr of None \<Rightarrow> Some e | Some x \<Rightarrow> Some x) mismatched (tick w)
      | Inr b \<Rightarrow>
          if contentDigest b \<noteq> h then readLoop rd h ps firstErr True (tick w)
          else (Inr (b, p), tick w))"

definition readVerified :: "reader \<Rightarrow> WorkItem \<Rightarrow> hash \<Rightarrow> World \<Rightarrow> (PResult + (string \<times> path)) \<times> World" where
  "readVerified rd item h w =
     (let paths = (if wi_Paths item = [] then [wi_Path item] else wi_Paths item) in
      case readLoop rd h paths None False w of
        (Inr bp, w') \<Rightarrow> (Inr bp, w')
      | (Inl (firstErr, mismatched), w') \<Rightarrow>
          (Inl (if mismatched
                then \<lparr>pr_Outcome = OutcomeChanged, pr_Err = Some (EChanged (wi_Path item)), pr_Warnings = 0\<rparr>
                else \<lparr>pr_Outcome = OutcomeSkipped, pr_Err = map_option EFs firstErr, pr_Warnings = 0\<rparr>), w'))"

definition movedOn :: "StoreErr \<Rightarrow> PResult option" where
  "movedOn e =
     (if e = ErrContentGone \<or> e = ErrContentSuperseded
      then Some \<lparr>pr_Outcome = OutcomeSuperseded, pr_Err = Some (EStore e), pr_Warnings = 0\<rparr>
      else None)"

text \<open>What every store error inside \<open>ProcessContent\<close> turns into.\<close>

definition storeErr :: "StoreErr \<Rightarrow> World \<Rightarrow> (PipeErr + PResult) \<times> World" where
  "storeErr e w = (case movedOn e of Some r \<Rightarrow> (Inr r, w) | None \<Rightarrow> (Inl (EStore e), w))"

definition failWith :: "Content \<Rightarrow> PResult \<Rightarrow> string \<Rightarrow> World \<Rightarrow> (PipeErr + PResult) \<times> World" where
  "failWith c out reason w =
     (case onStore (StoreChunks (c\<lparr>c_State := Failed\<rparr>) []) w of
        (Inl e, w1) \<Rightarrow> storeErr e w1
      | (Inr _, w1) \<Rightarrow>
          (case onStore (MarkFailed (c_Hash c) reason) w1 of
             (Inl e, w2) \<Rightarrow> storeErr e w2
           | (Inr _, w2) \<Rightarrow>
               (Inr (out\<lparr>pr_Outcome := OutcomeFailed, pr_Err := Some (EReason reason)\<rparr>), w2)))"

definition emptyResult :: PResult where
  "emptyResult = \<lparr>pr_Outcome = OutcomeIndexed, pr_Err = None, pr_Warnings = 0\<rparr>"

definition failContent :: "Content \<Rightarrow> string \<Rightarrow> World \<Rightarrow> (PipeErr + PResult) \<times> World" where
  "failContent c reason = failWith c emptyResult reason"

fun decodeErrText :: "DecodeError \<Rightarrow> string" where
  "decodeErrText UTF32LE = ''UTF-32LE not supported''"
| "decodeErrText UTF32BE = ''UTF-32BE not supported''"
| "decodeErrText InvalidUTF8 = ''invalid UTF-8 and no recognized BOM''"
| "decodeErrText (OddLength n) = ''UTF-16 input has odd byte length '' @ itoa n"
| "decodeErrText (UnpairedHigh i) = ''UTF-16 unpaired high surrogate at unit '' @ itoa i"
| "decodeErrText (UnpairedLow i) = ''UTF-16 unpaired low surrogate at unit '' @ itoa i"

text \<open>After the chunks are stored: embed, store the vectors, finalize.\<close>

definition finalize :: "hash \<Rightarrow> PResult \<Rightarrow> World \<Rightarrow> (PipeErr + PResult) \<times> World" where
  "finalize h out w =
     (case onStore (UpdateContentState h Indexed) w of
        (Inl e, w') \<Rightarrow> storeErr e w'
      | (Inr _, w') \<Rightarrow> (Inr out, w'))"

definition embedStage :: "Indexer \<Rightarrow> Content \<Rightarrow> Chunk list \<Rightarrow> nat list \<Rightarrow> PResult \<Rightarrow> World \<Rightarrow> (PipeErr + PResult) \<times> World" where
  "embedStage ix c chs ids out w =
     (case em_Passages (ix_Embedder ix) (w_tick w) chs of
        Inl e \<Rightarrow>
          (case onStore ctxErr (tick w) of
             (True, w') \<Rightarrow> (Inl ECtx, w')
           | (False, w') \<Rightarrow>
               if ix_Transient ix e
               then (Inr (out\<lparr>pr_Outcome := OutcomeTransient, pr_Err := Some (EEmbed e)\<rparr>), w')
               else failWith c out (''embed: '' @ e) w')
      | Inr vectors \<Rightarrow>
          (case onStore (UpsertVectors ids vectors) (tick w) of
             (Inl e, w') \<Rightarrow> storeErr e w'
           | (Inr _, w') \<Rightarrow> finalize (c_Hash c) out w'))"

definition indexText :: "Indexer \<Rightarrow> Content \<Rightarrow> string \<Rightarrow> World \<Rightarrow> (PipeErr + PResult) \<times> World" where
  "indexText ix c0 txt w =
     (let res = ChunkText txt (es_CeilingTokens (ix_spec ix));
          out = \<lparr>pr_Outcome = OutcomeIndexed, pr_Err = None, pr_Warnings = length (res_Warnings res)\<rparr>;
          c = c0\<lparr>c_State := Chunked\<rparr>
      in case onStore (StoreChunks c (res_Chunks res)) w of
           (Inl e, w1) \<Rightarrow> storeErr e w1
         | (Inr ids, w1) \<Rightarrow>
             if res_Chunks res \<noteq> [] then embedStage ix c (res_Chunks res) ids out w1
             else finalize (c_Hash c) out w1)"

definition mergeVersions :: "Content \<Rightarrow> (string \<times> string) list \<Rightarrow> Content" where
  "mergeVersions c sv = c\<lparr>c_StageVersions := c_StageVersions c ++ map_of sv\<rparr>"

definition ProcessContent :: "reader \<Rightarrow> Indexer \<Rightarrow> WorkItem \<Rightarrow> (string \<times> string) list \<Rightarrow> World \<Rightarrow> (PipeErr + PResult) \<times> World" where
  "ProcessContent rd ix item sv w =
     (let c = mergeVersions (wi_Content item) sv in
      case readVerified rd item (c_Hash c) w of
        (Inl res0, w1) \<Rightarrow> (Inr res0, w1)
      | (Inr (raw, p), w1) \<Rightarrow>
          (case Normalize raw of
             Inl e \<Rightarrow> failContent c (''normalize: '' @ decodeErrText e) w1
           | Inr txt \<Rightarrow> indexText ix c txt w1))"

section \<open>A run over many items (pipeline.go: Run)\<close>

text \<open>The first pass: what is worked on, and what looks up to date before the dims are known.\<close>

definition stillFailed :: "Indexer \<Rightarrow> WorkItem \<Rightarrow> bool" where
  "stillFailed ix item \<longleftrightarrow> c_State (wi_Content item) = Failed \<and> versionsCurrent ix (wi_Content item)"

definition looksCurrent :: "Indexer \<Rightarrow> WorkItem \<Rightarrow> bool" where
  "looksCurrent ix item \<longleftrightarrow> c_State (wi_Content item) = Indexed \<and> versionsCurrent ix (wi_Content item)"

definition firstPass :: "Indexer \<Rightarrow> WorkItem list \<Rightarrow> WorkItem list \<times> WorkItem list" where
  "firstPass ix items =
     (filter (\<lambda>i. \<not> stillFailed ix i \<and> \<not> looksCurrent ix i) items, filter (looksCurrent ix) items)"

definition emptySummary :: Summary where
  "emptySummary = \<lparr>su_Indexed = 0, su_UpToDate = 0, su_Failed = 0, su_Skipped = 0, su_Warnings = 0\<rparr>"

text \<open>The second pass moves an item whose recorded dims differ to the work list.\<close>

fun secondPass :: "(string \<times> string) list \<Rightarrow> WorkItem list \<Rightarrow> WorkItem list \<Rightarrow> Summary \<Rightarrow> WorkItem list \<times> Summary" where
  "secondPass sv [] work su = (work, su)"
| "secondPass sv (item # items) work su =
     (if c_StageVersions (wi_Content item) StageEmbeddingDims \<noteq> map_of sv StageEmbeddingDims
      then secondPass sv items (work @ [item]) su
      else secondPass sv items work (su\<lparr>su_UpToDate := Suc (su_UpToDate su)\<rparr>))"

fun workLoop :: "reader \<Rightarrow> Indexer \<Rightarrow> (string \<times> string) list \<Rightarrow> WorkItem list \<Rightarrow> Summary \<Rightarrow> World \<Rightarrow>
    (Summary \<times> PipeErr option) \<times> World" where
  "workLoop rd ix sv [] su w = ((su, None), w)"
| "workLoop rd ix sv (item # items) su w =
     (case onStore ctxErr w of
        (True, w0) \<Rightarrow> ((su, Some ECtx), w0)
      | (False, w0) \<Rightarrow>
          (case ProcessContent rd ix item sv w0 of
             (Inl e, w1) \<Rightarrow> ((su, Some e), w1)
           | (Inr res, w1) \<Rightarrow>
               (let su1 = su\<lparr>su_Warnings := su_Warnings su + pr_Warnings res\<rparr> in
                case pr_Outcome res of
                  OutcomeIndexed \<Rightarrow> workLoop rd ix sv items (su1\<lparr>su_Indexed := Suc (su_Indexed su1)\<rparr>) w1
                | OutcomeFailed \<Rightarrow> workLoop rd ix sv items (su1\<lparr>su_Failed := Suc (su_Failed su1)\<rparr>) w1
                | OutcomeSkipped \<Rightarrow> workLoop rd ix sv items (su1\<lparr>su_Skipped := Suc (su_Skipped su1)\<rparr>) w1
                | OutcomeChanged \<Rightarrow> ((su1, Some ECorpusChanged), w1)
                | OutcomeSuperseded \<Rightarrow> workLoop rd ix sv items su1 w1
                | OutcomeTransient \<Rightarrow> ((su1, pr_Err res), w1))))"

definition RunIndexer :: "reader \<Rightarrow> Indexer \<Rightarrow> WorkItem list \<Rightarrow> World \<Rightarrow> (Summary \<times> PipeErr option) \<times> World" where
  "RunIndexer rd ix items w =
     (case firstPass ix items of
        (work, current) \<Rightarrow>
          if work = [] then ((emptySummary\<lparr>su_UpToDate := length current\<rparr>, None), w)
          else
            (case Prepare ix w of
               (Inl e, w1) \<Rightarrow> ((emptySummary, Some e), w1)
             | (Inr dims, w1) \<Rightarrow>
                 (case secondPass (StageVersions ix dims) current work emptySummary of
                    (work', su) \<Rightarrow> workLoop rd ix (StageVersions ix dims) work' su w1)))"

end
