(* ===== verification/PipelineFacts.thy ===== *)
theory PipelineFacts
  imports Pipeline
begin

text \<open>
  What the pipeline guarantees, whatever the file system, the embedding service and the store's
  driver answer: every outcome says exactly what the catalog holds afterwards, no other content is
  touched, and the catalog stays well-formed.
\<close>

section \<open>The rows of one content and the rest of the catalog\<close>

definition rows_of :: "hash \<Rightarrow> DB \<Rightarrow> chunkRow list" where
  "rows_of h d = filter (\<lambda>k. k_hash k = h) (db_chunks d)"

definition vec_of :: "DB \<Rightarrow> string \<Rightarrow> nat \<Rightarrow> float32 list option" where
  "vec_of d name i = (case map_of (db_vec_tables d) name of None \<Rightarrow> None | Some rows \<Rightarrow> map_of rows i)"

text \<open>Nothing but the content \<open>h\<close> differs: documents, mounts, generations, the other contents' rows, chunks, vectors.\<close>

definition same_elsewhere :: "hash \<Rightarrow> DB \<Rightarrow> DB \<Rightarrow> bool" where
  "same_elsewhere h d d' \<longleftrightarrow>
     db_documents d' = db_documents d \<and> db_mounts d' = db_mounts d \<and>
     db_vec_descs d' = db_vec_descs d \<and> db_vec_current d' = db_vec_current d \<and>
     (\<forall>h'. h' \<noteq> h \<longrightarrow> content_map d' h' = content_map d h' \<and> rows_of h' d' = rows_of h' d \<and>
        (\<forall>name. \<forall>k \<in> set (rows_of h' d). vec_of d' name (k_id k) = vec_of d name (k_id k)))"

lemma same_elsewhere_refl [simp]: "same_elsewhere h d d"
  by (simp add: same_elsewhere_def)

lemma same_elsewhere_trans: "same_elsewhere h a b \<Longrightarrow> same_elsewhere h b c \<Longrightarrow> same_elsewhere h a c"
  by (simp add: same_elsewhere_def)

lemma map_of_filter_key: "map_of (filter (\<lambda>r. fst r \<notin> I) rows) i = (if i \<in> I then None else map_of rows i)"
  by (induction rows) auto

lemma map_of_tables: "map_of (map (\<lambda>(name, rows). (name, f name rows)) ts) n = map_option (f n) (map_of ts n)"
  by (induction ts) auto

lemma vec_of_drop: "vec_of (drop_vectors I d) name i = (if i \<in> I then None else vec_of d name i)"
  unfolding vec_of_def drop_vectors_def
  by (simp add: map_of_tables [of "\<lambda>_ rows. filter (\<lambda>r. fst r \<notin> I) rows"] map_of_filter_key split: option.split)

lemma vec_of_update_table:
  "vec_of (update_table table f d) name i =
    (case map_of (db_vec_tables d) name of None \<Rightarrow> None
     | Some rows \<Rightarrow> map_of (if name = table then f rows else rows) i)"
  unfolding vec_of_def update_table_def
  by (simp add: map_of_tables [of "\<lambda>name rows. if name = table then f rows else rows"] split: option.split)

lemma chunk_id_hash:
  "catalog_inv d \<Longrightarrow> k \<in> set (db_chunks d) \<Longrightarrow> k' \<in> set (db_chunks d) \<Longrightarrow> k_id k = k_id k' \<Longrightarrow> k = k'"
  by (auto simp: catalog_inv_def content_inv_def distinct_map inj_on_def)

lemma content_map_update:
  "(\<And>r. r_hash (f r) = r_hash r) \<Longrightarrow>
   content_map (update_content h f d) h' = (if h' = h then map_option f (content_map d h) else content_map d h')"
  using map_of_map_update [of r_hash f h "db_content d"]
  by (auto simp: content_map_def update_content_def option.map_id)

lemma content_map_cong: "db_content d' = db_content d \<Longrightarrow> content_map d' = content_map d"
  by (simp add: content_map_def)

subsection \<open>Each write of the pipeline\<close>

lemma same_elsewhere_update_content:
  "(\<And>r. r_hash (f r) = r_hash r) \<Longrightarrow> same_elsewhere h d (update_content h f d)"
  by (auto simp: same_elsewhere_def content_map_update rows_of_def vec_of_def) (simp_all add: update_content_def)

lemma same_elsewhere_drop_chunks:
  assumes "catalog_inv d"
  shows "same_elsewhere h d (drop_chunks {h} d)"
proof -
  have "k_id k \<notin> ids_of {h} d" if "k \<in> set (rows_of h' d)" "h' \<noteq> h" for k h'
    using that chunk_id_hash [OF assms, of k] by (auto simp: ids_of_def rows_of_def)
  moreover have "vec_of (drop_chunks {h} d) name i = vec_of (drop_vectors (ids_of {h} d) d) name i" for name i
    by (simp add: vec_of_def drop_chunks_def)
  moreover have "rows_of h' (drop_chunks {h} d) = rows_of h' d" if "h' \<noteq> h" for h'
    using that by (auto simp: rows_of_def intro!: filter_cong)
  moreover have "content_map (drop_chunks {h} d) = content_map d" by (rule content_map_cong) simp
  ultimately show ?thesis
    by (auto simp: same_elsewhere_def vec_of_drop) (simp_all add: drop_chunks_def drop_vectors_def)
qed

lemma storeChunksTx_effect:
  assumes inv: "catalog_inv d" and tx: "storeChunksTx c chs t d = Inr (d', ids)"
  shows "same_elsewhere (c_Hash c) d d'"
    and "chunks_of (c_Hash c) d' = chs" "map k_id (rows_of (c_Hash c) d') = ids"
    and "length ids = length chs" "distinct ids" "set ids \<subseteq> chunk_ids d'"
    and "\<exists>r. content_map d (c_Hash c) = Some r \<and>
      content_map d' (c_Hash c) = Some (r\<lparr>r_state := c_State c, r_stage := c_StageVersions c, r_updated := t\<rparr>)"
proof -
  define f :: "contentRow \<Rightarrow> contentRow" where "f = (\<lambda>r. r\<lparr>r_state := c_State c, r_stage := c_StageVersions c, r_updated := t\<rparr>)"
  define u where "u = update_content (c_Hash c) f d"
  have h: "c_Hash c \<in> hashes d" and ins: "insertChunks (c_Hash c) chs (drop_chunks {c_Hash c} u) = Inr (d', ids)"
    using tx unfolding storeChunksTx_eq [OF inv] by (auto simp: u_def f_def split: if_splits)
  have fh: "\<And>r. r_hash (f r) = r_hash r" by (simp add: f_def)
  note res = insertChunks_result [OF ins]
  show len: "length ids = length chs" unfolding res(1) by (simp del: upt_Suc)
  show "distinct ids" unfolding res(1) by (rule distinct_upt)
  have rows: "db_chunks d' = filter (\<lambda>k. k_hash k \<noteq> c_Hash c) (db_chunks d) @ map2 (chunk_row (c_Hash c)) ids chs"
    by (simp add: res(2) u_def)
  have own: "rows_of (c_Hash c) d' = map2 (chunk_row (c_Hash c)) ids chs"
    unfolding rows_of_def rows filter_append filter_rows_same by (simp add: filter_none)
  then show "map k_id (rows_of (c_Hash c) d') = ids" using map_chunk_rows(1) [OF len] by simp
  have "set (map k_id (map2 (chunk_row (c_Hash c)) ids chs)) \<subseteq> chunk_ids d'"
    by (auto simp: chunk_ids_def rows)
  then show "set ids \<subseteq> chunk_ids d'" unfolding map_chunk_rows(1) [OF len] .
  show "chunks_of (c_Hash c) d' = chs"
    using map_toChunk_rows [OF len, of "c_Hash c"] own by (simp add: chunks_of_def rows_of_def del: map_map)
  have cm: "content_map d' = content_map u" by (rule content_map_cong) (simp add: res(2))
  show "\<exists>r. content_map d (c_Hash c) = Some r \<and> content_map d' (c_Hash c) =
      Some (r\<lparr>r_state := c_State c, r_stage := c_StageVersions c, r_updated := t\<rparr>)"
    using h content_map_None [of d "c_Hash c"]
    by (auto simp: cm u_def content_map_update [of f, OF fh]) (auto simp: f_def)
  have "same_elsewhere (c_Hash c) d (drop_chunks {c_Hash c} u)"
    using same_elsewhere_update_content [of f "c_Hash c" d, OF fh]
      same_elsewhere_drop_chunks [OF catalog_inv_update_content [OF inv, of f "c_Hash c", OF fh]]
    unfolding u_def by (rule same_elsewhere_trans)
  moreover have "rows_of h' d' = rows_of h' (drop_chunks {c_Hash c} u)" if "h' \<noteq> c_Hash c" for h'
    using that by (simp add: rows_of_def res(2) filter_rows_other)
  moreover have "content_map d' = content_map (drop_chunks {c_Hash c} u)"
    by (rule content_map_cong) (simp add: res(2))
  ultimately show "same_elsewhere (c_Hash c) d d'"
    by (simp add: same_elsewhere_def vec_of_def res(2))
qed

lemma markFailedTx_effect:
  assumes inv: "catalog_inv d" and tx: "markFailedTx h reason t d = Inr (d', u)"
  shows "same_elsewhere h d d'" "rows_of h d' = []"
    and "\<exists>r. content_map d h = Some r \<and>
      content_map d' h = Some (r\<lparr>r_state := Failed, r_last_error := Some reason, r_updated := t\<rparr>)"
proof -
  define f :: "contentRow \<Rightarrow> contentRow" where
    "f = (\<lambda>r. r\<lparr>r_state := Failed, r_last_error := Some reason, r_updated := t\<rparr>)"
  have fh: "\<And>r. r_hash (f r) = r_hash r" by (simp add: f_def)
  have h: "h \<in> hashes d" and d': "d' = drop_chunks {h} (update_content h f d)"
    using tx unfolding markFailedTx_eq [OF inv] by (auto simp: f_def split: if_splits)
  show "rows_of h d' = []" by (simp add: d' rows_of_def filter_none)
  show "same_elsewhere h d d'"
    using same_elsewhere_update_content [of f h d, OF fh]
      same_elsewhere_drop_chunks [OF catalog_inv_update_content [OF inv, of f h, OF fh]]
    unfolding d' by (rule same_elsewhere_trans)
  have "content_map d' = content_map (update_content h f d)" by (rule content_map_cong) (simp add: d')
  then show "\<exists>r. content_map d h = Some r \<and>
      content_map d' h = Some (r\<lparr>r_state := Failed, r_last_error := Some reason, r_updated := t\<rparr>)"
    using h content_map_None [of d h] by (auto simp: content_map_update [of f, OF fh]) (auto simp: f_def)
qed

lemma map_of_zip_append:
  "length ids = length vs \<Longrightarrow> distinct ids \<Longrightarrow> i < length ids \<Longrightarrow>
   map_of (filter (\<lambda>r. fst r \<notin> set ids) rows @ zip ids vs) (ids ! i) = Some (vs ! i)"
  by (simp add: map_add_def map_of_filter_key map_of_zip_nth)

lemma upsertVectorsTx_effect:
  assumes inv: "catalog_inv d" and tx: "upsertVectorsTx ids vs t d = Inr (d', u)" and len: "length ids = length vs"
    and own: "map k_id (rows_of h d) = ids"
  shows "same_elsewhere h d d'" "db_chunks d' = db_chunks d" "db_content d' = db_content d"
    and "\<exists>table desc. currentVecTable d' = Inr (table, desc) \<and>
      (\<forall>k \<in> set (rows_of h d'). \<exists>v \<in> set vs. vec_of d' table (k_id k) = Some v \<and> int (length v) = vd_Dims desc)"
proof -
  obtain table desc where cur: "currentVecTable d = Inr (table, desc)" and ids: "distinct ids" "set ids \<subseteq> chunk_ids d"
    and dims: "\<forall>v \<in> set vs. int (length v) = vd_Dims desc"
    and d': "d' = update_table table (\<lambda>rows. filter (\<lambda>r. fst r \<notin> set ids) rows @ zip ids vs) d"
    using upsertVectorsTx_result [OF inv tx len] .
  show ch: "db_chunks d' = db_chunks d" and co: "db_content d' = db_content d" by (simp_all add: d' update_table_def)
  have "db_vec_current d' = db_vec_current d" "db_vec_descs d' = db_vec_descs d" by (simp_all add: d' update_table_def)
  then have cur': "currentVecTable d' = currentVecTable d" by (simp only: currentVecTable_def)
  have other: "vec_of d' name i = vec_of d name i" if "i \<notin> set ids" for name i
  proof -
    have "map_of (zip ids vs) i = None" using that by (auto simp: map_of_eq_None_iff dest: set_zip_leftD)
    then show ?thesis
      using that unfolding d' vec_of_update_table unfolding vec_of_def
      by (auto simp: map_add_def map_of_filter_key split: option.split)
  qed
  have "k_id k \<notin> set ids" if "k \<in> set (rows_of h' d)" "h' \<noteq> h" for k h'
  proof
    assume "k_id k \<in> set ids"
    then obtain k' where "k' \<in> set (rows_of h d)" "k_id k' = k_id k" using own by (metis imageE list.set_map)
    then show False using that chunk_id_hash [OF inv, of k k'] by (auto simp: rows_of_def)
  qed
  then show "same_elsewhere h d d'"
    using other ch co by (auto simp: same_elsewhere_def rows_of_def content_map_def) (simp_all add: d' update_table_def)
  obtain rows where rows: "map_of (db_vec_tables d) table = Some rows"
    using current_table_rows [OF _ cur] inv by (auto simp: catalog_inv_def)
  have "\<exists>v \<in> set vs. vec_of d' table (k_id k) = Some v \<and> int (length v) = vd_Dims desc" if "k \<in> set (rows_of h d')" for k
  proof -
    have "k_id k \<in> set ids" using that own ch by (auto simp: rows_of_def)
    then obtain i where i: "i < length ids" "k_id k = ids ! i" by (metis in_set_conv_nth)
    have "vec_of d' table (k_id k) = Some (vs ! i)"
      using map_of_zip_append [OF len ids(1) i(1), of rows] rows i(2) by (simp add: d' vec_of_update_table)
    then show ?thesis using dims i(1) len by (metis nth_mem)
  qed
  then show "\<exists>table desc. currentVecTable d' = Inr (table, desc) \<and>
      (\<forall>k \<in> set (rows_of h d'). \<exists>v \<in> set vs. vec_of d' table (k_id k) = Some v \<and> int (length v) = vd_Dims desc)"
    using cur cur' by auto
qed

section \<open>One content, step by step\<close>

text \<open>The row of \<open>c\<close> was there and now has state \<open>st\<close> and the stage versions of \<open>c\<close>, its budget untouched.\<close>

definition row_becomes :: "Content \<Rightarrow> ContentState \<Rightarrow> DB \<Rightarrow> DB \<Rightarrow> bool" where
  "row_becomes c st d d' \<longleftrightarrow>
     (\<exists>r t. content_map d (c_Hash c) = Some r \<and>
        content_map d' (c_Hash c) = Some (r\<lparr>r_stage := c_StageVersions c, r_state := st, r_updated := t\<rparr>))"

lemma row_order: "r\<lparr>r_state := a, r_stage := b\<rparr> = r\<lparr>r_stage := b, r_state := a\<rparr>"
  by (cases r) simp

text \<open>Every chunk of the content has a vector of the current generation's dimensions.\<close>

definition embedded :: "hash \<Rightarrow> DB \<Rightarrow> bool" where
  "embedded h d \<longleftrightarrow> rows_of h d = [] \<or>
     (\<exists>table desc. currentVecTable d = Inr (table, desc) \<and>
        (\<forall>k \<in> set (rows_of h d). \<exists>v. vec_of d table (k_id k) = Some v \<and> int (length v) = vd_Dims desc))"

definition superseded :: PResult where
  "superseded = \<lparr>pr_Outcome = OutcomeSuperseded, pr_Err = Some (EStore ErrContentGone), pr_Warnings = 0\<rparr>"

lemma storeErr_cases:
  assumes "storeErr e w = (r, w')" "e \<noteq> ErrContentSuperseded"
  shows "w' = w \<and> ((\<exists>pe. r = Inl pe) \<or> e = ErrContentGone \<and> r = Inr superseded)"
  using assms by (auto simp: storeErr_def movedOn_def superseded_def split: if_splits)

lemma storeChunksTx_error:
  assumes "catalog_inv d" "storeChunksTx c chs t d = Inl e" "distinct (map ch_Ordinal chs)"
  shows "e = ErrContentGone \<and> c_Hash c \<notin> hashes d"
proof (cases "c_Hash c \<in> hashes d")
  case True
  obtain d' ids where "storeChunksTx c chs t d = Inr (d', ids)"
    using storeChunksTx_spec [OF assms(1) True assms(3)] by metis
  then show ?thesis using assms(2) by simp
qed (use assms(2) in \<open>simp add: storeChunksTx_def\<close>)

lemma gone_iff: "h \<notin> hashes d \<longleftrightarrow> content_map d h = None"
  using content_map_None [of d h] by simp

text \<open>\<open>StoreChunks\<close> from inside the pipeline: machinery error, row gone, or the chunks are there.\<close>

lemma onStore_StoreChunks:
  assumes "onStore (StoreChunks c chs) w = (r, w')" "catalog_inv (wdb w)" "distinct (map ch_Ordinal chs)"
  obtains (failed) e where "r = Inl e" "wdb w' = wdb w" "e \<noteq> ErrContentSuperseded"
      "e = ErrContentGone \<longrightarrow> c_Hash c \<notin> hashes (wdb w)"
  | (stored) t ids where "r = Inr ids" "storeChunksTx c chs t (wdb w) = Inr (wdb w', ids)"
  using assms(1) unfolding StoreChunks_def
proof (cases rule: onStore_tx)
  case (failed e)
  then show ?thesis using that(1) storeChunksTx_error [OF assms(2) _ assms(3)] by blast
next
  case (committed t ids)
  then show ?thesis using that(2) by blast
qed

lemma finalize_effect:
  assumes "finalize h out w = (r, w')" "catalog_inv (wdb w)" "h \<in> hashes (wdb w)"
  shows "(\<exists>pe. r = Inl pe) \<and> wdb w' = wdb w \<or>
    r = Inr out \<and> (\<exists>t. wdb w' = update_content h (\<lambda>r. r\<lparr>r_state := Indexed, r_updated := t\<rparr>) (wdb w))"
proof -
  obtain r0 w0 where op: "onStore (UpdateContentState h Indexed) w = (r0, w0)" by fastforce
  then show ?thesis
    unfolding UpdateContentState_def updateContent_def
  proof (cases rule: onStore_tx)
    case (failed e)
    then have "e \<noteq> ErrContentGone" "e \<noteq> ErrContentSuperseded" using assms(3) by (auto split: if_splits)
    then show ?thesis
      using assms(1) op failed storeErr_cases [of e w0 r w'] by (auto simp: finalize_def)
  next
    case (committed t a)
    then have "wdb w0 = update_content h (\<lambda>r. r\<lparr>r_state := Indexed, r_updated := t\<rparr>) (wdb w)"
      using assms(3) by simp
    moreover have "r = Inr out" "w' = w0" using assms(1) op committed(1) by (simp_all add: finalize_def)
    ultimately show ?thesis by blast
  qed
qed

lemma failWith_effect:
  assumes f: "failWith c out reason w = (r, w')" and inv: "catalog_inv (wdb w)"
  shows "catalog_inv (wdb w') \<and> same_elsewhere (c_Hash c) (wdb w) (wdb w') \<and>
    ((\<exists>pe. r = Inl pe) \<or>
     r = Inr superseded \<and> wdb w' = wdb w \<and> c_Hash c \<notin> hashes (wdb w) \<or>
     r = Inr (out\<lparr>pr_Outcome := OutcomeFailed, pr_Err := Some (EReason reason)\<rparr>) \<and> rows_of (c_Hash c) (wdb w') = [] \<and>
       (\<exists>r0 t. content_map (wdb w) (c_Hash c) = Some r0 \<and> content_map (wdb w') (c_Hash c) =
          Some (r0\<lparr>r_stage := c_StageVersions c, r_state := Failed, r_last_error := Some reason, r_updated := t\<rparr>)))"
proof -
  define c' where "c' = c\<lparr>c_State := Failed\<rparr>"
  have c': "c_Hash c' = c_Hash c" "c_StageVersions c' = c_StageVersions c" "c_State c' = Failed" by (simp_all add: c'_def)
  obtain r1 w1 where op: "onStore (StoreChunks c' []) w = (r1, w1)" by fastforce
  show ?thesis
  proof (cases rule: onStore_StoreChunks [OF op inv])
    case 1
    then show ?case by simp
  next
    case (2 e)
    then have "failWith c out reason w = storeErr e w1" using op by (simp add: failWith_def c'_def)
    then show ?thesis using f 2 inv storeErr_cases [of e w1 r w'] c' by auto
  next
    case (3 t ids)
    have inv1: "catalog_inv (wdb w1)" using catalog_inv_storeChunksTx [OF inv 3(2)] .
    note eff = storeChunksTx_effect [OF inv 3(2), unfolded c']
    have h1: "c_Hash c \<in> hashes (wdb w1)" using eff(7) gone_iff by (metis option.distinct(1))
    obtain r2 w2 where op2: "onStore (MarkFailed (c_Hash c) reason) w1 = (r2, w2)" by fastforce
    from op2 show ?thesis
      unfolding MarkFailed_def
    proof (cases rule: onStore_tx)
      case (failed e)
      then have e: "e \<noteq> ErrContentGone" "e \<noteq> ErrContentSuperseded"
        using h1 by (auto simp: markFailedTx_eq [OF inv1])
      have "failWith c out reason w = storeErr e w2"
        using op op2 3 failed by (simp add: failWith_def c'_def)
      then show ?thesis using f failed e inv1 eff(1) storeErr_cases [of e w2 r w'] by auto
    next
      case (committed t2 u)
      note eff2 = markFailedTx_effect [OF inv1 committed(2)]
      have r: "r = Inr (out\<lparr>pr_Outcome := OutcomeFailed, pr_Err := Some (EReason reason)\<rparr>)" "w' = w2"
        using f op op2 3 committed by (simp_all add: failWith_def c'_def)
      show ?thesis
        using r eff(7) eff2(2,3) same_elsewhere_trans [OF eff(1) eff2(1)] catalog_inv_markFailedTx [OF inv1 committed(2)]
        by auto
    qed
  qed
qed

lemma upsertVectorsTx_error:
  assumes "upsertVectorsTx ids vs t d = Inl e" "catalog_inv d" "distinct ids" "set ids \<subseteq> chunk_ids d"
  shows "e \<noteq> ErrContentGone \<and> e \<noteq> ErrContentSuperseded"
proof -
  have "distinct (map k_id (db_chunks d))" using assms(2) by (simp add: catalog_inv_def content_inv_def)
  then have live: "length (filter (\<lambda>k. k_id k \<in> set ids) (db_chunks d)) = length ids"
    using live_ids_iff assms(3,4) by (auto simp: chunk_ids_def)
  show ?thesis
    using assms(1) live
    by (auto simp: upsertVectorsTx_def currentVecTable_def split: sum.splits if_splits option.splits prod.splits
        dest: insertVectors_err)
qed

lemma onStore_UpsertVectors:
  assumes op: "onStore (UpsertVectors ids vs) w = (r, w')" and inv: "catalog_inv (wdb w)"
    and ids: "distinct ids" "set ids \<subseteq> chunk_ids (wdb w)" "ids \<noteq> []"
  obtains (failed) e where "r = Inl e" "wdb w' = wdb w" "e \<noteq> ErrContentGone" "e \<noteq> ErrContentSuperseded"
  | (stored) t where "r = Inr ()" "length ids = length vs" "upsertVectorsTx ids vs t (wdb w) = Inr (wdb w', ())"
proof (cases "length ids = length vs")
  case True
  then have "UpsertVectors ids vs = withTx (upsertVectorsTx ids vs)" using ids(3) by (auto simp: UpsertVectors_def)
  then have "onStore (withTx (upsertVectorsTx ids vs)) w = (r, w')" using op by simp
  then show ?thesis
  proof (cases rule: onStore_tx)
    case (failed e)
    then show ?thesis using that(1) upsertVectorsTx_error [OF _ inv ids(1,2)] by blast
  next
    case (committed t a)
    then show ?thesis using that(2) True by simp
  qed
next
  case False
  then show ?thesis using op that(1) by (auto simp: onStore_def UpsertVectors_def)
qed

text \<open>What the embed stage leaves, from a catalog that holds the chunks it embeds.\<close>

definition finalized :: "Content \<Rightarrow> Chunk list \<Rightarrow> PResult \<Rightarrow> DB \<Rightarrow> (PipeErr + PResult) \<Rightarrow> DB \<Rightarrow> bool" where
  "finalized c chs out d r d' \<longleftrightarrow>
     (\<exists>pe. r = Inl pe) \<or>
     r = Inr out \<and> chunks_of (c_Hash c) d' = chs \<and> embedded (c_Hash c) d' \<and>
       (\<exists>r0 t. content_map d (c_Hash c) = Some r0 \<and>
          content_map d' (c_Hash c) = Some (r0\<lparr>r_state := Indexed, r_updated := t\<rparr>))"

definition set_back :: "Content \<Rightarrow> PResult \<Rightarrow> DB \<Rightarrow> (PipeErr + PResult) \<Rightarrow> DB \<Rightarrow> bool" where
  "set_back c out d r d' \<longleftrightarrow>
     (\<exists>e. r = Inr (out\<lparr>pr_Outcome := OutcomeTransient, pr_Err := Some (EEmbed e)\<rparr>)) \<and> d' = d \<or>
     (\<exists>reason. r = Inr (out\<lparr>pr_Outcome := OutcomeFailed, pr_Err := Some (EReason reason)\<rparr>) \<and>
        rows_of (c_Hash c) d' = [] \<and>
        (\<exists>r0 t. content_map d (c_Hash c) = Some r0 \<and> content_map d' (c_Hash c) =
          Some (r0\<lparr>r_stage := c_StageVersions c, r_state := Failed, r_last_error := Some reason, r_updated := t\<rparr>)))"

lemma currentVecTable_cong:
  "db_vec_current d' = db_vec_current d \<Longrightarrow> db_vec_descs d' = db_vec_descs d \<Longrightarrow> currentVecTable d' = currentVecTable d"
  by (simp only: currentVecTable_def)

lemma finalize_stage:
  assumes f: "finalize (c_Hash c) out w = (r, w')" and inv: "catalog_inv (wdb w)"
    and h: "c_Hash c \<in> hashes (wdb w)" and chs: "chunks_of (c_Hash c) (wdb w) = chs"
    and emb: "embedded (c_Hash c) (wdb w)"
  shows "catalog_inv (wdb w') \<and> same_elsewhere (c_Hash c) (wdb w) (wdb w') \<and> finalized c chs out (wdb w) r (wdb w')"
  using finalize_effect [OF f inv h]
proof (elim disjE conjE exE)
  fix t assume r: "r = Inr out" and d': "wdb w' = update_content (c_Hash c) (\<lambda>r. r\<lparr>r_state := Indexed, r_updated := t\<rparr>) (wdb w)"
  let ?f = "\<lambda>r :: contentRow. r\<lparr>r_state := Indexed, r_updated := t\<rparr>"
  have "currentVecTable (wdb w') = currentVecTable (wdb w)"
    by (rule currentVecTable_cong) (simp_all add: d', simp add: update_content_def)
  moreover have same: "rows_of (c_Hash c) (wdb w') = rows_of (c_Hash c) (wdb w)"
    "vec_of (wdb w') = vec_of (wdb w)" "chunks_of (c_Hash c) (wdb w') = chunks_of (c_Hash c) (wdb w)"
    by (simp_all add: d' rows_of_def vec_of_def fun_eq_iff chunks_of_def)
  ultimately have "embedded (c_Hash c) (wdb w')" using emb by (simp add: embedded_def)
  moreover have "catalog_inv (wdb w')" unfolding d' by (rule catalog_inv_update_content [OF inv]) simp
  moreover have "same_elsewhere (c_Hash c) (wdb w) (wdb w')" unfolding d' by (rule same_elsewhere_update_content) simp
  moreover obtain r0 where r0: "content_map (wdb w) (c_Hash c) = Some r0" using h gone_iff by blast
  moreover have "content_map (wdb w') (c_Hash c) = Some (?f r0)"
    unfolding d' using content_map_update [of ?f "c_Hash c" "wdb w" "c_Hash c"] r0 by simp
  ultimately show ?thesis using r chs same(3) unfolding finalized_def by blast
qed (use inv in \<open>simp add: finalized_def\<close>)

lemma embedStage_effect:
  assumes e: "embedStage ix c chs ids out w = (r, w')" and inv: "catalog_inv (wdb w)"
    and h: "c_Hash c \<in> hashes (wdb w)" and chs: "chunks_of (c_Hash c) (wdb w) = chs"
    and own: "map k_id (rows_of (c_Hash c) (wdb w)) = ids"
    and ids: "distinct ids" "set ids \<subseteq> chunk_ids (wdb w)" "ids \<noteq> []"
  shows "catalog_inv (wdb w') \<and> same_elsewhere (c_Hash c) (wdb w) (wdb w') \<and>
    (finalized c chs out (wdb w) r (wdb w') \<or> set_back c out (wdb w) r (wdb w'))"
proof (cases "em_Passages (ix_Embedder ix) (w_tick w) chs")
  case (Inl er)
  obtain b w1 where ctx: "onStore ctxErr (tick w) = (b, w1)" by fastforce
  have d1: "wdb w1 = wdb w" using onStore_ctxErr_db [OF ctx] by simp
  show ?thesis
  proof (cases "b \<or> ix_Transient ix er")
    case True
    then have "(\<exists>pe. r = Inl pe) \<or> r = Inr (out\<lparr>pr_Outcome := OutcomeTransient, pr_Err := Some (EEmbed er)\<rparr>)" "w' = w1"
      using e Inl ctx by (auto simp: embedStage_def split: bool.splits if_splits)
    then show ?thesis using inv d1 by (auto simp: finalized_def set_back_def)
  next
    case False
    then have f: "failWith c out (''embed: '' @ er) w1 = (r, w')"
      using e Inl ctx by (simp add: embedStage_def)
    have inv1: "catalog_inv (wdb w1)" using inv d1 by simp
    show ?thesis
      using failWith_effect [OF f inv1] h unfolding d1 finalized_def set_back_def by blast
  qed
next
  case (Inr vs)
  obtain r1 w1 where up: "onStore (UpsertVectors ids vs) (tick w) = (r1, w1)" by fastforce
  have "catalog_inv (wdb (tick w))" "set ids \<subseteq> chunk_ids (wdb (tick w))" using inv ids by simp_all
  from up this(1) ids(1) this(2) ids(3) show ?thesis
  proof (cases rule: onStore_UpsertVectors)
    case (failed er)
    then have "storeErr er w1 = (r, w')" using e Inr up by (simp add: embedStage_def)
    then show ?thesis using storeErr_cases [of er w1 r w'] failed inv by (auto simp: finalized_def)
  next
    case (stored t)
    then have tx: "upsertVectorsTx ids vs t (wdb w) = Inr (wdb w1, ())" by simp
    note eff = upsertVectorsTx_effect [OF inv tx stored(2) own]
    have f: "finalize (c_Hash c) out w1 = (r, w')" using e Inr up stored by (simp add: embedStage_def)
    have "embedded (c_Hash c) (wdb w1)" using eff(4) unfolding embedded_def by blast
    moreover have "c_Hash c \<in> hashes (wdb w1)" using h eff(3) by (simp add: hashes_def)
    moreover have "chunks_of (c_Hash c) (wdb w1) = chs" using chs eff(2) by (simp add: chunks_of_def)
    moreover have "content_map (wdb w1) = content_map (wdb w)" using eff(3) by (simp add: content_map_def)
    ultimately show ?thesis
      using finalize_stage [OF f catalog_inv_upsertVectorsTx [OF inv tx stored(2)]] same_elsewhere_trans [OF eff(1)]
      by (simp add: finalized_def)
  qed
qed

text \<open>What each outcome says about the catalog \<open>d'\<close> it leaves.\<close>

definition processed :: "Content \<Rightarrow> Chunk list \<Rightarrow> DB \<Rightarrow> PResult \<Rightarrow> DB \<Rightarrow> bool" where
  "processed c chs d res d' \<longleftrightarrow>
     (case pr_Outcome res of
        OutcomeIndexed \<Rightarrow> chunks_of (c_Hash c) d' = chs \<and> embedded (c_Hash c) d' \<and> row_becomes c Indexed d d'
      | OutcomeTransient \<Rightarrow> chunks_of (c_Hash c) d' = chs \<and> row_becomes c Chunked d d' \<and>
          (\<exists>e. pr_Err res = Some (EEmbed e))
      | OutcomeFailed \<Rightarrow> rows_of (c_Hash c) d' = [] \<and>
          (\<exists>reason r t. pr_Err res = Some (EReason reason) \<and> content_map d (c_Hash c) = Some r \<and>
             content_map d' (c_Hash c) = Some (r\<lparr>r_stage := c_StageVersions c, r_state := Failed,
               r_last_error := Some reason, r_updated := t\<rparr>))
      | OutcomeSuperseded \<Rightarrow> d' = d \<and> c_Hash c \<notin> hashes d \<and> pr_Err res = Some (EStore ErrContentGone)
      | _ \<Rightarrow> d' = d)"

lemma indexText_effect:
  assumes e: "indexText ix c0 txt w = (r, w')" and inv: "catalog_inv (wdb w)"
  shows "catalog_inv (wdb w') \<and> same_elsewhere (c_Hash c0) (wdb w) (wdb w') \<and>
    (\<forall>res. r = Inr res \<longrightarrow> pr_Outcome res \<notin> {OutcomeSkipped, OutcomeChanged} \<and>
       processed c0 (chunks txt (es_CeilingTokens (ix_spec ix))) (wdb w) res (wdb w'))"
proof -
  define chs where "chs = chunks txt (es_CeilingTokens (ix_spec ix))"
  define c where "c = c0\<lparr>c_State := Chunked\<rparr>"
  define out where "out = \<lparr>pr_Outcome = OutcomeIndexed, pr_Err = None,
    pr_Warnings = length (res_Warnings (ChunkText txt (es_CeilingTokens (ix_spec ix))))\<rparr>"
  have c: "c_Hash c = c_Hash c0" "c_StageVersions c = c_StageVersions c0" "c_State c = Chunked" by (simp_all add: c_def)
  obtain r1 w1 where op: "onStore (StoreChunks c chs) w = (r1, w1)" by fastforce
  have ord: "distinct (map ch_Ordinal chs)" by (simp add: chs_def chunk_ordinals)
  show ?thesis
  proof (cases rule: onStore_StoreChunks [OF op inv ord])
    case (1 er)
    then have "storeErr er w1 = (r, w')" using e op by (simp add: indexText_def Let_def c_def chs_def)
    then have "w' = w1" "(\<exists>pe. r = Inl pe) \<or> er = ErrContentGone \<and> r = Inr superseded"
      using storeErr_cases 1(3) by blast+
    then show ?thesis using 1 inv c(1) by (auto simp: processed_def superseded_def)
  next
    case (2 t ids)
    have inv1: "catalog_inv (wdb w1)" using catalog_inv_storeChunksTx [OF inv 2(2)] .
    note eff = storeChunksTx_effect [OF inv 2(2), unfolded c]
    obtain r0 where r0: "content_map (wdb w) (c_Hash c0) = Some r0"
      "content_map (wdb w1) (c_Hash c0) = Some (r0\<lparr>r_stage := c_StageVersions c0, r_state := Chunked, r_updated := t\<rparr>)"
      using eff(7) by (auto simp: row_order)
    then have h1: "c_Hash c \<in> hashes (wdb w1)" using gone_iff c(1) by (metis option.distinct(1))
    have step: "catalog_inv (wdb w') \<and> same_elsewhere (c_Hash c0) (wdb w1) (wdb w') \<and>
      (finalized c chs out (wdb w1) r (wdb w') \<or> set_back c out (wdb w1) r (wdb w'))"
    proof (cases "chs = []")
      case True
      then have "finalize (c_Hash c) out w1 = (r, w')"
        using e op 2(1) by (simp add: indexText_def Let_def c_def chs_def out_def)
      moreover have "chunks_of (c_Hash c) (wdb w1) = chs" using eff(2) c(1) by simp
      moreover have "embedded (c_Hash c) (wdb w1)"
        using True eff(2) c(1) by (simp add: embedded_def rows_of_def chunks_of_def)
      ultimately show ?thesis using finalize_stage [OF _ inv1 h1] c(1) by metis
    next
      case False
      then have "embedStage ix c chs ids out w1 = (r, w')"
        using e op 2(1) by (simp add: indexText_def Let_def c_def chs_def out_def)
      moreover have "ids \<noteq> []" using eff(4) False by auto
      moreover have "chunks_of (c_Hash c) (wdb w1) = chs" "map k_id (rows_of (c_Hash c) (wdb w1)) = ids"
        using eff(2,3) c(1) by simp_all
      ultimately show ?thesis using embedStage_effect [OF _ inv1 h1 _ _ eff(5,6)] c(1) by metis
    qed
    have rc: "row_becomes c0 Chunked (wdb w) (wdb w1)" using r0 unfolding row_becomes_def by blast
    have "pr_Outcome res \<notin> {OutcomeSkipped, OutcomeChanged} \<and> processed c0 chs (wdb w) res (wdb w')" if r: "r = Inr res" for res
    proof -
      from step r consider
        (ix) "res = out" "chunks_of (c_Hash c0) (wdb w') = chs" "embedded (c_Hash c0) (wdb w')"
          "\<exists>t. content_map (wdb w') (c_Hash c0) = Some (r0\<lparr>r_stage := c_StageVersions c0, r_state := Indexed, r_updated := t\<rparr>)"
        | (tr) "\<exists>e. res = out\<lparr>pr_Outcome := OutcomeTransient, pr_Err := Some (EEmbed e)\<rparr>" "wdb w' = wdb w1"
        | (fa) reason where "res = out\<lparr>pr_Outcome := OutcomeFailed, pr_Err := Some (EReason reason)\<rparr>"
          "rows_of (c_Hash c0) (wdb w') = []" "\<exists>t. content_map (wdb w') (c_Hash c0) =
             Some (r0\<lparr>r_stage := c_StageVersions c0, r_state := Failed, r_last_error := Some reason, r_updated := t\<rparr>)"
        unfolding finalized_def set_back_def using r0(2) c by auto
      then show ?thesis
      proof cases
        case ix
        then show ?thesis using r0(1) by (auto simp: processed_def row_becomes_def out_def)
      next
        case tr
        then show ?thesis using rc eff(2) by (auto simp: processed_def)
      next
        case fa
        then show ?thesis using r0(1) by (auto simp: processed_def)
      qed
    qed
    then show ?thesis using step same_elsewhere_trans [OF eff(1)] by (simp add: chs_def)
  qed
qed

section \<open>ProcessContent\<close>

lemma tick_store [simp]: "w_store (tick w) = w_store w"
  by (simp add: tick_def)

lemma readLoop_found:
  "readLoop rd h ps fe mm w = (Inr (b, p), w') \<Longrightarrow>
   p \<in> set ps \<and> (\<exists>n. rd n p = Inr b) \<and> contentDigest b = h \<and> w_store w' = w_store w"
  by (induction rd h ps fe mm w rule: readLoop.induct) (auto split: sum.splits if_splits)

lemma readLoop_none: "readLoop rd h ps fe mm w = (Inl x, w') \<Longrightarrow> w_store w' = w_store w"
  by (induction rd h ps fe mm w rule: readLoop.induct) (auto split: sum.splits if_splits)

definition itemPaths :: "WorkItem \<Rightarrow> path list" where
  "itemPaths item = (if wi_Paths item = [] then [wi_Path item] else wi_Paths item)"

lemma readVerified_cases:
  assumes "readVerified rd item h w = (r, w')"
  obtains (none) res where "r = Inl res" "pr_Outcome res \<in> {OutcomeSkipped, OutcomeChanged}" "w_store w' = w_store w"
  | (found) raw p n where "r = Inr (raw, p)" "p \<in> set (itemPaths item)" "rd n p = Inr raw" "contentDigest raw = h"
      "w_store w' = w_store w"
proof (cases "readLoop rd h (itemPaths item) None False w")
  case (Pair a w1)
  show ?thesis
  proof (cases a)
    case (Inl x)
    then show ?thesis
      using assms Pair that(1) readLoop_none [of rd h "itemPaths item" None False w x w1]
      by (cases x) (auto simp: readVerified_def itemPaths_def [symmetric] Let_def)
  next
    case (Inr bp)
    then show ?thesis
      using assms Pair that(2) readLoop_found [of rd h "itemPaths item" None False w "fst bp" "snd bp" w1]
      by (cases bp) (auto simp: readVerified_def itemPaths_def [symmetric] Let_def)
  qed
qed

lemma ProcessContent_effect:
  assumes e: "ProcessContent rd ix item sv w = (r, w')" and inv: "catalog_inv (wdb w)"
  shows "catalog_inv (wdb w') \<and> same_elsewhere (c_Hash (wi_Content item)) (wdb w) (wdb w') \<and>
    (\<forall>res. r = Inr res \<longrightarrow>
       pr_Outcome res \<in> {OutcomeSkipped, OutcomeChanged} \<and> wdb w' = wdb w \<or>
       (\<exists>raw p n. p \<in> set (itemPaths item) \<and> rd n p = Inr raw \<and> contentDigest raw = c_Hash (wi_Content item) \<and>
         (case Normalize raw of
            Inl _ \<Rightarrow> pr_Outcome res \<in> {OutcomeFailed, OutcomeSuperseded} \<and>
              processed (mergeVersions (wi_Content item) sv) [] (wdb w) res (wdb w')
          | Inr txt \<Rightarrow> pr_Outcome res \<notin> {OutcomeSkipped, OutcomeChanged} \<and>
              processed (mergeVersions (wi_Content item) sv) (chunks txt (es_CeilingTokens (ix_spec ix))) (wdb w) res (wdb w'))))"
proof -
  define c where "c = mergeVersions (wi_Content item) sv"
  have ch: "c_Hash c = c_Hash (wi_Content item)" by (simp add: c_def mergeVersions_def)
  obtain r0 w1 where rv: "readVerified rd item (c_Hash c) w = (r0, w1)" by fastforce
  from rv show ?thesis
  proof (cases rule: readVerified_cases)
    case (none res)
    then have "r = Inr res" "w' = w1" using e rv by (simp_all add: ProcessContent_def c_def Let_def)
    then show ?thesis using none inv by auto
  next
    case (found raw p n)
    have d1: "wdb w1 = wdb w" using found(5) by simp
    then have inv1: "catalog_inv (wdb w1)" using inv by simp
    show ?thesis
    proof (cases "Normalize raw")
      case (Inl er)
      then have f: "failWith c emptyResult (''normalize: '' @ decodeErrText er) w1 = (r, w')"
        using e rv found(1) by (simp add: ProcessContent_def failContent_def c_def Let_def)
      have "pr_Outcome res \<in> {OutcomeFailed, OutcomeSuperseded} \<and> processed c [] (wdb w) res (wdb w')"
        if "r = Inr res" for res
        using failWith_effect [OF f inv1] that unfolding d1 by (auto simp: processed_def superseded_def)
      then show ?thesis
        using failWith_effect [OF f inv1] found Inl ch unfolding d1 c_def by fastforce
    next
      case (Inr tx)
      then have f: "indexText ix c tx w1 = (r, w')"
        using e rv found(1) by (simp add: ProcessContent_def c_def Let_def)
      show ?thesis
        using indexText_effect [OF f inv1] found Inr ch unfolding d1 c_def by fastforce
    qed
  qed
qed

interpretation processContent: world_op "ProcessContent rd ix item sv" for rd ix item sv
  by unfold_locales (metis ProcessContent_effect prod.collapse)

section \<open>Prepare and Run\<close>

lemma Prepare_db:
  assumes "Prepare ix w = (Inl e, w')"
  shows "wdb w' = wdb w"
  using assms onStore_fails [OF ensureVecTable.store_op_axioms]
  by (auto simp: Prepare_def Let_def split: sum.splits if_splits prod.splits)

interpretation prepare: world_op "Prepare ix" for ix
proof
  fix w assume "catalog_inv (wdb w)"
  then show "catalog_inv (wdb (snd (Prepare ix w)))"
    by (auto simp: Prepare_def Let_def split: sum.splits prod.splits dest: ensureVecTable.lifted.keeps_result)
qed

lemma workLoop_inv: "catalog_inv (wdb w) \<Longrightarrow> catalog_inv (wdb (snd (workLoop rd ix sv items su w)))"
proof (induction rd ix sv items su w rule: workLoop.induct)
  case (2 rd ix sv item items su w)
  obtain b w0 where c: "onStore ctxErr w = (b, w0)" by fastforce
  have inv0: "catalog_inv (wdb w0)" using 2(5) onStore_ctxErr_db [OF c] by simp
  obtain r w1 where p: "ProcessContent rd ix item sv w0 = (r, w1)" by fastforce
  have inv1: "catalog_inv (wdb w1)" using processContent.keeps_result [OF p inv0] .
  show ?case
  proof (cases "b \<or> (\<exists>e. r = Inl e)")
    case True
    then show ?thesis using c p inv0 inv1 by (auto split: bool.split)
  next
    case False
    then obtain res where "\<not> b" "r = Inr res" by (cases r) auto
    then show ?thesis using c p inv1 2(1-4) by (auto simp: Let_def split: Outcome.split)
  qed
qed simp

interpretation runIndexer: world_op "RunIndexer rd ix items" for rd ix items
proof
  fix w assume "catalog_inv (wdb w)"
  then show "catalog_inv (wdb (snd (RunIndexer rd ix items w)))"
    using workLoop_inv prepare.keeps_result
    by (auto simp: RunIndexer_def firstPass_def split: sum.split prod.split)
qed

subsection \<open>Nothing is counted twice or lost\<close>

lemma processed_superseded:
  "processed c chs d res d' \<Longrightarrow> c_Hash c \<in> hashes d \<Longrightarrow> pr_Outcome res \<noteq> OutcomeSuperseded"
  by (auto simp: processed_def)

lemma ProcessContent_processed:
  assumes "ProcessContent rd ix item sv w = (Inr res, w')" "catalog_inv (wdb w)"
  shows "pr_Outcome res \<in> {OutcomeSkipped, OutcomeChanged} \<and> wdb w' = wdb w \<or>
    (\<exists>chs. processed (mergeVersions (wi_Content item) sv) chs (wdb w) res (wdb w'))"
proof -
  have "pr_Outcome res \<in> {OutcomeSkipped, OutcomeChanged} \<and> wdb w' = wdb w \<or>
       (\<exists>raw p n. p \<in> set (itemPaths item) \<and> rd n p = Inr raw \<and> contentDigest raw = c_Hash (wi_Content item) \<and>
         (case Normalize raw of
            Inl _ \<Rightarrow> pr_Outcome res \<in> {OutcomeFailed, OutcomeSuperseded} \<and>
              processed (mergeVersions (wi_Content item) sv) [] (wdb w) res (wdb w')
          | Inr txt \<Rightarrow> pr_Outcome res \<notin> {OutcomeSkipped, OutcomeChanged} \<and>
              processed (mergeVersions (wi_Content item) sv) (chunks txt (es_CeilingTokens (ix_spec ix))) (wdb w) res (wdb w')))"
    using ProcessContent_effect [OF assms] by blast
  then show ?thesis by (force split: sum.splits)
qed

lemma ProcessContent_not_superseded:
  assumes "ProcessContent rd ix item sv w = (Inr res, w')" "catalog_inv (wdb w)"
    and "c_Hash (wi_Content item) \<in> hashes (wdb w)"
  shows "pr_Outcome res \<noteq> OutcomeSuperseded"
proof -
  have "c_Hash (mergeVersions (wi_Content item) sv) \<in> hashes (wdb w)" using assms(3) by (simp add: mergeVersions_def)
  then show ?thesis
    using ProcessContent_processed [OF assms(1,2)] by (auto dest: processed_superseded)
qed

lemma transient_has_error:
  assumes "ProcessContent rd ix item sv w = (Inr res, w')" "catalog_inv (wdb w)" "pr_Outcome res = OutcomeTransient"
  shows "pr_Err res \<noteq> None"
  using ProcessContent_processed [OF assms(1,2)] assms(3) by (auto simp: processed_def)

text \<open>The hashes of the catalog do not change while contents are processed.\<close>

lemma same_hashes: "same_elsewhere h d d' \<Longrightarrow> h' \<noteq> h \<Longrightarrow> h' \<in> hashes d \<Longrightarrow> h' \<in> hashes d'"
  unfolding same_elsewhere_def by (metis gone_iff)

definition accounted :: "Summary \<Rightarrow> nat" where
  "accounted su = su_Indexed su + su_UpToDate su + su_Failed su + su_Skipped su"

lemma workLoop_accounted:
  "workLoop rd ix sv items su w = ((su', None), w') \<Longrightarrow> catalog_inv (wdb w) \<Longrightarrow>
   distinct (map (\<lambda>i. c_Hash (wi_Content i)) items) \<Longrightarrow>
   (\<forall>i \<in> set items. c_Hash (wi_Content i) \<in> hashes (wdb w)) \<Longrightarrow>
   accounted su' = accounted su + length items"
proof (induction rd ix sv items su w rule: workLoop.induct)
  case (2 rd ix sv item items su w)
  obtain w0 where c: "onStore ctxErr w = (False, w0)"
    using 2(5) by (cases "onStore ctxErr w") (auto split: bool.splits)
  have d0: "wdb w0 = wdb w" using onStore_ctxErr_db [OF c] .
  then have inv0: "catalog_inv (wdb w0)" using 2(6) by simp
  obtain r w1 where p: "ProcessContent rd ix item sv w0 = (r, w1)" by fastforce
  obtain res where r: "r = Inr res" using 2(5) c p by (cases r) auto
  note pr = p [unfolded r]
  have inv1: "catalog_inv (wdb w1)" using processContent.keeps_result [OF p inv0] .
  have se: "same_elsewhere (c_Hash (wi_Content item)) (wdb w) (wdb w1)" using ProcessContent_effect [OF p inv0] d0 by simp
  have h1: "\<forall>i \<in> set items. c_Hash (wi_Content i) \<in> hashes (wdb w1)"
  proof
    fix i assume "i \<in> set items"
    have "c_Hash (wi_Content i) \<noteq> c_Hash (wi_Content item)"
    proof
      assume "c_Hash (wi_Content i) = c_Hash (wi_Content item)"
      then have "c_Hash (wi_Content item) \<in> (\<lambda>i. c_Hash (wi_Content i)) ` set items"
        using \<open>i \<in> set items\<close> by (intro image_eqI [of _ _ i]) simp_all
      then show False using 2(7) by simp
    qed
    moreover have "c_Hash (wi_Content i) \<in> hashes (wdb w)" using 2(8) \<open>i \<in> set items\<close> by simp
    ultimately show "c_Hash (wi_Content i) \<in> hashes (wdb w1)" by (rule same_hashes [OF se])
  qed
  have dist: "distinct (map (\<lambda>i. c_Hash (wi_Content i)) items)" using 2(7) by simp
  have "pr_Outcome res \<noteq> OutcomeSuperseded"
    using ProcessContent_not_superseded [OF pr inv0] 2(8) d0 by simp
  note go = c [symmetric] refl p [symmetric] r refl
  have step: "workLoop rd ix sv (item # items) su w = ((su', None), w')" by (rule 2(5))
  show ?case
  proof (cases "pr_Outcome res")
    case OutcomeIndexed
    then show ?thesis using 2(1) [OF go OutcomeIndexed _ inv1 dist h1] step c pr by (simp add: accounted_def Let_def)
  next
    case OutcomeFailed
    then show ?thesis using 2(2) [OF go OutcomeFailed _ inv1 dist h1] step c pr by (simp add: accounted_def Let_def)
  next
    case OutcomeSkipped
    then show ?thesis using 2(3) [OF go OutcomeSkipped _ inv1 dist h1] step c pr by (simp add: accounted_def Let_def)
  next
    case OutcomeTransient
    then show ?thesis
      using step c pr transient_has_error [OF pr inv0 OutcomeTransient] by (simp add: Let_def)
  next
    case OutcomeChanged
    then show ?thesis using step c pr by (simp add: Let_def)
  next
    case OutcomeSuperseded
    then show ?thesis using \<open>pr_Outcome res \<noteq> OutcomeSuperseded\<close> by simp
  qed
qed (simp add: accounted_def)

lemma secondPass_split:
  "secondPass sv items work su = (work', su') \<Longrightarrow>
   accounted su' + length work' = accounted su + length items + length work \<and>
   mset work' \<subseteq># mset work + mset items"
proof (induction sv items work su rule: secondPass.induct)
  case (2 sv item items work su)
  show ?case
  proof (cases "c_StageVersions (wi_Content item) StageEmbeddingDims \<noteq> map_of sv StageEmbeddingDims")
    case True
    then have "secondPass sv items (work @ [item]) su = (work', su')" using 2(3) by simp
    from 2(1) [OF True this] show ?thesis by simp
  next
    case False
    then have "secondPass sv items work (su\<lparr>su_UpToDate := Suc (su_UpToDate su)\<rparr>) = (work', su')" using 2(3) by simp
    from 2(2) [OF False this] have "accounted su' + length work' = Suc (accounted su) + length items + length work"
      "mset work' \<subseteq># mset work + mset items" by (simp_all add: accounted_def)
    moreover from this(2) have "mset work' \<subseteq># mset work + mset (item # items)"
      by (rule subset_mset.order_trans) simp
    ultimately show ?thesis by simp
  qed
qed simp

subsection \<open>In a world where nothing fails\<close>

lemma onStore_quiet_tx:
  assumes "quiet (w_store w)"
  obtains t w' where "onStore (withTx body) w = (map_sum id snd (body t (wdb w)), w')"
    "wdb w' = (case body t (wdb w) of Inl _ \<Rightarrow> wdb w | Inr (d, _) \<Rightarrow> d)" "quiet (w_store w')" "w_tick w' = w_tick w"
proof -
  obtain t where t: "fst (withTx body (w_store w)) = map_sum id snd (body t (wdb w))"
    "st_db (snd (withTx body (w_store w))) = (case body t (wdb w) of Inl _ \<Rightarrow> wdb w | Inr (d, _) \<Rightarrow> d)"
    "quiet (snd (withTx body (w_store w)))"
    using withTx_quiet [OF assms] by metis
  show ?thesis
    by (rule that [of t "w\<lparr>w_store := snd (withTx body (w_store w))\<rparr>"])
      (use t in \<open>auto simp: onStore_def split: prod.splits\<close>)
qed

lemma finalize_quiet:
  assumes "quiet (w_store w)" "h \<in> hashes (wdb w)"
  shows "fst (finalize h out w) = Inr out"
proof -
  let ?body = "\<lambda>now d. if h \<notin> hashes d then Inl ErrContentGone
    else Inr (update_content h (\<lambda>r. r\<lparr>r_state := Indexed, r_updated := now\<rparr>) d, ())"
  obtain t w' where "onStore (withTx ?body) w = (map_sum id snd (?body t (wdb w)), w')"
    by (rule onStore_quiet_tx [OF assms(1), of ?body])
  then have "onStore (UpdateContentState h Indexed) w = (Inr (), w')"
    using assms(2) by (simp add: UpdateContentState_def updateContent_def)
  then show ?thesis by (simp add: finalize_def)
qed

lemma indexText_quiet:
  assumes q: "quiet (w_store w)" and inv: "catalog_inv (wdb w)" and h: "c_Hash c \<in> hashes (wdb w)"
    and cur: "currentVecTable (wdb w) = Inr (table, desc)"
    and vs: "em_Passages (ix_Embedder ix) (w_tick w) (chunks tx (es_CeilingTokens (ix_spec ix))) = Inr vs"
      "length vs = length (chunks tx (es_CeilingTokens (ix_spec ix)))" "\<forall>v \<in> set vs. int (length v) = vd_Dims desc"
  shows "fst (indexText ix c tx w) = Inr \<lparr>pr_Outcome = OutcomeIndexed, pr_Err = None,
    pr_Warnings = length (res_Warnings (ChunkText tx (es_CeilingTokens (ix_spec ix))))\<rparr>"
proof -
  define chs where "chs = chunks tx (es_CeilingTokens (ix_spec ix))"
  define c' where "c' = c\<lparr>c_State := Chunked\<rparr>"
  have c': "c_Hash c' = c_Hash c" by (simp add: c'_def)
  have ord: "distinct (map ch_Ordinal chs)" by (simp add: chs_def chunk_ordinals)
  obtain t w1 where op: "onStore (StoreChunks c' chs) w = (map_sum id snd (storeChunksTx c' chs t (wdb w)), w1)"
    and d1: "wdb w1 = (case storeChunksTx c' chs t (wdb w) of Inl _ \<Rightarrow> wdb w | Inr (d, _) \<Rightarrow> d)"
    and q1: "quiet (w_store w1)" "w_tick w1 = w_tick w"
    by (rule onStore_quiet_tx [OF q, of "storeChunksTx c' chs", folded StoreChunks_def])
  obtain ids d where tx: "storeChunksTx c' chs t (wdb w) = Inr (d, ids)"
    using storeChunksTx_spec [OF inv _ ord, of c' t] h c' by metis
  have op': "onStore (StoreChunks c' chs) w = (Inr ids, w1)" and dw: "wdb w1 = d" using op d1 tx by simp_all
  note eff = storeChunksTx_effect [OF inv tx, unfolded c']
  have inv1: "catalog_inv (wdb w1)" using catalog_inv_storeChunksTx [OF inv tx] dw by simp
  have h1: "c_Hash c \<in> hashes (wdb w1)" using eff(7) gone_iff dw by (metis option.distinct(1))
  have cur1: "currentVecTable (wdb w1) = Inr (table, desc)"
    using eff(1) cur dw currentVecTable_cong [of d "wdb w"] by (simp add: same_elsewhere_def)
  show ?thesis
  proof (cases "chs = []")
    case True
    then show ?thesis
      using op' finalize_quiet [OF q1(1) h1] by (simp add: indexText_def Let_def chs_def c'_def)
  next
    case False
    have ne: "ids \<noteq> []" and len: "length ids = length vs"
      using eff(4) False vs(2) by (auto simp: chs_def simp del: chunks_length)
    have up: "UpsertVectors ids vs = withTx (upsertVectorsTx ids vs)"
      using ne len by (auto simp: UpsertVectors_def)
    have live: "length (filter (\<lambda>k. k_id k \<in> set ids) (db_chunks (wdb w1))) = length ids"
      using live_ids_iff [of "db_chunks (wdb w1)" ids] inv1 eff(5,6) dw
      by (simp add: catalog_inv_def content_inv_def chunk_ids_def)
    obtain rows where "map_of (db_vec_tables (wdb w1)) table = Some rows"
      using current_table_rows [OF _ cur1] inv1 by (auto simp: catalog_inv_def)
    then have tbl: "table \<in> fst ` set (db_vec_tables (wdb w1))" by (force dest: map_of_SomeD)
    have "\<forall>p \<in> set (zip ids vs). int (length (snd p)) = vd_Dims desc"
      using vs(3) by (auto dest: set_zip_rightD)
    then obtain d2 where ins: "insertVectors table (vd_Dims desc) (zip ids vs) (wdb w1) = Inr d2"
      using insertVectors_ok by blast
    then have utx: "\<And>t. upsertVectorsTx ids vs t (wdb w1) = Inr (d2, ())"
      by (simp add: upsertVectorsTx_def cur1 live tbl)
    obtain w2 where op2: "onStore (UpsertVectors ids vs) (tick w1) = (Inr (), w2)"
      and d2: "wdb w2 = d2" "quiet (w_store w2)"
    proof -
      have "quiet (w_store (tick w1))" using q1(1) by simp
      from onStore_quiet_tx [OF this, of "upsertVectorsTx ids vs"] that show ?thesis
        unfolding up by (auto simp: utx)
    qed
    have "db_content d2 = db_content (wdb w1)"
      using upsertVectorsTx_effect(3) [OF inv1 utx len, of "c_Hash c"] eff(3) dw by simp
    then have h2: "c_Hash c \<in> hashes (wdb w2)" using h1 d2(1) by (simp add: hashes_def)
    show ?thesis
      using op' op2 vs(1) q1(2) False finalize_quiet [OF d2(2) h2]
      by (simp add: indexText_def Let_def embedStage_def chs_def [symmetric] c'_def)
  qed
qed

section \<open>A demo world\<close>

text \<open>A discovered two-byte file, an empty generation of two dimensions, an embedder that always answers.\<close>

definition demo_hash :: hash where "demo_hash = contentDigest ''ab''"

definition pipe_db :: DB where
  "pipe_db = empty_db\<lparr>
     db_documents := [\<lparr>d_path = ''/a'', d_hash = Some demo_hash, d_unread = None, d_size = 2, d_mtime = 7\<rparr>],
     db_content := [demo_content_row demo_hash Discovered],
     db_vec_tables := [(''vec_chunks_1'', [])],
     db_vec_descs := [(''vec_chunks_1'', Some \<lparr>vd_Model = ''m'', vd_Dims = 2, vd_Layout = ''float32'',
       vd_Metric = ''cosine'', vd_QueryTemplate = '''', vd_PassageTemplate = '''', vd_CeilingTokens = 0\<rparr>)],
     db_vec_current := Some ''vec_chunks_1''\<rparr>"

definition demo_embedder :: Embedder where
  "demo_embedder = \<lparr>em_Spec = demo_spec, em_Query = (\<lambda>_ _. Inr [0, 1]),
     em_Passages = (\<lambda>_ chs. Inr (map (\<lambda>_. [0, 1]) chs))\<rparr>"

definition demo_indexer :: Indexer where
  "demo_indexer = \<lparr>ix_Embedder = demo_embedder, ix_Transient = (\<lambda>_. True), ix_spec = demo_spec,
     ix_fp = Fingerprint (\<lambda>s. s) demo_spec\<rparr>"

definition demo_reader :: reader where
  "demo_reader = (\<lambda>n p. if p = ''/a'' then Inr ''ab'' else Inl FsNotExist)"

definition pipe_world :: World where
  "pipe_world = \<lparr>w_store = demo_store pipe_db, w_tick = 0\<rparr>"

definition pipe_item :: WorkItem where
  "pipe_item = \<lparr>wi_Content = fromContentRow (demo_content_row demo_hash Discovered), wi_Path = ''/a'', wi_Paths = [''/gone'', ''/a'']\<rparr>"

lemma demo_hash_nonempty: "demo_hash \<noteq> ''''"
  using contentDigest_length [of "''ab''"] by (auto simp: demo_hash_def)

lemma pipe_world_simps [simp]: "wdb pipe_world = pipe_db" "quiet (w_store pipe_world)"
  by (simp_all add: pipe_world_def)

lemma pipe_inv: "catalog_inv pipe_db"
  using demo_hash_nonempty
  by (simp add: catalog_inv_defs pipe_db_def demo_content_row_def empty_db_def doc_row_ok_def
      vec_table_ok_def vecTableGen_def hasPrefix_def)

lemma pipe_hash [simp]: "c_Hash (wi_Content pipe_item) = demo_hash"
  by (simp add: pipe_item_def fromContentRow_def demo_content_row_def)

lemma pipe_hashes: "hashes pipe_db = {demo_hash}"
  by (simp add: hashes_def pipe_db_def demo_content_row_def)

lemma pipe_current: "currentVecTable pipe_db = Inr (''vec_chunks_1'', \<lparr>vd_Model = ''m'', vd_Dims = 2,
    vd_Layout = ''float32'', vd_Metric = ''cosine'', vd_QueryTemplate = '''', vd_PassageTemplate = '''', vd_CeilingTokens = 0\<rparr>)"
  by (simp add: currentVecTable_def pipe_db_def vecTableGen_def hasPrefix_def normalizeDesc_def)

lemma normalize_ab: "Normalize ''ab'' = Inr ''ab''"
  by code_simp

lemma demo_reads:
  "readVerified demo_reader pipe_item demo_hash pipe_world = (Inr (''ab'', ''/a''), tick (tick pipe_world))"
  by (simp add: readVerified_def pipe_item_def demo_reader_def demo_hash_def)

section \<open>Properties\<close>

text \<open>
  C32: Progress: when a copy of the content reads and verifies, its bytes decode, a generation is current
  and the embedder answers one vector of that generation's dimensions per chunk, then in a quiet
  world \<open>ProcessContent\<close> returns \<open>OutcomeIndexed\<close> with the number of warnings the chunker gave.
\<close>

theorem ProcessContent_indexes:
  assumes "quiet (w_store w)" "catalog_inv (wdb w)" "c_Hash (wi_Content item) \<in> hashes (wdb w)"
    and "readVerified rd item (c_Hash (wi_Content item)) w = (Inr (raw, p), w1)"
    and "Normalize raw = Inr tx" "currentVecTable (wdb w) = Inr (table, desc)"
    and "em_Passages (ix_Embedder ix) (w_tick w1) (chunks tx (es_CeilingTokens (ix_spec ix))) = Inr vs"
    and "length vs = length (chunks tx (es_CeilingTokens (ix_spec ix)))" "\<forall>v \<in> set vs. int (length v) = vd_Dims desc"
  shows "\<exists>w'. ProcessContent rd ix item sv w =
    (Inr \<lparr>pr_Outcome = OutcomeIndexed, pr_Err = None,
       pr_Warnings = length (res_Warnings (ChunkText tx (es_CeilingTokens (ix_spec ix))))\<rparr>, w')"
proof -
  have h: "c_Hash (mergeVersions (wi_Content item) sv) = c_Hash (wi_Content item)" by (simp add: mergeVersions_def)
  have s: "w_store w1 = w_store w" using assms(4) by (cases rule: readVerified_cases) auto
  then have "fst (indexText ix (mergeVersions (wi_Content item) sv) tx w1) =
      Inr \<lparr>pr_Outcome = OutcomeIndexed, pr_Err = None,
        pr_Warnings = length (res_Warnings (ChunkText tx (es_CeilingTokens (ix_spec ix))))\<rparr>"
    using assms h by (intro indexText_quiet) simp_all
  then show ?thesis
    using assms(4,5) h by (simp add: ProcessContent_def Let_def) (metis prod.collapse)
qed

theorem ProcessContent_indexes_witness:
  "\<exists>w'. ProcessContent demo_reader demo_indexer pipe_item (StageVersions demo_indexer 2) pipe_world =
    (Inr \<lparr>pr_Outcome = OutcomeIndexed, pr_Err = None,
       pr_Warnings = length (res_Warnings (ChunkText ''ab'' (es_CeilingTokens demo_spec)))\<rparr>, w')"
proof -
  have spec: "ix_spec demo_indexer = demo_spec" by (simp add: demo_indexer_def)
  show ?thesis
    using ProcessContent_indexes [of pipe_world pipe_item demo_reader "''ab''" "''/a''" "tick (tick pipe_world)" "''ab''"
        "''vec_chunks_1''" _ demo_indexer "map (\<lambda>_. [0, 1]) (chunks ''ab'' (es_CeilingTokens demo_spec))"
        "StageVersions demo_indexer 2"] pipe_current
    by (simp add: pipe_inv pipe_hashes demo_reads normalize_ab spec) (simp add: demo_indexer_def demo_embedder_def)
qed

text \<open>
  C31: Every outcome tells the truth about the catalog, whatever the file system, the embedder and the
  store answered. Indexed: some referencing path really held bytes with the content's digest, the
  chunks are exactly the chunker's for their decoded text, every chunk has a vector of the current
  dimensions, the row carries the new stage versions and its retry budget is untouched. Transient:
  the chunks are kept, the row is \<open>Chunked\<close>, nothing is burned. Failed: the reason is recorded and no
  chunk is left. Skipped, Changed: nothing at all was written.
\<close>

theorem ProcessContent_outcomes:
  assumes "ProcessContent rd ix item sv w = (Inr res, w')" "catalog_inv (wdb w)"
  shows "pr_Outcome res \<in> {OutcomeSkipped, OutcomeChanged} \<and> wdb w' = wdb w \<or>
    (\<exists>raw p n. p \<in> set (itemPaths item) \<and> rd n p = Inr raw \<and> contentDigest raw = c_Hash (wi_Content item) \<and>
      (case Normalize raw of
         Inl _ \<Rightarrow> pr_Outcome res \<in> {OutcomeFailed, OutcomeSuperseded} \<and>
           processed (mergeVersions (wi_Content item) sv) [] (wdb w) res (wdb w')
       | Inr txt \<Rightarrow> pr_Outcome res \<notin> {OutcomeSkipped, OutcomeChanged} \<and>
           processed (mergeVersions (wi_Content item) sv) (chunks txt (es_CeilingTokens (ix_spec ix))) (wdb w) res (wdb w')))"
  using ProcessContent_effect [OF assms] by blast

lemma demo_ix_indexes:
  obtains res w' where
    "ProcessContent demo_reader demo_indexer pipe_item (StageVersions demo_indexer 2) pipe_world = (Inr res, w')"
    "pr_Outcome res = OutcomeIndexed"
proof -
  have h: "c_Hash (mergeVersions (wi_Content pipe_item) (StageVersions demo_indexer 2)) = demo_hash"
    by (simp add: mergeVersions_def)
  have spec: "ix_spec demo_indexer = demo_spec" by (simp add: demo_indexer_def)
  let ?c = "mergeVersions (wi_Content pipe_item) (StageVersions demo_indexer 2)"
  let ?r = "\<lparr>pr_Outcome = OutcomeIndexed, pr_Err = None, pr_Warnings = length (res_Warnings (ChunkText ''ab'' (es_CeilingTokens (ix_spec demo_indexer))))\<rparr>"
  have "fst (indexText demo_indexer ?c ''ab'' (tick (tick pipe_world))) = Inr ?r"
    by (rule indexText_quiet [where vs = "map (\<lambda>_. [0, 1]) (chunks ''ab'' (es_CeilingTokens demo_spec))"])
      (use pipe_current in \<open>simp_all add: pipe_inv h pipe_hashes spec, simp_all add: demo_indexer_def demo_embedder_def\<close>)
  then obtain w' where w': "indexText demo_indexer ?c ''ab'' (tick (tick pipe_world)) = (Inr ?r, w')"
    by (metis prod.collapse)
  show ?thesis
    by (rule that [of ?r w']) (simp_all add: ProcessContent_def Let_def h demo_reads normalize_ab w')
qed

theorem ProcessContent_outcomes_witness:
  "\<exists>res w'. ProcessContent demo_reader demo_indexer pipe_item (StageVersions demo_indexer 2) pipe_world = (Inr res, w') \<and>
     embedded demo_hash (wdb w') \<and> row_becomes (mergeVersions (wi_Content pipe_item) (StageVersions demo_indexer 2)) Indexed pipe_db (wdb w')"
proof -
  obtain res w' where r: "ProcessContent demo_reader demo_indexer pipe_item (StageVersions demo_indexer 2) pipe_world = (Inr res, w')"
    "pr_Outcome res = OutcomeIndexed" by (rule demo_ix_indexes)
  have "catalog_inv (wdb pipe_world)" by (simp add: pipe_inv)
  from ProcessContent_outcomes [OF r(1) this] r(2)
  obtain raw where "case Normalize raw of
         Inl _ \<Rightarrow> pr_Outcome res \<in> {OutcomeFailed, OutcomeSuperseded} \<and>
           processed (mergeVersions (wi_Content pipe_item) (StageVersions demo_indexer 2)) [] (wdb pipe_world) res (wdb w')
       | Inr s \<Rightarrow> pr_Outcome res \<notin> {OutcomeSkipped, OutcomeChanged} \<and>
           processed (mergeVersions (wi_Content pipe_item) (StageVersions demo_indexer 2))
             (chunks s (es_CeilingTokens (ix_spec demo_indexer))) (wdb pipe_world) res (wdb w')"
    by auto
  then have "\<exists>chs. processed (mergeVersions (wi_Content pipe_item) (StageVersions demo_indexer 2)) chs (wdb pipe_world) res (wdb w')"
    by (cases "Normalize raw") auto
  moreover have "c_Hash (mergeVersions (wi_Content pipe_item) (StageVersions demo_indexer 2)) = demo_hash"
    by (simp add: mergeVersions_def)
  ultimately show ?thesis using r by (auto simp: processed_def)
qed

text \<open>
  C33: One content's pass is isolated: whatever happens, including an aborted pass, the catalog stays
  well-formed and documents, mounts, generations and every other content's row, chunks and vectors
  are exactly as they were.
\<close>

theorem ProcessContent_isolated:
  assumes "catalog_inv (wdb w)"
  shows "catalog_inv (wdb (snd (ProcessContent rd ix item sv w))) \<and>
    same_elsewhere (c_Hash (wi_Content item)) (wdb w) (wdb (snd (ProcessContent rd ix item sv w)))"
  using ProcessContent_effect [OF prod.collapse [symmetric] assms] by blast

theorem ProcessContent_isolated_witness:
  "db_documents (wdb (snd (ProcessContent demo_reader demo_indexer pipe_item (StageVersions demo_indexer 2)
     (pipe_world\<lparr>w_store := (demo_store pipe_db)\<lparr>st_world := [(1, Ok), (2, Ok), (3, Fault ''disk full'')]\<rparr>\<rparr>)))) = db_documents pipe_db"
  using ProcessContent_isolated [of "pipe_world\<lparr>w_store := (demo_store pipe_db)\<lparr>st_world := [(1, Ok), (2, Ok), (3, Fault ''disk full'')]\<rparr>\<rparr>"
      demo_reader demo_indexer pipe_item "StageVersions demo_indexer 2"] pipe_inv
  by (simp add: same_elsewhere_def demo_store_def)

text \<open>
  The single-writer claim of the pipeline: as long as the content's row is in the catalog when its
  pass starts, the pass is never superseded; its own chunk ids are always live when their vectors
  are written.
\<close>

theorem ProcessContent_never_superseded:
  assumes "catalog_inv (wdb w)" "c_Hash (wi_Content item) \<in> hashes (wdb w)"
    and "ProcessContent rd ix item sv w = (Inr res, w')"
  shows "pr_Outcome res \<noteq> OutcomeSuperseded"
  by (rule ProcessContent_not_superseded [OF assms(3,1,2)])

theorem ProcessContent_never_superseded_witness:
  "\<exists>res w'. ProcessContent demo_reader demo_indexer pipe_item (StageVersions demo_indexer 2) pipe_world = (Inr res, w') \<and>
     pr_Outcome res \<noteq> OutcomeSuperseded"
proof -
  obtain res w' where r: "ProcessContent demo_reader demo_indexer pipe_item (StageVersions demo_indexer 2) pipe_world = (Inr res, w')"
    by (rule demo_ix_indexes)
  show ?thesis
    using ProcessContent_never_superseded [of pipe_world pipe_item, OF _ _ r] r by (simp add: pipe_inv pipe_hashes)
qed

end
