(* ===== verification/PipelineRun.thy ===== *)
theory PipelineRun
  imports PipelineFacts
begin

text \<open>
  Whole runs of the indexing pipeline (pipeline.go: Run): when a run does nothing at all, what its
  summary adds up to, and that what a run indexed is left alone by the queue and by later runs.
\<close>

section \<open>Runs\<close>

lemma ensureVecTableTx_content:
  assumes "catalog_inv d" "ensureVecTableTx want now d = Inr (d', u)"
  shows "db_content d' = db_content d"
  using assms by (cases rule: ensureVecTableTx_cases [of d want now]) (auto simp: Let_def)

lemma Prepare_hashes:
  assumes "Prepare ix w = (r, w')" "catalog_inv (wdb w)"
  shows "hashes (wdb w') = hashes (wdb w)"
proof -
  have ens: "hashes (st_db s') = hashes (st_db s)"
    if e: "EnsureVecTable sp dims s = (q, s')" and inv: "catalog_inv (st_db s)" for sp dims s q s'
  proof (cases "es_Model sp = '''' \<or> dims < 1 \<or> dims > 8192")
    case False
    then have s': "s' = snd (withTx (ensureVecTableTx (wantDesc sp dims)) s)"
      using e by (simp add: EnsureVecTable_def)
    show ?thesis
      unfolding s'
      by (cases "ensureVecTableTx (wantDesc sp dims)" s rule: withTx_cases)
        (simp_all add: hashes_def ensureVecTableTx_content [OF inv])
  qed (use e in \<open>auto simp: EnsureVecTable_def split: if_splits\<close>)

  show ?thesis
  proof (cases "em_Query (ix_Embedder ix) (w_tick w) ''bsearch dimension probe''")
    case (Inr probe)
    obtain q s' where e: "EnsureVecTable (ix_spec ix) (int (length probe)) (w_store (tick w)) = (q, s')" by fastforce
    have "hashes (st_db s') = hashes (wdb w)" using ens [OF e] assms(2) by simp
    moreover have "onStore (EnsureVecTable (ix_spec ix) (int (length probe))) (tick w) = (q, (tick w)\<lparr>w_store := s'\<rparr>)"
      by (simp only: onStore_def e prod.case)
    ultimately show ?thesis
      using assms(1) unfolding Prepare_def Inr sum.case Let_def
      by (cases "probe = []"; cases q) (auto simp: hashes_def)
  qed (use assms in \<open>auto simp: Prepare_def\<close>)
qed

text \<open>The work items of one catalog snapshot: one per content, every content in the catalog.\<close>

definition snapshot_items :: "DB \<Rightarrow> WorkItem list \<Rightarrow> bool" where
  "snapshot_items d items \<longleftrightarrow>
     distinct (map (\<lambda>i. c_Hash (wi_Content i)) items) \<and> (\<forall>i \<in> set items. c_Hash (wi_Content i) \<in> hashes d)"

lemma snapshot_items_mset:
  "snapshot_items d items \<Longrightarrow> mset items' \<subseteq># mset items \<Longrightarrow> snapshot_items d items'"
proof -
  assume s: "snapshot_items d items" and m: "mset items' \<subseteq># mset items"
  obtain rest where "mset items = mset (items' @ rest)"
    using m by (metis ex_mset mset_append subset_mset.le_iff_add)
  then have "mset (map f items) = mset (map f (items' @ rest))" for f :: "WorkItem \<Rightarrow> hash" by simp
  then have "distinct (map (\<lambda>i. c_Hash (wi_Content i)) (items' @ rest))"
    using s unfolding snapshot_items_def by (metis mset_eq_imp_distinct_iff)
  then have "distinct (map (\<lambda>i. c_Hash (wi_Content i)) items')" by simp

  moreover have "set items' \<subseteq> set items" using m by (metis set_mset_mono set_mset_mset)
  ultimately show ?thesis using s by (auto simp: snapshot_items_def)
qed

lemma firstPass_split:
  "mset (fst (firstPass ix items)) + mset (snd (firstPass ix items)) \<subseteq># mset items"
  "length (fst (firstPass ix items)) + length (snd (firstPass ix items)) +
     length (filter (stillFailed ix) items) = length items"
proof -
  have excl: "\<not> (stillFailed ix i \<and> looksCurrent ix i)" for i by (simp add: stillFailed_def looksCurrent_def)
  show "length (fst (firstPass ix items)) + length (snd (firstPass ix items)) +
     length (filter (stillFailed ix) items) = length items"
    using excl by (induction items) (auto simp: firstPass_def)
  show "mset (fst (firstPass ix items)) + mset (snd (firstPass ix items)) \<subseteq># mset items"
    by (induction items) (auto simp: firstPass_def intro: subset_mset.order_trans)
qed

lemma listed_items_snapshot:
  assumes "ListWorkItems s = (Inr items, s')" "catalog_inv (st_db s)"
  shows "st_db s' = st_db s" "snapshot_items (st_db s) items"
proof -
  note read = withReader_result [OF assms(1) [unfolded ListWorkItems_def]]
  then show "st_db s' = st_db s" by simp
  define one where "one r = (case holders (r_hash r) (st_db s) of [] \<Rightarrow> []
      | d # _ \<Rightarrow> [\<lparr>wi_Content = fromContentRow r, wi_Path = d_path d, wi_Paths = [d_path d]\<rparr>])" for r
  have hash1: "map (\<lambda>i. c_Hash (wi_Content i)) (one r) = (if one r = [] then [] else [r_hash r])" for r
    by (simp add: one_def fromContentRow_def split: list.split)
  then have flat: "map (\<lambda>i. c_Hash (wi_Content i)) (List.concat (map one rows)) = map r_hash (filter (\<lambda>r. one r \<noteq> []) rows)" for rows
    by (induction rows) auto
  have items: "items = sort_key wi_Path (List.concat (map one (db_content (st_db s))))"
    using read by (simp add: one_def [abs_def])
  have "mset (map f items) = mset (map f (List.concat (map one (db_content (st_db s)))))" for f :: "WorkItem \<Rightarrow> hash"
    by (simp add: items)
  then have "mset (map (\<lambda>i. c_Hash (wi_Content i)) items) = mset (map r_hash (filter (\<lambda>r. one r \<noteq> []) (db_content (st_db s))))"
    using flat by metis
  moreover have "distinct (map r_hash (filter (\<lambda>r. one r \<noteq> []) (db_content (st_db s))))"
    using assms(2) by (simp add: catalog_inv_def content_inv_def distinct_map_filter)
  ultimately have "distinct (map (\<lambda>i. c_Hash (wi_Content i)) items)"
    "set (map (\<lambda>i. c_Hash (wi_Content i)) items) = set (map r_hash (filter (\<lambda>r. one r \<noteq> []) (db_content (st_db s))))"
    by (blast dest: mset_eq_imp_distinct_iff mset_eq_setD)+
  then show "snapshot_items (st_db s) items" by (auto simp: snapshot_items_def hashes_def)
qed

lemma RunIndexer_accounts:
  assumes "RunIndexer rd ix items w = ((su, None), w')" "catalog_inv (wdb w)" "snapshot_items (wdb w) items"
  shows "accounted su + length (filter (stillFailed ix) items) = length items"
proof -
  obtain work current where fp: "firstPass ix items = (work, current)" by fastforce
  note split = firstPass_split [of ix items, unfolded fp fst_conv snd_conv]
  show ?thesis
  proof (cases "work = []")
    case True
    then have "su = emptySummary\<lparr>su_UpToDate := length current\<rparr>" using assms(1) fp by (simp add: RunIndexer_def)
    then show ?thesis using split(2) True by (simp add: accounted_def emptySummary_def)
  next
    case False
    obtain r w1 where p: "Prepare ix w = (r, w1)" by fastforce
    then obtain dims where r: "r = Inr dims" using assms(1) fp False by (cases r) (auto simp: RunIndexer_def)
    obtain work' su0 where sp: "secondPass (StageVersions ix dims) current work emptySummary = (work', su0)" by fastforce
    have run: "workLoop rd ix (StageVersions ix dims) work' su0 w1 = ((su, None), w')"
      using assms(1) fp False p r sp by (simp add: RunIndexer_def)
    note second = secondPass_split [OF sp]
    have "snapshot_items (wdb w) work'"
      using snapshot_items_mset [OF assms(3)] second split(1) by (meson conjunct2 subset_mset.order_trans)
    then have "snapshot_items (wdb w1) work'" using Prepare_hashes [OF p assms(2)] by (simp add: snapshot_items_def)
    moreover have "catalog_inv (wdb w1)" by (rule prepare.keeps_result [OF p assms(2)])
    ultimately have "accounted su = accounted su0 + length work'"
      using workLoop_accounted [OF run] by (simp add: snapshot_items_def)
    then show ?thesis using second split(2) by (simp add: accounted_def emptySummary_def)
  qed
qed

section \<open>What a run settles\<close>

lemma stage_after:
  "(m ++ map_of (StageVersions ix dims)) StageChunker = Some Version"
  "(m ++ map_of (StageVersions ix dims)) StageEmbedding = Some (ix_fp ix)"
  "(m ++ map_of (StageVersions ix dims)) StageEmbeddingDims = Some (decimal dims)"
  "(m ++ map_of (StageVersions ix dims)) StageVecMetric = Some VectorMetric"
  by (simp_all add: StageVersions_def StageChunker_def StageEmbedding_def StageEmbeddingDims_def StageVecMetric_def)

lemma outdated_versions:
  "m StageChunker = Some Version \<Longrightarrow> m StageEmbedding = Some fp \<Longrightarrow> m StageEmbeddingDims = Some d \<Longrightarrow>
   m StageVecMetric = Some VectorMetric \<Longrightarrow>
   (\<exists>(k, v) \<in> set (StageVersions ix dims). m k \<noteq> Some v) \<longleftrightarrow> ix_fp ix \<noteq> fp \<or> decimal dims \<noteq> d"
  by (auto simp: StageVersions_def)

lemma ProcessContent_row:
  assumes "ProcessContent rd ix item sv w = (Inr res, w')" "pr_Outcome res = OutcomeIndexed" "catalog_inv (wdb w)"
  shows "row_becomes (mergeVersions (wi_Content item) sv) Indexed (wdb w) (wdb w')"
  using ProcessContent_processed [OF assms(1,3)] assms(2) by (auto simp: processed_def)

section \<open>A demo catalog that is up to date\<close>

definition settled_row :: "hash \<Rightarrow> ContentState \<Rightarrow> contentRow" where
  "settled_row h st = (demo_content_row h st)\<lparr>r_stage := map_of (StageVersions demo_indexer 2)\<rparr>"

definition settled_db :: DB where
  "settled_db = empty_db\<lparr>
     db_documents := [\<lparr>d_path = ''/a'', d_hash = Some ''h1'', d_unread = None, d_size = 2, d_mtime = 7\<rparr>,
       \<lparr>d_path = ''/b'', d_hash = Some ''h2'', d_unread = None, d_size = 2, d_mtime = 7\<rparr>],
     db_content := [settled_row ''h1'' Indexed, settled_row ''h2'' Failed]\<rparr>"

definition settled_items :: "WorkItem list" where
  "settled_items = [\<lparr>wi_Content = fromContentRow (settled_row ''h1'' Indexed), wi_Path = ''/a'', wi_Paths = [''/a'']\<rparr>,
     \<lparr>wi_Content = fromContentRow (settled_row ''h2'' Failed), wi_Path = ''/b'', wi_Paths = [''/b'']\<rparr>]"

lemma settled_inv: "catalog_inv settled_db"
  by (simp add: catalog_inv_defs settled_db_def settled_row_def demo_content_row_def empty_db_def doc_row_ok_def)

lemma settled_listed: "ListWorkItems (demo_store settled_db) = (Inr settled_items, demo_store settled_db)"
  by (simp add: ListWorkItems_def withReader_def driver_def demo_store_def settled_db_def settled_items_def
      settled_row_def demo_content_row_def holders_def empty_db_def)

lemma settled_versions: "versionsCurrent demo_indexer (fromContentRow (settled_row h st))"
  using stage_after [of Map.empty demo_indexer 2]
  by (simp add: versionsCurrent_def fromContentRow_def settled_row_def)

lemma settled_states:
  "stillFailed demo_indexer \<lparr>wi_Content = fromContentRow (settled_row h st), wi_Path = p, wi_Paths = ps\<rparr> \<longleftrightarrow> st = Failed"
  "looksCurrent demo_indexer \<lparr>wi_Content = fromContentRow (settled_row h st), wi_Path = p, wi_Paths = ps\<rparr> \<longleftrightarrow> st = Indexed"
  using settled_versions [of h st]
  by (auto simp: stillFailed_def looksCurrent_def) (auto simp: fromContentRow_def settled_row_def demo_content_row_def)

lemma settled_run:
  "RunIndexer rd demo_indexer settled_items w = ((emptySummary\<lparr>su_UpToDate := 1\<rparr>, None), w)"
  by (simp add: RunIndexer_def firstPass_def settled_items_def settled_states)

section \<open>Properties\<close>

text \<open>
  An up-to-date run makes no call at all: when every item is indexed under the indexer's versions
  or stays failed under them, \<open>Run\<close> probes no embedder, reads no file, writes nothing (the world it
  returns is the world it got) and reports exactly the indexed items as up to date.
\<close>

theorem Run_up_to_date:
  assumes "\<forall>i \<in> set items. stillFailed ix i \<or> looksCurrent ix i"
  shows "RunIndexer rd ix items w =
    ((emptySummary\<lparr>su_UpToDate := length (filter (\<lambda>i. c_State (wi_Content i) = Indexed) items)\<rparr>, None), w)"
proof -
  have "filter (looksCurrent ix) items = filter (\<lambda>i. c_State (wi_Content i) = Indexed) items"
    by (intro filter_cong refl) (use assms in \<open>auto simp: stillFailed_def looksCurrent_def\<close>)
  moreover have "filter (\<lambda>i. \<not> stillFailed ix i \<and> \<not> looksCurrent ix i) items = []"
    using assms by (simp add: filter_empty_conv)
  ultimately show ?thesis by (simp add: RunIndexer_def firstPass_def)
qed

theorem Run_up_to_date_witness:
  "RunIndexer demo_reader demo_indexer settled_items pipe_world = ((emptySummary\<lparr>su_UpToDate := 1\<rparr>, None), pipe_world)"
  using Run_up_to_date [of settled_items demo_indexer demo_reader pipe_world]
  by (simp add: settled_items_def settled_states) (simp add: fromContentRow_def settled_row_def demo_content_row_def)

text \<open>
  C34: A run that reports no error accounts for every content it was given: on the list \<open>ListWorkItems\<close>
  returned, the indexed, up-to-date, failed and skipped counts together with the items that stay
  failed are all the items, whatever the file system, the embedder and the store answered meanwhile.
\<close>

theorem Run_accounts:
  assumes "catalog_inv (wdb w)" "ListWorkItems (w_store w) = (Inr items, s)"
    and "RunIndexer rd ix items (w\<lparr>w_store := s\<rparr>) = ((su, None), w')"
  shows "su_Indexed su + su_UpToDate su + su_Failed su + su_Skipped su + length (filter (stillFailed ix) items) =
    length items"
  using RunIndexer_accounts [OF assms(3)] listed_items_snapshot [OF assms(2,1)] assms(1) by (simp add: accounted_def)

theorem Run_accounts_witness:
  "\<exists>su. RunIndexer demo_reader demo_indexer settled_items \<lparr>w_store = demo_store settled_db, w_tick = 0\<rparr> =
      ((su, None), \<lparr>w_store = demo_store settled_db, w_tick = 0\<rparr>) \<and>
    su_Indexed su + su_UpToDate su + su_Failed su + su_Skipped su = 1"
  using Run_accounts [of "\<lparr>w_store = demo_store settled_db, w_tick = 0\<rparr>" settled_items "demo_store settled_db"
      demo_reader demo_indexer "emptySummary\<lparr>su_UpToDate := 1\<rparr>" "\<lparr>w_store = demo_store settled_db, w_tick = 0\<rparr>"]
    settled_inv settled_listed settled_run
  by (simp add: settled_items_def settled_states)

text \<open>
  What a pass indexed is settled until the configuration changes: the row it leaves is due at no
  time, a later run with the same indexer takes it for current, and the reset of stale rows moves it
  exactly when the fingerprint of the embedding or the recorded dimensions differ.
\<close>

theorem indexed_is_settled:
  assumes "ProcessContent rd ix item (StageVersions ix dims) w = (Inr res, w')" "pr_Outcome res = OutcomeIndexed"
    and "catalog_inv (wdb w)"
  shows "\<exists>r. content_map (wdb w') (c_Hash (wi_Content item)) = Some r \<and>
    \<not> due now r \<and> versionsCurrent ix (fromContentRow r) \<and> c_State (fromContentRow r) = Indexed \<and>
    (staleRow (StageVersions ix2 dims2) r \<longleftrightarrow> ix_fp ix2 \<noteq> ix_fp ix \<or> decimal dims2 \<noteq> decimal dims)"
proof -
  obtain r0 t where r: "content_map (wdb w') (c_Hash (wi_Content item)) =
      Some (r0\<lparr>r_stage := c_StageVersions (wi_Content item) ++ map_of (StageVersions ix dims), r_state := Indexed, r_updated := t\<rparr>)"
    using ProcessContent_row [OF assms] by (auto simp: row_becomes_def mergeVersions_def)
  note st = stage_after [of "c_StageVersions (wi_Content item)" ix dims]
  show ?thesis
    by (intro exI conjI, rule r)
      (simp_all add: due_def Terminal_def TerminalContentStates_def versionsCurrent_def fromContentRow_def staleRow_def st outdated_versions [OF st])
qed

theorem indexed_is_settled_witness:
  "\<exists>w' r. content_map (wdb w') demo_hash = Some r \<and> \<not> due 10 r \<and> \<not> staleRow (StageVersions demo_indexer 2) r"
proof -
  obtain res w' where r: "ProcessContent demo_reader demo_indexer pipe_item (StageVersions demo_indexer 2) pipe_world = (Inr res, w')"
    "pr_Outcome res = OutcomeIndexed" by (rule demo_ix_indexes)
  have "catalog_inv (wdb pipe_world)" by (simp add: pipe_inv)
  from indexed_is_settled [OF r this, of 10 demo_indexer 2] show ?thesis by auto
qed

end
