(* ===== verification/Paths.thy ===== *)
theory Paths
  imports Outside
begin

text \<open>
  Paths and the file system as discovery sees them: the lexical functions of Go's \<open>path/filepath\<close>
  the sources call, the file system as an environment of answers, \<open>filepath.WalkDir\<close> over them, and
  pathutil/pathutil.go.
\<close>

section \<open>Lexical path functions (path/filepath)\<close>

definition IsAbs :: "path \<Rightarrow> bool" where "IsAbs p = hasPrefix p ''/''"

text \<open>\<open>Clean\<close>: empty and dot elements go, a dotdot takes the element before it; \<open>out\<close> is reversed.\<close>

fun cleanLoop :: "bool \<Rightarrow> string list \<Rightarrow> string list \<Rightarrow> string list" where
  "cleanLoop rooted out [] = rev out"
| "cleanLoop rooted out (c # cs) =
     (if c = '''' \<or> c = ''.'' then cleanLoop rooted out cs
      else if c = ''..'' then
        (if out \<noteq> [] \<and> hd out \<noteq> ''..'' then cleanLoop rooted (tl out) cs
         else if rooted then cleanLoop rooted out cs
         else cleanLoop rooted (c # out) cs)
      else cleanLoop rooted (c # out) cs)"

definition Clean :: "path \<Rightarrow> path" where
  "Clean p =
     (let rooted = hasPrefix p ''/'';
          out = joinStr (cleanLoop rooted [] (splitStr p ''/'')) ''/''
      in if rooted then ''/'' @ out else if out = '''' then ''.'' else out)"

text \<open>What follows the last slash, and what precedes it with the slash.\<close>

definition lastElem :: "path \<Rightarrow> string" where
  "lastElem p = (case lastIndex p ''/'' of None \<Rightarrow> p | Some i \<Rightarrow> drop (i + 1) p)"

definition Dir :: "path \<Rightarrow> path" where
  "Dir p = Clean (case lastIndex p ''/'' of None \<Rightarrow> '''' | Some i \<Rightarrow> take (i + 1) p)"

definition Base :: "path \<Rightarrow> string" where
  "Base p =
     (if p = '''' then ''.''
      else let e = lastElem (trimRightSet p ''/'') in if e = '''' then ''/'' else e)"

definition Ext :: "path \<Rightarrow> string" where
  "Ext p = (let e = lastElem p in case lastIndex e ''.'' of None \<Rightarrow> '''' | Some i \<Rightarrow> drop i e)"

definition JoinPath :: "path \<Rightarrow> string \<Rightarrow> path" where
  "JoinPath dir name = Clean (dir @ ''/'' @ name)"

text \<open>
  \<open>strings.ToLower\<close> as far as it can yield ASCII: the ASCII capitals, the Kelvin sign (to \<open>k\<close>) and the
  dotted capital I (to \<open>i\<close>). Every other rune keeps or gets an encoding outside ASCII.
\<close>

fun lowerASCII :: "string \<Rightarrow> string" where
  "lowerASCII [] = []"
| "lowerASCII (c # s) =
     (if CHR ''A'' \<le> c \<and> c \<le> CHR ''Z'' then char_of (of_char c + (32 :: nat)) # lowerASCII s
      else if hasPrefix (c # s) [CHR 0xE2, CHR 0x84, CHR 0xAA] then CHR ''k'' # lowerASCII (drop 2 s)
      else if hasPrefix (c # s) [CHR 0xC4, CHR 0xB0] then CHR ''i'' # lowerASCII (drop 1 s)
      else c # lowerASCII s)"

section \<open>Parents get shorter\<close>

lemma hasPrefix_slash [simp]: "hasPrefix [] ''/'' = False" "hasPrefix (c # s) ''/'' = (c = CHR ''/'')"
  by (auto simp: hasPrefix_def)

definition weight :: "string list \<Rightarrow> nat" where
  "weight cs = sum_list (map (\<lambda>c. Suc (length c)) cs)"

lemma weight_simps [simp]: "weight [] = 0" "weight (c # cs) = Suc (length c) + weight cs" "weight (as @ bs) = weight as + weight bs"
  "weight (rev cs) = weight cs"
  by (simp_all add: weight_def rev_map [symmetric])

lemma splitOn_weight: "weight (splitOn acc s ''/'') = Suc (length acc + length s)"
  by (induction acc s "''/''" rule: splitOn.induct) auto

lemma splitOn_snoc: "splitOn acc (s @ ''/'') ''/'' = splitOn acc s ''/'' @ ['''']"
  by (induction acc s "''/''" rule: splitOn.induct) auto

lemma length_joinStr: "length (joinStr cs ''/'') = weight cs - 1"
  by (induction cs "''/''" rule: joinStr.induct) auto

lemma weight_tl: "weight (tl out) \<le> weight out"
  by (cases out) simp_all

lemma cleanLoop_weight: "weight (cleanLoop rooted out cs) \<le> weight out + weight (filter (\<lambda>c. c \<noteq> '''') cs)"
proof (induction cs arbitrary: out)
  case (Cons c cs)
  have eq: "filter (\<lambda>c. c \<noteq> '''') (c # cs) = (if c = '''' then [] else [c]) @ filter (\<lambda>c. c \<noteq> '''') cs" by simp
  define dot dots where "dot = ''.''" and "dots = ''..''"
  have "weight (cleanLoop rooted out cs) \<le> weight out + weight (filter (\<lambda>c. c \<noteq> '''') cs)"
    "weight (cleanLoop rooted (tl out) cs) \<le> weight out + weight (filter (\<lambda>c. c \<noteq> '''') cs)"
    "weight (cleanLoop rooted (c # out) cs) \<le> Suc (length c) + weight out + weight (filter (\<lambda>c. c \<noteq> '''') cs)"
    using Cons.IH [of out] Cons.IH [of "tl out"] Cons.IH [of "c # out"] weight_tl [of out] by simp_all
  then show ?case
    unfolding eq cleanLoop.simps dot_def [symmetric] dots_def [symmetric] weight_simps
    by (cases "c = ''''") auto
qed simp

lemma weight_filter: "weight (filter (\<lambda>c. c \<noteq> '''') cs) + length (filter (\<lambda>c. c = '''') cs) = weight cs"
  by (induction cs) auto

lemma Clean_length:
  assumes "p \<noteq> ''''" "Clean p \<noteq> ''.''"
  shows "length (Clean p) + length (filter (\<lambda>c. c = '''') (splitStr p ''/'')) \<le> length p + (if hasPrefix p ''/'' then 1 else 0)
    \<or> Clean p = ''/''"
proof -
  let ?cs = "splitStr p ''/''" and ?k = "cleanLoop (hasPrefix p ''/'') [] (splitStr p ''/'')"
  have "weight ?k + length (filter (\<lambda>c. c = '''') ?cs) \<le> Suc (length p)"
    using cleanLoop_weight [of "hasPrefix p ''/''" "[]" ?cs] weight_filter [of ?cs] splitOn_weight [of "[]" p]
    by (simp add: splitStr_def)
  then show ?thesis
    using assms(2) by (cases ?k) (auto simp: Clean_def Let_def length_joinStr split: if_splits)
qed

lemma Clean_nonempty: "Clean p \<noteq> ''''"
  by (simp add: Clean_def Let_def)

definition pathSize :: "path \<Rightarrow> nat" where
  "pathSize p = (if p = ''.'' then 0 else if p = '''' then 1 else length p)"

lemma lastIndex_slash:
  assumes "lastIndex p ''/'' = Some i"
  shows "take (i + 1) p = take i p @ ''/''" "i < length p"
proof -
  have "hasPrefix (drop i p) ''/''" by (rule lastIndex_Some [OF assms])
  then show "i < length p" by (cases "i < length p") auto
  then show "take (i + 1) p = take i p @ ''/''"
    using \<open>hasPrefix (drop i p) ''/''\<close> by (simp add: take_Suc_conv_app_nth Cons_nth_drop_Suc [symmetric])
qed

lemma Dir_smaller:
  assumes "Dir p \<noteq> p"
  shows "pathSize (Dir p) < pathSize p"
proof (cases "lastIndex p ''/''")
  case None
  have "Dir p = ''.''" using None by (simp add: Dir_def Clean_def splitStr_def)
  then show ?thesis using assms by (auto simp: pathSize_def)
next
  case (Some i)
  define x where "x = take (i + 1) p"
  note li = lastIndex_slash [OF Some]
  have d: "Dir p = Clean x" using Some by (simp add: Dir_def x_def)
  have x: "x = take i p @ ''/''" "length x = Suc i" "x \<noteq> ''''" using li by (simp_all add: x_def)
  have dot: "p \<noteq> ''.''" using Some by (auto simp: lastIndex_def)
  have size: "pathSize p = length p" "length x \<le> length p" using dot li by (auto simp: pathSize_def x)
  have e: "splitStr x ''/'' = splitOn [] (take i p) ''/'' @ ['''']"
    by (simp add: x splitStr_def splitOn_snoc)
  show ?thesis
  proof (cases "Clean x = ''.'' \<or> Clean x = ''/''")
    case True
    have "p = ''/''" if "length p = 1" using that li x size by (cases p) (auto simp: x_def)
    then have "Clean x = ''/'' \<longrightarrow> length p \<noteq> 1" using assms d by auto
    then show ?thesis using True size x(2) li(2) by (auto simp: d pathSize_def)
  next
    case False
    then have l: "length (Clean x) + length (filter (\<lambda>c. c = '''') (splitStr x ''/'')) \<le> length x + (if hasPrefix x ''/'' then 1 else 0)"
      using Clean_length [OF x(3)] by blast
    have "length (Clean x) < length x"
    proof (cases "take i p")
      case Nil
      then have "x = ''/''" unfolding x(1) by simp
      then have "Clean x = ''/''" by (simp add: Clean_def splitStr_def)
      then show ?thesis using False by blast
    next
      case (Cons c ys)
      have "1 + (if hasPrefix x ''/'' then 1 else 0) \<le> length (filter (\<lambda>c. c = '''') (splitStr x ''/''))"
        unfolding e by (auto simp: Cons x)
      then show ?thesis using l by linarith
    qed
    then show ?thesis using size Clean_nonempty [of x] False by (simp add: d pathSize_def)
  qed
qed

text \<open>A predicate on the ancestors, the path itself included, asked from the path up.\<close>

function climb :: "(path \<Rightarrow> bool) \<Rightarrow> path \<Rightarrow> bool" where
  "climb P p = (if P p then True else if Dir p = p then False else climb P (Dir p))"
  by pat_completeness auto
termination by (relation "measure (\<lambda>(P, p). pathSize p)") (auto simp: Dir_smaller)

declare climb.simps [simp del]

section \<open>The file system\<close>

datatype FileType = RegularFile | Directory | Symlink | OtherFile

text \<open>\<open>fs.FileInfo\<close>: the type and permission-free mode, size, mtime, and the dataless flag of the platform.\<close>

record FileInfo =
  fi_type :: FileType
  fi_size :: int
  fi_mtime :: int
  fi_dataless :: bool

text \<open>
  A directory entry with what reading it will find: the entries beneath, in the order read, and the
  error that cut the read short, if one did.
\<close>

datatype Entry = Entry (en_name: string) (en_type: FileType) (en_kids: "Entry list") (en_err: "FsErr option")

text \<open>
  The answers of the file system: \<open>os.Lstat\<close>, what \<open>WalkDir\<close> finds at a path, the bytes of a file
  (opened and read to the end), \<open>os.ReadDir\<close> names, \<open>filepath.EvalSymlinks\<close> and the mount table
  with whether the platform can answer; \<open>fs_fold\<close> is \<open>strings.EqualFold\<close>, which follows Go's Unicode tables.
\<close>

record FS =
  fs_lstat :: "nat \<Rightarrow> path \<Rightarrow> FsErr + FileInfo"
  fs_walk :: "nat \<Rightarrow> path \<Rightarrow> FsErr + FileInfo \<times> Entry list \<times> FsErr option"
  fs_bytes :: "nat \<Rightarrow> path \<Rightarrow> FsErr + string"
  fs_names :: "nat \<Rightarrow> path \<Rightarrow> FsErr + string list"
  fs_eval :: "nat \<Rightarrow> path \<Rightarrow> FsErr + path"
  fs_mounts :: "nat \<Rightarrow> FsErr + path list \<times> bool"
  fs_fold :: "string \<Rightarrow> string \<Rightarrow> bool"

definition ask :: "(nat \<Rightarrow> 'a) \<Rightarrow> World \<Rightarrow> 'a \<times> World" where
  "ask q w = (q (w_tick w), tick w)"

section \<open>\<open>filepath.WalkDir\<close>\<close>

text \<open>
  The callback gets the path, the entry (its type, and the stat when the entry came from one) and the
  error, and answers nil, \<open>fs.SkipDir\<close> or an error that ends the walk.
\<close>

datatype 'e WalkAns = WalkOn | SkipDir | WalkErr 'e

type_synonym ('e, 's) walkFn =
  "path \<Rightarrow> (FileType \<times> FileInfo option) option \<Rightarrow> FsErr option \<Rightarrow> 's \<Rightarrow> 'e WalkAns \<times> 's"

definition dirAns :: "FileType \<Rightarrow> 'e WalkAns \<Rightarrow> 'e WalkAns" where
  "dirAns ty ans = (if ans = SkipDir \<and> ty = Directory then WalkOn else ans)"

fun walkDir :: "('e, 's) walkFn \<Rightarrow> path \<Rightarrow> FileInfo option \<Rightarrow> Entry \<Rightarrow> 's \<Rightarrow> 'e WalkAns \<times> 's"
and walkKids :: "('e, 's) walkFn \<Rightarrow> path \<Rightarrow> Entry list \<Rightarrow> 's \<Rightarrow> 'e WalkAns \<times> 's" where
  "walkDir f p stat (Entry name ty kids err) s =
     (case f p (Some (ty, stat)) None s of
        (ans, s1) \<Rightarrow>
          if ans \<noteq> WalkOn \<or> ty \<noteq> Directory then (dirAns ty ans, s1)
          else (case err of
                  None \<Rightarrow> walkKids f p kids s1
                | Some e \<Rightarrow>
                    (case f p (Some (ty, stat)) (Some e) s1 of
                       (ans2, s2) \<Rightarrow> if ans2 \<noteq> WalkOn then (dirAns ty ans2, s2) else walkKids f p kids s2)))"
| "walkKids f p [] s = (WalkOn, s)"
| "walkKids f p (k # ks) s =
     (case walkDir f (JoinPath p (en_name k)) None k s of
        (ans, s1) \<Rightarrow>
          (case ans of
             WalkOn \<Rightarrow> walkKids f p ks s1
           | SkipDir \<Rightarrow> (WalkOn, s1)
           | WalkErr e \<Rightarrow> (WalkErr e, s1)))"

text \<open>The walk of a root found as \<open>found\<close>: the error that ended it, if one did.\<close>

definition WalkDir :: "('e, 's) walkFn \<Rightarrow> path \<Rightarrow> (FsErr + FileInfo \<times> Entry list \<times> FsErr option) \<Rightarrow> 's \<Rightarrow> 'e option \<times> 's" where
  "WalkDir f base found s =
     (case (case found of
              Inl e \<Rightarrow> f base None (Some e) s
            | Inr (stat, kids, err) \<Rightarrow> walkDir f base (Some stat) (Entry (Base base) (fi_type stat) kids err) s) of
        (WalkErr e, s') \<Rightarrow> (Some e, s')
      | (_, s') \<Rightarrow> (None, s'))"

section \<open>pathutil.go\<close>

definition Within :: "path \<Rightarrow> path \<Rightarrow> bool" where
  "Within p pre =
     (if p = pre then True
      else if pre = ''/'' then hasPrefix p pre
      else hasPrefix p (pre @ ''/''))"

text \<open>The entry of \<open>dir\<close> that spells \<open>want\<close>: an exact name, or a folded one the file system resolves.\<close>

definition onDiskName :: "FS \<Rightarrow> path \<Rightarrow> string \<Rightarrow> World \<Rightarrow> string option \<times> World" where
  "onDiskName fs dir want w =
     (case ask (\<lambda>n. fs_names fs n dir) w of
        (Inl _, w1) \<Rightarrow> (None, w1)
      | (Inr names, w1) \<Rightarrow>
          if want \<in> set names then (Some want, w1)
          else (case find (\<lambda>n. fs_fold fs n want) names of
                  None \<Rightarrow> (None, w1)
                | Some folded \<Rightarrow>
                    (case ask (\<lambda>n. fs_lstat fs n (JoinPath dir want)) w1 of
                       (Inl _, w2) \<Rightarrow> (None, w2)
                     | (Inr _, w2) \<Rightarrow> (Some folded, w2))))"

fun caseLoop :: "FS \<Rightarrow> string list \<Rightarrow> string \<Rightarrow> World \<Rightarrow> path \<times> World" where
  "caseLoop fs [] out w = ((if out = '''' then ''/'' else out), w)"
| "caseLoop fs (want # rest) out w =
     (if want = '''' then caseLoop fs rest out w
      else case onDiskName fs (if out = '''' then ''/'' else out) want w of
             (None, w1) \<Rightarrow> (out @ ''/'' @ joinStr (want # rest) ''/'', w1)
           | (Some found, w1) \<Rightarrow> caseLoop fs rest (out @ ''/'' @ found) w1)"

definition CanonicalCase :: "FS \<Rightarrow> path \<Rightarrow> World \<Rightarrow> path \<times> World" where
  "CanonicalCase fs p w =
     (if \<not> hasPrefix p ''/'' then (p, w)
      else caseLoop fs (splitStr (trimPrefix p ''/'') ''/'') '''' w)"

definition DataVolumeRoot :: path where "DataVolumeRoot = ''/System/Volumes/Data''"

definition FoldDataVolume :: "path \<Rightarrow> path" where
  "FoldDataVolume p =
     (let rest = trimPrefix p DataVolumeRoot in
      if rest = p \<or> \<not> hasPrefix rest ''/'' then p else rest)"

end
