(* ===== verification/Discovery.thy ===== *)
theory Discovery
  imports Paths Documents Digest
begin

text \<open>
  Discovery (discovery/discovery.go): the walk of the include roots, the reconcile of named paths,
  and the change detection both share. The scanner's buffer and its staged counts are part of the
  state it threads; a fatal error is the first component of a result.
\<close>

section \<open>Options, results, errors\<close>

datatype PathErrKind = PErrFs FsErr | PErrRootExcluded | PErrParentUnreachable path

record PathError =
  pe_Path :: path
  pe_Err :: PathErrKind

text \<open>The explanations of deleted.go, one constructor per message.\<close>

datatype DeclineReason =
    NoRootInScope | MemoryRebuilt | MemoryUnreadable | MountsUnreadable | VolumesUnrecorded
  | CatalogUnread | RowsNotRemoved | NoVolumesYet

record ScanOptions =
  so_Include :: "path list"
  so_Excluded :: "(path \<Rightarrow> bool) option"

record DResult =
  dr_Discovered :: nat
  dr_Unchanged :: nat
  dr_Changed :: nat
  dr_Dataless :: nat
  dr_Unread :: nat
  dr_Deleted :: nat
  dr_Pruned :: nat
  dr_Unverified :: nat
  dr_Ignored :: nat
  dr_Unmounted :: "path list"
  dr_Reconciled :: bool
  dr_DeclineReasons :: "DeclineReason list"
  dr_PathErrors :: "PathError list"
  dr_WalkErrors :: nat

definition emptyDR :: DResult where
  "emptyDR = \<lparr>dr_Discovered = 0, dr_Unchanged = 0, dr_Changed = 0, dr_Dataless = 0, dr_Unread = 0,
     dr_Deleted = 0, dr_Pruned = 0, dr_Unverified = 0, dr_Ignored = 0, dr_Unmounted = [],
     dr_Reconciled = False, dr_DeclineReasons = [], dr_PathErrors = [], dr_WalkErrors = 0\<rparr>"

definition Reached :: "DResult \<Rightarrow> nat" where
  "Reached r = dr_Discovered r + dr_Unchanged r + dr_Dataless r"

text \<open>The scanner during one scan: the world, the buffer, the staged counts, the result so far.\<close>

record Scan =
  sc_world :: World
  sc_pending :: "Document list"
  sc_staged :: DResult
  sc_res :: DResult
  sc_unknown :: "path list"

definition startScan :: "World \<Rightarrow> Scan" where
  "startScan w = \<lparr>sc_world = w, sc_pending = [], sc_staged = emptyDR, sc_res = emptyDR, sc_unknown = []\<rparr>"

definition onRes :: "(DResult \<Rightarrow> DResult) \<Rightarrow> Scan \<Rightarrow> Scan" where
  "onRes f s = s\<lparr>sc_res := f (sc_res s)\<rparr>"

definition onStaged :: "(DResult \<Rightarrow> DResult) \<Rightarrow> Scan \<Rightarrow> Scan" where
  "onStaged f s = s\<lparr>sc_staged := f (sc_staged s)\<rparr>"

definition onWorld :: "(World \<Rightarrow> 'a \<times> World) \<Rightarrow> Scan \<Rightarrow> 'a \<times> Scan" where
  "onWorld f s = (case f (sc_world s) of (r, w) \<Rightarrow> (r, s\<lparr>sc_world := w\<rparr>))"

definition pathError :: "path \<Rightarrow> PathErrKind \<Rightarrow> Scan \<Rightarrow> Scan" where
  "pathError p e = onRes (\<lambda>r. r\<lparr>dr_PathErrors := dr_PathErrors r @ [\<lparr>pe_Path = p, pe_Err = e\<rparr>]\<rparr>)"

section \<open>The write buffer (discovery.go: buffer, flush)\<close>

definition flushEvery :: nat where "flushEvery = 256"

definition foldStaged :: "DResult \<Rightarrow> DResult \<Rightarrow> DResult" where
  "foldStaged staged r = r\<lparr>dr_Discovered := dr_Discovered r + dr_Discovered staged,
     dr_Unchanged := dr_Unchanged r + dr_Unchanged staged, dr_Changed := dr_Changed r + dr_Changed staged,
     dr_Dataless := dr_Dataless r + dr_Dataless staged, dr_Unread := dr_Unread r + dr_Unread staged\<rparr>"

definition flushDocs :: "Scan \<Rightarrow> StoreErr option \<times> Scan" where
  "flushDocs s =
     (if sc_pending s = [] then (None, s)
      else (case onWorld (onStore (UpsertDocuments (sc_pending s))) (s\<lparr>sc_pending := [], sc_staged := emptyDR\<rparr>) of
              (Inl e, s1) \<Rightarrow> (Some e, s1)
            | (Inr _, s1) \<Rightarrow> (None, onRes (foldStaged (sc_staged s)) s1)))"

definition buffer :: "Document \<Rightarrow> Scan \<Rightarrow> StoreErr option \<times> Scan" where
  "buffer doc s =
     (let s1 = s\<lparr>sc_pending := sc_pending s @ [doc]\<rparr> in
      if length (sc_pending s1) \<ge> flushEvery then flushDocs s1 else (None, s1))"

section \<open>Change detection (discovery.go: processFile, noteDataless, noteUnread)\<close>

definition isTextFile :: "string \<Rightarrow> bool" where
  "isTextFile name \<longleftrightarrow> lowerASCII (Ext name) \<in> {''.md'', ''.markdown'', ''.txt''}"

definition admissible :: "string \<Rightarrow> FileType \<Rightarrow> bool" where
  "admissible name mode \<longleftrightarrow> mode = RegularFile \<and> isTextFile name"

definition statMatches :: "Document \<Rightarrow> FileInfo \<Rightarrow> bool" where
  "statMatches existing stat \<longleftrightarrow> doc_Size existing = fi_size stat \<and> doc_MTime existing = fi_mtime stat"

definition hashFile :: "FS \<Rightarrow> path \<Rightarrow> World \<Rightarrow> (FsErr + hash) \<times> World" where
  "hashFile fs p w = (case ask (\<lambda>n. fs_bytes fs n p) w of (r, w1) \<Rightarrow> (map_sum id contentDigest r, w1))"

definition countUnread :: "UnreadReason \<Rightarrow> DResult \<Rightarrow> DResult" where
  "countUnread reason r =
     (if reason = UnreadDataless then r\<lparr>dr_Dataless := Suc (dr_Dataless r)\<rparr> else r\<lparr>dr_Unread := Suc (dr_Unread r)\<rparr>)"

definition readDoc :: "path \<Rightarrow> hash \<Rightarrow> FileInfo \<Rightarrow> Document" where
  "readDoc p h stat = \<lparr>doc_Path = p, doc_ContentHash = h, doc_UnreadReason = None,
     doc_Size = fi_size stat, doc_MTime = fi_mtime stat\<rparr>"

definition unreadDoc :: "path \<Rightarrow> UnreadReason \<Rightarrow> FileInfo \<Rightarrow> Document" where
  "unreadDoc p reason stat = \<lparr>doc_Path = p, doc_ContentHash = '''', doc_UnreadReason = Some reason,
     doc_Size = fi_size stat, doc_MTime = fi_mtime stat\<rparr>"

text \<open>\<open>existing\<close> is the row of the catalog, if the path is known.\<close>

definition hasHash :: "Document option \<Rightarrow> bool" where
  "hasHash existing \<longleftrightarrow> (case existing of None \<Rightarrow> False | Some d \<Rightarrow> doc_ContentHash d \<noteq> '''')"

definition matches :: "Document option \<Rightarrow> FileInfo \<Rightarrow> bool" where
  "matches existing stat \<longleftrightarrow> (case existing of None \<Rightarrow> False | Some d \<Rightarrow> statMatches d stat)"

definition unreadAs :: "UnreadReason \<Rightarrow> Document option \<Rightarrow> bool" where
  "unreadAs reason existing \<longleftrightarrow> (case existing of None \<Rightarrow> False | Some d \<Rightarrow> doc_UnreadReason d = Some reason)"

definition noteUnread :: "path \<Rightarrow> FileInfo \<Rightarrow> UnreadReason \<Rightarrow> Document option \<Rightarrow> Scan \<Rightarrow> StoreErr option \<times> Scan" where
  "noteUnread p stat reason existing s =
     (if hasHash existing \<and> reason \<noteq> UnreadDataless then (None, s)
      else if hasHash existing \<and> matches existing stat then (None, onRes (countUnread reason) s)
      else if unreadAs reason existing \<and> matches existing stat then (None, onRes (countUnread reason) s)
      else buffer (unreadDoc p reason stat) (onStaged (countUnread reason) s))"

definition noteDataless :: "path \<Rightarrow> FileInfo \<Rightarrow> Scan \<Rightarrow> StoreErr option \<times> Scan" where
  "noteDataless p stat s =
     (case onWorld (onStore (GetByPath p)) s of
        (Inl e, s1) \<Rightarrow> (Some e, s1)
      | (Inr existing, s1) \<Rightarrow> noteUnread p stat UnreadDataless existing s1)"

definition processFile :: "FS \<Rightarrow> path \<Rightarrow> FileInfo \<Rightarrow> Scan \<Rightarrow> StoreErr option \<times> Scan" where
  "processFile fs p stat s =
     (case onWorld (onStore (GetByPath p)) s of
        (Inl e, s1) \<Rightarrow> (Some e, s1)
      | (Inr existing, s1) \<Rightarrow>
          if hasHash existing \<and> matches existing stat
          then (None, onRes (\<lambda>r. r\<lparr>dr_Unchanged := Suc (dr_Unchanged r)\<rparr>) s1)
          else if unreadAs UnreadIOError existing \<and> matches existing stat
          then (None, onRes (\<lambda>r. r\<lparr>dr_Unread := Suc (dr_Unread r)\<rparr>) s1)
          else
            (case onWorld (hashFile fs p) s1 of
               (Inl FsNotExist, s2) \<Rightarrow> (None, s2)
             | (Inl e, s2) \<Rightarrow>
                 noteUnread p stat (if e = FsPermission then UnreadDenied else UnreadIOError) existing
                   (pathError p (PErrFs e) s2)
             | (Inr h, s2) \<Rightarrow>
                 if (case existing of None \<Rightarrow> False | Some d \<Rightarrow> doc_ContentHash d = h)
                 then buffer (readDoc p h stat) (onStaged (\<lambda>r. r\<lparr>dr_Unchanged := Suc (dr_Unchanged r)\<rparr>) s2)
                 else buffer (readDoc p h stat)
                   (onStaged (\<lambda>r. r\<lparr>dr_Discovered := Suc (dr_Discovered r),
                       dr_Changed := dr_Changed r + (if hasHash existing then 1 else 0)\<rparr>) s2)))"

section \<open>The walk (discovery.go: walkTree)\<close>

definition excludedBy :: "ScanOptions \<Rightarrow> path \<Rightarrow> bool" where
  "excludedBy opts p = (case so_Excluded opts of None \<Rightarrow> False | Some f \<Rightarrow> f p)"

definition withinAny :: "path \<Rightarrow> path list \<Rightarrow> bool" where
  "withinAny p bases = (\<exists>b \<in> set bases. Within p b)"

definition fatal :: "StoreErr option \<times> Scan \<Rightarrow> StoreErr WalkAns \<times> Scan" where
  "fatal r = (case r of (None, s) \<Rightarrow> (WalkOn, s) | (Some e, s) \<Rightarrow> (WalkErr e, s))"

text \<open>A file the walk is to look at: its stat (the one of the root entry, or a fresh one).\<close>

definition visitFile :: "FS \<Rightarrow> path \<Rightarrow> FileInfo option \<Rightarrow> Scan \<Rightarrow> StoreErr WalkAns \<times> Scan" where
  "visitFile fs p known s =
     (case (case known of Some st \<Rightarrow> (Inr st, s) | None \<Rightarrow> onWorld (ask (\<lambda>n. fs_lstat fs n p)) s) of
        (Inl FsNotExist, s1) \<Rightarrow> (WalkOn, s1)
      | (Inl e, s1) \<Rightarrow> (WalkOn, pathError p (PErrFs e) s1)
      | (Inr st, s1) \<Rightarrow> fatal (if fi_dataless st then noteDataless p st s1 else processFile fs p st s1))"

text \<open>The callback; \<open>track\<close> says whether what the walk cannot vouch for is recorded.\<close>

definition visit :: "ScanOptions \<Rightarrow> FS \<Rightarrow> bool \<Rightarrow> (StoreErr, Scan) walkFn" where
  "visit opts fs track p d walkErr s =
     (case onWorld (onStore ctxErr) s of
        (True, s0) \<Rightarrow> (WalkErr ErrCtx, s0)
      | (False, s0) \<Rightarrow>
          (case walkErr of
             Some e \<Rightarrow>
               (let s1 = pathError p (PErrFs e) s0 in
                (WalkOn, if track \<and> (d = None \<or> fst (the d) = Directory)
                         then s1\<lparr>sc_unknown := p # sc_unknown s1\<rparr> else s1))
           | None \<Rightarrow>
               (case d of
                  None \<Rightarrow> (WalkOn, s0)
                | Some (ty, st) \<Rightarrow>
                    if ty = Symlink then
                      (WalkOn, if track \<and> \<not> excludedBy opts p then s0\<lparr>sc_unknown := p # sc_unknown s0\<rparr> else s0)
                    else if ty = Directory then ((if excludedBy opts p then SkipDir else WalkOn), s0)
                    else if \<not> admissible (Base p) ty \<or> excludedBy opts p then (WalkOn, s0)
                    else visitFile fs p st s0)))"

definition walkTree :: "ScanOptions \<Rightarrow> FS \<Rightarrow> bool \<Rightarrow> path \<Rightarrow> Scan \<Rightarrow> StoreErr option \<times> Scan" where
  "walkTree opts fs track base s =
     (case onWorld (ask (\<lambda>n. fs_walk fs n base)) s of
        (found, s1) \<Rightarrow> WalkDir (visit opts fs track) base found s1)"

section \<open>Roots (discovery.go: canonicalRoot, hasSymlinkAncestor, normalizeRoots, resolveRoots)\<close>

function hasSymlinkAncestor :: "FS \<Rightarrow> path \<Rightarrow> World \<Rightarrow> bool \<times> World" where
  "hasSymlinkAncestor fs p w =
     (case ask (\<lambda>n. fs_lstat fs n p) w of
        (r, w1) \<Rightarrow>
          if (case r of Inr st \<Rightarrow> fi_type st = Symlink | Inl _ \<Rightarrow> False) then (True, w1)
          else if Dir p = p then (False, w1)
          else hasSymlinkAncestor fs (Dir p) w1)"
  by pat_completeness auto
termination by (relation "measure (\<lambda>(fs, p, w). pathSize p)") (auto simp: Dir_smaller)

declare hasSymlinkAncestor.simps [simp del]

definition spelled :: "FS \<Rightarrow> path \<Rightarrow> World \<Rightarrow> path \<times> World" where
  "spelled fs p w = (case CanonicalCase fs p w of (q, w1) \<Rightarrow> (FoldDataVolume q, w1))"

text \<open>The root to keep, if it is kept, the error to report, and whether the resolution is verified.\<close>

definition canonicalRoot :: "FS \<Rightarrow> path \<Rightarrow> World \<Rightarrow> (path option \<times> PathError list \<times> bool) \<times> World" where
  "canonicalRoot fs base w =
     (case ask (\<lambda>n. fs_eval fs n base) w of
        (Inl FsNotExist, w1) \<Rightarrow>
          (case spelled fs base w1 of
             (q, w2) \<Rightarrow>
               (case hasSymlinkAncestor fs base w2 of (linked, w3) \<Rightarrow> ((Some q, [], \<not> linked), w3)))
      | (Inl e, w1) \<Rightarrow> ((None, [\<lparr>pe_Path = base, pe_Err = PErrFs e\<rparr>], False), w1)
      | (Inr resolved, w1) \<Rightarrow>
          (case spelled fs resolved w1 of (q, w2) \<Rightarrow> ((Some q, [], True), w2)))"

text \<open>The loop over the cleaned, sorted, deduplicated roots.\<close>

fun resolveLoop :: "FS \<Rightarrow> path list \<Rightarrow> World \<Rightarrow> (path list \<times> PathError list \<times> bool) \<times> World" where
  "resolveLoop fs [] w = (([], [], True), w)"
| "resolveLoop fs (base # bases) w =
     (case canonicalRoot fs base w of
        ((keep, errs, verified), w1) \<Rightarrow>
          (case resolveLoop fs bases w1 of
             ((resolved, errs', allVerified), w2) \<Rightarrow>
               (((case keep of None \<Rightarrow> resolved | Some q \<Rightarrow> q # resolved), errs @ errs', verified \<and> allVerified), w2)))"

fun dropNested :: "path list \<Rightarrow> path list \<Rightarrow> path list" where
  "dropNested out [] = out"
| "dropNested out (r # rs) = dropNested (if withinAny r out then out else out @ [r]) rs"

definition normalizeRoots :: "path list \<Rightarrow> path list" where
  "normalizeRoots include = dropNested [] (sort (map Clean include))"

definition resolveRoots :: "ScanOptions \<Rightarrow> FS \<Rightarrow> World \<Rightarrow> (path list \<times> PathError list \<times> bool) \<times> World" where
  "resolveRoots opts fs w =
     (case resolveLoop fs (remdups_adj (sort (map Clean (so_Include opts)))) w of
        ((resolved, errs, allVerified), w1) \<Rightarrow>
          (let bases = normalizeRoots resolved in
           ((filter (\<lambda>b. \<not> excludedBy opts b) bases,
             errs @ map (\<lambda>b. \<lparr>pe_Path = b, pe_Err = PErrRootExcluded\<rparr>) (filter (excludedBy opts) bases),
             allVerified), w1)))"

definition Roots :: "ScanOptions \<Rightarrow> FS \<Rightarrow> World \<Rightarrow> (path list \<times> PathError list) \<times> World" where
  "Roots opts fs w =
     (case resolveRoots opts fs w of ((bases, errs, _), w1) \<Rightarrow> ((bases, errs), w1))"

section \<open>Named paths (discovery.go: ScanPaths, purge)\<close>

text \<open>\<open>purge\<close>: a fatal error, or whether the absence of the path is settled.\<close>

definition purge :: "FS \<Rightarrow> path \<Rightarrow> Scan \<Rightarrow> (StoreErr + bool) \<times> Scan" where
  "purge fs p s =
     (case onWorld (ask (\<lambda>n. fs_lstat fs n p)) s of
        (Inr _, s1) \<Rightarrow> (Inr False, s1)
      | (Inl e, s1) \<Rightarrow>
          if e \<noteq> FsNotExist then (Inr True, pathError p (PErrFs e) s1)
          else
            (case onWorld (ask (\<lambda>n. fs_lstat fs n (Dir p))) s1 of
               (Inl _, s2) \<Rightarrow> (Inr True, pathError p (PErrParentUnreachable (Dir p)) s2)
             | (Inr _, s2) \<Rightarrow>
                 (case onWorld (onStore (DeleteByPathPrefix p)) s2 of
                    (Inl e, s3) \<Rightarrow> (Inl e, s3)
                  | (Inr removed, s3) \<Rightarrow> (Inr True, onRes (\<lambda>r. r\<lparr>dr_Deleted := dr_Deleted r + removed\<rparr>) s3))))"

text \<open>One existing path of the first pass; the directories walked so far are passed on.\<close>

definition scanPath :: "ScanOptions \<Rightarrow> FS \<Rightarrow> path \<Rightarrow> FileInfo \<Rightarrow> path list \<Rightarrow> Scan \<Rightarrow> (StoreErr option \<times> path list) \<times> Scan" where
  "scanPath opts fs p st walked s =
     (if fi_type st = Symlink then ((None, walked), s)
      else if fi_type st = Directory then
        (case walkTree opts fs False p s of
           (Some e, s1) \<Rightarrow> ((Some e, walked), s1)
         | (None, s1) \<Rightarrow> ((None, walked @ [p]), s1))
      else if \<not> admissible (Base p) (fi_type st) then ((None, walked), s)
      else (case (if fi_dataless st then noteDataless p st s else processFile fs p st s) of
              (e, s1) \<Rightarrow> ((e, walked), s1)))"

text \<open>
  One step of the first pass: the fatal error, the vanished paths and the walked directories after it.
  A path is stat'ed before the walked ancestors are asked about.
\<close>

definition firstStep :: "ScanOptions \<Rightarrow> FS \<Rightarrow> path list \<Rightarrow> path \<Rightarrow> path list \<Rightarrow> path list \<Rightarrow> Scan \<Rightarrow>
    (StoreErr option \<times> path list \<times> path list) \<times> Scan" where
  "firstStep opts fs bases p vanished walked s =
     (if \<not> IsAbs p \<or> \<not> withinAny p bases \<or> excludedBy opts p
      then ((None, vanished, walked), onRes (\<lambda>r. r\<lparr>dr_Ignored := Suc (dr_Ignored r)\<rparr>) s)
      else
        (case onWorld (ask (\<lambda>n. fs_lstat fs n p)) s of
           (found, s1) \<Rightarrow>
             if found = Inl FsNotExist then ((None, vanished @ [p], walked), s1)
             else if withinAny p walked then ((None, vanished, walked), s1)
             else
               (case found of
                  Inl e \<Rightarrow> ((None, vanished, walked), pathError p (PErrFs e) s1)
                | Inr st \<Rightarrow>
                    (case scanPath opts fs p st walked s1 of
                       ((Some e, _), s2) \<Rightarrow> ((Some e, vanished, walked), s2)
                     | ((None, walked'), s2) \<Rightarrow>
                         (case flushDocs s2 of (e, s3) \<Rightarrow> ((e, vanished, walked'), s3))))))"

fun firstPaths :: "ScanOptions \<Rightarrow> FS \<Rightarrow> path list \<Rightarrow> path list \<Rightarrow> path list \<Rightarrow> path list \<Rightarrow> Scan \<Rightarrow>
    (StoreErr option \<times> path list) \<times> Scan" where
  "firstPaths opts fs bases [] vanished walked s = ((None, vanished), s)"
| "firstPaths opts fs bases (p # ps) vanished walked s =
     (case onWorld (onStore ctxErr) s of
        (True, s0) \<Rightarrow> ((Some ErrCtx, vanished), s0)
      | (False, s0) \<Rightarrow>
          (case firstStep opts fs bases p vanished walked s0 of
             ((Some e, _, _), s1) \<Rightarrow> ((Some e, vanished), s1)
           | ((None, vanished', walked'), s1) \<Rightarrow> firstPaths opts fs bases ps vanished' walked' s1))"

fun purgePaths :: "FS \<Rightarrow> path list \<Rightarrow> path list \<Rightarrow> Scan \<Rightarrow> StoreErr option \<times> Scan" where
  "purgePaths fs [] covered s = (None, s)"
| "purgePaths fs (p # ps) covered s =
     (case onWorld (onStore ctxErr) s of
        (True, s0) \<Rightarrow> (Some ErrCtx, s0)
      | (False, s0) \<Rightarrow>
          if withinAny p covered then purgePaths fs ps covered s0
          else
            (case purge fs p s0 of
               (Inl e, s1) \<Rightarrow> (Some e, s1)
             | (Inr settled, s1) \<Rightarrow> purgePaths fs ps (if settled then covered @ [p] else covered) s1))"

definition ScanPaths :: "ScanOptions \<Rightarrow> FS \<Rightarrow> path list \<Rightarrow> World \<Rightarrow> (DResult \<times> StoreErr option) \<times> World" where
  "ScanPaths opts fs paths w =
     (case resolveRoots opts fs w of
        ((bases, _, _), w1) \<Rightarrow>
          (case firstPaths opts fs bases (remdups_adj (sort (map Clean paths))) [] [] (startScan w1) of
             ((Some e, _), s) \<Rightarrow> ((sc_res s, Some e), sc_world s)
           | ((None, vanished), s) \<Rightarrow>
               (case purgePaths fs vanished [] s of (e, s1) \<Rightarrow> ((sc_res s1, e), sc_world s1))))"

end
