(* ===== verification/Reconcile.thy ===== *)
theory Reconcile
  imports Discovery Contents
begin

text \<open>
  The deletion pass of a walk (discovery/deleted.go) and \<open>Scan\<close> (discovery.go), which ends with it:
  the catalog is enumerated in path order and a row is removed only on positive evidence.
\<close>

section \<open>What a walk can vouch for\<close>

record coverage =
  cov_roots :: "path list"
  cov_unresolved :: bool
  cov_unknown :: "path list"

definition underAny :: "path \<Rightarrow> path list \<Rightarrow> bool" where
  "underAny p unknown = (if unknown = [] then False else climb (\<lambda>q. q \<in> set unknown) (Dir p))"

definition indexable :: "path \<Rightarrow> FileInfo \<Rightarrow> bool" where
  "indexable p st = admissible (Base p) (fi_type st)"

definition inScope :: "path \<Rightarrow> path list \<Rightarrow> bool" where
  "inScope mount bases = (\<exists>b \<in> set bases. Within mount b \<or> Within b mount)"

definition sortedSet :: "path list \<Rightarrow> path list" where
  "sortedSet mounts = remdups_adj (sort mounts)"

definition decline :: "DeclineReason \<Rightarrow> Scan \<Rightarrow> Scan" where
  "decline reason = onRes (\<lambda>r. r\<lparr>dr_DeclineReasons := dr_DeclineReasons r @ [reason]\<rparr>)"

definition unverified :: "Scan \<Rightarrow> Scan" where
  "unverified = onRes (\<lambda>r. r\<lparr>dr_Unverified := Suc (dr_Unverified r)\<rparr>)"

definition setReconciled :: "bool \<Rightarrow> Scan \<Rightarrow> Scan" where
  "setReconciled b = onRes (\<lambda>r. r\<lparr>dr_Reconciled := b\<rparr>)"

section \<open>The remembered mounts (deleted.go: learnMounts, forgetEmptyMounts)\<close>

definition learnMounts :: "path list \<Rightarrow> path list \<Rightarrow> path list \<Rightarrow> bool \<Rightarrow> Scan \<Rightarrow> (StoreErr option \<times> path list) \<times> Scan" where
  "learnMounts bases known live remembered s =
     (let next_known = sortedSet (known @ filter (\<lambda>m. inScope m bases) live) in
      if remembered \<and> next_known = known then ((None, known), s)
      else (case onWorld (onStore (SetKnownMounts next_known)) s of
              (Inl e, s1) \<Rightarrow> ((Some e, known), s1)
            | (Inr _, s1) \<Rightarrow> ((None, next_known), s1)))"

definition forgetEmptyMounts :: "path list \<Rightarrow> path list \<Rightarrow> path list \<Rightarrow> Scan \<Rightarrow> StoreErr option \<times> Scan" where
  "forgetEmptyMounts known live occupied s =
     (let next_known = filter (\<lambda>m. m \<in> set occupied \<or> m \<in> set live) known in
      if next_known = known then (None, s)
      else (case onWorld (onStore (SetKnownMounts next_known)) s of
              (Inl e, s1) \<Rightarrow> (Some e, s1)
            | (Inr _, s1) \<Rightarrow> (None, s1)))"

section \<open>One batch of rows\<close>

text \<open>The state of the enumeration: the scan, the two batches to delete, and the bookkeeping.\<close>

record Enum =
  en_scan :: Scan
  en_vanished :: "path list"
  en_outOfScope :: "path list"
  en_occupied :: "path list"
  en_blindDeclines :: nat
  en_declined :: "path list"

definition onScan :: "(Scan \<Rightarrow> Scan) \<Rightarrow> Enum \<Rightarrow> Enum" where
  "onScan f e = e\<lparr>en_scan := f (en_scan e)\<rparr>"

definition maxDeclineReports :: nat where "maxDeclineReports = 32"

text \<open>The guards, in the order of the code.\<close>

definition judgeStat :: "bool \<Rightarrow> path \<Rightarrow> FsErr + FileInfo \<Rightarrow> Enum \<Rightarrow> Enum" where
  "judgeStat blind p found e =
     (case found of
        Inr st \<Rightarrow> if indexable p st then e else e\<lparr>en_vanished := en_vanished e @ [p]\<rparr>
      | Inl FsNotExist \<Rightarrow>
          if blind then (onScan unverified e)\<lparr>en_blindDeclines := Suc (en_blindDeclines e)\<rparr>
          else e\<lparr>en_vanished := en_vanished e @ [p]\<rparr>
      | Inl err \<Rightarrow>
          if Dir p \<notin> set (en_declined e) \<and> length (en_declined e) < maxDeclineReports
          then (onScan (pathError p (PErrFs err) \<circ> unverified) e)\<lparr>en_declined := Dir p # en_declined e\<rparr>
          else onScan unverified e)"

definition judgeRow :: "ScanOptions \<Rightarrow> FS \<Rightarrow> coverage \<Rightarrow> path list \<Rightarrow> bool \<Rightarrow> path \<Rightarrow> Enum \<Rightarrow> Enum" where
  "judgeRow opts fs cov known blind p e0 =
     (let e = e0\<lparr>en_occupied := filter (\<lambda>m. m \<notin> set (en_occupied e0) \<and> Within p m) known @ en_occupied e0\<rparr> in
      if \<not> withinAny p (cov_roots cov) \<or> excludedBy opts p then
        (if cov_unresolved cov then onScan (onRes (\<lambda>r. r\<lparr>dr_Ignored := Suc (dr_Ignored r)\<rparr>)) e
         else e\<lparr>en_outOfScope := en_outOfScope e @ [p]\<rparr>)
      else if underAny p (cov_unknown cov) then onScan unverified e
      else (case onWorld (ask (\<lambda>n. fs_lstat fs n p)) (en_scan e) of
              (found, s) \<Rightarrow> judgeStat blind p found (e\<lparr>en_scan := s\<rparr>)))"

fun judgeBatch :: "ScanOptions \<Rightarrow> FS \<Rightarrow> coverage \<Rightarrow> path list \<Rightarrow> bool \<Rightarrow> path list \<Rightarrow> Enum \<Rightarrow> bool \<times> Enum" where
  "judgeBatch opts fs cov known blind [] e = (False, e)"
| "judgeBatch opts fs cov known blind (p # ps) e =
     (case onWorld (onStore ctxErr) (en_scan e) of
        (True, s) \<Rightarrow> (True, e\<lparr>en_scan := setReconciled False s\<rparr>)
      | (False, s) \<Rightarrow> judgeBatch opts fs cov known blind ps (judgeRow opts fs cov known blind p (e\<lparr>en_scan := s\<rparr>)))"

text \<open>\<open>flushDeletes\<close>: the count is folded in even when a batch fails.\<close>

definition flushDeletes :: "path list \<Rightarrow> (nat \<Rightarrow> DResult \<Rightarrow> DResult) \<Rightarrow> Scan \<Rightarrow> StoreErr option \<times> Scan" where
  "flushDeletes paths counting s =
     (if paths = [] then (None, s)
      else (case onWorld (onStore (DeleteByPaths paths)) s of
              ((removed, err), s1) \<Rightarrow> (err, onRes (counting removed) s1)))"

definition countDeleted :: "nat \<Rightarrow> DResult \<Rightarrow> DResult" where
  "countDeleted n r = r\<lparr>dr_Deleted := dr_Deleted r + n\<rparr>"

definition countPruned :: "nat \<Rightarrow> DResult \<Rightarrow> DResult" where
  "countPruned n r = r\<lparr>dr_Pruned := dr_Pruned r + n\<rparr>"

text \<open>Both deletions of a batch; on a store failure the pass is not a measurement any more.\<close>

definition flushBatch :: "Enum \<Rightarrow> bool \<times> Enum" where
  "flushBatch e =
     (case flushDeletes (en_vanished e) countDeleted (en_scan e) of
        (Some _, s1) \<Rightarrow> (True, e\<lparr>en_scan := decline RowsNotRemoved (setReconciled False s1)\<rparr>)
      | (None, s1) \<Rightarrow>
          (case flushDeletes (en_outOfScope e) countPruned s1 of
             (Some _, s2) \<Rightarrow> (True, e\<lparr>en_scan := decline RowsNotRemoved (setReconciled False s2)\<rparr>)
           | (None, s2) \<Rightarrow> (False, e\<lparr>en_scan := s2, en_vanished := [], en_outOfScope := []\<rparr>)))"

text \<open>How the enumeration ended.\<close>

datatype EnumEnd = EnumDone | EnumStopped | EnumCancelled

text \<open>One page: judged and flushed, or why the enumeration ends there; the page itself for the cursor.\<close>

definition page :: "ScanOptions \<Rightarrow> FS \<Rightarrow> coverage \<Rightarrow> path list \<Rightarrow> bool \<Rightarrow> path \<Rightarrow> Enum \<Rightarrow> (EnumEnd option \<times> path list) \<times> Enum" where
  "page opts fs cov known blind cursor e =
     (case onWorld (onStore (ListPaths cursor flushEvery)) (en_scan e) of
        (Inl _, s) \<Rightarrow> ((Some EnumStopped, []), e\<lparr>en_scan := decline CatalogUnread (setReconciled False s)\<rparr>)
      | (Inr batch, s) \<Rightarrow>
          if batch = [] then ((Some EnumDone, []), e\<lparr>en_scan := s\<rparr>)
          else
            (case judgeBatch opts fs cov known blind batch (e\<lparr>en_scan := s\<rparr>) of
               (True, e1) \<Rightarrow> ((Some EnumCancelled, batch), e1)
             | (False, e1) \<Rightarrow>
                 (case flushBatch e1 of
                    (True, e2) \<Rightarrow> ((Some EnumStopped, batch), e2)
                  | (False, e2) \<Rightarrow>
                      ((if length batch < flushEvery then Some EnumDone else None, batch), e2))))"

section \<open>What a page does to the catalog\<close>

text \<open>The rows of some paths are gone and nothing else changed.\<close>

definition removes :: "path set \<Rightarrow> DB \<Rightarrow> DB \<Rightarrow> bool" where
  "removes A d d' \<longleftrightarrow> d' = d\<lparr>db_documents := filter (\<lambda>r. d_path r \<notin> A) (db_documents d)\<rparr>"

definition rowsOf :: "path set \<Rightarrow> DB \<Rightarrow> nat" where
  "rowsOf A d = length (filter (\<lambda>r. d_path r \<in> A) (db_documents d))"

lemma removes_refl [simp]: "removes {} d d"
  by (simp add: removes_def)

lemma removes_none [simp]: "\<exists>A. removes A d d"
  by (rule exI [of _ "{}"]) simp

lemma removes_docs: "removes A d d' \<Longrightarrow> db_documents d' = filter (\<lambda>r. d_path r \<notin> A) (db_documents d)"
  by (simp add: removes_def)

lemma removes_trans:
  assumes "removes A d d1" "removes B d1 d2"
  shows "removes (A \<union> B) d d2" "rowsOf (A \<union> B) d = rowsOf A d + rowsOf B d1"
proof -
  have "filter (\<lambda>r. d_path r \<notin> B) (filter (\<lambda>r. d_path r \<notin> A) rows) = filter (\<lambda>r. d_path r \<notin> A \<union> B) rows"
    for rows :: "documentRow list"
    by (induction rows) auto
  then show "removes (A \<union> B) d d2" using assms by (simp add: removes_def)
  have "length (filter (\<lambda>r. d_path r \<in> A \<union> B) rows) =
      length (filter (\<lambda>r. d_path r \<in> A) rows) + length (filter (\<lambda>r. d_path r \<in> B) (filter (\<lambda>r. d_path r \<notin> A) rows))"
    for rows :: "documentRow list"
    by (induction rows) auto
  then show "rowsOf (A \<union> B) d = rowsOf A d + rowsOf B d1" using assms(1) by (simp add: rowsOf_def removes_def)
qed

lemma withTx_delete:
  assumes "withTx (delete_docs P) s = (r, s')"
  shows "(\<exists>e. r = Inl e) \<and> st_db s' = st_db s \<or>
    r = Inr (rowsOf {p. P p} (st_db s)) \<and> removes {p. P p} (st_db s) (st_db s')"
  by (cases "delete_docs P" s rule: withTx_cases)
    (use assms in \<open>auto simp: delete_docs_def removes_def rowsOf_def\<close>)

lemma deleteChunks_any:
  "deleteChunks paths removed s = ((n, err), s') \<Longrightarrow>
   \<exists>A. A \<subseteq> set paths \<and> removes A (st_db s) (st_db s') \<and> n = removed + rowsOf A (st_db s) \<and>
     (err = None \<longrightarrow> A = set paths)"
proof (induction paths removed s rule: deleteChunks.induct)
  case (1 paths removed s)
  show ?case
  proof (cases "paths = []")
    case True
    then have "n = removed \<and> err = None \<and> s' = s" using 1(2) by (simp add: deleteChunks.simps [of "[]"])
    then show ?thesis using True by (intro exI [of _ "{}"]) (simp add: rowsOf_def)
  next
    case False
    let ?A = "set (take pathBatch paths)"
    obtain r s1 where tx: "withTx (delete_docs (\<lambda>p. p \<in> ?A)) s = (r, s1)" by fastforce
    note effect = withTx_delete [OF tx]
    show ?thesis
    proof (cases r)
      case (Inl e)
      then have "n = removed" "err = Some e" "st_db s' = st_db s"
        using 1(2) False tx effect by (auto simp: deleteChunks.simps [of paths])
      then show ?thesis by (intro exI [of _ "{}"]) (simp add: rowsOf_def)
    next
      case (Inr m)
      have go: "deleteChunks (drop pathBatch paths) (removed + m) s1 = ((n, err), s')"
        using 1(2) False tx Inr by (simp add: deleteChunks.simps [of paths])
      obtain B where B: "B \<subseteq> set (drop pathBatch paths)" "removes B (st_db s1) (st_db s')"
        "n = removed + m + rowsOf B (st_db s1)" "err = None \<longrightarrow> B = set (drop pathBatch paths)"
        using 1(1) [OF False tx [unfolded Inr, symmetric] refl go] by blast
      have A: "removes ?A (st_db s) (st_db s1)" "m = rowsOf ?A (st_db s)" using effect Inr by auto
      have "set paths = ?A \<union> set (drop pathBatch paths)" by (metis append_take_drop_id set_append)
      then show ?thesis
        using B removes_trans [OF A(1) B(2)] A(2) by (intro exI [of _ "?A \<union> B"]) auto
    qed
  qed
qed

lemma DeleteByPaths_any:
  assumes "DeleteByPaths paths s = ((n, err), s')"
  shows "\<exists>A. A \<subseteq> set paths \<and> removes A (st_db s) (st_db s') \<and> n = rowsOf A (st_db s) \<and> (err = None \<longrightarrow> A = set paths)"
proof (cases "paths = [] \<or> '''' \<in> set paths")
  case True
  then have "n = 0 \<and> s' = s \<and> (err = None \<longrightarrow> paths = [])" using assms by (auto simp: DeleteByPaths_def split: if_splits)
  then show ?thesis by (intro exI [of _ "{}"]) (simp add: rowsOf_def)
next
  case False
  then show ?thesis using assms deleteChunks_any [of paths 0 s n err s'] by (simp add: DeleteByPaths_def)
qed

abbreviation sdb :: "Scan \<Rightarrow> DB" where "sdb s \<equiv> wdb (sc_world s)"
abbreviation edb :: "Enum \<Rightarrow> DB" where "edb e \<equiv> sdb (en_scan e)"

lemma scan_frames [simp]:
  "sc_world (onRes f s) = sc_world s" "sc_world (onStaged f s) = sc_world s" "sc_world (pathError p e s) = sc_world s"
  "sc_world (decline d s) = sc_world s" "sc_world (unverified s) = sc_world s" "sc_world (setReconciled b s) = sc_world s"
  by (simp_all add: onRes_def onStaged_def pathError_def decline_def unverified_def setReconciled_def)

lemma onWorld_store:
  assumes "onWorld (onStore f) s = (r, s')"
  obtains st where "f (w_store (sc_world s)) = (r, st)" "sdb s' = st_db st"
    "s' = s\<lparr>sc_world := (sc_world s)\<lparr>w_store := st\<rparr>\<rparr>"
  using assms by (auto simp: onWorld_def onStore_def split: prod.splits)

lemma onWorld_ask: "onWorld (ask q) s = (q (w_tick (sc_world s)), s\<lparr>sc_world := tick (sc_world s)\<rparr>)"
  by (simp add: onWorld_def ask_def)

lemma onWorld_ask_db: "onWorld (ask q) s = (r, s') \<Longrightarrow> sdb s' = sdb s"
  by (auto simp: onWorld_ask)

lemma onWorld_ctx_db:
  assumes "onWorld (onStore ctxErr) s = (b, s')"
  shows "sdb s' = sdb s"
proof -
  obtain st where "ctxErr (w_store (sc_world s)) = (b, st)" "sdb s' = st_db st" by (rule onWorld_store [OF assms]) blast
  then show ?thesis using ctxErr_db [of "w_store (sc_world s)"] by simp
qed

lemma onWorld_read_db:
  assumes "onWorld (onStore (withReader q)) s = (r, s')"
  shows "sdb s' = sdb s \<and> ((\<exists>e. r = Inl e) \<or> r = q (sdb s))"
proof -
  obtain st where "withReader q (w_store (sc_world s)) = (r, st)" "sdb s' = st_db st" by (rule onWorld_store [OF assms]) blast
  then show ?thesis using withReader_result [of q "w_store (sc_world s)" r st] by simp
qed

lemma judgeStat_world [simp]: "sc_world (en_scan (judgeStat blind p found e)) = sc_world (en_scan e)"
  by (auto simp: judgeStat_def onScan_def split: sum.split FsErr.split)

lemma judgeRow_db: "edb (judgeRow opts fs cov known blind p e) = edb e"
  by (simp add: judgeRow_def Let_def onScan_def onWorld_ask)

lemma judgeBatch_db: "judgeBatch opts fs cov known blind ps e = (b, e') \<Longrightarrow> edb e' = edb e"
proof (induction ps arbitrary: e)
  case (Cons p ps)
  obtain c s where ctx: "onWorld (onStore ctxErr) (en_scan e) = (c, s)" by fastforce
  note same = onWorld_ctx_db [OF ctx]
  show ?case
  proof (cases c)
    case True
    then show ?thesis using Cons.prems ctx same by auto
  next
    case False
    then have "judgeBatch opts fs cov known blind ps (judgeRow opts fs cov known blind p (e\<lparr>en_scan := s\<rparr>)) = (b, e')"
      using Cons.prems ctx by simp
    from Cons.IH [OF this] show ?thesis using same by (simp add: judgeRow_db)
  qed
qed simp

lemma flushDeletes_effect:
  assumes "flushDeletes paths counting s = (err, s')"
  obtains A where "A \<subseteq> set paths" "removes A (sdb s) (sdb s')" "err = None \<longrightarrow> A = set paths"
    "sc_res s' = (if paths = [] then sc_res s else counting (rowsOf A (sdb s)) (sc_res s))"
proof (cases "paths = []")
  case True
  then show ?thesis using assms by (intro that [of "{}"]) (auto simp: flushDeletes_def)
next
  case False
  obtain n e s1 where d: "onWorld (onStore (DeleteByPaths paths)) s = ((n, e), s1)" by (metis prod.exhaust)
  have s': "err = e" "s' = onRes (counting n) s1" using assms False d by (auto simp: flushDeletes_def)
  obtain st where st: "DeleteByPaths paths (w_store (sc_world s)) = ((n, e), st)" "sdb s1 = st_db st"
    "s1 = s\<lparr>sc_world := (sc_world s)\<lparr>w_store := st\<rparr>\<rparr>" by (rule onWorld_store [OF d]) blast
  obtain A where "A \<subseteq> set paths" "removes A (sdb s) (st_db st)" "n = rowsOf A (sdb s)" "e = None \<longrightarrow> A = set paths"
    using DeleteByPaths_any [OF st(1)] by blast
  then show ?thesis
    using s' st False by (intro that [of A]) (simp_all add: onRes_def)
qed

lemma flushBatch_db:
  assumes "flushBatch e = (b, e')"
  shows "\<exists>A. A \<subseteq> set (en_vanished e) \<union> set (en_outOfScope e) \<and> removes A (edb e) (edb e')"
proof -
  obtain err1 s1 where f1: "flushDeletes (en_vanished e) countDeleted (en_scan e) = (err1, s1)" by fastforce
  obtain A where A: "A \<subseteq> set (en_vanished e)" "removes A (edb e) (sdb s1)"
    by (rule flushDeletes_effect [OF f1]) blast
  show ?thesis
  proof (cases err1)
    case (Some x)
    then have "edb e' = sdb s1" using assms f1 by (auto simp: flushBatch_def)
    then show ?thesis using A by auto
  next
    case None
    obtain err2 s2 where f2: "flushDeletes (en_outOfScope e) countPruned s1 = (err2, s2)" by fastforce
    obtain B where B: "B \<subseteq> set (en_outOfScope e)" "removes B (sdb s1) (sdb s2)"
      by (rule flushDeletes_effect [OF f2]) blast
    have "edb e' = sdb s2" using assms f1 f2 None by (cases err2) (auto simp: flushBatch_def)
    then show ?thesis using removes_trans(1) [OF A(2) B(2)] A(1) B(1) by (intro exI [of _ "A \<union> B"]) auto
  qed
qed

lemma page_db:
  assumes "page opts fs cov known blind cursor e = ((ending, batch), e')"
  shows "(\<exists>A. removes A (edb e) (edb e'))"
    and "ending = None \<Longrightarrow> batch \<noteq> [] \<and>
      batch = take flushEvery (sort (filter (\<lambda>p. p > cursor) (map d_path (db_documents (edb e)))))"
proof -
  obtain r s where l: "onWorld (onStore (ListPaths cursor flushEvery)) (en_scan e) = (r, s)" by fastforce
  note read = onWorld_read_db [OF l [unfolded ListPaths_def]]
  obtain b1 e1 where j: "judgeBatch opts fs cov known blind (projr r) (e\<lparr>en_scan := s\<rparr>) = (b1, e1)" by fastforce
  have e1: "edb e1 = edb e" using judgeBatch_db [OF j] read by simp
  obtain b2 e2 where f: "flushBatch e1 = (b2, e2)" by fastforce
  obtain A where A: "removes A (edb e) (edb e2)" using flushBatch_db [OF f] e1 by auto
  show "\<exists>A. removes A (edb e) (edb e')"
    using assms l read j f A e1
    by (cases r; cases b1; cases b2) (auto simp: page_def split: if_splits intro: removes_refl)
  assume "ending = None"
  then show "batch \<noteq> [] \<and> batch = take flushEvery (sort (filter (\<lambda>p. p > cursor) (map d_path (db_documents (edb e)))))"
    using assms l read j f by (cases r; cases b1; cases b2) (auto simp: page_def split: if_splits)
qed

section \<open>The enumeration (deleted.go: reconcileDeleted, declineAll)\<close>

text \<open>A full page moves the cursor past a row that was still ahead, and no row comes back.\<close>

definition ahead :: "path \<Rightarrow> DB \<Rightarrow> nat" where
  "ahead cursor d = length (filter (\<lambda>p. p > cursor) (map d_path (db_documents d)))"

lemma last_of_page:
  assumes "batch = take n (sort (filter (\<lambda>p. p > cursor) xs))" "batch \<noteq> []"
  shows "last batch \<in> set xs" "cursor < last batch"
proof -
  have "set batch \<subseteq> set (sort (filter (\<lambda>p. p > cursor) xs))"
    unfolding assms(1) by (rule set_take_subset)
  moreover have "last batch \<in> set batch" using assms(2) by simp
  ultimately have "last batch \<in> set (filter (\<lambda>p. p > cursor) xs)" by auto
  then show "last batch \<in> set xs" "cursor < last batch" by simp_all
qed

lemma ahead_less:
  assumes "removes A d d'" "p \<in> set (map d_path (db_documents d))" "cursor < p"
  shows "ahead p d' < ahead cursor d"
proof -
  have "map d_path (filter (\<lambda>r. d_path r \<notin> A) rows) = filter (\<lambda>q. q \<notin> A) (map d_path rows)" for rows :: "documentRow list"
    by (induction rows) auto
  then have "ahead p d' \<le> ahead p d"
    unfolding ahead_def removes_docs [OF assms(1)] by (metis filter_sublist_length)
  also have "\<dots> < ahead cursor d"
    unfolding ahead_def by (rule length_filter_strict [of _ _ _ p]) (use assms in auto)
  finally show ?thesis .
qed

function enumLoop :: "ScanOptions \<Rightarrow> FS \<Rightarrow> coverage \<Rightarrow> path list \<Rightarrow> bool \<Rightarrow> path \<Rightarrow> Enum \<Rightarrow> EnumEnd \<times> Enum" where
  "enumLoop opts fs cov known blind cursor e =
     (case page opts fs cov known blind cursor e of
        ((Some ending, _), e1) \<Rightarrow> (ending, e1)
      | ((None, batch), e1) \<Rightarrow> enumLoop opts fs cov known blind (last batch) e1)"
  by pat_completeness auto
termination
proof (relation "measure (\<lambda>(opts, fs, cov, known, blind, cursor, e). ahead cursor (edb e))", goal_cases)
  case (2 opts fs cov known blind cursor e x e1 ending batch)
  then have p: "page opts fs cov known blind cursor e = ((None, batch), e1)" by simp
  obtain A where "removes A (edb e) (edb e1)" using page_db(1) [OF p] by blast
  moreover have "last batch \<in> set (map d_path (db_documents (edb e)))" "cursor < last batch"
    using page_db(2) [OF p refl] last_of_page by blast+
  ultimately show ?case using ahead_less by simp
qed simp

declare enumLoop.simps [simp del]

function declineLoop :: "path \<Rightarrow> Scan \<Rightarrow> Scan" where
  "declineLoop cursor s =
     (case onWorld (onStore (ListPaths cursor flushEvery)) s of
        (Inl _, s1) \<Rightarrow> setReconciled False s1
      | (Inr batch, s1) \<Rightarrow>
          if batch = [] then s1
          else
            (let s2 = onRes (\<lambda>r. r\<lparr>dr_Unverified := dr_Unverified r + length batch\<rparr>) s1 in
             if length batch < flushEvery then s2 else declineLoop (last batch) s2))"
  by pat_completeness auto
termination
proof (relation "measure (\<lambda>(cursor, s). ahead cursor (sdb s))", goal_cases)
  case (2 cursor s r s1 batch s2)
  then have "onWorld (onStore (ListPaths cursor flushEvery)) s = (Inr batch, s1)" by simp
  note read = onWorld_read_db [OF this [unfolded ListPaths_def]]
  then have "last batch \<in> set (map d_path (db_documents (sdb s)))" "cursor < last batch"
    using last_of_page [of batch flushEvery cursor "map d_path (db_documents (sdb s))"] 2(3) by auto
  moreover have "sdb s2 = sdb s" using read 2(4) by simp
  ultimately show ?case using ahead_less [OF removes_refl] by simp
qed simp

declare declineLoop.simps [simp del]

definition declineAll :: "Scan \<Rightarrow> Scan" where
  "declineAll s = declineLoop '''' s"

text \<open>What is known about volumes when the enumeration starts.\<close>

record Volumes =
  vo_known :: "path list"
  vo_live :: "path list"
  vo_absent :: "path list"
  vo_blind :: bool
  vo_usable :: bool

text \<open>The remembered set: its entries, whether anything was ever remembered, whether it could be read.\<close>

definition readMemory :: "Scan \<Rightarrow> (path list \<times> bool \<times> bool) \<times> Scan" where
  "readMemory s =
     (case onWorld (onStore KnownMounts) s of
        (Inr (known, remembered), s1) \<Rightarrow> ((known, remembered, True), s1)
      | (Inl ErrScanStateCorrupt, s1) \<Rightarrow> (([], False, True), decline MemoryRebuilt s1)
      | (Inl _, s1) \<Rightarrow> (([], False, False), decline MemoryUnreadable s1))"

text \<open>The mount table: whether it could be read, what is mounted, whether the platform can answer.\<close>

definition readMounts :: "FS \<Rightarrow> Scan \<Rightarrow> (bool \<times> path list \<times> bool) \<times> Scan" where
  "readMounts fs s =
     (case onWorld (ask (fs_mounts fs)) s of
        (Inl _, s1) \<Rightarrow> ((False, [], False), decline MountsUnreadable s1)
      | (Inr (live, supported), s1) \<Rightarrow>
          if \<not> supported \<or> live \<noteq> [] then ((True, live, supported), s1)
          else ((False, [], supported), decline MountsUnreadable s1))"

text \<open>Both, with what is learned from them; the unknown prefixes are extended.\<close>

definition readVolumes :: "FS \<Rightarrow> coverage \<Rightarrow> Scan \<Rightarrow> (coverage \<times> Volumes) \<times> Scan" where
  "readVolumes fs cov s =
     (case readMemory s of
        ((known, remembered, memoryReadable), s1) \<Rightarrow>
          (case readMounts fs s1 of
             ((mountsReadable, live, supported), s2) \<Rightarrow>
               (let absent = (if mountsReadable \<and> supported then filter (\<lambda>m. m \<notin> set live) known else []);
                    cov' = cov\<lparr>cov_unknown := absent @ (if mountsReadable then [] else cov_roots cov) @ cov_unknown cov\<rparr>;
                    vol = \<lparr>vo_known = known, vo_live = live, vo_absent = absent, vo_blind = \<not> remembered,
                           vo_usable = mountsReadable \<and> memoryReadable\<rparr>
                in if mountsReadable \<and> memoryReadable then
                     (case learnMounts (cov_roots cov) known live remembered s2 of
                        ((Some _, _), s3) \<Rightarrow> ((cov', vol), decline VolumesUnrecorded s3)
                      | ((None, known'), s3) \<Rightarrow> ((cov', vol\<lparr>vo_known := known'\<rparr>), s3))
                   else ((cov', vol), s2))))"

definition startEnum :: "Scan \<Rightarrow> Enum" where
  "startEnum s = \<lparr>en_scan = s, en_vanished = [], en_outOfScope = [], en_occupied = [], en_blindDeclines = 0, en_declined = []\<rparr>"

text \<open>After a complete enumeration: the absent volumes that hold rows, the blind declines, the memory.\<close>

definition afterEnum :: "Volumes \<Rightarrow> Enum \<Rightarrow> Scan" where
  "afterEnum vol e =
     (let s1 = onRes (\<lambda>r. r\<lparr>dr_Unmounted := dr_Unmounted r @ filter (\<lambda>m. m \<in> set (en_occupied e)) (vo_absent vol)\<rparr>) (en_scan e);
          s2 = (if en_blindDeclines e > 0 then decline NoVolumesYet s1 else s1)
      in if \<not> vo_usable vol then s2
         else (case forgetEmptyMounts (vo_known vol) (vo_live vol) (en_occupied e) s2 of
                 (Some _, s3) \<Rightarrow> decline VolumesUnrecorded s3
               | (None, s3) \<Rightarrow> s3))"

definition reconcileDeleted :: "ScanOptions \<Rightarrow> FS \<Rightarrow> coverage \<Rightarrow> Scan \<Rightarrow> StoreErr option \<times> Scan" where
  "reconcileDeleted opts fs cov s =
     (case onWorld (onStore ctxErr) s of
        (True, s0) \<Rightarrow> (Some ErrCtx, s0)
      | (False, s0) \<Rightarrow>
          (let s1 = setReconciled True s0 in
           if cov_roots cov = [] then (None, declineAll (decline NoRootInScope s1))
           else
             (case readVolumes fs cov s1 of
                ((cov', vol), s2) \<Rightarrow>
                  (case enumLoop opts fs cov' (vo_known vol) (vo_blind vol) '''' (startEnum s2) of
                     (EnumCancelled, e) \<Rightarrow> (Some ErrCtx, en_scan e)
                   | (EnumStopped, e) \<Rightarrow> (None, en_scan e)
                   | (EnumDone, e) \<Rightarrow> (None, afterEnum vol e)))))"

section \<open>Scan (discovery.go: Scan)\<close>

text \<open>The roots one after the other, a flush behind each.\<close>

fun walkRoots :: "ScanOptions \<Rightarrow> FS \<Rightarrow> path list \<Rightarrow> Scan \<Rightarrow> StoreErr option \<times> Scan" where
  "walkRoots opts fs [] s = (None, s)"
| "walkRoots opts fs (base # bases) s =
     (case walkTree opts fs True base s of
        (Some e, s1) \<Rightarrow> (Some e, s1)
      | (None, s1) \<Rightarrow>
          (case flushDocs s1 of
             (Some e, s2) \<Rightarrow> (Some e, s2)
           | (None, s2) \<Rightarrow> walkRoots opts fs bases s2))"

definition ScanRoots :: "ScanOptions \<Rightarrow> FS \<Rightarrow> World \<Rightarrow> (DResult \<times> StoreErr option) \<times> World" where
  "ScanRoots opts fs w =
     (case resolveRoots opts fs w of
        ((bases, errs, allVerified), w1) \<Rightarrow>
          (case walkRoots opts fs bases (onRes (\<lambda>r. r\<lparr>dr_PathErrors := errs\<rparr>) (startScan w1)) of
             (Some e, s) \<Rightarrow> ((sc_res s, Some e), sc_world s)
           | (None, s) \<Rightarrow>
               (let s1 = onRes (\<lambda>r. r\<lparr>dr_WalkErrors := length (dr_PathErrors r)\<rparr>) s;
                    cov = \<lparr>cov_roots = bases, cov_unresolved = \<not> allVerified, cov_unknown = sc_unknown s1\<rparr>
                in case reconcileDeleted opts fs cov s1 of
                     (err, s2) \<Rightarrow> ((sc_res s2, err), sc_world s2))))"

end
