(* ===== verification/SchedState.thy ===== *)
theory SchedState
  imports Reconcile PipelineRun
begin

text \<open>
  What the scheduler is and keeps (scheduler/scheduler.go, scheduler/backoff.go): its wiring, the
  snapshot \<open>bsearch status\<close> reads, the fields under its lock, and the retry window.

  A duration or a time is a number of nanoseconds; the store keeps whole seconds.
\<close>

section \<open>Constants (scheduler.go, backoff.go, watch.go)\<close>

definition second :: int where "second = 1000000000"
definition minute :: int where "minute = 60 * second"

definition defaultBatchSize :: int where "defaultBatchSize = 32"
definition defaultScanInterval :: int where "defaultScanInterval = 5 * minute"
definition deferRecheckInterval :: int where "deferRecheckInterval = 5 * minute"
definition maxLoggedPathErrors :: nat where "maxLoggedPathErrors = 5"
definition defaultBackoffBase :: int where "defaultBackoffBase = 30 * second"
definition defaultBackoffCap :: int where "defaultBackoffCap = 15 * minute"
definition defaultMaxAttempts :: int where "defaultMaxAttempts = 5"
definition defaultDebounce :: int where "defaultDebounce = 10 * second"
definition watchedScanInterval :: int where "watchedScanInterval = 15 * minute"
definition maxLoggedWatchErrors :: nat where "maxLoggedWatchErrors = 5"
definition maxPendingReconcile :: nat where "maxPendingReconcile = 65536"

text \<open>\<open>Time.Unix\<close>.\<close>

definition Unix :: "int \<Rightarrow> int" where "Unix t = t div second"

datatype Gate = GateNone | GateIdle | GateBattery | GateEmbedder | GateStoreFail | GateUnreadable

datatype WatchReason = NoReason | WatchStarting | WatchOffNoRoots | WatchOffStopped | WatchFailed string

section \<open>The retry window (backoff.go: fullJitter)\<close>

text \<open>The doubling in 64 bits.\<close>

fun doubling :: "nat \<Rightarrow> int \<Rightarrow> int \<Rightarrow> int" where
  "doubling 0 window ceil = window"
| "doubling (Suc n) window ceil = (if window < ceil then doubling n (goInt (window * 2)) ceil else window)"

definition jitterWindow :: "int \<Rightarrow> int \<Rightarrow> int \<Rightarrow> int" where
  "jitterWindow attempt base ceil =
     (let window = doubling (nat ((if attempt < 1 then 1 else attempt) - 1)) base ceil
      in if window > ceil then ceil else window)"

text \<open>\<open>rnd\<close> is the generator, asked only about a positive window.\<close>

definition fullJitter :: "int \<Rightarrow> int \<Rightarrow> int \<Rightarrow> (nat \<Rightarrow> int \<Rightarrow> int) \<Rightarrow> World \<Rightarrow> int \<times> World" where
  "fullJitter attempt base ceil rnd w =
     (let window = jitterWindow attempt base ceil
      in if window \<le> 0 then (0, w) else ask (\<lambda>n. rnd n window) w)"

section \<open>The snapshot (scheduler.go: Snapshot)\<close>

text \<open>A zero time is \<open>None\<close>; an error is kept as the value its text renders.\<close>

record Snapshot =
  sn_Gate :: Gate
  sn_LastError :: "PipeErr option"
  sn_LastScan :: "int option"
  sn_LastCycle :: "int option"
  sn_LastProgress :: "int option"
  sn_Indexed :: nat
  sn_Failed :: nat
  sn_Skipped :: nat
  sn_Retried :: nat
  sn_Swept :: nat
  sn_Collected :: nat
  sn_Changed :: nat
  sn_Superseded :: nat
  sn_ScanErrs :: nat
  sn_PathErrors :: "PathError list"
  sn_ScanReachedNothing :: bool
  sn_ScanDeleted :: nat
  sn_ScanPruned :: nat
  sn_ScanUnverified :: nat
  sn_ScanIgnored :: nat
  sn_ScanUnmounted :: "path list"
  sn_ScanDeclineReasons :: "DeclineReason list"
  sn_Deferring :: bool
  sn_Watching :: bool
  sn_WatchReason :: WatchReason
  sn_WatchRoots :: nat
  sn_LastWatchEvent :: "int option"
  sn_WatchReconciled :: nat
  sn_WatchDeleted :: nat
  sn_WatchRescans :: nat
  sn_WatchIgnored :: nat

definition emptySnapshot :: Snapshot where
  "emptySnapshot = \<lparr>sn_Gate = GateNone, sn_LastError = None, sn_LastScan = None, sn_LastCycle = None,
     sn_LastProgress = None, sn_Indexed = 0, sn_Failed = 0, sn_Skipped = 0, sn_Retried = 0, sn_Swept = 0,
     sn_Collected = 0, sn_Changed = 0, sn_Superseded = 0, sn_ScanErrs = 0, sn_PathErrors = [],
     sn_ScanReachedNothing = False, sn_ScanDeleted = 0, sn_ScanPruned = 0, sn_ScanUnverified = 0,
     sn_ScanIgnored = 0, sn_ScanUnmounted = [], sn_ScanDeclineReasons = [], sn_Deferring = False,
     sn_Watching = False, sn_WatchReason = NoReason, sn_WatchRoots = 0, sn_LastWatchEvent = None,
     sn_WatchReconciled = 0, sn_WatchDeleted = 0, sn_WatchRescans = 0, sn_WatchIgnored = 0\<rparr>"

section \<open>The wiring and the state (scheduler.go: Options, Scheduler, New)\<close>

text \<open>\<open>config.Interval\<close>: a duration, or the literal \<open>defer\<close>.\<close>

datatype Interval = Every int | Defer

text \<open>
  What the goroutine of the watcher does between two looks of the scheduler's: a debounce window
  handed over, the subscription made or not made, the loop ended (under a cancelled context or not).
\<close>

datatype WatchMsg = Window "path list" bool | Subscribed nat | NotSubscribed WatchReason | Stopped bool

record SchedOptions =
  op_Queue :: bool
  op_Indexer :: "Indexer option"
  op_Scanner :: "(FS \<times> ScanOptions) option"
  op_Debounce :: int
  op_Power :: "(nat \<Rightarrow> Interval) option"
  op_ScanInterval :: int
  op_BatchSize :: int
  op_MaxAttempts :: int
  op_Clock :: "(nat \<Rightarrow> int) option"
  op_Rand :: "(nat \<Rightarrow> int \<Rightarrow> int) option"

text \<open>The fields of the scheduler that never change.\<close>

record Sched =
  sd_indexer :: Indexer
  sd_fs :: FS
  sd_scan :: ScanOptions
  sd_power :: "nat \<Rightarrow> Interval"
  sd_scanInterval :: int
  sd_debounce :: int
  sd_batchSize :: int
  sd_maxAttempts :: int
  sd_now :: "nat \<Rightarrow> int"
  sd_rnd :: "nat \<Rightarrow> int \<Rightarrow> int"

text \<open>What lies outside the package: \<open>os.ReadFile\<close>, the watcher's goroutine, and the text of an error.\<close>

record Beyond =
  by_read :: reader
  by_watch :: "nat \<Rightarrow> WatchMsg list"
  by_text :: "PipeErr \<Rightarrow> string"

record SState =
  ss_world :: World
  ss_snap :: Snapshot
  ss_sweptVersions :: bool
  ss_sweptDims :: bool
  ss_needQueueSweep :: bool
  ss_needFullSweep :: bool
  ss_forceScan :: bool
  ss_pending :: "path list"
  ss_nextProbe :: "int option"
  ss_notify :: bool

text \<open>\<open>time.Now\<close> and \<open>rand.Int64N\<close> are the parameters of \<open>New\<close>.\<close>

definition NewSched :: "(nat \<Rightarrow> int) \<Rightarrow> (nat \<Rightarrow> int \<Rightarrow> int) \<Rightarrow> SchedOptions \<Rightarrow> string + Sched" where
  "NewSched timeNow int64N opts =
     (case (op_Indexer opts, op_Scanner opts) of
        (Some ix, Some (fs, scanOpts)) \<Rightarrow>
          if \<not> op_Queue opts then Inl ''scheduler: Queue, Indexer, and Scanner are all required''
          else Inr \<lparr>sd_indexer = ix, sd_fs = fs, sd_scan = scanOpts,
                 sd_power = (case op_Power opts of None \<Rightarrow> (\<lambda>_. Every (5 * minute)) | Some f \<Rightarrow> f),
                 sd_scanInterval = op_ScanInterval opts,
                 sd_debounce = (if op_Debounce opts \<le> 0 then defaultDebounce else op_Debounce opts),
                 sd_batchSize = (if op_BatchSize opts \<le> 0 then defaultBatchSize else op_BatchSize opts),
                 sd_maxAttempts = (if op_MaxAttempts opts \<le> 0 then defaultMaxAttempts else op_MaxAttempts opts),
                 sd_now = (case op_Clock opts of None \<Rightarrow> timeNow | Some f \<Rightarrow> f),
                 sd_rnd = (case op_Rand opts of None \<Rightarrow> int64N | Some f \<Rightarrow> f)\<rparr>
      | _ \<Rightarrow> Inl ''scheduler: Queue, Indexer, and Scanner are all required'')"

definition startState :: "World \<Rightarrow> SState" where
  "startState w = \<lparr>ss_world = w, ss_snap = emptySnapshot, ss_sweptVersions = False, ss_sweptDims = False,
     ss_needQueueSweep = False, ss_needFullSweep = True, ss_forceScan = False, ss_pending = [],
     ss_nextProbe = None, ss_notify = False\<rparr>"

definition mark :: "(Snapshot \<Rightarrow> Snapshot) \<Rightarrow> SState \<Rightarrow> SState" where
  "mark update s = s\<lparr>ss_snap := update (ss_snap s)\<rparr>"

definition gate :: "Gate \<Rightarrow> bool \<Rightarrow> SState \<Rightarrow> SState" where
  "gate reason deferring = mark (\<lambda>n. n\<lparr>sn_Gate := reason, sn_Deferring := deferring\<rparr>)"

definition lastError :: "PipeErr \<Rightarrow> SState \<Rightarrow> SState" where
  "lastError e = mark (\<lambda>n. n\<lparr>sn_LastError := Some e\<rparr>)"

definition Notify :: "SState \<Rightarrow> SState" where
  "Notify s = s\<lparr>ss_notify := True\<rparr>"

text \<open>An operation on the world, the clock, and the context.\<close>

definition doing :: "(World \<Rightarrow> 'a \<times> World) \<Rightarrow> SState \<Rightarrow> 'a \<times> SState" where
  "doing f s = (case f (ss_world s) of (r, w) \<Rightarrow> (r, s\<lparr>ss_world := w\<rparr>))"

definition now :: "Sched \<Rightarrow> SState \<Rightarrow> int \<times> SState" where
  "now sd = doing (ask (sd_now sd))"

definition cancelled :: "SState \<Rightarrow> bool \<times> SState" where
  "cancelled = doing (onStore ctxErr)"

section \<open>The retry window stays between zero and its cap\<close>

lemma doubling_bounds:
  assumes "0 < window" "window \<le> 2 * ceil" "ceil \<le> 2 ^ 61"
  shows "0 < doubling n window ceil \<and> doubling n window ceil \<le> max window (2 * ceil) \<and>
    (window \<le> ceil \<longrightarrow> min ceil (doubling n window ceil) = min ceil (window * 2 ^ n))"
  using assms
proof (induction n arbitrary: window)
  case (Suc n)
  show ?case
  proof (cases "window < ceil")
    case True
    have wrap: "goInt (window * 2) = window * 2" using True Suc.prems by (simp add: goInt_def)
    note IH = Suc.IH [of "window * 2"]
    show ?thesis
    proof (cases "window * 2 \<le> ceil")
      case True
      then show ?thesis using IH Suc.prems \<open>window < ceil\<close> wrap by (simp add: mult.assoc)
    next
      case False
      then have "doubling n (window * 2) ceil = window * 2" by (cases n) simp_all
      moreover have "window * 2 \<le> window * 2 ^ Suc n"
        using Suc.prems(1) by (intro mult_left_mono) simp_all
      then have "min ceil (window * 2 ^ Suc n) = ceil" "min ceil (window * 2) = ceil" using False by simp_all
      ultimately show ?thesis using False Suc.prems \<open>window < ceil\<close> wrap by simp
    qed
  next
    case False
    have "window * 1 \<le> window * 2 ^ Suc n" using Suc.prems(1) by (intro mult_left_mono one_le_power) simp_all
    then show ?thesis using False Suc.prems by simp
  qed
qed simp

lemma jitterWindow_exact:
  assumes "0 < base" "base \<le> ceil" "ceil \<le> 2 ^ 61"
  shows "jitterWindow attempt base ceil = min ceil (base * 2 ^ nat (max 1 attempt - 1))"
proof -
  define n where "n = nat ((if attempt < 1 then 1 else attempt) - 1)"
  have n: "n = nat (max 1 attempt - 1)" by (simp add: n_def max_def)
  have "min ceil (doubling n base ceil) = min ceil (base * 2 ^ n)"
    using doubling_bounds [of base ceil n] assms by simp
  then show ?thesis unfolding jitterWindow_def n_def [symmetric] Let_def n by (simp add: min_def split: if_splits)
qed

text \<open>
  The retry delay of the default configuration lies between zero and
  \<open>min(15 min, 30 s * 2^(attempt-1))\<close>, strictly below it, for every attempt number: the doubling never
  wraps around in 64 bits, so no retry is scheduled in the past.
\<close>

theorem fullJitter_bounds:
  assumes "\<And>n k. 0 < k \<Longrightarrow> 0 \<le> rnd n k \<and> rnd n k < k"
  shows "0 \<le> fst (fullJitter attempt defaultBackoffBase defaultBackoffCap rnd w) \<and>
    fst (fullJitter attempt defaultBackoffBase defaultBackoffCap rnd w)
      < min defaultBackoffCap (defaultBackoffBase * 2 ^ nat (max 1 attempt - 1))"
proof -
  let ?window = "min defaultBackoffCap (defaultBackoffBase * 2 ^ nat (max 1 attempt - 1))"
  have "jitterWindow attempt defaultBackoffBase defaultBackoffCap = ?window"
    by (rule jitterWindow_exact)
      (simp_all add: defaultBackoffBase_def defaultBackoffCap_def minute_def second_def)
  moreover have "0 < ?window" by (simp add: defaultBackoffBase_def defaultBackoffCap_def minute_def second_def)
  ultimately show ?thesis using assms [of ?window "w_tick w"] by (simp add: fullJitter_def Let_def ask_def)
qed

theorem fullJitter_bounds_witness:
  "fst (fullJitter 100 defaultBackoffBase defaultBackoffCap (\<lambda>_ k. k - 1) pipe_world) < 900 * second"
  using fullJitter_bounds [of "\<lambda>_ k. k - 1" 100 pipe_world]
  by (simp add: defaultBackoffCap_def minute_def min_def split: if_splits)

end
