(* ===== verification/Watching.thy ===== *)
theory Watching
  imports SchedState
begin

text \<open>
  The watcher's side of the scheduler (scheduler/watch.go): the debounce loop over the event stream,
  the set of paths handed over, and the reconcile that empties it.
\<close>

section \<open>Debouncing (watch.go: watch)\<close>

text \<open>What the loop selects on: a batch, the timer of the open window, the end of the stream, the context.\<close>

datatype WatchEvent = Batch "path list" bool | TimerFires | StreamEnds | CtxDone

record Debounce =
  de_paths :: "path list"
  de_rescan :: bool
  de_window :: bool

definition noWindow :: Debounce where
  "noWindow = \<lparr>de_paths = [], de_rescan = False, de_window = False\<rparr>"

definition addPaths :: "path list \<Rightarrow> path list \<Rightarrow> path list" where
  "addPaths ps held = held @ filter (\<lambda>p. p \<notin> set held) (remdups ps)"

definition watchStep :: "WatchEvent \<Rightarrow> Debounce \<Rightarrow> Debounce option \<times> WatchMsg list" where
  "watchStep ev d =
     (case ev of
        Batch ps r \<Rightarrow>
          (Some \<lparr>de_paths = addPaths ps (de_paths d), de_rescan = (de_rescan d \<or> r), de_window = True\<rparr>, [])
      | TimerFires \<Rightarrow>
          if de_window d then (Some noWindow, [Window (de_paths d) (de_rescan d)]) else (Some d, [])
      | StreamEnds \<Rightarrow> (None, [Window (de_paths d) (de_rescan d), Stopped False])
      | CtxDone \<Rightarrow> (None, [Window (de_paths d) (de_rescan d), Stopped True]))"

text \<open>The messages of a run, and the window still open when the script ends before the loop does.\<close>

fun watchLoop :: "WatchEvent list \<Rightarrow> Debounce \<Rightarrow> WatchMsg list \<times> Debounce option" where
  "watchLoop [] d = ([], Some d)"
| "watchLoop (ev # evs) d =
     (case watchStep ev d of
        (None, msgs) \<Rightarrow> (msgs, None)
      | (Some d', msgs) \<Rightarrow> (case watchLoop evs d' of (rest, left) \<Rightarrow> (msgs @ rest, left)))"

text \<open>\<open>subscribe\<close> is the error of \<open>Watcher.Watch\<close>, if it failed.\<close>

definition watch :: "path list \<Rightarrow> string option \<Rightarrow> WatchEvent list \<Rightarrow> WatchMsg list" where
  "watch roots subscribe evs =
     (if roots = [] then [NotSubscribed WatchOffNoRoots]
      else case subscribe of
             Some e \<Rightarrow> [NotSubscribed (WatchFailed e)]
           | None \<Rightarrow> Subscribed (length roots) # fst (watchLoop evs noWindow))"

section \<open>The pending set (watch.go: mergePending, refusePending, enqueue, closeWindow, takePending)\<close>

definition requestScan :: "SState \<Rightarrow> SState" where
  "requestScan s = s\<lparr>ss_forceScan := True\<rparr>"

definition mergePending :: "path list \<Rightarrow> SState \<Rightarrow> (nat \<times> bool) \<times> SState" where
  "mergePending ps s =
     (let fresh = filter (\<lambda>p. p \<notin> set (ss_pending s)) (remdups ps) in
      if length (ss_pending s) + length fresh > maxPendingReconcile
      then ((length (ss_pending s), False), s)
      else (let merged = addPaths ps (ss_pending s)
            in ((length merged, True), s\<lparr>ss_pending := merged\<rparr>)))"

definition refusePending :: "SState \<Rightarrow> SState" where
  "refusePending s = requestScan (mark (\<lambda>n. n\<lparr>sn_WatchRescans := Suc (sn_WatchRescans n)\<rparr>) s)"

definition enqueue :: "path list \<Rightarrow> SState \<Rightarrow> SState" where
  "enqueue ps s = (case mergePending ps s of ((_, ok), s1) \<Rightarrow> Notify (if ok then s1 else refusePending s1))"

definition restorePending :: "path list \<Rightarrow> SState \<Rightarrow> SState" where
  "restorePending ps s = (case mergePending ps s of ((_, ok), s1) \<Rightarrow> if ok then s1 else refusePending s1)"

definition closeWindow :: "Sched \<Rightarrow> path list \<Rightarrow> bool \<Rightarrow> SState \<Rightarrow> SState" where
  "closeWindow sd ps rescan s =
     (if ps = [] \<and> \<not> rescan then s
      else case now sd s of
             (t, s0) \<Rightarrow>
               (let s1 = mark (\<lambda>n. n\<lparr>sn_LastWatchEvent := Some t\<rparr>) s0 in
                if rescan then
                  Notify (requestScan (mark (\<lambda>n. n\<lparr>sn_WatchRescans := Suc (sn_WatchRescans n)\<rparr>) s1))
                else enqueue ps s1))"

definition takePending :: "SState \<Rightarrow> path list \<times> SState" where
  "takePending s = (sort (ss_pending s), s\<lparr>ss_pending := []\<rparr>)"

definition hasPending :: "SState \<Rightarrow> bool" where
  "hasPending s \<longleftrightarrow> length (ss_pending s) > 0"

text \<open>The watcher's goroutine acts whenever the scheduler's takes the lock.\<close>

fun deliver :: "Sched \<Rightarrow> WatchMsg \<Rightarrow> SState \<Rightarrow> SState" where
  "deliver sd (Window ps rescan) s = closeWindow sd ps rescan s"
| "deliver sd (Subscribed n) s =
     mark (\<lambda>x. x\<lparr>sn_Watching := True, sn_WatchRoots := n, sn_WatchReason := NoReason\<rparr>) s"
| "deliver sd (NotSubscribed reason) s = mark (\<lambda>x. x\<lparr>sn_WatchReason := reason\<rparr>) s"
| "deliver sd (Stopped ctxDone) s =
     mark (\<lambda>x. x\<lparr>sn_Watching := False,
       sn_WatchReason := (if sn_WatchReason x = NoReason \<and> \<not> ctxDone then WatchOffStopped else sn_WatchReason x)\<rparr>) s"

definition arrivals :: "Sched \<Rightarrow> Beyond \<Rightarrow> SState \<Rightarrow> SState" where
  "arrivals sd bd s = fold (deliver sd) (by_watch bd (w_tick (ss_world s))) s"

section \<open>The sweep requests (scheduler.go: requestOrphanSweep, noteOrphanProducers)\<close>

definition requestOrphanSweep :: "SweepScope \<Rightarrow> SState \<Rightarrow> SState" where
  "requestOrphanSweep scope s =
     (if scope = SweepScopeAll then s\<lparr>ss_needFullSweep := True\<rparr> else s\<lparr>ss_needQueueSweep := True\<rparr>)"

definition noteOrphanProducers :: "DResult \<Rightarrow> SState \<Rightarrow> SState" where
  "noteOrphanProducers res s =
     (if dr_Deleted res > 0 \<or> dr_Pruned res > 0 \<or> dr_Changed res > 0
      then requestOrphanSweep SweepScopeQueue s else s)"

section \<open>Reconciling what was handed over (watch.go: reconcilePending, recordReconcile)\<close>

text \<open>The sample \<open>logPathErrors\<close> returns.\<close>

definition logPathErrors :: "PathError list \<Rightarrow> nat \<Rightarrow> PathError list" where
  "logPathErrors errs limit = take limit errs"

fun appendCapped :: "PathError list \<Rightarrow> PathError list \<Rightarrow> nat \<Rightarrow> PathError list" where
  "appendCapped dst [] limit = dst"
| "appendCapped dst (pe # src) limit =
     (if length dst \<ge> limit then dst else appendCapped (dst @ [pe]) src limit)"

definition recordReconcile :: "DResult \<Rightarrow> SState \<Rightarrow> SState" where
  "recordReconcile res s =
     (let sample = logPathErrors (dr_PathErrors res) maxLoggedWatchErrors in
      noteOrphanProducers res
        (mark (\<lambda>n. n\<lparr>sn_WatchReconciled := sn_WatchReconciled n + dr_Discovered res,
           sn_WatchDeleted := sn_WatchDeleted n + dr_Deleted res,
           sn_ScanErrs := sn_ScanErrs n + length (dr_PathErrors res),
           sn_PathErrors := appendCapped (sn_PathErrors n) sample maxLoggedPathErrors,
           sn_WatchIgnored := sn_WatchIgnored n + dr_Ignored res\<rparr>) s))"

text \<open>The set is taken before the write; on a cancelled context it is handed back.\<close>

definition reconcilePending :: "Sched \<Rightarrow> Beyond \<Rightarrow> SState \<Rightarrow> SState" where
  "reconcilePending sd bd s =
     (case cancelled s of
        (True, s0) \<Rightarrow> s0
      | (False, s0) \<Rightarrow>
          (case takePending (arrivals sd bd s0) of
             (list, s1) \<Rightarrow>
               if list = [] then s1
               else
                 (case doing (ScanPaths (sd_scan sd) (sd_fs sd) list) s1 of
                    ((res, err), s2) \<Rightarrow>
                      (let s3 = recordReconcile res s2 in
                       case err of
                         None \<Rightarrow> s3
                       | Some e \<Rightarrow>
                           (case cancelled s3 of
                              (True, s4) \<Rightarrow> restorePending list (arrivals sd bd s4)
                            | (False, s4) \<Rightarrow> Notify (requestScan (lastError (EStore e) s4)))))))"

text \<open>The shutdown: what was handed over and not reached, on a context of its own.\<close>

definition flushPending :: "Sched \<Rightarrow> Beyond \<Rightarrow> SState \<Rightarrow> SState" where
  "flushPending sd bd s =
     (if hasPending s
      then reconcilePending sd bd (s\<lparr>ss_world := (ss_world s)\<lparr>w_store := (w_store (ss_world s))\<lparr>st_done := False\<rparr>\<rparr>\<rparr>)
      else s)"

section \<open>Nothing handed over is forgotten\<close>

lemma set_addPaths [simp]: "set (addPaths ps held) = set held \<union> set ps"
  by (auto simp: addPaths_def)

definition windowPaths :: "WatchMsg list \<Rightarrow> path set" where
  "windowPaths msgs = (\<Union>m \<in> set msgs. case m of Window ps _ \<Rightarrow> set ps | _ \<Rightarrow> {})"

definition batchPaths :: "WatchEvent list \<Rightarrow> path set" where
  "batchPaths evs = (\<Union>e \<in> set evs. case e of Batch ps _ \<Rightarrow> set ps | _ \<Rightarrow> {})"

definition openPaths :: "Debounce option \<Rightarrow> path set" where
  "openPaths d = (case d of None \<Rightarrow> {} | Some d \<Rightarrow> set (de_paths d))"

text \<open>The events the loop reads: those up to the end of the stream or the cancellation.\<close>

definition reading :: "WatchEvent list \<Rightarrow> WatchEvent list" where
  "reading evs = takeWhile (\<lambda>e. e \<noteq> StreamEnds \<and> e \<noteq> CtxDone) evs"

lemma window_paths_simps [simp]:
  "windowPaths [] = {}" "windowPaths (as @ bs) = windowPaths as \<union> windowPaths bs"
  "windowPaths (Window ps r # ms) = set ps \<union> windowPaths ms" "windowPaths (Stopped b # ms) = windowPaths ms"
  by (auto simp: windowPaths_def)

lemma watchLoop_paths:
  "watchLoop evs d = (msgs, left) \<Longrightarrow>
   windowPaths msgs \<union> openPaths left = set (de_paths d) \<union> batchPaths (reading evs)"
proof (induction evs arbitrary: d msgs left)
  case Nil
  then show ?case by (auto simp: openPaths_def batchPaths_def reading_def)
next
  case (Cons ev evs)
  show ?case
  proof (cases ev)
    case (Batch ps r)
    obtain rest o' where l: "watchLoop evs \<lparr>de_paths = addPaths ps (de_paths d), de_rescan = (de_rescan d \<or> r), de_window = True\<rparr> = (rest, o')"
      by fastforce
    from Cons.IH [OF l] show ?thesis using Cons.prems l Batch
      by (auto simp: watchStep_def batchPaths_def reading_def)
  next
    case TimerFires
    obtain rest o' where l: "watchLoop evs noWindow = (rest, o')" by fastforce
    obtain rest2 o2 where l2: "watchLoop evs d = (rest2, o2)" by fastforce
    show ?thesis using Cons.prems TimerFires l l2 Cons.IH [OF l] Cons.IH [OF l2]
      by (cases "de_window d") (auto simp: watchStep_def batchPaths_def reading_def noWindow_def)
  qed (use Cons.prems in \<open>auto simp: watchStep_def batchPaths_def reading_def openPaths_def\<close>)
qed

text \<open>
  C14: The debounce loop loses no path: the paths of the windows it hands over, with those of a window
  still open, are exactly the paths of the batches it received before the stream ended or the context
  was cancelled; once it has ended, no window is open.
\<close>

theorem watch_hands_over:
  "(case watchLoop evs noWindow of
      (msgs, left) \<Rightarrow>
        windowPaths msgs \<union> openPaths left = batchPaths (reading evs) \<and>
        ((left = None) = (StreamEnds \<in> set evs \<or> CtxDone \<in> set evs)))"
proof -
  have ended: "snd (watchLoop evs d) = None \<longleftrightarrow> StreamEnds \<in> set evs \<or> CtxDone \<in> set evs" for d
    by (induction evs d rule: watchLoop.induct)
      (auto simp: watchStep_def split: prod.splits option.splits WatchEvent.splits if_splits)
  show ?thesis using ended [of noWindow] watchLoop_paths [of evs noWindow] by (auto simp: noWindow_def split: prod.split)
qed

end
