(* ===== verification/Scheduler.thy ===== *)
theory Scheduler
  imports Watching
begin

text \<open>
  The indexing loop (scheduler/scheduler.go): the walk, the orphan sweep, the drain of the queue and the
  cycle that runs them. Every call of the code that can fail, or that another goroutine can act before,
  is a step here, in its order.
\<close>

section \<open>The walk (scheduler.go: scanDue, scan)\<close>

definition scanIntervalLocked :: "Sched \<Rightarrow> SState \<Rightarrow> int" where
  "scanIntervalLocked sd s =
     (if sd_scanInterval sd > 0 then sd_scanInterval sd
      else if sn_Watching (ss_snap s) then watchedScanInterval
      else defaultScanInterval)"

text \<open>Whether a walk is due, and whether it was asked for.\<close>

definition scanDue :: "Sched \<Rightarrow> Beyond \<Rightarrow> SState \<Rightarrow> (bool \<times> bool) \<times> SState" where
  "scanDue sd bd s0 =
     (let s = arrivals sd bd s0 in
      if ss_forceScan s then ((True, True), s\<lparr>ss_forceScan := False\<rparr>)
      else (case sn_LastScan (ss_snap s) of
              None \<Rightarrow> ((True, False), s)
            | Some t \<Rightarrow> (case now sd s of (n, s1) \<Rightarrow> ((n - t \<ge> scanIntervalLocked sd s1, False), s1))))"

text \<open>What is recorded of a walk before its error is looked at.\<close>

definition recordScan :: "DResult \<Rightarrow> SState \<Rightarrow> SState" where
  "recordScan res =
     noteOrphanProducers res \<circ>
     mark (\<lambda>n.
       let n1 = n\<lparr>sn_ScanErrs := length (dr_PathErrors res),
                sn_PathErrors := logPathErrors (dr_PathErrors res) maxLoggedPathErrors,
                sn_ScanDeleted := sn_ScanDeleted n + dr_Deleted res,
                sn_ScanPruned := sn_ScanPruned n + dr_Pruned res\<rparr>
       in if dr_Reconciled res
          then n1\<lparr>sn_ScanUnverified := dr_Unverified res, sn_ScanIgnored := dr_Ignored res,
                  sn_ScanUnmounted := dr_Unmounted res, sn_ScanDeclineReasons := dr_DeclineReasons res\<rparr>
          else n1)"

definition scan :: "Sched \<Rightarrow> bool \<Rightarrow> SState \<Rightarrow> SState" where
  "scan sd forced s =
     (case doing (ScanRoots (sd_scan sd) (sd_fs sd)) s of
        ((res, err), s1) \<Rightarrow>
          (let s2 = recordScan res s1 in
           case err of
             Some e \<Rightarrow>
               (case cancelled s2 of
                  (True, s3) \<Rightarrow> s3
                | (False, s3) \<Rightarrow>
                    (let s4 = lastError (EStore e) s3 in if forced then requestScan s4 else s4))
           | None \<Rightarrow>
               (case now sd s2 of
                  (t, s3) \<Rightarrow>
                    mark (\<lambda>n. n\<lparr>sn_LastScan := Some t,
                        sn_ScanReachedNothing := (dr_WalkErrors res > 0 \<and> Reached res = 0)\<rparr>) s3)))"

section \<open>The orphan sweep (scheduler.go: takeOrphanSweep, sweepOrphans)\<close>

definition takeOrphanSweep :: "SState \<Rightarrow> SweepScope option \<times> SState" where
  "takeOrphanSweep s =
     (if ss_needFullSweep s then (Some SweepScopeAll, s\<lparr>ss_needFullSweep := False, ss_needQueueSweep := False\<rparr>)
      else if ss_needQueueSweep s then (Some SweepScopeQueue, s\<lparr>ss_needQueueSweep := False\<rparr>)
      else (None, s))"

definition sweepOrphans :: "SState \<Rightarrow> SState" where
  "sweepOrphans s =
     (case takeOrphanSweep s of
        (None, s1) \<Rightarrow> s1
      | (Some scope, s1) \<Rightarrow>
          (case doing (onStore (SweepOrphans scope)) s1 of
             ((n, Some e), s2) \<Rightarrow>
               (case cancelled s2 of
                  (True, s3) \<Rightarrow> requestOrphanSweep scope s3
                | (False, s3) \<Rightarrow> lastError (EStore e) (requestOrphanSweep scope s3))
           | ((n, None), s2) \<Rightarrow>
               if n > 0 then mark (\<lambda>x. x\<lparr>sn_Collected := sn_Collected x + n\<rparr>) s2 else s2))"

section \<open>The health gate and the stale sweep (scheduler.go: prepare, sweep)\<close>

definition probeDeferredUntil :: "Sched \<Rightarrow> SState \<Rightarrow> bool \<times> SState" where
  "probeDeferredUntil sd s =
     (case ss_nextProbe s of
        None \<Rightarrow> (False, s)
      | Some t \<Rightarrow> (case now sd s of (n, s1) \<Rightarrow> (n < t, s1)))"

definition deferProbe :: "Sched \<Rightarrow> SState \<Rightarrow> SState" where
  "deferProbe sd s = (case now sd s of (n, s1) \<Rightarrow> s1\<lparr>ss_nextProbe := Some (n + deferRecheckInterval)\<rparr>)"

definition clearProbeDeferral :: "SState \<Rightarrow> SState" where
  "clearProbeDeferral s = s\<lparr>ss_nextProbe := None\<rparr>"

definition prepare :: "Sched \<Rightarrow> SState \<Rightarrow> int option \<times> SState" where
  "prepare sd s =
     (case probeDeferredUntil sd s of
        (True, s0) \<Rightarrow> (None, s0)
      | (False, s0) \<Rightarrow>
          (case doing (Prepare (sd_indexer sd)) s0 of
             (Inl e, s1) \<Rightarrow>
               (case cancelled s1 of
                  (True, s2) \<Rightarrow> (None, s2)
                | (False, s2) \<Rightarrow> (None, deferProbe sd (lastError e (gate GateEmbedder False s2))))
           | (Inr dims, s1) \<Rightarrow> (Some dims, clearProbeDeferral s1)))"

definition sweep :: "(string \<times> string) list \<Rightarrow> SState \<Rightarrow> bool \<times> SState" where
  "sweep current s =
     (case doing (onStore (ResetStale current)) s of
        ((moved, Some e), s1) \<Rightarrow>
          (case cancelled s1 of
             (True, s2) \<Rightarrow> (False, s2)
           | (False, s2) \<Rightarrow> (False, lastError (EStore e) (gate GateStoreFail False s2)))
      | ((moved, None), s1) \<Rightarrow>
          (True, if moved > 0 then mark (\<lambda>n. n\<lparr>sn_Swept := sn_Swept n + moved\<rparr>) s1 else s1))"

section \<open>One content (scheduler.go: contentGone, storeFailure, reschedule, retry, process)\<close>

definition contentGone :: "StoreErr \<Rightarrow> bool" where
  "contentGone e \<longleftrightarrow> e = ErrContentGone"

definition storeFailure :: "StoreErr \<Rightarrow> SState \<Rightarrow> bool \<times> SState" where
  "storeFailure e s =
     (case cancelled s of
        (True, s1) \<Rightarrow> (False, s1)
      | (False, s1) \<Rightarrow> (False, lastError (EStore e) (gate GateStoreFail False s1)))"

text \<open>\<open>contentGone(err) || storeFailure(err)\<close>.\<close>

definition goneOrFailed :: "StoreErr \<Rightarrow> SState \<Rightarrow> bool \<times> SState" where
  "goneOrFailed e s = (if contentGone e then (True, s) else storeFailure e s)"

definition giveUp :: "Sched \<Rightarrow> hash \<Rightarrow> int \<Rightarrow> string \<Rightarrow> SState \<Rightarrow> bool \<times> SState" where
  "giveUp sd h attempts reason s =
     (case now sd s of
        (t, s0) \<Rightarrow>
          (case doing (onStore (Reschedule h attempts (Unix t) reason)) s0 of
             (Inl e, s1) \<Rightarrow> goneOrFailed e s1
           | (Inr _, s1) \<Rightarrow>
               (case doing (onStore (MarkFailed h (reason @ '' (after '' @ decimal attempts @ '' attempts)''))) s1 of
                  (Inl e, s2) \<Rightarrow> goneOrFailed e s2
                | (Inr _, s2) \<Rightarrow> (True, mark (\<lambda>n. n\<lparr>sn_Failed := Suc (sn_Failed n)\<rparr>) s2))))"

definition retryLater :: "Sched \<Rightarrow> hash \<Rightarrow> int \<Rightarrow> string \<Rightarrow> SState \<Rightarrow> bool \<times> SState" where
  "retryLater sd h attempts reason s =
     (case doing (fullJitter attempts defaultBackoffBase defaultBackoffCap (sd_rnd sd)) s of
        (wait, s0) \<Rightarrow>
          (case now sd s0 of
             (t, s1) \<Rightarrow>
               (case doing (onStore (Reschedule h attempts (Unix (t + wait)) reason)) s1 of
                  (Inl e, s2) \<Rightarrow> goneOrFailed e s2
                | (Inr _, s2) \<Rightarrow> (True, mark (\<lambda>n. n\<lparr>sn_Retried := Suc (sn_Retried n)\<rparr>) s2))))"

definition reschedule :: "Sched \<Rightarrow> Beyond \<Rightarrow> WorkItem \<Rightarrow> PipeErr option \<Rightarrow> SState \<Rightarrow> bool \<times> SState" where
  "reschedule sd bd item cause s =
     (let reason = (case cause of None \<Rightarrow> ''unknown error'' | Some e \<Rightarrow> by_text bd e);
          h = c_Hash (wi_Content item);
          attempts = c_Attempts (wi_Content item) + 1
      in if attempts \<ge> sd_maxAttempts sd then giveUp sd h attempts reason s
         else retryLater sd h attempts reason s)"

definition retry :: "Sched \<Rightarrow> Beyond \<Rightarrow> WorkItem \<Rightarrow> PipeErr option \<Rightarrow> SState \<Rightarrow> bool \<times> SState" where
  "retry sd bd item cause s =
     (case doing (Prepare (sd_indexer sd)) s of
        (Inl e, s1) \<Rightarrow>
          (case cancelled s1 of
             (True, s2) \<Rightarrow> (False, s2)
           | (False, s2) \<Rightarrow> (False, lastError e (gate GateEmbedder False s2)))
      | (Inr _, s1) \<Rightarrow> reschedule sd bd item cause s1)"

definition deferChanged :: "Sched \<Rightarrow> Beyond \<Rightarrow> hash \<Rightarrow> WorkItem \<Rightarrow> SState \<Rightarrow> bool \<times> SState" where
  "deferChanged sd bd h item s =
     (case now sd s of
        (t, s1) \<Rightarrow>
          (case doing (onStore (Reschedule h (c_Attempts (wi_Content item)) (Unix (t + defaultBackoffCap))
                 ''content changed on disk while queued; awaiting rediscovery'')) s1 of
             (Inl e, s2) \<Rightarrow> goneOrFailed e s2
           | (Inr _, s2) \<Rightarrow> (True, s2)))"

text \<open>What an outcome does: whether the drain goes on, whether the content was skipped.\<close>

definition onOutcome :: "Sched \<Rightarrow> Beyond \<Rightarrow> hash \<Rightarrow> WorkItem \<Rightarrow> PResult \<Rightarrow> SState \<Rightarrow> (bool \<times> nat) \<times> SState" where
  "onOutcome sd bd h item res s =
     (case pr_Outcome res of
        OutcomeIndexed \<Rightarrow>
          (case now sd s of
             (t, s1) \<Rightarrow> ((True, 0), mark (\<lambda>n. n\<lparr>sn_Indexed := Suc (sn_Indexed n), sn_LastProgress := Some t\<rparr>) s1))
      | OutcomeFailed \<Rightarrow> ((True, 0), mark (\<lambda>n. n\<lparr>sn_Failed := Suc (sn_Failed n)\<rparr>) s)
      | OutcomeSkipped \<Rightarrow> ((True, 1), mark (\<lambda>n. n\<lparr>sn_Skipped := Suc (sn_Skipped n)\<rparr>) s)
      | OutcomeChanged \<Rightarrow>
          (case deferChanged sd bd h item (mark (\<lambda>n. n\<lparr>sn_Changed := Suc (sn_Changed n)\<rparr>) s) of
             (ok, s1) \<Rightarrow> ((ok, 0), s1))
      | OutcomeSuperseded \<Rightarrow>
          if pr_Err res = Some (EStore ErrContentGone) then ((True, 0), s)
          else (case reschedule sd bd item (pr_Err res) (mark (\<lambda>n. n\<lparr>sn_Superseded := Suc (sn_Superseded n)\<rparr>) s) of
                  (ok, s1) \<Rightarrow> ((ok, 0), s1))
      | OutcomeTransient \<Rightarrow> (case retry sd bd item (pr_Err res) s of (ok, s1) \<Rightarrow> ((ok, 0), s1)))"

text \<open>
  One iteration of \<open>process\<close>: whether the drain goes on, whether the content is now seen, how many were
  skipped.
\<close>

definition processOne :: "Sched \<Rightarrow> Beyond \<Rightarrow> (string \<times> string) list \<Rightarrow> hash \<Rightarrow> SState \<Rightarrow> (bool \<times> bool \<times> nat) \<times> SState" where
  "processOne sd bd sv h s =
     (case cancelled s of
        (True, s0) \<Rightarrow> ((False, False, 0), s0)
      | (False, s0) \<Rightarrow>
          (case cancelled (reconcilePending sd bd s0) of
             (True, s1) \<Rightarrow> ((False, False, 0), s1)
           | (False, s1) \<Rightarrow>
               (case doing (onStore (GetWork h)) s1 of
                  (Inl e, s2) \<Rightarrow>
                    (case cancelled s2 of
                       (True, s3) \<Rightarrow> ((False, False, 0), s3)
                     | (False, s3) \<Rightarrow>
                         if contentGone e then ((True, True, 0), s3)
                         else (case storeFailure e s3 of (ok, s4) \<Rightarrow> ((ok, False, 0), s4)))
                | (Inr item, s2) \<Rightarrow>
                    (case doing (ProcessContent (by_read bd) (sd_indexer sd) item sv) s2 of
                       (Inl e, s3) \<Rightarrow>
                         (case cancelled s3 of
                            (True, s4) \<Rightarrow> ((False, True, 0), s4)
                          | (False, s4) \<Rightarrow> ((False, True, 0), lastError e (gate GateStoreFail False s4)))
                     | (Inr res, s3) \<Rightarrow>
                         (case onOutcome sd bd h item res s3 of
                            ((ok, skipped), s4) \<Rightarrow> ((ok, True, skipped), s4))))))"

fun process :: "Sched \<Rightarrow> Beyond \<Rightarrow> (string \<times> string) list \<Rightarrow> hash list \<Rightarrow> hash list \<Rightarrow> nat \<Rightarrow> SState \<Rightarrow>
    (bool \<times> hash list \<times> nat) \<times> SState" where
  "process sd bd sv [] seen skipped s = ((True, seen, skipped), s)"
| "process sd bd sv (h # hs) seen skipped s =
     (case processOne sd bd sv h s of
        ((ok, handled, k), s1) \<Rightarrow>
          (let seen' = (if handled then h # seen else seen) in
           if ok then process sd bd sv hs seen' (skipped + k) s1
           else ((False, seen', skipped + k), s1)))"

section \<open>The drain (scheduler.go: drain)\<close>

definition idleGate :: "nat \<Rightarrow> Gate" where
  "idleGate skipped = (if skipped > 0 then GateUnreadable else GateIdle)"

record Drain =
  dn_seen :: "hash list"
  dn_dims :: int
  dn_prepared :: bool
  dn_skipped :: nat

definition startDrain :: Drain where
  "startDrain = \<lparr>dn_seen = [], dn_dims = 0, dn_prepared = False, dn_skipped = 0\<rparr>"

text \<open>The end of an iteration: the fresh contents are processed, and the power is read again.\<close>

definition drainBatch :: "Sched \<Rightarrow> Beyond \<Rightarrow> hash list \<Rightarrow> Drain \<Rightarrow> SState \<Rightarrow> Drain option \<times> SState" where
  "drainBatch sd bd fresh d s =
     (if fresh = [] then (None, gate (idleGate (dn_skipped d)) False s)
      else
        (case process sd bd (StageVersions (sd_indexer sd) (dn_dims d)) fresh (dn_seen d) (dn_skipped d) s of
           ((ok, seen, skipped), s1) \<Rightarrow>
             if \<not> ok then (None, s1)
             else
               (case doing (ask (sd_power sd)) (gate GateNone False s1) of
                  (Defer, s2) \<Rightarrow> (None, gate GateBattery True s2)
                | (Every _, s2) \<Rightarrow> (Some (d\<lparr>dn_seen := seen, dn_skipped := skipped\<rparr>), s2))))"

text \<open>One iteration of the loop: the state of the drain it goes on with, if it goes on.\<close>

definition drainStep :: "Sched \<Rightarrow> Beyond \<Rightarrow> Drain \<Rightarrow> SState \<Rightarrow> Drain option \<times> SState" where
  "drainStep sd bd d s =
     (case cancelled s of
        (True, s0) \<Rightarrow> (None, s0)
      | (False, s0) \<Rightarrow>
          (let s1 = reconcilePending sd bd s0; ix = sd_indexer sd in
           if \<not> ss_sweptVersions s1 then
             (case sweep (filter (\<lambda>(k, v). k \<noteq> StageEmbeddingDims) (StageVersions ix 0)) s1 of
                (False, s2) \<Rightarrow> (None, s2)
              | (True, s2) \<Rightarrow> (Some d, s2\<lparr>ss_sweptVersions := True\<rparr>))
           else
             (case now sd s1 of
                (t, s2) \<Rightarrow>
                  (case doing (onStore (ClaimBatch (Unix t) (sd_batchSize sd))) s2 of
                     (Inl e, s3) \<Rightarrow>
                       (case cancelled s3 of
                          (True, s4) \<Rightarrow> (None, s4)
                        | (False, s4) \<Rightarrow> (None, lastError (EStore e) (gate GateStoreFail False s4)))
                   | (Inr contents, s3) \<Rightarrow>
                       (let fresh = filter (\<lambda>h. h \<notin> set (dn_seen d)) (map c_Hash contents) in
                        if fresh = [] \<and> ss_sweptDims s3 then (None, gate (idleGate (dn_skipped d)) False s3)
                        else if dn_prepared d then drainBatch sd bd fresh d s3
                        else
                          (case prepare sd s3 of
                             (None, s4) \<Rightarrow> (None, s4)
                           | (Some dims, s4) \<Rightarrow>
                               (let d1 = d\<lparr>dn_dims := dims, dn_prepared := True\<rparr> in
                                if \<not> ss_sweptDims s4 then
                                  (case sweep (filter (\<lambda>(k, v). k = StageEmbeddingDims) (StageVersions ix dims)) s4 of
                                     (False, s5) \<Rightarrow> (None, s5)
                                   | (True, s5) \<Rightarrow> (Some d1, s5\<lparr>ss_sweptDims := True\<rparr>))
                                else drainBatch sd bd fresh d1 s4)))))))"

text \<open>New work may keep arriving, so the loop need not end: \<open>None\<close> is a drain that never returns.\<close>

partial_function (option) drainLoop :: "Sched \<Rightarrow> Beyond \<Rightarrow> Drain \<Rightarrow> SState \<Rightarrow> SState option" where
  "drainLoop sd bd d s =
     (case drainStep sd bd d s of
        (None, s') \<Rightarrow> Some s'
      | (Some d', s') \<Rightarrow> drainLoop sd bd d' s')"

declare drainLoop.simps [code]

definition drain :: "Sched \<Rightarrow> Beyond \<Rightarrow> SState \<Rightarrow> SState option" where
  "drain sd bd s = drainLoop sd bd startDrain s"

section \<open>The cycle (scheduler.go: cycle)\<close>

text \<open>Up to the battery gate: the walk if it is due, the reconcile, the sweep; whether to stop there.\<close>

definition cheapStages :: "Sched \<Rightarrow> Beyond \<Rightarrow> SState \<Rightarrow> bool \<times> SState" where
  "cheapStages sd bd s =
     (case scanDue sd bd s of
        ((walk, forced), s1) \<Rightarrow>
          (case cancelled (if walk then scan sd forced s1 else s1) of
             (True, s2) \<Rightarrow> (True, s2)
           | (False, s2) \<Rightarrow>
               (case cancelled (reconcilePending sd bd s2) of
                  (True, s3) \<Rightarrow> (True, s3)
                | (False, s3) \<Rightarrow> cancelled (sweepOrphans s3))))"

text \<open>The wait before the next cycle; the time of the cycle is marked however it ends.\<close>

definition cycle :: "Sched \<Rightarrow> Beyond \<Rightarrow> SState \<Rightarrow> (int \<times> SState) option" where
  "cycle sd bd s =
     (let finish = (\<lambda>wait s. case now sd s of (t, s') \<Rightarrow> (wait, mark (\<lambda>n. n\<lparr>sn_LastCycle := Some t\<rparr>) s')) in
      case doing (ask (sd_power sd)) s of
        (policy, s0) \<Rightarrow>
          (case cheapStages sd bd s0 of
             (True, s1) \<Rightarrow> Some (finish deferRecheckInterval s1)
           | (False, s1) \<Rightarrow>
               (case policy of
                  Defer \<Rightarrow> Some (finish deferRecheckInterval (gate GateBattery True s1))
                | Every interval \<Rightarrow>
                    map_option (finish interval) (drain sd bd (mark (\<lambda>n. n\<lparr>sn_Deferring := False\<rparr>) s1)))))"

text \<open>One turn of \<open>Run\<close>: the cycle, and the timer it sets unless the context is done.\<close>

definition turn :: "Sched \<Rightarrow> Beyond \<Rightarrow> SState \<Rightarrow> (int option \<times> SState) option" where
  "turn sd bd s =
     (case cycle sd bd (s\<lparr>ss_notify := False\<rparr>) of
        None \<Rightarrow> None
      | Some (next_wait, s1) \<Rightarrow>
          (case cancelled s1 of
             (True, s2) \<Rightarrow> Some (None, s2)
           | (False, s2) \<Rightarrow> Some (Some (if next_wait \<le> 0 then deferRecheckInterval else next_wait), s2)))"

section \<open>The loop of the daemon (scheduler.go: Run)\<close>

text \<open>With a watcher, its goroutine is started; until it has subscribed, that is the reason on record.\<close>

definition startRun :: "bool \<Rightarrow> SState \<Rightarrow> SState" where
  "startRun watcher s = (if watcher then mark (\<lambda>n. n\<lparr>sn_WatchReason := WatchStarting\<rparr>) s else s)"

text \<open>
  Each wake is a turn. Of a wake and a context that is done, \<open>select\<close> takes either: \<open>pick\<close> says
  which. The loop ends only under a cancelled context, so it need not end.
\<close>

partial_function (option) runLoop :: "Sched \<Rightarrow> Beyond \<Rightarrow> (nat \<Rightarrow> bool) \<Rightarrow> SState \<Rightarrow> SState option" where
  "runLoop sd bd pick s =
     (case cancelled s of
        (dn, s0) \<Rightarrow>
          if dn \<and> pick (w_tick (ss_world s0)) then Some s0
          else (case turn sd bd s0 of
                  None \<Rightarrow> None
                | Some (wait, s1) \<Rightarrow> (case wait of None \<Rightarrow> Some s1 | Some _ \<Rightarrow> runLoop sd bd pick s1)))"

text \<open>As it returns, the watcher has handed over its last window, and what is pending is written.\<close>

definition RunSched :: "Sched \<Rightarrow> Beyond \<Rightarrow> bool \<Rightarrow> (nat \<Rightarrow> bool) \<Rightarrow> SState \<Rightarrow> SState option" where
  "RunSched sd bd watcher pick s =
     map_option (\<lambda>s'. flushPending sd bd (arrivals sd bd s')) (runLoop sd bd pick (startRun watcher s))"

end
