(* ===== verification/DiscoveryFacts.thy ===== *)
theory DiscoveryFacts
  imports Reconcile
begin

text \<open>
  What discovery does to the catalog: the walk only ever adds and re-points rows, and a row goes only
  on the evidence the deletion pass asks for, whatever the file system and the store answer meanwhile.
\<close>

section \<open>The walk never deletes\<close>

definition paths :: "DB \<Rightarrow> path set" where
  "paths d = d_path ` set (db_documents d)"

text \<open>No content was charged an attempt or marked failed: its row is as it was, requeued, or a new one.\<close>

definition uncharged :: "DB \<Rightarrow> DB \<Rightarrow> bool" where
  "uncharged d d' \<longleftrightarrow> (\<forall>r' \<in> set (db_content d').
     r_attempts r' \<le> 0 \<and> r_state r' \<noteq> Failed \<or>
     (\<exists>r \<in> set (db_content d). r_hash r = r_hash r' \<and> r_attempts r' \<le> r_attempts r \<and>
        (r_state r' = Failed \<longrightarrow> r_state r = Failed)))"

lemma uncharged_same: "set (db_content d') \<subseteq> set (db_content d) \<Longrightarrow> uncharged d d'"
  by (auto simp: uncharged_def)

lemma uncharged_trans:
  assumes a: "uncharged a b" and b: "uncharged b c"
  shows "uncharged a c"
proof (unfold uncharged_def, intro ballI)
  fix r3 assume "r3 \<in> set (db_content c)"
  then consider (new) "r_attempts r3 \<le> 0 \<and> r_state r3 \<noteq> Failed"
    | (old) r2 where "r2 \<in> set (db_content b)" "r_hash r2 = r_hash r3" "r_attempts r3 \<le> r_attempts r2"
        "r_state r3 = Failed \<longrightarrow> r_state r2 = Failed"
    using b unfolding uncharged_def by blast
  then show "r_attempts r3 \<le> 0 \<and> r_state r3 \<noteq> Failed \<or>
      (\<exists>r \<in> set (db_content a). r_hash r = r_hash r3 \<and> r_attempts r3 \<le> r_attempts r \<and>
         (r_state r3 = Failed \<longrightarrow> r_state r = Failed))"
  proof cases
    case old
    then consider "r_attempts r2 \<le> 0 \<and> r_state r2 \<noteq> Failed"
      | r1 where "r1 \<in> set (db_content a)" "r_hash r1 = r_hash r2" "r_attempts r2 \<le> r_attempts r1"
        "r_state r2 = Failed \<longrightarrow> r_state r1 = Failed"
      using a unfolding uncharged_def by blast
    then show ?thesis
    proof cases
      case 2
      then have "r_hash r1 = r_hash r3 \<and> r_attempts r3 \<le> r_attempts r1 \<and> (r_state r3 = Failed \<longrightarrow> r_state r1 = Failed)"
        using old by simp
      then show ?thesis using 2(1) by blast
    qed (use old in auto)
  qed simp
qed

lemma uncharged_insContent: "uncharged d (insContent t h d)"
  by (auto simp: uncharged_def insContent_def upsert_by_def)

abbreviation ticks :: "Scan \<Rightarrow> nat" where "ticks s \<equiv> w_tick (sc_world s)"

definition walked :: "Scan \<Rightarrow> Scan \<Rightarrow> bool" where
  "walked s s' \<longleftrightarrow> (catalog_inv (sdb s) \<longrightarrow> catalog_inv (sdb s')) \<and> paths (sdb s) \<subseteq> paths (sdb s') \<and>
     db_mounts (sdb s') = db_mounts (sdb s) \<and> ticks s \<le> ticks s' \<and> uncharged (sdb s) (sdb s')"

lemma uncharged_refl [simp]: "uncharged d d"
  by (simp add: uncharged_same)

lemma walked_refl [simp]: "walked s s"
  by (simp add: walked_def)

lemma walked_trans [trans]: "walked a b \<Longrightarrow> walked b c \<Longrightarrow> walked a c"
  using uncharged_trans [of "sdb a" "sdb b" "sdb c"] by (auto simp: walked_def)

lemma walked_same: "sdb s' = sdb s \<Longrightarrow> ticks s \<le> ticks s' \<Longrightarrow> walked s s'"
  by (simp add: walked_def)

lemma walked_from: "sdb b = sdb a \<Longrightarrow> ticks a \<le> ticks b \<Longrightarrow> walked b c \<Longrightarrow> walked a c"
  using walked_trans walked_same by blast

text \<open>The contract of a step of the walk.\<close>

locale walk_step =
  fixes op :: "Scan \<Rightarrow> 'a \<times> Scan"
  assumes walks: "walked s (snd (op s))"
begin

lemma result: "op s = (r, s') \<Longrightarrow> walked s s'"
  using walks [of s] by simp

lemma after: "walked s0 s \<Longrightarrow> op s = (r, s') \<Longrightarrow> walked s0 s'"
  using result walked_trans by blast

end

lemma walk_stepI: "(\<And>s r s'. op s = (r, s') \<Longrightarrow> walked s s') \<Longrightarrow> walk_step op"
  by unfold_locales (metis prod.collapse)

lemma paths_upsert: "paths d \<subseteq> d_path ` set (upsert_by d_path row (\<lambda>_. row) (db_documents d))"
  by (auto simp: paths_def upsert_by_def image_iff)

lemma upsertDocs_walked:
  "upsertDocs docs now d = Inr (d', u) \<Longrightarrow> paths d \<subseteq> paths d' \<and> db_mounts d' = db_mounts d \<and> uncharged d d'"
proof (induction docs arbitrary: d)
  case (Cons doc docs)
  let ?d1 = "if doc_ContentHash doc \<noteq> '''' then insContent now (doc_ContentHash doc) d else d"
  obtain d2 where ins: "insDoc doc ?d1 = Inr d2" and rest: "upsertDocs docs now d2 = Inr (d', u)"
    using Cons.prems by (simp add: Let_def split: sum.splits)
  have "paths ?d1 = paths d" "db_mounts ?d1 = db_mounts d" by (simp_all add: paths_def insContent_def)
  moreover have "paths ?d1 \<subseteq> paths d2 \<and> db_mounts d2 = db_mounts ?d1"
    using ins paths_upsert [of ?d1 "toRow doc"] by (auto simp: insDoc_def Let_def paths_def split: if_splits)
  moreover have "uncharged d d2"
    using ins uncharged_insContent [of d now "doc_ContentHash doc"] by (auto simp: insDoc_def Let_def uncharged_def split: if_splits)
  ultimately show ?case using Cons.IH [OF rest] uncharged_trans [of d d2 d'] by auto
qed simp

lemma UpsertDocuments_paths:
  assumes "UpsertDocuments docs st = (r, st')"
  shows "paths (st_db st) \<subseteq> paths (st_db st') \<and> db_mounts (st_db st') = db_mounts (st_db st) \<and>
    uncharged (st_db st) (st_db st')"
proof (cases "docs = []")
  case False
  then have "st' = snd (withTx (upsertDocs docs) st)" using assms by (simp add: UpsertDocuments_def)
  then show ?thesis
    by (cases "upsertDocs docs" st rule: withTx_cases) (auto dest: upsertDocs_walked)
qed (use assms in \<open>simp add: UpsertDocuments_def\<close>)

text \<open>The outside world as the walk sees it.\<close>

lemma onWorld_store_ticks: "onWorld (onStore f) s = (r, s') \<Longrightarrow> ticks s' = ticks s"
  by (auto simp: onWorld_def onStore_def split: prod.splits)

lemma ask_same: "onWorld (ask q) s = (r, s') \<Longrightarrow> sdb s' = sdb s \<and> ticks s \<le> ticks s'"
  using onWorld_ask_db [of q s r s'] by (auto simp: onWorld_ask tick_def)

lemma ctx_same: "onWorld (onStore ctxErr) s = (b, s') \<Longrightarrow> sdb s' = sdb s \<and> ticks s \<le> ticks s'"
  using onWorld_ctx_db [of s b s'] onWorld_store_ticks [of ctxErr s b s'] by simp

lemma GetByPath_same: "onWorld (onStore (GetByPath p)) s = (r, s') \<Longrightarrow> sdb s' = sdb s \<and> ticks s \<le> ticks s'"
  unfolding GetByPath_def using onWorld_read_db [of _ s r s'] onWorld_store_ticks [of _ s r s'] by fastforce

interpretation flushDocs: walk_step flushDocs
proof (rule walk_stepI)
  fix s r s' assume f: "flushDocs s = (r, s')"
  show "walked s s'"
  proof (cases "sc_pending s = []")
    case False
    obtain r1 s1 where o: "onWorld (onStore (UpsertDocuments (sc_pending s))) (s\<lparr>sc_pending := [], sc_staged := emptyDR\<rparr>) = (r1, s1)"
      by fastforce
    obtain st where st: "UpsertDocuments (sc_pending s) (w_store (sc_world s)) = (r1, st)" "sdb s1 = st_db st"
      by (rule onWorld_store [OF o]) simp
    have "walked s s1"
      using UpsertDocuments_paths [OF st(1)] upsertDocuments.keeps_result [OF st(1)] st(2) onWorld_store_ticks [OF o]
      by (simp add: walked_def)
    moreover have "sc_world s' = sc_world s1" using f False o by (cases r1) (auto simp: flushDocs_def)
    ultimately show ?thesis by (simp add: walked_def)
  qed (use f in \<open>simp add: flushDocs_def\<close>)
qed

interpretation buffer: walk_step "buffer doc" for doc
proof (rule walk_stepI)
  fix s r s' assume b: "buffer doc s = (r, s')"
  show "walked s s'"
    using b flushDocs.result [of "s\<lparr>sc_pending := sc_pending s @ [doc]\<rparr>" r s']
    by (auto simp: buffer_def Let_def walked_def split: if_splits)
qed

interpretation noteUnread: walk_step "noteUnread p stat reason existing" for p stat reason existing
proof (rule walk_stepI)
  fix s r s' assume "noteUnread p stat reason existing s = (r, s')"
  then show "walked s s'"
    using buffer.result [of "unreadDoc p reason stat" "onStaged (countUnread reason) s" r s']
    by (auto simp: noteUnread_def walked_def split: if_splits)
qed

interpretation noteDataless: walk_step "noteDataless p stat" for p stat
proof (rule walk_stepI)
  fix s r s' assume n: "noteDataless p stat s = (r, s')"
  obtain r1 s1 where g: "onWorld (onStore (GetByPath p)) s = (r1, s1)" by fastforce
  have "walked s1 s'" using n g noteUnread.result [of p stat UnreadDataless "projr r1" s1 r s']
    by (cases r1) (auto simp: noteDataless_def)
  then show "walked s s'" using walked_from GetByPath_same [OF g] by blast
qed

interpretation processFile: walk_step "processFile fs p stat" for fs p stat
proof (rule walk_stepI)
  fix s r s' assume n: "processFile fs p stat s = (r, s')"
  obtain r1 s1 where g: "onWorld (onStore (GetByPath p)) s = (r1, s1)" by fastforce
  obtain h s2 where h: "onWorld (hashFile fs p) s1 = (h, s2)" by fastforce
  have w2: "walked s1 s2"
    using h by (auto simp: onWorld_def hashFile_def ask_def tick_def walked_def)
  have buf: "walked s1 s'" if "buffer d (onStaged f s2) = (r, s')" for d f
    using buffer.result [OF that] walked_trans [OF w2, of s'] by (simp add: walked_def)
  have unread: "walked s1 s'" if "noteUnread p stat q x (pathError p e s2) = (r, s')" for q x e
    using noteUnread.result [OF that] walked_trans [OF w2, of s'] by (simp add: walked_def)
  have here: "walked s1 (onRes f s1)" for f by (simp add: walked_def)
  have "walked s1 s'"
    using n g h w2 buf unread here
    by (auto simp: processFile_def split: sum.splits FsErr.splits if_splits)
  then show "walked s s'" using walked_from GetByPath_same [OF g] by blast
qed

lemma fatal_snd [simp]: "snd (fatal r) = snd r"
  by (cases r) (auto simp: fatal_def split: option.split)

interpretation visitFile: walk_step "visitFile fs p known" for fs p known
proof (rule walk_stepI)
  fix s a s' assume v: "visitFile fs p known s = (a, s')"
  obtain r s1 where st: "(case known of Some st \<Rightarrow> (Inr st, s) | None \<Rightarrow> onWorld (ask (\<lambda>n. fs_lstat fs n p)) s) = (r, s1)"
    by fastforce
  then have s1: "sdb s1 = sdb s \<and> ticks s \<le> ticks s1" by (auto simp: onWorld_ask tick_def split: option.splits)
  have "walked s1 s'"
  proof (cases r)
    case (Inl e)
    then show ?thesis using v st by (cases e) (auto simp: visitFile_def walked_def)
  next
    case (Inr x)
    then have "fatal (if fi_dataless x then noteDataless p x s1 else processFile fs p x s1) = (a, s')"
      using v st by (simp add: visitFile_def)
    then have "s' = snd (if fi_dataless x then noteDataless p x s1 else processFile fs p x s1)"
      using fatal_snd by (metis snd_conv)
    then show ?thesis using noteDataless.walks [of s1 p x] processFile.walks [of s1 fs p x] by (simp split: if_splits)
  qed
  then show "walked s s'" using walked_from s1 by blast
qed

interpretation visit: walk_step "visit opts fs track p d err" for opts fs track p d err
proof (rule walk_stepI)
  fix s a s' assume v: "visit opts fs track p d err s = (a, s')"
  obtain b s0 where c: "onWorld (onStore ctxErr) s = (b, s0)" by fastforce
  have here: "walked s0 (s0\<lparr>sc_unknown := u\<rparr>)" "walked s0 (pathError p e s0)"
    "walked s0 ((pathError p e s0)\<lparr>sc_unknown := u\<rparr>)" for u e by (simp_all add: walked_def)
  have vf: "walked s0 s'" if "visitFile fs p st s0 = (a, s')" for st
    by (rule visitFile.result [OF that])
  have "walked s0 s'"
    using v c vf here
    by (cases b; cases err; cases d) (auto simp: visit_def Let_def split: if_splits)
  then show "walked s s'" using walked_from ctx_same [OF c] by blast
qed

text \<open>An invariant of the callback's states is one of the whole walk.\<close>

definition stepwise :: "('s \<Rightarrow> 's \<Rightarrow> bool) \<Rightarrow> ('e, 's) walkFn \<Rightarrow> bool" where
  "stepwise R f \<longleftrightarrow> (\<forall>p d e s a s'. f p d e s = (a, s') \<longrightarrow> R s s')"

lemma walk_invariant:
  assumes refl: "\<And>s. R s s" and trans: "\<And>a b c. R a b \<Longrightarrow> R b c \<Longrightarrow> R a c"
  shows "stepwise R f \<Longrightarrow> walkDir f p st en s = (a, s') \<Longrightarrow> R s s'"
    and "stepwise R f \<Longrightarrow> walkKids f p ks s = (a, s') \<Longrightarrow> R s s'"
proof (induction f p st en s and f p ks s arbitrary: a s' and a s' rule: walkDir_walkKids.induct)
  case (1 f p stat name ty kids err s)
  obtain a1 s1 where f1: "f p (Some (ty, stat)) None s = (a1, s1)" by fastforce
  have r1: "R s s1" using 1(3) f1 by (simp add: stepwise_def)
  show ?case
  proof (cases "a1 \<noteq> WalkOn \<or> ty \<noteq> Directory")
    case True
    then show ?thesis using 1(4) f1 r1 by auto
  next
    case False
    show ?thesis
    proof (cases err)
      case None
      then have "walkKids f p kids s1 = (a, s')" using 1(4) f1 False by simp
      from 1(1) [OF f1 [symmetric] False None 1(3) this] show ?thesis by (rule trans [OF r1])
    next
      case (Some e)
      obtain a2 s2 where f2: "f p (Some (ty, stat)) (Some e) s1 = (a2, s2)" by fastforce
      then have r2: "R s s2" using 1(3) trans [OF r1] by (simp add: stepwise_def)
      show ?thesis
      proof (cases "a2 = WalkOn")
        case True
        then have "walkKids f p kids s2 = (a, s')" using 1(4) f1 f2 False Some by simp
        from 1(2) [OF f1 [symmetric] False Some f2 [symmetric] _ 1(3) this] show ?thesis
          using True trans [OF r2] by simp
      qed (use 1(4) f1 f2 False Some r2 in auto)
    qed
  qed
next
  case (2 f p s)
  then show ?case using refl by simp
next
  case (3 f p k ks s)
  obtain a1 s1 where w: "walkDir f (JoinPath p (en_name k)) None k s = (a1, s1)" by fastforce
  note r1 = 3(1) [OF 3(3) w]
  show ?case
  proof (cases a1)
    case WalkOn
    then have "walkKids f p ks s1 = (a, s')" using 3(4) w by simp
    from 3(2) [OF w [symmetric] WalkOn 3(3) this] show ?thesis by (rule trans [OF r1])
  qed (use 3(4) w r1 in auto)
qed

lemma WalkDir_invariant:
  assumes refl: "\<And>s. R s s" and trans: "\<And>a b c. R a b \<Longrightarrow> R b c \<Longrightarrow> R a c"
    and step: "stepwise R f" and w: "WalkDir f base found s = (r, s')"
  shows "R s s'"
proof -
  obtain a s1 where i: "(case found of
              Inl e \<Rightarrow> f base None (Some e) s
            | Inr (st, kids, err) \<Rightarrow> walkDir f base (Some st) (Entry (Base base) (fi_type st) kids err) s) = (a, s1)"
    by fastforce
  have "R s s1"
  proof (cases found)
    case (Inl e)
    then show ?thesis using i step by (auto simp: stepwise_def)
  next
    case (Inr x)
    obtain st kids err where x: "x = (st, kids, err)" by (cases x)
    then have w': "walkDir f base (Some st) (Entry (Base base) (fi_type st) kids err) s = (a, s1)" using i Inr by simp
    show ?thesis by (rule walk_invariant(1) [OF _ _ step w']) (rule refl | erule trans, assumption)+
  qed
  moreover have "s' = s1" using w i by (cases a) (auto simp: WalkDir_def)
  ultimately show ?thesis by simp
qed

interpretation walkTree: walk_step "walkTree opts fs track base" for opts fs track base
proof (rule walk_stepI)
  fix s r s' assume w: "walkTree opts fs track base s = (r, s')"
  obtain found s1 where a: "onWorld (ask (\<lambda>n. fs_walk fs n base)) s = (found, s1)" by fastforce
  have "walked s1 s'"
    by (rule WalkDir_invariant [of walked "visit opts fs track" base found s1 r s'])
      (use w a visit.result walked_trans in \<open>auto simp: walkTree_def stepwise_def\<close>)
  then show "walked s s'" using walked_from ask_same [OF a] by blast
qed

interpretation walkRoots: walk_step "walkRoots opts fs bases" for opts fs bases
proof (rule walk_stepI)
  show "walkRoots opts fs bases s = (r, s') \<Longrightarrow> walked s s'" for s r s'
  proof (induction bases arbitrary: s)
    case (Cons base bases)
    obtain r1 s1 where w: "walkTree opts fs True base s = (r1, s1)" by fastforce
    note g1 = walkTree.result [OF w]
    obtain r2 s2 where f: "flushDocs s1 = (r2, s2)" by fastforce
    note g2 = flushDocs.after [OF g1 f]
    show ?case
      using Cons w f g1 g2 walked_trans [OF g2] by (cases r1; cases r2) auto
  qed simp
qed

section \<open>What the deletion pass removes, and what it counts\<close>

definition removedCount :: "DResult \<Rightarrow> nat" where
  "removedCount r = dr_Deleted r + dr_Pruned r"

text \<open>The rows of \<open>A\<close> went, nothing else did, and they were counted.\<close>

definition erases :: "path set \<Rightarrow> Scan \<Rightarrow> Scan \<Rightarrow> bool" where
  "erases A s s' \<longleftrightarrow> removes A (sdb s) (sdb s') \<and>
     removedCount (sc_res s') = removedCount (sc_res s) + rowsOf A (sdb s) \<and> ticks s \<le> ticks s'"

abbreviation quietly :: "Scan \<Rightarrow> Scan \<Rightarrow> bool" where "quietly \<equiv> erases {}"

lemma quietly_iff: "quietly s s' \<longleftrightarrow> sdb s' = sdb s \<and> removedCount (sc_res s') = removedCount (sc_res s) \<and> ticks s \<le> ticks s'"
  by (auto simp: erases_def removes_def rowsOf_def)

lemma quietly_refl [simp]: "quietly s s"
  by (simp add: quietly_iff)

lemma erases_trans: "erases A a b \<Longrightarrow> erases B b c \<Longrightarrow> erases (A \<union> B) a c"
  using removes_trans [of A "sdb a" "sdb b" B "sdb c"] by (simp add: erases_def)

lemma erases_quietly: "erases A a b \<Longrightarrow> quietly b c \<Longrightarrow> erases A a c"
  using erases_trans [of A a b "{}" c] by simp

lemma quietly_erases: "quietly a b \<Longrightarrow> erases A b c \<Longrightarrow> erases A a c"
  using erases_trans [of "{}" a b A c] by simp

lemma onRes_res [simp]: "sc_res (onRes f s) = f (sc_res s)"
  by (simp add: onRes_def)

lemma quietly_onRes: "removedCount (f (sc_res s)) = removedCount (sc_res s) \<Longrightarrow> quietly s (onRes f s)"
  by (simp add: quietly_iff)

lemma quietly_reports [simp]:
  "quietly s (pathError p e s)" "quietly s (decline d s)" "quietly s (unverified s)" "quietly s (setReconciled b s)"
  by (simp_all add: quietly_iff pathError_def decline_def unverified_def setReconciled_def removedCount_def)

lemma onWorld_res: "onWorld f s = (r, s') \<Longrightarrow> sc_res s' = sc_res s"
  by (auto simp: onWorld_def split: prod.splits)

lemma ask_quietly: "onWorld (ask q) s = (r, s') \<Longrightarrow> quietly s s'"
  using onWorld_ask_db [of q s r s'] onWorld_res [of "ask q" s r s'] by (auto simp: quietly_iff onWorld_ask tick_def)

lemma ctx_quietly: "onWorld (onStore ctxErr) s = (r, s') \<Longrightarrow> quietly s s'"
  using onWorld_ctx_db [of s r s'] onWorld_res [of "onStore ctxErr" s r s'] onWorld_store_ticks [of ctxErr s r s']
  by (simp add: quietly_iff)

lemma read_quietly:
  "onWorld (onStore (withReader q)) s = (r, s') \<Longrightarrow> quietly s s' \<and> ((\<exists>e. r = Inl e) \<or> r = q (sdb s))"
  using onWorld_read_db [of q s r s'] onWorld_res [of "onStore (withReader q)" s r s']
    onWorld_store_ticks [of "withReader q" s r s'] by (simp add: quietly_iff)

lemma flushDeletes_erases:
  assumes "flushDeletes ps counting s = (err, s')" "\<And>n r. removedCount (counting n r) = removedCount r + n"
  obtains A where "A \<subseteq> set ps" "erases A s s'" "err = None \<longrightarrow> A = set ps"
proof -
  obtain A where "A \<subseteq> set ps" "removes A (sdb s) (sdb s')" "err = None \<longrightarrow> A = set ps"
    "sc_res s' = (if ps = [] then sc_res s else counting (rowsOf A (sdb s)) (sc_res s))"
    by (rule flushDeletes_effect [OF assms(1)])
  moreover have "rowsOf {} d = 0" for d by (simp add: rowsOf_def)
  moreover have "ticks s' = ticks s"
    using assms(1) onWorld_store_ticks [of "DeleteByPaths ps" s] by (auto simp: flushDeletes_def split: if_splits prod.splits)
  ultimately show ?thesis using assms(2) by (intro that [of A]) (auto simp: erases_def)
qed

lemma counting [simp]:
  "removedCount (countDeleted n r) = removedCount r + n" "removedCount (countPruned n r) = removedCount r + n"
  by (simp_all add: removedCount_def countDeleted_def countPruned_def)

lemma flushBatch_erases:
  assumes "flushBatch e = (b, e')"
  obtains A where "A \<subseteq> set (en_vanished e) \<union> set (en_outOfScope e)" "erases A (en_scan e) (en_scan e')"
    "\<not> b \<longrightarrow> A = set (en_vanished e) \<union> set (en_outOfScope e) \<and> en_vanished e' = [] \<and> en_outOfScope e' = []"
proof -
  obtain err1 s1 where f1: "flushDeletes (en_vanished e) countDeleted (en_scan e) = (err1, s1)" by fastforce
  obtain A where A: "A \<subseteq> set (en_vanished e)" "erases A (en_scan e) s1" "err1 = None \<longrightarrow> A = set (en_vanished e)"
    by (rule flushDeletes_erases [OF f1]) simp_all
  have stop: "erases A a (decline RowsNotRemoved (setReconciled False b))" if "erases A a b" for A a b
    using that by (simp add: erases_def decline_def setReconciled_def removedCount_def)
  show ?thesis
  proof (cases err1)
    case (Some x)
    then have "b" "en_scan e' = decline RowsNotRemoved (setReconciled False s1)"
      using assms f1 by (auto simp: flushBatch_def)
    then show ?thesis using that [of A] A stop [OF A(2)] by auto
  next
    case None
    obtain err2 s2 where f2: "flushDeletes (en_outOfScope e) countPruned s1 = (err2, s2)" by fastforce
    obtain B where B: "B \<subseteq> set (en_outOfScope e)" "erases B s1 s2" "err2 = None \<longrightarrow> B = set (en_outOfScope e)"
      by (rule flushDeletes_erases [OF f2]) simp_all
    note both = erases_trans [OF A(2) B(2)]
    show ?thesis
    proof (cases err2)
      case (Some x)
      then have "b" "en_scan e' = decline RowsNotRemoved (setReconciled False s2)"
        using assms f1 f2 None by (auto simp: flushBatch_def)
      then show ?thesis using that [of "A \<union> B"] A B stop [OF both] by auto
    next
      case N2: None
      then have "\<not> b" "en_scan e' = s2" "en_vanished e' = []" "en_outOfScope e' = []"
        using assms f1 f2 None by (auto simp: flushBatch_def)
      then show ?thesis using that [of "A \<union> B"] A B both None N2 by auto
    qed
  qed
qed

section \<open>The evidence for a deletion\<close>

definition inScopePath :: "ScanOptions \<Rightarrow> coverage \<Rightarrow> path \<Rightarrow> bool" where
  "inScopePath opts cov p \<longleftrightarrow> withinAny p (cov_roots cov) \<and> \<not> excludedBy opts p"

text \<open>
  The evidence collected by the questions \<open>a\<close> up to \<open>b\<close>: out of scope while every root resolved; or
  seen by \<open>Lstat\<close> as gone, volumes having been recorded before, or as nothing a walk would index.
\<close>

definition doomed :: "ScanOptions \<Rightarrow> FS \<Rightarrow> coverage \<Rightarrow> bool \<Rightarrow> nat \<Rightarrow> nat \<Rightarrow> path \<Rightarrow> bool" where
  "doomed opts fs cov blind a b p \<longleftrightarrow>
     \<not> inScopePath opts cov p \<and> \<not> cov_unresolved cov \<or>
     inScopePath opts cov p \<and> \<not> underAny p (cov_unknown cov) \<and>
       (\<exists>n. a \<le> n \<and> n < b \<and>
         ((\<exists>st. fs_lstat fs n p = Inr st \<and> \<not> indexable p st) \<or> fs_lstat fs n p = Inl FsNotExist \<and> \<not> blind))"

lemma doomed_mono: "doomed opts fs cov blind a b p \<Longrightarrow> a' \<le> a \<Longrightarrow> b \<le> b' \<Longrightarrow> doomed opts fs cov blind a' b' p"
  unfolding doomed_def by (meson le_trans less_le_trans)

definition condemned :: "Enum \<Rightarrow> path set" where
  "condemned e = set (en_vanished e) \<union> set (en_outOfScope e)"

lemma condemned_onScan [simp]: "condemned (onScan f e) = condemned e"
  by (simp add: condemned_def onScan_def)

lemma onScan_scan [simp]: "en_scan (onScan f e) = f (en_scan e)"
  by (simp add: onScan_def)

lemma judgeStat_effect:
  "quietly (en_scan e) (en_scan (judgeStat blind p found e)) \<and>
   condemned (judgeStat blind p found e) = condemned e \<union>
     (if (\<exists>st. found = Inr st \<and> \<not> indexable p st) \<or> found = Inl FsNotExist \<and> \<not> blind then {p} else {})"
proof (cases found)
  case (Inl err)
  have "quietly s (pathError p x (unverified s))" for s x
    by (simp add: quietly_iff pathError_def unverified_def removedCount_def)
  then show ?thesis using Inl by (cases err) (auto simp: judgeStat_def condemned_def onScan_def)
qed (auto simp: judgeStat_def condemned_def)

abbreviation eticks :: "Enum \<Rightarrow> nat" where "eticks e \<equiv> ticks (en_scan e)"

text \<open>What judging does to the enumeration: nothing is deleted, and only doomed paths are condemned.\<close>

definition judged :: "(nat \<Rightarrow> nat \<Rightarrow> path \<Rightarrow> bool) \<Rightarrow> Enum \<Rightarrow> Enum \<Rightarrow> bool" where
  "judged P e e' \<longleftrightarrow> quietly (en_scan e) (en_scan e') \<and>
     (\<forall>q \<in> condemned e'. q \<in> condemned e \<or> P (eticks e) (eticks e') q)"

lemma judgedI:
  "quietly (en_scan e) (en_scan e') \<Longrightarrow> condemned e' = condemned e \<union> A \<Longrightarrow> (\<And>q. q \<in> A \<Longrightarrow> P (eticks e) (eticks e') q) \<Longrightarrow>
   judged P e e'"
  by (auto simp: judged_def)

lemma judged_same: "quietly (en_scan e) (en_scan e') \<Longrightarrow> condemned e' = condemned e \<Longrightarrow> judged P e e'"
  by (rule judgedI [of _ _ "{}"]) simp_all

lemma quietly_trans: "quietly a b \<Longrightarrow> quietly b c \<Longrightarrow> quietly a c"
  using erases_quietly [of "{}" a b c] by simp

lemma quietly_ticks: "quietly a b \<Longrightarrow> ticks a \<le> ticks b"
  by (simp add: quietly_iff)

lemma judged_trans:
  assumes a: "judged (doomed opts fs cov blind) e1 e2" and b: "judged (doomed opts fs cov blind) e2 e3"
  shows "judged (doomed opts fs cov blind) e1 e3"
proof -
  have q: "quietly (en_scan e1) (en_scan e2)" "quietly (en_scan e2) (en_scan e3)" using a b by (simp_all add: judged_def)
  note t = q [THEN quietly_ticks]
  have "x \<in> condemned e1 \<or> doomed opts fs cov blind (eticks e1) (eticks e3) x" if x: "x \<in> condemned e3" for x
  proof -
    consider (new) "doomed opts fs cov blind (eticks e2) (eticks e3) x" | (old) "x \<in> condemned e2"
      using b x by (auto simp: judged_def)
    then show ?thesis
    proof cases
      case new
      then show ?thesis using doomed_mono t(1) by blast
    next
      case old
      then show ?thesis using a doomed_mono [OF _ le_refl t(2)] by (auto simp: judged_def)
    qed
  qed
  then show ?thesis using quietly_trans [OF q] by (simp add: judged_def)
qed

lemma judgeRow_effect: "judged (doomed opts fs cov blind) e (judgeRow opts fs cov known blind p e)"
proof -
  define e1 where "e1 = e\<lparr>en_occupied := filter (\<lambda>m. m \<notin> set (en_occupied e) \<and> Within p m) known @ en_occupied e\<rparr>"
  have e1: "en_scan e1 = en_scan e" "condemned e1 = condemned e" by (simp_all add: e1_def condemned_def)
  consider (ignored) "\<not> inScopePath opts cov p" "cov_unresolved cov"
    | (out) "\<not> inScopePath opts cov p" "\<not> cov_unresolved cov"
    | (unknown) "inScopePath opts cov p" "underAny p (cov_unknown cov)"
    | (stat) "inScopePath opts cov p" "\<not> underAny p (cov_unknown cov)" by blast
  then show ?thesis
  proof cases
    case ignored
    then have row: "judgeRow opts fs cov known blind p e = onScan (onRes (\<lambda>r. r\<lparr>dr_Ignored := Suc (dr_Ignored r)\<rparr>)) e1"
      by (simp add: judgeRow_def inScopePath_def e1_def [symmetric] Let_def)
    show ?thesis unfolding row by (rule judged_same) (simp_all add: e1 quietly_onRes removedCount_def)
  next
    case out
    then have row: "judgeRow opts fs cov known blind p e = e1\<lparr>en_outOfScope := en_outOfScope e1 @ [p]\<rparr>"
      by (simp add: judgeRow_def inScopePath_def e1_def [symmetric] Let_def)
    show ?thesis
      unfolding row by (rule judgedI [of _ _ "{p}"]) (use out e1 in \<open>auto simp: doomed_def condemned_def\<close>)
  next
    case unknown
    then have row: "judgeRow opts fs cov known blind p e = onScan unverified e1"
      by (simp add: judgeRow_def inScopePath_def e1_def [symmetric] Let_def)
    show ?thesis unfolding row by (rule judged_same) (simp_all add: e1)
  next
    case stat
    obtain found s where a: "onWorld (ask (\<lambda>n. fs_lstat fs n p)) (en_scan e1) = (found, s)" by fastforce
    have row: "judgeRow opts fs cov known blind p e = judgeStat blind p found (e1\<lparr>en_scan := s\<rparr>)"
      using stat a by (simp add: judgeRow_def inScopePath_def e1_def [symmetric] Let_def)
    have found: "fs_lstat fs (eticks e) p = found" "ticks s = Suc (eticks e)"
      using a e1 by (auto simp: onWorld_ask tick_def)
    have q: "quietly (en_scan e) s" using ask_quietly [OF a] e1 by simp
    note effect = judgeStat_effect [of "e1\<lparr>en_scan := s\<rparr>" blind p found]
    have c: "condemned (e1\<lparr>en_scan := s\<rparr>) = condemned e" using e1 by (simp add: condemned_def)
    have q1: "quietly s (en_scan (judgeStat blind p found (e1\<lparr>en_scan := s\<rparr>)))" using effect by simp
    have "eticks e < eticks (judgeStat blind p found (e1\<lparr>en_scan := s\<rparr>))" using found(2) quietly_ticks [OF q1] by simp
    then show ?thesis
      unfolding row
      by (intro judgedI [OF quietly_trans [OF q q1] effect [THEN conjunct2, unfolded c]])
        (use stat found in \<open>auto simp: doomed_def split: if_splits\<close>)
  qed
qed

lemma judgeBatch_effect:
  "judgeBatch opts fs cov known blind ps e = (b, e') \<Longrightarrow> judged (doomed opts fs cov blind) e e'"
proof (induction ps arbitrary: e)
  case Nil
  then show ?case by (simp add: judged_def)
next
  case (Cons p ps)
  obtain c s where ctx: "onWorld (onStore ctxErr) (en_scan e) = (c, s)" by fastforce
  have j1: "judged (doomed opts fs cov blind) e (e\<lparr>en_scan := s\<rparr>)"
    by (rule judged_same) (simp_all add: ctx_quietly [OF ctx] condemned_def)
  show ?case
  proof (cases c)
    case True
    have "judged (doomed opts fs cov blind) (e\<lparr>en_scan := s\<rparr>) (e\<lparr>en_scan := setReconciled False s\<rparr>)"
      by (rule judged_same) (simp_all add: condemned_def)
    from judged_trans [OF j1 this] show ?thesis using Cons.prems ctx True by simp
  next
    case False
    let ?e = "judgeRow opts fs cov known blind p (e\<lparr>en_scan := s\<rparr>)"
    have go: "judgeBatch opts fs cov known blind ps ?e = (b, e')" using Cons.prems ctx False by simp
    note j2 = judgeRow_effect [of opts fs cov blind "e\<lparr>en_scan := s\<rparr>" known p]
    show ?thesis by (rule judged_trans [OF judged_trans [OF j1 j2] Cons.IH [OF go]])
  qed
qed

text \<open>
  A stretch of an enumeration begun at the question \<open>t\<close>: it erased some rows, all of them doomed by
  then, and condemned only such rows.
\<close>

definition swept :: "(nat \<Rightarrow> nat \<Rightarrow> path \<Rightarrow> bool) \<Rightarrow> nat \<Rightarrow> Enum \<Rightarrow> Enum \<Rightarrow> bool" where
  "swept P t e e' \<longleftrightarrow> (\<forall>q \<in> condemned e'. P t (eticks e') q) \<and>
     (\<exists>A. (\<forall>q \<in> A. P t (eticks e') q) \<and> erases A (en_scan e) (en_scan e'))"

lemma sweptI:
  "(\<And>q. q \<in> condemned e' \<Longrightarrow> P t (eticks e') q) \<Longrightarrow> (\<And>q. q \<in> A \<Longrightarrow> P t (eticks e') q) \<Longrightarrow>
   erases A (en_scan e) (en_scan e') \<Longrightarrow> swept P t e e'"
  by (auto simp: swept_def)

lemma erases_ticks: "erases A a b \<Longrightarrow> ticks a \<le> ticks b"
  by (simp add: erases_def)

lemma swept_trans:
  assumes "swept (doomed opts fs cov blind) t a b" "swept (doomed opts fs cov blind) t b c"
  shows "swept (doomed opts fs cov blind) t a c"
proof -
  obtain A where A: "\<And>q. q \<in> A \<Longrightarrow> doomed opts fs cov blind t (eticks b) q" "erases A (en_scan a) (en_scan b)"
    using assms(1) unfolding swept_def by blast
  obtain B where B: "\<And>q. q \<in> B \<Longrightarrow> doomed opts fs cov blind t (eticks c) q" "erases B (en_scan b) (en_scan c)"
    using assms(2) unfolding swept_def by blast
  have "doomed opts fs cov blind t (eticks c) q" if "q \<in> A \<union> B" for q
    using that A(1) B(1) doomed_mono [OF _ le_refl erases_ticks [OF B(2)]] by blast
  then show ?thesis
    using assms(2) by (intro sweptI [OF _ _ erases_trans [OF A(2) B(2)]]) (auto simp: swept_def)
qed

lemma condemned_scan [simp]: "condemned (e\<lparr>en_scan := s\<rparr>) = condemned e"
  by (simp add: condemned_def)

text \<open>What is condemned stays so while the enumeration goes on.\<close>

lemma swept_quietly:
  assumes "quietly (en_scan e) (en_scan e')" "condemned e' \<subseteq> condemned e"
    and "\<And>q. q \<in> condemned e \<Longrightarrow> doomed opts fs cov blind t (eticks e) q"
  shows "swept (doomed opts fs cov blind) t e e'"
  by (rule sweptI [of _ _ _ "{}"])
    (use assms doomed_mono [OF assms(3) le_refl quietly_ticks [OF assms(1)]] in auto)

lemma page_effect:
  assumes p: "page opts fs cov known blind cursor e = ((ending, batch), e')"
    and c: "\<And>q. q \<in> condemned e \<Longrightarrow> doomed opts fs cov blind t (eticks e) q" and t: "t \<le> eticks e"
  shows "swept (doomed opts fs cov blind) t e e'"
proof -
  obtain r s where l: "onWorld (onStore (ListPaths cursor flushEvery)) (en_scan e) = (r, s)" by fastforce
  have q: "quietly (en_scan e) s" using read_quietly [OF l [unfolded ListPaths_def]] by simp
  have stop: "quietly s (decline CatalogUnread (setReconciled False s))"
    by (simp add: quietly_iff decline_def setReconciled_def removedCount_def)
  consider (failed) x where "r = Inl x" | (nothing) "r = Inr []" | (rows) ps where "r = Inr ps" "ps \<noteq> []"
    by (cases r) auto
  then show ?thesis
  proof cases
    case failed
    then have "e' = e\<lparr>en_scan := decline CatalogUnread (setReconciled False s)\<rparr>" using p l by (simp add: page_def)
    then show ?thesis by (intro swept_quietly) (use quietly_trans [OF q stop] c in auto)
  next
    case nothing
    then have "e' = e\<lparr>en_scan := s\<rparr>" using p l by (simp add: page_def)
    then show ?thesis by (intro swept_quietly) (use q c in auto)
  next
    case (rows ps)
    obtain b1 e1 where j: "judgeBatch opts fs cov known blind ps (e\<lparr>en_scan := s\<rparr>) = (b1, e1)" by fastforce
    note J = judgeBatch_effect [OF j]
    have q1: "quietly (en_scan e) (en_scan e1)" using J quietly_trans [OF q] by (simp add: judged_def)
    have c1: "doomed opts fs cov blind t (eticks e1) x" if x: "x \<in> condemned e1" for x
    proof -
      consider "x \<in> condemned e" | "doomed opts fs cov blind (ticks s) (eticks e1) x"
        using J x by (auto simp: judged_def)
      then show ?thesis
        using doomed_mono [OF c le_refl quietly_ticks [OF q1]] doomed_mono [OF _ order_trans [OF t quietly_ticks [OF q]] le_refl]
        by cases blast+
    qed
    obtain b2 e2 where f: "flushBatch e1 = (b2, e2)" by fastforce
    obtain A where A: "A \<subseteq> condemned e1" "erases A (en_scan e1) (en_scan e2)"
      "\<not> b2 \<longrightarrow> en_vanished e2 = [] \<and> en_outOfScope e2 = []"
      by (rule flushBatch_erases [OF f, folded condemned_def]) blast
    have "condemned e2 \<subseteq> condemned e1"
      using A(3) f by (cases b2) (auto simp: flushBatch_def condemned_def split: prod.splits option.splits)
    then have "swept (doomed opts fs cov blind) t e e2"
      using A(1) doomed_mono [OF c1 le_refl erases_ticks [OF A(2)]]
      by (intro sweptI [OF _ _ quietly_erases [OF q1 A(2)]]) auto
    moreover have "swept (doomed opts fs cov blind) t e e1"
      by (rule sweptI [of _ _ _ "{}"]) (use c1 q1 in auto)
    moreover have "e' = (if b1 then e1 else e2)" using p l rows j f by (cases b1; cases b2) (auto simp: page_def)
    ultimately show ?thesis by simp
  qed
qed

lemma enumLoop_effect:
  "enumLoop opts fs cov known blind cursor e = (ending, e') \<Longrightarrow>
   (\<And>q. q \<in> condemned e \<Longrightarrow> doomed opts fs cov blind t (eticks e) q) \<Longrightarrow> t \<le> eticks e \<Longrightarrow>
   swept (doomed opts fs cov blind) t e e'"
proof (induction opts fs cov known blind cursor e rule: enumLoop.induct)
  case (1 opts fs cov known blind cursor e)
  obtain end1 batch e1 where p: "page opts fs cov known blind cursor e = ((end1, batch), e1)" by (metis prod.exhaust)
  have s1: "swept (doomed opts fs cov blind) t e e1" by (rule page_effect [OF p]) (rule 1(3), assumption, rule 1(4))
  show ?case
  proof (cases end1)
    case None
    have go: "enumLoop opts fs cov known blind (last batch) e1 = (ending, e')"
      using 1(2) p None by (simp add: enumLoop.simps [of _ _ _ _ _ cursor])
    have "swept (doomed opts fs cov blind) t e1 e'"
      by (rule 1(1) [OF p [unfolded None, symmetric] refl refl go])
        (use s1 1(4) in \<open>auto simp: swept_def dest: erases_ticks\<close>)
    then show ?thesis by (rule swept_trans [OF s1])
  next
    case (Some x)
    then have "e' = e1" using 1(2) p by (simp add: enumLoop.simps [of _ _ _ _ _ cursor])
    then show ?thesis using s1 by simp
  qed
qed

section \<open>The whole pass\<close>

text \<open>As \<open>erases\<close>, but for the remembered mounts.\<close>

definition dropped :: "path set \<Rightarrow> Scan \<Rightarrow> Scan \<Rightarrow> bool" where
  "dropped A s s' \<longleftrightarrow>
     sdb s' = (sdb s)\<lparr>db_documents := filter (\<lambda>r. d_path r \<notin> A) (db_documents (sdb s)), db_mounts := db_mounts (sdb s')\<rparr> \<and>
     removedCount (sc_res s') = removedCount (sc_res s) + rowsOf A (sdb s) \<and> ticks s \<le> ticks s'"

lemma erases_dropped: "erases A s s' \<Longrightarrow> dropped A s s'"
  by (simp add: erases_def dropped_def removes_def)

lemma rowsOf_same: "db_documents d = db_documents d' \<Longrightarrow> rowsOf A d = rowsOf A d'"
  by (simp add: rowsOf_def)

abbreviation keeping :: "Scan \<Rightarrow> Scan \<Rightarrow> bool" where "keeping \<equiv> dropped {}"

lemma keeping_iff: "keeping s s' \<longleftrightarrow> sdb s' = (sdb s)\<lparr>db_mounts := db_mounts (sdb s')\<rparr> \<and>
    removedCount (sc_res s') = removedCount (sc_res s) \<and> ticks s \<le> ticks s'"
  by (simp add: dropped_def rowsOf_def)

lemma dropped_docs: "dropped A s s' \<Longrightarrow> db_documents (sdb s') = filter (\<lambda>r. d_path r \<notin> A) (db_documents (sdb s))"
  unfolding dropped_def by (elim conjE, drule arg_cong [of _ _ db_documents]) simp

lemma keeping_refl [simp]: "keeping s s"
  by (simp add: keeping_iff)

lemma dropped_keeping:
  assumes "dropped A a b" "keeping b c"
  shows "dropped A a c"
proof -
  have "sdb c = (sdb b)\<lparr>db_mounts := db_mounts (sdb c)\<rparr>" using assms(2) by (simp add: keeping_iff)
  also have "sdb b = (sdb a)\<lparr>db_documents := filter (\<lambda>r. d_path r \<notin> A) (db_documents (sdb a)), db_mounts := db_mounts (sdb b)\<rparr>"
    using assms(1) by (simp add: dropped_def)
  finally show ?thesis using assms by (simp add: keeping_iff) (simp add: dropped_def)
qed

lemma keeping_dropped:
  assumes "keeping a b" "dropped A b c"
  shows "dropped A a c"
proof -
  have "sdb c = (sdb b)\<lparr>db_documents := filter (\<lambda>r. d_path r \<notin> A) (db_documents (sdb b)), db_mounts := db_mounts (sdb c)\<rparr>"
    using assms(2) by (simp add: dropped_def)
  also have "sdb b = (sdb a)\<lparr>db_mounts := db_mounts (sdb b)\<rparr>" using assms(1) by (simp add: keeping_iff)
  finally have "sdb c = (sdb a)\<lparr>db_documents := filter (\<lambda>r. d_path r \<notin> A) (db_documents (sdb a)), db_mounts := db_mounts (sdb c)\<rparr>"
    by simp
  moreover have "db_documents (sdb b) = db_documents (sdb a)" using dropped_docs [OF assms(1)] by simp
  ultimately show ?thesis
    using assms rowsOf_same [of "sdb b" "sdb a" A] by (simp add: keeping_iff) (simp add: dropped_def)
qed

lemma keeping_trans: "keeping a b \<Longrightarrow> keeping b c \<Longrightarrow> keeping a c"
  by (rule dropped_keeping)

lemma quietly_keeping: "quietly s s' \<Longrightarrow> keeping s s'"
  by (rule erases_dropped)

lemma quietly_steps:
  "quietly s a \<Longrightarrow> quietly s (decline d a)" "quietly s a \<Longrightarrow> quietly s (setReconciled b a)"
  "keeping s a \<Longrightarrow> keeping s (decline d a)"
  by (simp_all add: quietly_iff keeping_iff decline_def setReconciled_def removedCount_def)

lemma setMounts_keeping:
  assumes "onWorld (onStore (SetKnownMounts ms)) s = (r, s')"
  shows "keeping s s'"
proof -
  obtain st where st: "SetKnownMounts ms (w_store (sc_world s)) = (r, st)" "sdb s' = st_db st"
    by (rule onWorld_store [OF assms]) blast
  have "st_db st = (sdb s)\<lparr>db_mounts := db_mounts (st_db st)\<rparr>"
    by (rule withTx_cases [of "\<lambda>now db. Inr (db\<lparr>db_mounts := Some (Some ms)\<rparr>, ())" "w_store (sc_world s)"])
      (use st(1) in \<open>auto simp: SetKnownMounts_def\<close>)
  then show ?thesis
    using st(2) onWorld_res [OF assms] onWorld_store_ticks [OF assms] by (simp add: keeping_iff)
qed

lemma learnMounts_keeping: "learnMounts bases known live remembered s = (r, s') \<Longrightarrow> keeping s s'"
  by (auto simp: learnMounts_def Let_def split: if_splits prod.splits sum.splits
      dest: setMounts_keeping)

lemma forgetEmptyMounts_keeping: "forgetEmptyMounts known live occupied s = (r, s') \<Longrightarrow> keeping s s'"
  by (auto simp: forgetEmptyMounts_def Let_def split: if_splits prod.splits sum.splits
      dest: setMounts_keeping)

lemma afterEnum_keeping: "keeping (en_scan e) (afterEnum vol e)"
proof -
  define s1 where "s1 = onRes (\<lambda>r. r\<lparr>dr_Unmounted := dr_Unmounted r @ filter (\<lambda>m. m \<in> set (en_occupied e)) (vo_absent vol)\<rparr>) (en_scan e)"
  define s2 where "s2 = (if en_blindDeclines e > 0 then decline NoVolumesYet s1 else s1)"
  have "keeping (en_scan e) s1" by (simp add: s1_def keeping_iff removedCount_def)
  then have k2: "keeping (en_scan e) s2" by (simp add: s2_def quietly_steps)
  obtain r s3 where f: "forgetEmptyMounts (vo_known vol) (vo_live vol) (en_occupied e) s2 = (r, s3)" by fastforce
  have k3: "keeping (en_scan e) s3" by (rule keeping_trans [OF k2 forgetEmptyMounts_keeping [OF f]])
  have "afterEnum vol e = (if \<not> vo_usable vol then s2 else case r of Some _ \<Rightarrow> decline VolumesUnrecorded s3 | None \<Rightarrow> s3)"
    by (simp add: afterEnum_def Let_def s1_def [symmetric] s2_def [symmetric] f)
  then show ?thesis using k2 k3 by (cases r) (simp_all add: quietly_steps)
qed

lemma declineLoop_quietly: "quietly s (declineLoop cursor s)"
proof (induction cursor s rule: declineLoop.induct)
  case (1 cursor s)
  obtain r s1 where l: "onWorld (onStore (ListPaths cursor flushEvery)) s = (r, s1)" by fastforce
  have q: "quietly s s1" using read_quietly [OF l [unfolded ListPaths_def]] by simp
  define s2 where "s2 = onRes (\<lambda>x. x\<lparr>dr_Unverified := dr_Unverified x + length (projr r)\<rparr>) s1"
  have q2: "quietly s s2" using q by (simp add: s2_def quietly_iff removedCount_def)
  have "declineLoop cursor s = (case r of Inl _ \<Rightarrow> setReconciled False s1
      | Inr batch \<Rightarrow> if batch = [] then s1 else if length batch < flushEvery then s2 else declineLoop (last batch) s2)"
    using l by (cases r) (simp_all add: declineLoop.simps [of cursor] s2_def Let_def)
  then show ?case
    using q q2 1 [OF l [symmetric]] quietly_trans [OF q2] by (cases r) (auto simp: s2_def quietly_steps Let_def)
qed

text \<open>What is known of the volumes when the enumeration starts.\<close>

lemma readMemory_effect:
  assumes "readMemory s = ((known, remembered, ok), s')"
  shows "quietly s s'" "remembered \<Longrightarrow> db_mounts (sdb s) = Some (Some known)"
proof -
  obtain r s1 where k: "onWorld (onStore KnownMounts) s = (r, s1)" by fastforce
  note read = read_quietly [OF k [unfolded KnownMounts_def]]
  have "s' = s1 \<or> s' = decline MemoryRebuilt s1 \<or> s' = decline MemoryUnreadable s1"
    using assms k by (auto simp: readMemory_def split: sum.splits StoreErr.splits)
  then show "quietly s s'" using read by (auto simp: quietly_steps)
  show "remembered \<Longrightarrow> db_mounts (sdb s) = Some (Some known)"
    using assms k read by (auto simp: readMemory_def split: sum.splits StoreErr.splits option.splits)
qed

lemma readMounts_effect:
  assumes "readMounts fs s = ((ok, live, supported), s')"
  shows "quietly s s'" "ok \<Longrightarrow> \<exists>n. fs_mounts fs n = Inr (live, supported)"
proof -
  obtain r s1 where k: "onWorld (ask (fs_mounts fs)) s = (r, s1)" by fastforce
  have "s' = s1 \<or> s' = decline MountsUnreadable s1"
    using assms k by (auto simp: readMounts_def split: sum.splits if_splits)
  then show "quietly s s'" using ask_quietly [OF k] by (auto simp: quietly_steps)
  show "ok \<Longrightarrow> \<exists>n. fs_mounts fs n = Inr (live, supported)"
    using assms k by (auto simp: readMounts_def onWorld_ask split: sum.splits if_splits)
qed

text \<open>
  The unknown prefixes only grow; a pass that is not blind read a memory; and a remembered mount is
  protected when the mount table does not list it, every root when the table could not be read.
\<close>

lemma readVolumes_effect:
  assumes "readVolumes fs cov s = ((cov', vol), s')"
  shows "keeping s s'"
    and "cov_roots cov' = cov_roots cov" "cov_unresolved cov' = cov_unresolved cov"
    and "\<not> vo_blind vol \<Longrightarrow> \<exists>known. db_mounts (sdb s) = Some (Some known) \<and>
      (set (cov_roots cov) \<subseteq> set (cov_unknown cov') \<or>
       (\<exists>n live supported. fs_mounts fs n = Inr (live, supported) \<and>
          (supported \<longrightarrow> (\<forall>m \<in> set known. m \<in> set live \<or> m \<in> set (cov_unknown cov')))))"
proof -
  obtain known remembered memOk s1 where m: "readMemory s = ((known, remembered, memOk), s1)" by (metis prod.exhaust)
  obtain mountsOk live supported s2 where t: "readMounts fs s1 = ((mountsOk, live, supported), s2)" by (metis prod.exhaust)
  obtain le known' s3 where l: "learnMounts (cov_roots cov) known live remembered s2 = ((le, known'), s3)" by (metis prod.exhaust)
  define absent where "absent = (if mountsOk \<and> supported then filter (\<lambda>m. m \<notin> set live) known else [])"
  define c where "c = cov\<lparr>cov_unknown := absent @ (if mountsOk then [] else cov_roots cov) @ cov_unknown cov\<rparr>"
  define v where "v = \<lparr>vo_known = known, vo_live = live, vo_absent = absent, vo_blind = \<not> remembered,
      vo_usable = mountsOk \<and> memOk\<rparr>"
  have r: "readVolumes fs cov s = (if mountsOk \<and> memOk
      then (case le of Some _ \<Rightarrow> ((c, v), decline VolumesUnrecorded s3) | None \<Rightarrow> ((c, v\<lparr>vo_known := known'\<rparr>), s3))
      else ((c, v), s2))"
    unfolding readVolumes_def m t prod.case Let_def absent_def [symmetric]
    unfolding c_def [symmetric] v_def [symmetric]
    by (cases le) (simp_all add: l)
  have k2: "keeping s s2"
    by (rule keeping_trans [OF quietly_keeping [OF readMemory_effect(1) [OF m]] quietly_keeping [OF readMounts_effect(1) [OF t]]])
  note k3 = keeping_trans [OF k2 learnMounts_keeping [OF l]]
  have "s' = s2 \<or> s' = s3 \<or> s' = decline VolumesUnrecorded s3"
    using assms unfolding r by (auto split: if_splits option.splits)
  then show "keeping s s'" using k2 k3 by (auto simp: quietly_steps)
  have c': "cov' = c" "vo_blind vol = (\<not> remembered)"
    using assms unfolding r by (auto simp: v_def split: if_splits option.splits)
  show "cov_roots cov' = cov_roots cov" "cov_unresolved cov' = cov_unresolved cov" by (simp_all add: c' c_def)
  assume "\<not> vo_blind vol"
  then have mounts: "db_mounts (sdb s) = Some (Some known)" using readMemory_effect(2) [OF m] c' by simp
  have "\<exists>n. fs_mounts fs n = Inr (live, supported)" if "mountsOk" by (rule readMounts_effect(2) [OF t that])
  moreover have "\<forall>m \<in> set known. m \<in> set live \<or> m \<in> set (cov_unknown cov')" if "mountsOk" "supported"
    using that by (simp add: c' c_def absent_def)
  moreover have "set (cov_roots cov) \<subseteq> set (cov_unknown cov')" if "\<not> mountsOk" using that by (auto simp: c' c_def)
  ultimately show "\<exists>known. db_mounts (sdb s) = Some (Some known) \<and>
      (set (cov_roots cov) \<subseteq> set (cov_unknown cov') \<or>
       (\<exists>n live supported. fs_mounts fs n = Inr (live, supported) \<and>
          (supported \<longrightarrow> (\<forall>m \<in> set known. m \<in> set live \<or> m \<in> set (cov_unknown cov')))))"
    using mounts by blast
qed

text \<open>The volume evidence a pass works with: its unknown prefixes and whether it is blind.\<close>

definition volumeEvidence :: "FS \<Rightarrow> DB \<Rightarrow> coverage \<Rightarrow> coverage \<Rightarrow> bool \<Rightarrow> bool" where
  "volumeEvidence fs d cov cov' blind \<longleftrightarrow>
     cov_roots cov' = cov_roots cov \<and> cov_unresolved cov' = cov_unresolved cov \<and>
     (\<not> blind \<longrightarrow> (\<exists>known. db_mounts d = Some (Some known) \<and>
        (set (cov_roots cov) \<subseteq> set (cov_unknown cov') \<or>
         (\<exists>n live supported. fs_mounts fs n = Inr (live, supported) \<and>
            (supported \<longrightarrow> (\<forall>m \<in> set known. m \<in> set live \<or> m \<in> set (cov_unknown cov')))))))"

lemma reconcileDeleted_effect:
  assumes "reconcileDeleted opts fs cov s = (err, s')"
  obtains A cov' blind where "dropped A s s'" "volumeEvidence fs (sdb s) cov cov' blind"
    "\<And>q. q \<in> A \<Longrightarrow> cov_roots cov \<noteq> [] \<and> doomed opts fs cov' blind (ticks s) (ticks s') q"
proof -
  obtain b s0 where ctx: "onWorld (onStore ctxErr) s = (b, s0)" by fastforce
  have q0: "quietly s (setReconciled True s0)" "quietly s s0" using ctx_quietly [OF ctx] by (simp_all add: quietly_steps)
  consider (stopped) "b" | (none) "\<not> b" "cov_roots cov = []" | (run) "\<not> b" "cov_roots cov \<noteq> []" by blast
  then show thesis
  proof cases
    case stopped
    then have "s' = s0" using assms ctx by (simp add: reconcileDeleted_def)
    then show thesis
      by (intro that [of "{}" cov True]) (simp_all add: quietly_keeping q0 volumeEvidence_def)
  next
    case none
    then have "s' = declineAll (decline NoRootInScope (setReconciled True s0))"
      using assms ctx by (simp add: reconcileDeleted_def Let_def)
    then have "quietly s s'"
      unfolding declineAll_def using quietly_trans [OF _ declineLoop_quietly] q0 by (simp add: quietly_steps)
    then show thesis
      by (intro that [of "{}" cov True]) (simp_all add: quietly_keeping volumeEvidence_def)
  next
    case run
    obtain cov' vol s2 where v: "readVolumes fs cov (setReconciled True s0) = ((cov', vol), s2)" by (metis prod.exhaust)
    obtain ending e where l: "enumLoop opts fs cov' (vo_known vol) (vo_blind vol) '''' (startEnum s2) = (ending, e)" by fastforce
    have k2: "keeping s s2" by (rule keeping_trans [OF quietly_keeping [OF q0(1)] readVolumes_effect(1) [OF v]])
    have t2: "ticks s \<le> ticks s2" using k2 by (simp add: keeping_iff)
    have sw: "swept (doomed opts fs cov' (vo_blind vol)) (ticks s) (startEnum s2) e"
      by (rule enumLoop_effect [OF l]) (use t2 in \<open>simp_all add: startEnum_def condemned_def\<close>)
    have "s' = en_scan e \<or> s' = afterEnum vol e"
      using assms ctx run v l by (cases ending) (simp_all add: reconcileDeleted_def Let_def)
    then have k3: "keeping (en_scan e) s'" using afterEnum_keeping by auto
    obtain A where A: "\<And>q. q \<in> A \<Longrightarrow> doomed opts fs cov' (vo_blind vol) (ticks s) (eticks e) q"
      "erases A s2 (en_scan e)"
      using sw unfolding swept_def startEnum_def by auto
    have "dropped A s s'"
      by (rule dropped_keeping [OF keeping_dropped [OF k2 erases_dropped [OF A(2)]] k3])
    moreover have "volumeEvidence fs (sdb s) cov cov' (vo_blind vol)"
      using readVolumes_effect(2-4) [OF v] q0(1) unfolding quietly_iff volumeEvidence_def by simp
    moreover have "doomed opts fs cov' (vo_blind vol) (ticks s) (ticks s') q" if "q \<in> A" for q
      using doomed_mono [OF A(1) [OF that] le_refl] k3 by (simp add: keeping_iff)
    ultimately show thesis using that run by blast
  qed
qed

section \<open>Resolving the roots only looks\<close>

text \<open>The contract of an operation that asks the file system and leaves the store alone.\<close>

locale looks =
  fixes op :: "World \<Rightarrow> 'a \<times> World"
  assumes looking: "w_store (snd (op w)) = w_store w \<and> w_tick w \<le> w_tick (snd (op w))"
begin

lemma result: "op w = (r, w') \<Longrightarrow> w_store w' = w_store w \<and> w_tick w \<le> w_tick w'"
  using looking [of w] by simp

end

lemma looksI: "(\<And>w r w'. op w = (r, w') \<Longrightarrow> w_store w' = w_store w \<and> w_tick w \<le> w_tick w') \<Longrightarrow> looks op"
  by unfold_locales (metis prod.collapse)

interpretation ask: looks "ask q" for q
  by unfold_locales (simp add: ask_def tick_def)

interpretation onDiskName: looks "onDiskName fs dir want" for fs dir want
proof (rule looksI)
  fix w r w' assume "onDiskName fs dir want w = (r, w')"
  then show "w_store w' = w_store w \<and> w_tick w \<le> w_tick w'"
    by (auto simp: onDiskName_def ask_def tick_def split: sum.splits if_splits option.splits)
qed

interpretation caseLoop: looks "caseLoop fs es out" for fs es out
proof (rule looksI)
  show "caseLoop fs es out w = (r, w') \<Longrightarrow> w_store w' = w_store w \<and> w_tick w \<le> w_tick w'" for w r w'
  proof (induction fs es out w rule: caseLoop.induct)
    case (2 fs want rest out w)
    obtain n w1 where o: "onDiskName fs (if out = '''' then ''/'' else out) want w = (n, w1)" by fastforce
    note look = onDiskName.result [OF o]
    show ?case
      using 2 o look by (cases n) (fastforce split: if_splits)+
  qed simp
qed

interpretation spelled: looks "spelled fs p" for fs p
proof (rule looksI)
  fix w r w' assume "spelled fs p w = (r, w')"
  then show "w_store w' = w_store w \<and> w_tick w \<le> w_tick w'"
    by (auto simp: spelled_def CanonicalCase_def split: prod.splits if_splits dest: caseLoop.result)
qed

interpretation hasSymlinkAncestor: looks "hasSymlinkAncestor fs p" for fs p
proof (rule looksI)
  show "hasSymlinkAncestor fs p w = (r, w') \<Longrightarrow> w_store w' = w_store w \<and> w_tick w \<le> w_tick w'" for w r w'
  proof (induction fs p w rule: hasSymlinkAncestor.induct)
    case (1 fs p w)
    obtain f w1 where a: "ask (\<lambda>n. fs_lstat fs n p) w = (f, w1)" by fastforce
    note look = ask.result [OF a]
    show ?case
      using 1 a look by (fastforce simp: hasSymlinkAncestor.simps [of fs p] split: if_splits)
  qed
qed

interpretation canonicalRoot: looks "canonicalRoot fs base" for fs base
proof (rule looksI)
  fix w r w' assume c: "canonicalRoot fs base w = (r, w')"
  obtain f w1 where a: "ask (\<lambda>n. fs_eval fs n base) w = (f, w1)" by fastforce
  note look = ask.result [OF a]
  show "w_store w' = w_store w \<and> w_tick w \<le> w_tick w'"
    using c a look
    by (fastforce simp: canonicalRoot_def split: sum.splits FsErr.splits prod.splits
        dest: spelled.result hasSymlinkAncestor.result)
qed

interpretation resolveRoots: looks "resolveRoots opts fs" for opts fs
proof (rule looksI)
  have loop: "resolveLoop fs bases w = (r, w') \<Longrightarrow> w_store w' = w_store w \<and> w_tick w \<le> w_tick w'" for bases w r w'
  proof (induction bases arbitrary: w r)
    case (Cons base bases)
    obtain c w1 where c: "canonicalRoot fs base w = (c, w1)" by fastforce
    note look = canonicalRoot.result [OF c]
    show ?case using Cons c look by (fastforce split: prod.splits)
  qed simp
  show "resolveRoots opts fs w = (r, w') \<Longrightarrow> w_store w' = w_store w \<and> w_tick w \<le> w_tick w'" for w r w'
    by (auto simp: resolveRoots_def Let_def split: prod.splits dest: loop)
qed

section \<open>A whole walk\<close>

lemma removes_inv: "catalog_inv d \<Longrightarrow> catalog_inv (d\<lparr>db_documents := filter P (db_documents d), db_mounts := m\<rparr>)"
  by (auto simp: catalog_inv_defs distinct_map_filter)

lemma dropped_inv:
  assumes "dropped A s s'" "catalog_inv (sdb s)"
  shows "catalog_inv (sdb s')"
proof -
  have "sdb s' = (sdb s)\<lparr>db_documents := filter (\<lambda>r. d_path r \<notin> A) (db_documents (sdb s)), db_mounts := db_mounts (sdb s')\<rparr>"
    using assms(1) by (simp add: dropped_def)
  then show ?thesis using removes_inv [OF assms(2)] by metis
qed

lemma dropped_paths: "dropped A s s' \<Longrightarrow> paths (sdb s') = paths (sdb s) - A"
  by (auto simp: paths_def dropped_docs)

text \<open>A scan: the walk, then, unless it failed, the deletion pass.\<close>

lemma ScanRoots_parts:
  assumes "ScanRoots opts fs w = ((res, err), w')"
  obtains (failed) bases errs verified w1 s where "resolveRoots opts fs w = ((bases, errs, verified), w1)"
      "walked (startScan w) s" "w' = sc_world s" "err \<noteq> None"
  | (passed) bases errs verified w1 s unknown s' where "resolveRoots opts fs w = ((bases, errs, verified), w1)"
      "walked (startScan w) s"
      "reconcileDeleted opts fs \<lparr>cov_roots = bases, cov_unresolved = \<not> verified, cov_unknown = unknown\<rparr> s = (err, s')"
      "w' = sc_world s'" "res = sc_res s'"
proof -
  obtain bases errs verified w1 where r: "resolveRoots opts fs w = ((bases, errs, verified), w1)" by (metis prod.exhaust)
  note w1 = resolveRoots.result [OF r]
  define s0 where "s0 = onRes (\<lambda>r. r\<lparr>dr_PathErrors := errs\<rparr>) (startScan w1)"
  obtain x s where k: "walkRoots opts fs bases s0 = (x, s)" by fastforce
  have wk: "walked (startScan w) s" using walkRoots.result [OF k] w1 by (simp add: s0_def startScan_def walked_def)
  show thesis
  proof (cases x)
    case (Some e)
    then have "w' = sc_world s" "err = Some e"
      using assms r k by (auto simp: ScanRoots_def s0_def)
    then show thesis using failed [OF r wk] by simp
  next
    case None
    define s1 where "s1 = onRes (\<lambda>r. r\<lparr>dr_WalkErrors := length (dr_PathErrors r)\<rparr>) s"
    obtain e s2 where d: "reconcileDeleted opts fs
        \<lparr>cov_roots = bases, cov_unresolved = \<not> verified, cov_unknown = sc_unknown s1\<rparr> s1 = (e, s2)" by fastforce
    have "err = e" "w' = sc_world s2" "res = sc_res s2"
      using assms r k None d by (simp_all add: ScanRoots_def s0_def s1_def Let_def)
    moreover have "walked (startScan w) s1" using wk by (simp add: s1_def walked_def)
    ultimately show thesis using passed [OF r, of s1] d by simp
  qed
qed

interpretation ScanRoots: world_op "ScanRoots opts fs" for opts fs
proof
  fix w assume inv: "catalog_inv (wdb w)"
  obtain res err w' where s: "ScanRoots opts fs w = ((res, err), w')" by (metis prod.exhaust)
  have "catalog_inv (wdb w')" using s
  proof (cases rule: ScanRoots_parts)
    case (failed bases errs verified w1 s)
    then show ?thesis using inv by (simp add: walked_def startScan_def)
  next
    case (passed bases errs verified w1 s unknown s')
    then have "catalog_inv (sdb s)" using inv by (simp add: walked_def startScan_def)
    moreover obtain A where "dropped A s s'" by (rule reconcileDeleted_effect [OF passed(3)])
    ultimately show ?thesis using dropped_inv passed(4) by blast
  qed
  then show "catalog_inv (wdb (snd (ScanRoots opts fs w)))" using s by simp
qed

text \<open>A row that a scan removed, with the roots it resolved and the evidence it had.\<close>

lemma ScanRoots_removed:
  assumes scan: "ScanRoots opts fs w = ((res, err), w')"
    and r: "resolveRoots opts fs w = ((bases, errs, verified), w1)"
    and p: "p \<in> paths (wdb w)" "p \<notin> paths (wdb w')"
  obtains unknown cov' blind a where "bases \<noteq> []" "w_tick w \<le> a"
    "volumeEvidence fs (wdb w) \<lparr>cov_roots = bases, cov_unresolved = \<not> verified, cov_unknown = unknown\<rparr> cov' blind"
    "doomed opts fs cov' blind a (w_tick w') p"
  using scan
proof (cases rule: ScanRoots_parts)
  case (failed bases errs verified w1 s)
  then show thesis using p by (auto simp: walked_def startScan_def)
next
  case (passed b e v w2 s unknown s')
  let ?cov = "\<lparr>cov_roots = b, cov_unresolved = \<not> v, cov_unknown = unknown\<rparr>"
  have same: "b = bases" "v = verified" "w2 = w1" using passed(1) r by simp_all
  obtain A cov' blind where A: "dropped A s s'" "volumeEvidence fs (sdb s) ?cov cov' blind"
    "\<And>q. q \<in> A \<Longrightarrow> cov_roots ?cov \<noteq> [] \<and> doomed opts fs cov' blind (ticks s) (ticks s') q"
    using reconcileDeleted_effect [OF passed(3)] by (metis (no_types))
  have "p \<in> A" using dropped_paths [OF A(1)] p passed(2,4) by (auto simp: walked_def startScan_def)
  then have "b \<noteq> []" "doomed opts fs cov' blind (ticks s) (ticks s') p" using A(3) by simp_all
  moreover have "db_mounts (sdb s) = db_mounts (wdb w)" using passed(2) by (simp add: walked_def startScan_def)
  then have "volumeEvidence fs (wdb w) ?cov cov' blind" using A(2) by (simp add: volumeEvidence_def)
  ultimately show thesis using that [of "ticks s"] passed(2,4) same by (simp add: walked_def startScan_def)
qed

lemma climb_mono: "climb P p \<Longrightarrow> (\<And>q. P q \<Longrightarrow> Q q) \<Longrightarrow> climb Q p"
proof (induction P p rule: climb.induct)
  case (1 P p)
  show ?case
  proof (cases "P p \<or> Dir p = p")
    case True
    then have "P p" using 1(2) by (auto simp: climb.simps [of P p] split: if_splits)
    then show ?thesis using 1(3) by (simp add: climb.simps [of Q p])
  next
    case False
    then have "climb P (Dir p)" using 1(2) by (simp add: climb.simps [of P p])
    then have "climb Q (Dir p)" using 1(1) [OF _ _ _ 1(3)] False by blast
    then show ?thesis using False by (simp add: climb.simps [of Q p])
  qed
qed

lemma underAny_mono: "underAny p xs \<Longrightarrow> set xs \<subseteq> set ys \<Longrightarrow> underAny p ys"
  by (auto simp: underAny_def split: if_splits elim!: climb_mono)

section \<open>A demo: one root, one row whose file is gone\<close>

definition dirInfo :: FileInfo where
  "dirInfo = \<lparr>fi_type = Directory, fi_size = 0, fi_mtime = 0, fi_dataless = False\<rparr>"

definition demo_fs :: "path list \<Rightarrow> FS" where
  "demo_fs live = \<lparr>fs_lstat = (\<lambda>_ p. if p = ''/'' \<or> p = ''/r'' then Inr dirInfo else Inl FsNotExist),
     fs_walk = (\<lambda>_ _. Inr (dirInfo, [], None)), fs_bytes = (\<lambda>_ _. Inl FsNotExist), fs_names = (\<lambda>_ _. Inr [''r'']),
     fs_eval = (\<lambda>_ p. Inr p), fs_mounts = (\<lambda>_. Inr (live, True)), fs_fold = (=)\<rparr>"

definition demo_opts :: ScanOptions where
  "demo_opts = \<lparr>so_Include = [''/r''], so_Excluded = None\<rparr>"

definition demo_file :: path where "demo_file = ''/r/v/a.md''"

definition scan_world :: "path list \<Rightarrow> World" where
  "scan_world known = \<lparr>w_store = demo_store (empty_db\<lparr>db_documents :=
       [\<lparr>d_path = demo_file, d_hash = None, d_unread = Some UnreadIOError, d_size = 0, d_mtime = 0\<rparr>],
     db_mounts := Some (Some known)\<rparr>), w_tick = 0\<rparr>"

section \<open>What a scan may delete\<close>

text \<open>
  C10: A row that a scan removes is removed on evidence. Some include root was in scope. If the path is
  one the configuration still indexes, the file system said during this scan either that what is there
  now could never be indexed, or that nothing is there, and the mounted volumes had been recorded by
  an earlier pass. If it is not, every configured root was resolved and verified.
\<close>

theorem Scan_evidence:
  assumes "ScanRoots opts fs w = ((res, err), w')"
    and "resolveRoots opts fs w = ((bases, errs, verified), w1)"
    and "p \<in> paths (wdb w)" "p \<notin> paths (wdb w')"
  shows "bases \<noteq> [] \<and>
    (if withinAny p bases \<and> \<not> excludedBy opts p
     then \<exists>n. w_tick w \<le> n \<and> n < w_tick w' \<and>
            ((\<exists>st. fs_lstat fs n p = Inr st \<and> \<not> admissible (Base p) (fi_type st)) \<or>
             fs_lstat fs n p = Inl FsNotExist \<and> (\<exists>known. db_mounts (wdb w) = Some (Some known)))
     else verified)"
proof -
  obtain unknown cov' blind a where e: "bases \<noteq> []" "w_tick w \<le> a"
    "volumeEvidence fs (wdb w) \<lparr>cov_roots = bases, cov_unresolved = \<not> verified, cov_unknown = unknown\<rparr> cov' blind"
    "doomed opts fs cov' blind a (w_tick w') p"
    by (rule ScanRoots_removed [OF assms])
  have "inScopePath opts cov' p \<longleftrightarrow> withinAny p bases \<and> \<not> excludedBy opts p" "cov_unresolved cov' = (\<not> verified)"
    using e(3) by (simp_all add: volumeEvidence_def inScopePath_def)
  then show ?thesis
    using e le_trans [OF e(2)] unfolding doomed_def volumeEvidence_def indexable_def by (simp split: if_splits) blast
qed

theorem Scan_evidence_witness:
  "\<exists>n. n < w_tick (snd (ScanRoots demo_opts (demo_fs [''/'']) (scan_world [''/'']))) \<and>
     fs_lstat (demo_fs [''/'']) n demo_file = Inl FsNotExist"
proof -
  obtain res err w' where s: "ScanRoots demo_opts (demo_fs [''/'']) (scan_world [''/'']) = ((res, err), w')" by (metis prod.exhaust)
  obtain bases errs verified w1 where r: "resolveRoots demo_opts (demo_fs [''/'']) (scan_world [''/'']) = ((bases, errs, verified), w1)"
    by (metis prod.exhaust)
  have "db_documents (wdb (snd (ScanRoots demo_opts (demo_fs [''/'']) (scan_world [''/''])))) = []" by code_simp
  then have gone: "demo_file \<notin> paths (wdb w')" using s by (simp add: paths_def)
  have "demo_file \<in> paths (wdb (scan_world [''/'']))" by code_simp
  note evidence = Scan_evidence [OF s r this gone]
  have "fst (fst (resolveRoots demo_opts (demo_fs [''/'']) (scan_world [''/'']))) = [''/r'']"
    "withinAny demo_file [''/r'']" "\<not> excludedBy demo_opts demo_file" by code_simp+
  then obtain n where "n < w_tick w'"
    using evidence r by auto
  moreover have "fs_lstat (demo_fs [''/'']) n demo_file = Inl FsNotExist" by (simp add: demo_fs_def demo_file_def)
  ultimately show ?thesis using s by auto
qed

text \<open>
  C11: A volume that was remembered and is not mounted keeps the rows of the files strictly beneath an
  include root. A row survives the scan when its path lies strictly beneath a resolved include root and
  strictly beneath the mount point of a remembered volume, is in scope and not excluded, its own \<open>lstat\<close>
  answers that it does not exist, and the mount table, whenever it can be read, does not list the volume (on a
  platform whose mount table is supported). A row that is itself an include root is not protected this way (\<open>file_root_unprotected\<close>), and a row the
  configuration no longer covers is pruned.
\<close>

theorem unplugged_volume_safe:
  assumes "ScanRoots opts fs w = ((res, err), w')"
    and "resolveRoots opts fs w = ((bases, errs, verified), w1)"
    and "db_mounts (wdb w) = Some (Some known)" "mount \<in> set known" "underAny p [mount]"
    and "\<And>n live supported. fs_mounts fs n = Inr (live, supported) \<Longrightarrow> supported \<and> mount \<notin> set live"
    and "\<And>n. fs_lstat fs n p = Inl FsNotExist"
    and "withinAny p bases" "underAny p bases" "\<not> excludedBy opts p" "p \<in> paths (wdb w)"
  shows "p \<in> paths (wdb w')"
proof (rule ccontr)
  assume gone: "p \<notin> paths (wdb w')"
  obtain unknown cov' blind a where e: "bases \<noteq> []" "w_tick w \<le> a"
    "volumeEvidence fs (wdb w) \<lparr>cov_roots = bases, cov_unresolved = \<not> verified, cov_unknown = unknown\<rparr> cov' blind"
    "doomed opts fs cov' blind a (w_tick w') p"
    by (rule ScanRoots_removed [OF assms(1,2,11) gone])
  have "inScopePath opts cov' p" using assms(8,10) e(3) by (simp add: volumeEvidence_def inScopePath_def)
  then have d: "\<not> underAny p (cov_unknown cov')" "\<not> blind" using e(4) assms(7) by (auto simp: doomed_def)
  have "set bases \<subseteq> set (cov_unknown cov') \<or> mount \<in> set (cov_unknown cov')"
    using e(3) d(2) assms(3,4,6) unfolding volumeEvidence_def by fastforce
  then show False using d(1) underAny_mono [OF assms(5)] underAny_mono [OF assms(9)] by auto
qed

theorem unplugged_volume_safe_witness:
  "demo_file \<in> paths (wdb (snd (ScanRoots demo_opts (demo_fs [''/'']) (scan_world [''/'', ''/r/v'']))))"
proof -
  let ?w = "scan_world [''/'', ''/r/v'']"
  obtain res err w' where s: "ScanRoots demo_opts (demo_fs [''/'']) ?w = ((res, err), w')" by (metis prod.exhaust)
  obtain bases errs verified w1 where r: "resolveRoots demo_opts (demo_fs [''/'']) ?w = ((bases, errs, verified), w1)"
    by (metis prod.exhaust)
  have "fst (fst (resolveRoots demo_opts (demo_fs [''/'']) ?w)) = [''/r'']" by code_simp
  then have b: "bases = [''/r'']" using r by simp
  have known: "db_mounts (wdb ?w) = Some (Some [''/'', ''/r/v''])" by (simp add: scan_world_def demo_store_def)
  have "demo_file \<in> paths (wdb w')"
  proof (rule unplugged_volume_safe [OF s r known, of "''/r/v''"])
    show "underAny demo_file [''/r/v'']" by code_simp
    show "withinAny demo_file bases" "underAny demo_file bases" unfolding b by code_simp+
    show "\<not> excludedBy demo_opts demo_file" "demo_file \<in> paths (wdb ?w)" by code_simp+
  qed (auto simp: demo_fs_def demo_file_def)
  then show ?thesis using s by simp
qed

text \<open>
  C12: The counts of a deletion pass are exact on every path: whatever failed on the way, the rows
  reported as deleted or pruned are as many as the rows that went.
\<close>

theorem reconcile_counts:
  "length (db_documents (sdb s)) + (dr_Deleted (sc_res s) + dr_Pruned (sc_res s)) =
   (let s' = snd (reconcileDeleted opts fs cov s)
    in length (db_documents (sdb s')) + (dr_Deleted (sc_res s') + dr_Pruned (sc_res s')))"
proof -
  obtain err s' where r: "reconcileDeleted opts fs cov s = (err, s')" by fastforce
  obtain A cov' blind where d: "dropped A s s'" by (rule reconcileDeleted_effect [OF r])
  have "length rows = length (filter (\<lambda>r. d_path r \<notin> A) rows) + length (filter (\<lambda>r. d_path r \<in> A) rows)"
    for rows :: "documentRow list"
    using sum_length_filter_compl [of "\<lambda>r. d_path r \<in> A" rows] by simp
  from this [of "db_documents (sdb s)"] show ?thesis
    using d unfolding r snd_conv Let_def dropped_docs [OF d] by (simp add: dropped_def removedCount_def rowsOf_def)
qed

text \<open>
  An include root that is a file is not strictly beneath itself: when the mount table cannot be read the
  root is marked unknown, yet its own row is still judged, and removed with its volume unplugged.
\<close>

theorem file_root_unprotected:
  "db_documents (wdb (snd (ScanRoots \<lparr>so_Include = [demo_file], so_Excluded = None\<rparr>
     ((demo_fs [])\<lparr>fs_mounts := \<lambda>_. Inl (FsOther ''getmntinfo''), fs_eval := \<lambda>_ _. Inl FsNotExist, fs_walk := \<lambda>_ _. Inl FsNotExist\<rparr>)
     (scan_world [''/'', ''/r/v''])))) = []"
  by code_simp

end
