(* ===== verification/NamedPaths.thy ===== *)
theory NamedPaths
  imports DiscoveryFacts
begin

text \<open>
  What \<open>ScanPaths\<close> does to the catalog: the first pass over the named paths never deletes, and the
  purge behind it deletes only beneath a path that was seen gone with its parent in place.
\<close>

section \<open>The first pass\<close>

interpretation scanPath: walk_step "scanPath opts fs p st dirs" for opts fs p st dirs
proof (rule walk_stepI)
  fix s r s' assume p: "scanPath opts fs p st dirs s = (r, s')"
  obtain r1 s1 where t: "walkTree opts fs False p s = (r1, s1)" by fastforce
  obtain r2 s2 where f: "(if fi_dataless st then noteDataless p st s else processFile fs p st s) = (r2, s2)" by fastforce
  have "walked s s1" by (rule walkTree.result [OF t])
  moreover have "walked s s2" using f noteDataless.result processFile.result by (simp split: if_splits)
  ultimately show "walked s s'" using p t f by (cases r1) (auto simp: scanPath_def split: if_splits)
qed

interpretation firstStep: walk_step "firstStep opts fs bases p vanished dirs" for opts fs bases p vanished dirs
proof (rule walk_stepI)
  fix s r s' assume f: "firstStep opts fs bases p vanished dirs s = (r, s')"
  obtain found s1 where a: "onWorld (ask (\<lambda>n. fs_lstat fs n p)) s = (found, s1)" by fastforce
  have w1: "walked s s1" using walked_same ask_same [OF a] by blast
  have here: "walked s (onRes g s)" "walked s1 (pathError p e s1)" for g e by (simp_all add: walked_def)
  obtain r2 s2 where c: "scanPath opts fs p (projr found) dirs s1 = (r2, s2)" by fastforce
  have w2: "walked s s2" by (rule scanPath.after [OF w1 c])
  obtain r3 s3 where g: "flushDocs s2 = (r3, s3)" by fastforce
  have w3: "walked s s3" by (rule flushDocs.after [OF w2 g])
  show "walked s s'"
    using f a c g w1 w2 w3 here walked_trans [OF w1]
    by (auto simp: firstStep_def split: if_splits sum.splits prod.splits option.splits)
qed

interpretation firstPaths: walk_step "firstPaths opts fs bases ps vanished dirs" for opts fs bases ps vanished dirs
proof (rule walk_stepI)
  show "firstPaths opts fs bases ps vanished dirs s = (r, s') \<Longrightarrow> walked s s'" for s r s'
  proof (induction ps arbitrary: s vanished dirs)
    case (Cons p ps)
    obtain b s0 where c: "onWorld (onStore ctxErr) s = (b, s0)" by fastforce
    have w0: "walked s s0" using walked_same ctx_same [OF c] by blast
    obtain e v d s1 where f: "firstStep opts fs bases p vanished dirs s0 = ((e, v, d), s1)" by (metis prod.exhaust)
    have w1: "walked s s1" by (rule firstStep.after [OF w0 f])
    show ?case
      using Cons c f w0 w1 walked_trans [OF w1] by (cases b; cases e) auto
  qed simp
qed

text \<open>A path reported as vanished is a named one, within the roots and not excluded.\<close>

definition nameable :: "ScanOptions \<Rightarrow> path list \<Rightarrow> path \<Rightarrow> bool" where
  "nameable opts bases p \<longleftrightarrow> IsAbs p \<and> withinAny p bases \<and> \<not> excludedBy opts p"

lemma firstStep_vanished:
  "firstStep opts fs bases p vanished dirs s = ((e, v, d), s') \<Longrightarrow> v = vanished \<or> v = vanished @ [p] \<and> nameable opts bases p"
  by (auto simp: firstStep_def nameable_def split: if_splits sum.splits prod.splits option.splits)

lemma firstPaths_vanished:
  "firstPaths opts fs bases ps vanished dirs s = ((e, v), s') \<Longrightarrow>
   set v \<subseteq> set vanished \<union> {p \<in> set ps. nameable opts bases p}"
proof (induction ps arbitrary: s vanished dirs)
  case (Cons p ps)
  obtain b s0 where c: "onWorld (onStore ctxErr) s = (b, s0)" by fastforce
  obtain e1 v1 d1 s1 where f: "firstStep opts fs bases p vanished dirs s0 = ((e1, v1, d1), s1)" by (metis prod.exhaust)
  have v1: "set v1 \<subseteq> set vanished \<union> {q. q = p \<and> nameable opts bases q}" using firstStep_vanished [OF f] by auto
  consider "b \<or> e1 \<noteq> None" "v = vanished" | "firstPaths opts fs bases ps v1 d1 s1 = ((e, v), s')"
    using Cons.prems c f by (cases b; cases e1) auto
  then show ?case
  proof cases
    case 2
    from Cons.IH [OF this] v1 show ?thesis by auto
  qed auto
qed simp

section \<open>The purge\<close>

text \<open>Between the questions \<open>a\<close> and \<open>b\<close>, \<open>p\<close> was seen gone, and its parent in place right after.\<close>

definition seenGone :: "FS \<Rightarrow> nat \<Rightarrow> nat \<Rightarrow> path \<Rightarrow> bool" where
  "seenGone fs a b p \<longleftrightarrow> (\<exists>n. a \<le> n \<and> Suc n < b \<and> fs_lstat fs n p = Inl FsNotExist \<and>
     (\<exists>st. fs_lstat fs (Suc n) (Dir p) = Inr st))"

lemma seenGone_mono: "seenGone fs a b p \<Longrightarrow> a' \<le> a \<Longrightarrow> b \<le> b' \<Longrightarrow> seenGone fs a' b' p"
  unfolding seenGone_def by (meson le_trans less_le_trans)

text \<open>Only rows beneath such a path of \<open>names\<close> went.\<close>

definition purged :: "FS \<Rightarrow> path set \<Rightarrow> Scan \<Rightarrow> Scan \<Rightarrow> bool" where
  "purged fs names s s' \<longleftrightarrow> (catalog_inv (sdb s) \<longrightarrow> catalog_inv (sdb s')) \<and> ticks s \<le> ticks s' \<and>
     uncharged (sdb s) (sdb s') \<and>
     (\<forall>q \<in> paths (sdb s) - paths (sdb s').
        \<exists>p \<in> names. seenGone fs (ticks s) (ticks s') p \<and> beneath (trimRightSet p ''/'') q)"

lemma walked_purged: "walked s s' \<Longrightarrow> purged fs names s s'"
  by (auto simp: walked_def purged_def)

lemma purged_trans:
  assumes a: "purged fs names s1 s2" and b: "purged fs names s2 s3"
  shows "purged fs names s1 s3"
proof -
  have t: "ticks s1 \<le> ticks s2" "ticks s2 \<le> ticks s3" using a b by (simp_all add: purged_def)
  have "\<exists>p \<in> names. seenGone fs (ticks s1) (ticks s3) p \<and> beneath (trimRightSet p ''/'') q"
    if q: "q \<in> paths (sdb s1)" "q \<notin> paths (sdb s3)" for q
  proof (cases "q \<in> paths (sdb s2)")
    case True
    then obtain p where "p \<in> names" "seenGone fs (ticks s2) (ticks s3) p" "beneath (trimRightSet p ''/'') q"
      using b q by (auto simp: purged_def)
    then show ?thesis using seenGone_mono [OF _ t(1) le_refl] by blast
  next
    case False
    then obtain p where "p \<in> names" "seenGone fs (ticks s1) (ticks s2) p" "beneath (trimRightSet p ''/'') q"
      using a q by (auto simp: purged_def)
    then show ?thesis using seenGone_mono [OF _ le_refl t(2)] by blast
  qed
  then show ?thesis using a b t uncharged_trans [of "sdb s1" "sdb s2" "sdb s3"] by (auto simp: purged_def)
qed

lemma purged_mono: "purged fs names s s' \<Longrightarrow> names \<subseteq> names' \<Longrightarrow> purged fs names' s s'"
  unfolding purged_def by blast

lemma DeleteByPathPrefix_any:
  assumes "DeleteByPathPrefix dir s = (r, s')"
  shows "st_db s' = st_db s \<or>
    st_db s' = (st_db s)\<lparr>db_documents := filter (\<lambda>row. \<not> beneath (trimRightSet dir ''/'') (d_path row)) (db_documents (st_db s))\<rparr>"
proof (cases "trimRightSet dir ''/'' = ''''")
  case False
  let ?d = "trimRightSet dir ''/''"
  have eq: "(\<lambda>p. p = ?d \<or> (p > ?d @ ''/'' \<and> p < ?d @ ''0'')) = beneath ?d"
    by (simp add: fun_eq_iff beneath_def range_is_prefix)
  have "withTx (delete_docs (beneath ?d)) s = (r, s')"
    using assms False unfolding DeleteByPathPrefix_def Let_def eq by simp
  from withTx_delete [OF this] show ?thesis by (auto simp: removes_def)
qed (use assms in \<open>simp add: DeleteByPathPrefix_def\<close>)

lemma purge_purged: 
  assumes "purge fs p s = (r, s')"
  shows "purged fs {p} s s'"
proof -
  obtain f1 s1 where a1: "onWorld (ask (\<lambda>n. fs_lstat fs n p)) s = (f1, s1)" by fastforce
  obtain f2 s2 where a2: "onWorld (ask (\<lambda>n. fs_lstat fs n (Dir p))) s1 = (f2, s2)" by fastforce
  obtain d s3 where del: "onWorld (onStore (DeleteByPathPrefix p)) s2 = (d, s3)" by fastforce
  have w: "walked s s1" "walked s s2"
    using walked_same ask_same [OF a1] walked_from [OF _ _ walked_same] ask_same [OF a2] by blast+
  have quiet: "walked s (pathError p e s1)" "walked s (pathError p e s2)" for e using w by (simp_all add: walked_def)
  consider (declined) "s' = s1 \<or> (\<exists>e. s' = pathError p e s1) \<or> (\<exists>e. s' = pathError p e s2)"
    | (deleted) st where "f1 = Inl FsNotExist" "f2 = Inr st" "s' = s3 \<or> (\<exists>g. s' = onRes g s3)"
    using assms a1 a2 del by (auto simp: purge_def split: sum.splits if_splits)
  then show ?thesis
  proof cases
    case declined
    then show ?thesis using w quiet walked_purged by blast
  next
    case deleted
    then have world: "sc_world s' = sc_world s3" by auto
    obtain st' where st': "DeleteByPathPrefix p (w_store (sc_world s2)) = (d, st')" "sdb s3 = st_db st'"
      by (rule onWorld_store [OF del]) blast
    have t: "ticks s3 = Suc (Suc (ticks s))" "sdb s2 = sdb s"
      using onWorld_store_ticks [OF del] a1 a2 by (auto simp: onWorld_ask tick_def)
    have gone: "seenGone fs (ticks s) (ticks s3) p"
      using a1 a2 deleted t by (auto simp: seenGone_def onWorld_ask tick_def intro!: exI [of _ "ticks s"])
    note db = DeleteByPathPrefix_any [OF st'(1), unfolded t(2)]
    have inv: "catalog_inv (sdb s) \<longrightarrow> catalog_inv (sdb s3)"
      using deleteByPathPrefix.keeps_result [OF st'(1)] t(2) st'(2) by simp
    have "uncharged (sdb s) (sdb s3)" using db st'(2) by (auto intro: uncharged_same)
    moreover have "beneath (trimRightSet p ''/'') q" if "q \<in> paths (sdb s)" "q \<notin> paths (sdb s3)" for q
      using that db st'(2) by (auto simp: paths_def image_iff)
    ultimately show ?thesis using inv gone t unfolding purged_def world by auto
  qed
qed

lemma purgePaths_purged: "purgePaths fs ps covered s = (r, s') \<Longrightarrow> purged fs (set ps) s s'"
proof (induction ps arbitrary: covered s)
  case Nil
  then show ?case by (simp add: walked_purged)
next
  case (Cons p ps)
  obtain b s0 where c: "onWorld (onStore ctxErr) s = (b, s0)" by fastforce
  have w0: "purged fs (set (p # ps)) s s0" using walked_purged [OF walked_same] ctx_same [OF c] by blast
  obtain x s1 where p: "purge fs p s0 = (x, s1)" by fastforce
  have w1: "purged fs (set (p # ps)) s s1"
    by (rule purged_trans [OF w0 purged_mono [OF purge_purged [OF p]]]) simp
  have rest: "purged fs (set (p # ps)) s s'" if "purgePaths fs ps cov t = (r, s')" "purged fs (set (p # ps)) s t" for cov t
    by (rule purged_trans [OF that(2) purged_mono [OF Cons.IH [OF that(1)]]]) auto
  consider "s' = s0" | "s' = s1" | cov where "purgePaths fs ps cov s0 = (r, s')" | cov where "purgePaths fs ps cov s1 = (r, s')"
    using Cons.prems c p by (cases b; cases x) (auto split: if_splits)
  then show ?case using w0 w1 rest by cases blast+
qed

section \<open>The whole pass\<close>

lemma ScanPaths_purged:
  assumes scan: "ScanPaths opts fs names w = ((res, err), w')"
    and r: "resolveRoots opts fs w = ((bases, errs, verified), w1)"
  shows "\<exists>s s'. sdb s = wdb w \<and> w_tick w \<le> ticks s \<and> sc_world s' = w' \<and>
    purged fs {p \<in> set (map Clean names). nameable opts bases p} s s'"
proof -
  note looked = resolveRoots.result [OF r]
  obtain e v s1 where f: "firstPaths opts fs bases (remdups_adj (sort (map Clean names))) [] [] (startScan w1) = ((e, v), s1)"
    by (metis prod.exhaust)
  let ?N = "{p \<in> set (map Clean names). nameable opts bases p}"
  have w1: "walked (startScan w1) s1" by (rule firstPaths.result [OF f])
  have v: "set v \<subseteq> ?N" using firstPaths_vanished [OF f] by auto
  obtain e2 s2 where p: "purgePaths fs v [] s1 = (e2, s2)" by fastforce
  have "sc_world (if e = None then s2 else s1) = w'"
    using scan r f p by (auto simp: ScanPaths_def split: option.splits)
  moreover have "purged fs ?N (startScan w1) (if e = None then s2 else s1)"
    using purged_trans [OF walked_purged [OF w1] purged_mono [OF purgePaths_purged [OF p] v]] walked_purged [OF w1] by simp
  ultimately show ?thesis using looked by (intro exI [of _ "startScan w1"] exI conjI) (simp_all add: startScan_def)
qed

interpretation ScanPaths: world_op "ScanPaths opts fs names" for opts fs names
proof
  fix w assume inv: "catalog_inv (wdb w)"
  obtain res err w' where s: "ScanPaths opts fs names w = ((res, err), w')" by (metis prod.exhaust)
  obtain bases errs verified w1 where r: "resolveRoots opts fs w = ((bases, errs, verified), w1)" by (metis prod.exhaust)
  obtain a b where "sdb a = wdb w" "sc_world b = w'" "purged fs {p \<in> set (map Clean names). nameable opts bases p} a b"
    using ScanPaths_purged [OF s r] by blast
  then show "catalog_inv (wdb (snd (ScanPaths opts fs names w)))" using s inv by (auto simp: purged_def)
qed

text \<open>
  C13: A row that a reconcile of named paths removes lies at or beneath one of the named paths: one that
  is absolute, within the include roots and not excluded, and that the file system reported gone during
  this reconcile while its parent directory was still there.
\<close>

theorem ScanPaths_evidence:
  assumes "ScanPaths opts fs names w = ((res, err), w')"
    and "resolveRoots opts fs w = ((bases, errs, verified), w1)"
    and "q \<in> paths (wdb w)" "q \<notin> paths (wdb w')"
  shows "\<exists>p \<in> set (map Clean names). IsAbs p \<and> withinAny p bases \<and> \<not> excludedBy opts p \<and>
    beneath (trimRightSet p ''/'') q \<and> seenGone fs (w_tick w) (w_tick w') p"
proof -
  obtain a b where ab: "sdb a = wdb w" "w_tick w \<le> ticks a" "sc_world b = w'"
    "purged fs {p \<in> set (map Clean names). nameable opts bases p} a b"
    using ScanPaths_purged [OF assms(1,2)] by blast
  then have "q \<in> paths (sdb a) - paths (sdb b)" using assms(3,4) by auto
  then obtain p where "p \<in> set (map Clean names)" "nameable opts bases p" "seenGone fs (ticks a) (ticks b) p"
    "beneath (trimRightSet p ''/'') q"
    using ab(4) unfolding purged_def by blast
  then show ?thesis using seenGone_mono [OF _ ab(2) le_refl] ab(3) by (auto simp: nameable_def)
qed

theorem ScanPaths_evidence_witness:
  "\<exists>p \<in> {''/r/v''}. seenGone (demo_fs [''/'']) 0 (w_tick (snd (ScanPaths demo_opts (demo_fs [''/'']) [''/r/v/''] (scan_world [''/''])))) p"
proof -
  let ?fs = "demo_fs [''/'']" and ?w = "scan_world [''/'']"
  obtain res err w' where s: "ScanPaths demo_opts ?fs [''/r/v/''] ?w = ((res, err), w')" by (metis prod.exhaust)
  obtain bases errs verified w1 where r: "resolveRoots demo_opts ?fs ?w = ((bases, errs, verified), w1)" by (metis prod.exhaust)
  have "db_documents (wdb (snd (ScanPaths demo_opts ?fs [''/r/v/''] ?w))) = []" by code_simp
  then have gone: "demo_file \<notin> paths (wdb w')" using s by (simp add: paths_def)
  have known: "demo_file \<in> paths (wdb ?w)" by code_simp
  have "Clean ''/r/v/'' = ''/r/v''" by code_simp
  moreover have "w_tick ?w = 0" by (simp add: scan_world_def)
  ultimately show ?thesis using ScanPaths_evidence [OF s r known gone] s by auto
qed

end
