(* ===== verification/SchedFacts.thy ===== *)
theory SchedFacts
  imports Scheduler NamedPaths
begin

text \<open>
  What every step of the scheduler keeps. A relation between states that holds for bookkeeping and for
  each call into a component holds for the walk, the reconcile, the sweep, the drain and the cycle; the
  relation is then instantiated.
\<close>

section \<open>Bookkeeping touches neither the world nor the pending set\<close>

text \<open>All but the world, the pending set and what has been swept is notes.\<close>

definition noted :: "SState \<Rightarrow> SState \<Rightarrow> bool" where
  "noted s s' \<longleftrightarrow> ss_world s' = ss_world s \<and> ss_pending s' = ss_pending s \<and>
     ss_sweptVersions s' = ss_sweptVersions s \<and> ss_sweptDims s' = ss_sweptDims s"

lemma bookkeeping [simp]:
  "ss_world (mark f s) = ss_world s" "ss_pending (mark f s) = ss_pending s"
  "ss_sweptVersions (mark f s) = ss_sweptVersions s" "ss_sweptDims (mark f s) = ss_sweptDims s"
  "ss_world (gate g b s) = ss_world s" "ss_pending (gate g b s) = ss_pending s"
  "ss_sweptVersions (gate g b s) = ss_sweptVersions s" "ss_sweptDims (gate g b s) = ss_sweptDims s"
  "ss_world (lastError e s) = ss_world s" "ss_pending (lastError e s) = ss_pending s"
  "ss_sweptVersions (lastError e s) = ss_sweptVersions s" "ss_sweptDims (lastError e s) = ss_sweptDims s"
  "ss_world (Notify s) = ss_world s" "ss_pending (Notify s) = ss_pending s"
  "ss_sweptVersions (Notify s) = ss_sweptVersions s" "ss_sweptDims (Notify s) = ss_sweptDims s"
  "ss_world (requestScan s) = ss_world s" "ss_pending (requestScan s) = ss_pending s"
  "ss_sweptVersions (requestScan s) = ss_sweptVersions s" "ss_sweptDims (requestScan s) = ss_sweptDims s"
  "ss_world (refusePending s) = ss_world s" "ss_pending (refusePending s) = ss_pending s"
  "ss_sweptVersions (refusePending s) = ss_sweptVersions s" "ss_sweptDims (refusePending s) = ss_sweptDims s"
  "ss_world (requestOrphanSweep c s) = ss_world s" "ss_pending (requestOrphanSweep c s) = ss_pending s"
  "ss_sweptVersions (requestOrphanSweep c s) = ss_sweptVersions s" "ss_sweptDims (requestOrphanSweep c s) = ss_sweptDims s"
  "ss_world (noteOrphanProducers r s) = ss_world s" "ss_pending (noteOrphanProducers r s) = ss_pending s"
  "ss_sweptVersions (noteOrphanProducers r s) = ss_sweptVersions s" "ss_sweptDims (noteOrphanProducers r s) = ss_sweptDims s"
  "ss_world (recordReconcile r s) = ss_world s" "ss_pending (recordReconcile r s) = ss_pending s"
  "ss_sweptVersions (recordReconcile r s) = ss_sweptVersions s" "ss_sweptDims (recordReconcile r s) = ss_sweptDims s"
  "ss_world (recordScan r s) = ss_world s" "ss_pending (recordScan r s) = ss_pending s"
  "ss_sweptVersions (recordScan r s) = ss_sweptVersions s" "ss_sweptDims (recordScan r s) = ss_sweptDims s"
  "ss_world (clearProbeDeferral s) = ss_world s" "ss_pending (clearProbeDeferral s) = ss_pending s"
  "ss_sweptVersions (clearProbeDeferral s) = ss_sweptVersions s" "ss_sweptDims (clearProbeDeferral s) = ss_sweptDims s"
  by (simp_all add: mark_def gate_def lastError_def Notify_def requestScan_def refusePending_def
      requestOrphanSweep_def noteOrphanProducers_def recordReconcile_def recordScan_def clearProbeDeferral_def Let_def)

lemma takeOrphanSweep_frame: "takeOrphanSweep s = (r, s') \<Longrightarrow> noted s s'"
  by (auto simp: takeOrphanSweep_def noted_def split: if_splits)

lemma doing_pending: "doing f s = (r, s') \<Longrightarrow> ss_pending s' = ss_pending s"
  by (auto simp: doing_def split: prod.splits)

lemma doing_flags: "doing f s = (r, s') \<Longrightarrow> ss_sweptVersions s' = ss_sweptVersions s \<and> ss_sweptDims s' = ss_sweptDims s"
  by (auto simp: doing_def split: prod.splits)

lemma doing_result: "doing f s = (r, s') \<Longrightarrow> f (ss_world s) = (r, ss_world s')"
  by (auto simp: doing_def split: prod.splits)

lemma doing_ask: "doing (ask q) s = (q (w_tick (ss_world s)), s\<lparr>ss_world := tick (ss_world s)\<rparr>)"
  by (simp add: doing_def ask_def)

lemma length_addPaths: "length (addPaths ps held) = length held + length (filter (\<lambda>p. p \<notin> set held) (remdups ps))"
  by (simp add: addPaths_def)

section \<open>The contract\<close>

locale sched_base =
  fixes sd :: Sched and bd :: Beyond and R :: "SState \<Rightarrow> SState \<Rightarrow> bool"
  assumes refl: "R s s" and trans: "R s0 s1 \<Longrightarrow> R s1 s2 \<Longrightarrow> R s0 s2"
    and book: "noted s s' \<Longrightarrow> R s s'"
    and ticked: "R s (s\<lparr>ss_world := tick (ss_world s)\<rparr>)"
    and ctx: "cancelled s = (dn, s') \<Longrightarrow> R s s'"
begin

lemma booked:
  assumes "R a s" "ss_world s' = ss_world s" "ss_pending s' = ss_pending s"
    "ss_sweptVersions s' = ss_sweptVersions s" "ss_sweptDims s' = ss_sweptDims s"
  shows "R a s'"
  using trans [OF assms(1) book] assms(2-5) by (simp add: noted_def)

lemma asked: "R a s \<Longrightarrow> doing (ask q) s = (x, s') \<Longrightarrow> R a s'"
  using trans ticked by (auto simp: doing_ask)

lemma clock: "R a s \<Longrightarrow> now sd s = (t, s') \<Longrightarrow> R a s'"
  unfolding now_def by (rule asked)

lemma checked: "R a s \<Longrightarrow> cancelled s = (b, s') \<Longrightarrow> R a s'"
  using trans ctx by blast

end

text \<open>What the watcher hands over is merged, taken and reconciled.\<close>

locale sched_reconcile = sched_base +
  assumes hold: "length ps \<le> maxPendingReconcile \<Longrightarrow> R s (s\<lparr>ss_pending := ps\<rparr>)"
    and names: "doing (ScanPaths (sd_scan sd) (sd_fs sd) ps) s = (r, s') \<Longrightarrow> R s s'"
begin

lemma merged: "R a s \<Longrightarrow> mergePending ps s = (r, s') \<Longrightarrow> R a s'"
  using trans hold [of "addPaths ps (ss_pending s)" s]
  by (auto simp: mergePending_def Let_def length_addPaths split: if_splits)

lemma restored: "R a s \<Longrightarrow> R a (restorePending ps s)"
proof -
  assume a: "R a s"
  obtain n ok s1 where m: "mergePending ps s = ((n, ok), s1)" by (metis prod.exhaust)
  have "R a s1" by (rule merged [OF a m])
  then show ?thesis using booked [of a s1 "refusePending s1"] m by (simp add: restorePending_def)
qed

lemma closedWindow: "R a s \<Longrightarrow> R a (closeWindow sd ps rescan s)"
proof -
  assume a: "R a s"
  obtain t s0 where n: "now sd s = (t, s0)" by fastforce
  define s1 where "s1 = mark (\<lambda>n. n\<lparr>sn_LastWatchEvent := Some t\<rparr>) s0"
  have r1: "R a s1" by (rule booked [OF clock [OF a n]]) (simp_all add: s1_def)
  obtain k ok s2 where m: "mergePending ps s1 = ((k, ok), s2)" by (metis prod.exhaust)
  have r2: "R a s2" by (rule merged [OF r1 m])
  have "R a (enqueue ps s1)" by (rule booked [OF r2]) (simp_all add: enqueue_def m)
  moreover have "R a (Notify (requestScan (mark f s1)))" for f by (rule booked [OF r1]) simp_all
  ultimately show ?thesis using a n by (simp add: closeWindow_def s1_def Let_def)
qed

lemma delivered: "R a s \<Longrightarrow> R a (deliver sd msg s)"
  using closedWindow booked [of a s "deliver sd msg s"] by (cases msg) simp_all

lemma arrived: "R a s \<Longrightarrow> R a (arrivals sd bd s)"
proof -
  assume a: "R a s"
  have "R a (fold (deliver sd) msgs s)" for msgs
    using a by (induction msgs arbitrary: s) (auto intro: delivered)
  then show ?thesis by (simp add: arrivals_def)
qed

lemma reconciled: "R a s \<Longrightarrow> R a (reconcilePending sd bd s)"
proof -
  assume a: "R a s"
  obtain b s0 where c: "cancelled s = (b, s0)" by fastforce
  note r0 = checked [OF a c]
  show ?thesis
  proof (cases b)
    case False
    obtain list s1 where t: "takePending (arrivals sd bd s0) = (list, s1)" by fastforce
    have r1: "R a s1"
      using trans [OF arrived [OF r0] hold [of "[]"]] t by (auto simp: takePending_def)
    obtain res err s2 where p: "doing (ScanPaths (sd_scan sd) (sd_fs sd) list) s1 = ((res, err), s2)" by (metis prod.exhaust)
    have r3: "R a (recordReconcile res s2)" by (rule booked [OF trans [OF r1 names [OF p]]]) simp_all
    obtain b4 s4 where c4: "cancelled (recordReconcile res s2) = (b4, s4)" by fastforce
    have r4: "R a s4" by (rule checked [OF r3 c4])
    have "R a (restorePending list (arrivals sd bd s4))" by (rule restored [OF arrived [OF r4]])
    moreover have "R a (Notify (requestScan (lastError e s4)))" for e by (rule booked [OF r4]) simp_all
    ultimately show ?thesis
      using c False t p c4 r1 r3 by (cases err; cases b4) (auto simp: reconcilePending_def Let_def)
  qed (use c r0 in \<open>simp add: reconcilePending_def\<close>)
qed

end

text \<open>The stages of a cycle that run on battery too.\<close>

locale sched_cheap = sched_reconcile +
  assumes walks: "doing (ScanRoots (sd_scan sd) (sd_fs sd)) s = (r, s') \<Longrightarrow> R s s'"
    and orphans: "doing (onStore (SweepOrphans scope)) s = (n, s') \<Longrightarrow> R s s'"
begin

lemma scanned: "R a s \<Longrightarrow> R a (scan sd forced s)"
proof -
  assume a: "R a s"
  obtain res err s1 where p: "doing (ScanRoots (sd_scan sd) (sd_fs sd)) s = ((res, err), s1)" by (metis prod.exhaust)
  have r2: "R a (recordScan res s1)" by (rule booked [OF trans [OF a walks [OF p]]]) simp_all
  obtain b s3 where c: "cancelled (recordScan res s1) = (b, s3)" by fastforce
  have r3: "R a s3" by (rule checked [OF r2 c])
  obtain t s4 where n: "now sd (recordScan res s1) = (t, s4)" by fastforce
  have r4: "R a s4" by (rule clock [OF r2 n])
  have "R a (lastError e s3)" "R a (requestScan (lastError e s3))" "R a (mark f s4)" for e f
    by (rule booked [OF r3] booked [OF r4]; simp)+
  then show ?thesis using p c n r3 by (cases err; cases b) (auto simp: scan_def Let_def)
qed

lemma orphansSwept: "R a s \<Longrightarrow> R a (sweepOrphans s)"
proof -
  assume a: "R a s"
  obtain req s1 where t: "takeOrphanSweep s = (req, s1)" by fastforce
  have r1: "R a s1" by (rule trans [OF a book [OF takeOrphanSweep_frame [OF t]]])
  obtain n err s2 where p: "doing (onStore (SweepOrphans (the req))) s1 = ((n, err), s2)" by (metis prod.exhaust)
  have r2: "R a s2" by (rule trans [OF r1 orphans [OF p]])
  obtain b s3 where c: "cancelled s2 = (b, s3)" by fastforce
  have r3: "R a s3" by (rule checked [OF r2 c])
  have "R a (requestOrphanSweep sc s3)" "R a (lastError e (requestOrphanSweep sc s3))" "R a (mark f s2)" for sc e f
    by (rule booked [OF r3] booked [OF r2]; simp)+
  then show ?thesis using t p c r1 r2 by (cases req; cases err; cases b) (auto simp: sweepOrphans_def)
qed

lemma due: "R a s \<Longrightarrow> scanDue sd bd s = (r, s') \<Longrightarrow> R a s'"
proof -
  assume a: "R a s" and d: "scanDue sd bd s = (r, s')"
  define s1 where "s1 = arrivals sd bd s"
  have r1: "R a s1" unfolding s1_def by (rule arrived [OF a])
  obtain t s2 where n: "now sd s1 = (t, s2)" by fastforce
  have "s' = s1 \<or> s' = s2 \<or> s' = s1\<lparr>ss_forceScan := False\<rparr>"
    using d n by (auto simp: scanDue_def s1_def [symmetric] Let_def split: if_splits option.splits)
  then show ?thesis using r1 clock [OF r1 n] booked [OF r1, of "s1\<lparr>ss_forceScan := False\<rparr>"] by auto
qed

lemma staged: "R a s \<Longrightarrow> cheapStages sd bd s = (b, s') \<Longrightarrow> R a s'"
proof -
  assume a: "R a s" and c: "cheapStages sd bd s = (b, s')"
  obtain walk forced s1 where d: "scanDue sd bd s = ((walk, forced), s1)" by (metis prod.exhaust)
  define s1' where "s1' = (if walk then scan sd forced s1 else s1)"
  have r1: "R a s1'" using scanned due [OF a d] by (simp add: s1'_def)
  obtain b2 s2 where c2: "cancelled s1' = (b2, s2)" by fastforce
  have r2: "R a (reconcilePending sd bd s2)" by (rule reconciled [OF checked [OF r1 c2]])
  obtain b3 s3 where c3: "cancelled (reconcilePending sd bd s2) = (b3, s3)" by fastforce
  have r3: "R a (sweepOrphans s3)" by (rule orphansSwept [OF checked [OF r2 c3]])
  obtain b4 s4 where c4: "cancelled (sweepOrphans s3) = (b4, s4)" by fastforce
  have "s' \<in> {s2, s3, s4}"
    using c d c2 c3 c4 by (cases b2; cases b3) (auto simp: cheapStages_def s1'_def [symmetric])
  then show ?thesis using checked [OF r1 c2] checked [OF r2 c3] checked [OF r3 c4] by auto
qed

end

text \<open>An iteration of the drain whose claim was answered.\<close>

lemma drainStep_claimed:
  assumes "cancelled s = (False, s0)" "s1 = reconcilePending sd bd s0" "ss_sweptVersions s1" "now sd s1 = (t, s2)"
    "doing (onStore (ClaimBatch (Unix t) (sd_batchSize sd))) s2 = (Inr contents, s3)" "prepare sd s3 = (p, s5)"
    "fresh = filter (\<lambda>h. h \<notin> set (dn_seen d)) (map c_Hash contents)"
  shows "drainStep sd bd d s =
    (if fresh = [] \<and> ss_sweptDims s3 then (None, gate (idleGate (dn_skipped d)) False s3)
     else if dn_prepared d then drainBatch sd bd fresh d s3
     else (case p of
         None \<Rightarrow> (None, s5)
       | Some dims \<Rightarrow>
           if \<not> ss_sweptDims s5 then
             (case sweep (filter (\<lambda>(k, v). k = StageEmbeddingDims) (StageVersions (sd_indexer sd) dims)) s5 of
                (False, s6) \<Rightarrow> (None, s6)
              | (True, s6) \<Rightarrow> (Some (d\<lparr>dn_dims := dims, dn_prepared := True\<rparr>), s6\<lparr>ss_sweptDims := True\<rparr>))
           else drainBatch sd bd fresh (d\<lparr>dn_dims := dims, dn_prepared := True\<rparr>) s5))"
  using assms(1,3-6)
  by (cases p) (simp_all add: drainStep_def assms(2) [symmetric] Let_def assms(7) [symmetric])

text \<open>The drain up to its gates.\<close>

locale sched_gate = sched_base +
  assumes reconciles: "R s (reconcilePending sd bd s)"
    and stale: "doing (onStore (ResetStale current)) s = (n, s') \<Longrightarrow> R s s'"
    and prepares: "doing (Prepare (sd_indexer sd)) s = (p, s') \<Longrightarrow> R s s'"
    and claims: "doing (onStore (ClaimBatch t k)) s = (c, s') \<Longrightarrow> R s s'"
    and flagged: "R s (s\<lparr>ss_sweptVersions := True\<rparr>)" "R s (s\<lparr>ss_sweptDims := True\<rparr>)"
begin

lemma prepared: "R a s \<Longrightarrow> prepare sd s = (d, s') \<Longrightarrow> R a s'"
proof -
  assume a: "R a s" and p: "prepare sd s = (d, s')"
  obtain b s0 where u: "probeDeferredUntil sd s = (b, s0)" by fastforce
  have r0: "R a s0"
    using u a clock [OF a] by (auto simp: probeDeferredUntil_def split: option.splits prod.splits)
  obtain x s1 where q: "doing (Prepare (sd_indexer sd)) s0 = (x, s1)" by fastforce
  have r1: "R a s1" by (rule trans [OF r0 prepares [OF q]])
  obtain b2 s2 where c: "cancelled s1 = (b2, s2)" by fastforce
  have r2: "R a s2" by (rule checked [OF r1 c])
  have "R a (deferProbe sd (lastError e (gate g f s2)))" for e g f
  proof -
    obtain t s3 where n: "now sd (lastError e (gate g f s2)) = (t, s3)" by fastforce
    have "R a s3" by (rule clock [OF booked [OF r2] n]) simp_all
    then show ?thesis using n by (auto simp: deferProbe_def elim!: booked)
  qed
  moreover have "R a (clearProbeDeferral s1)" by (rule booked [OF r1]) simp_all
  ultimately show ?thesis using p u q c r0 r2 by (cases b; cases x; cases b2) (auto simp: prepare_def)
qed

lemma sweeps: "R a s \<Longrightarrow> sweep current s = (b, s') \<Longrightarrow> R a s'"
proof -
  assume a: "R a s" and w: "sweep current s = (b, s')"
  obtain n err s1 where p: "doing (onStore (ResetStale current)) s = ((n, err), s1)" by (metis prod.exhaust)
  have r1: "R a s1" by (rule trans [OF a stale [OF p]])
  obtain b2 s2 where c: "cancelled s1 = (b2, s2)" by fastforce
  have r2: "R a s2" by (rule checked [OF r1 c])
  have "R a (mark f s1)" "R a (lastError e (gate g x s2))" for f e g x by (rule booked [OF r1] booked [OF r2]; simp)+
  then show ?thesis using w p c r1 r2 by (cases err; cases b2) (auto simp: sweep_def split: if_splits)
qed

text \<open>An iteration up to the batch, which is reached only behind an answering endpoint.\<close>

lemma upToBatch:
  assumes a: "R a s" and d: "drainStep sd bd d s = (r, s')"
    and batched: "\<And>fresh d' t. R a t \<Longrightarrow> drainBatch sd bd fresh d' t = (r, s') \<Longrightarrow>
      dn_prepared d \<or> (\<exists>t0. fst (prepare sd t0) \<noteq> None) \<Longrightarrow> R a s'"
  shows "R a s'"
proof -
  obtain b s0 where c0: "cancelled s = (b, s0)" by fastforce
  have r0: "R a s0" by (rule checked [OF a c0])
  define s1 where "s1 = reconcilePending sd bd s0"
  have r1: "R a s1" unfolding s1_def by (rule trans [OF r0 reconciles])
  consider (ctx) "b" | (versions) "\<not> b" "\<not> ss_sweptVersions s1" | (claim) "\<not> b" "ss_sweptVersions s1" by blast
  then show ?thesis
  proof cases
    case ctx
    then show ?thesis using d c0 r0 by (simp add: drainStep_def)
  next
    case versions
    obtain x s2 where w: "sweep (filter (\<lambda>(k, v). k \<noteq> StageEmbeddingDims) (StageVersions (sd_indexer sd) 0)) s1 = (x, s2)" by fastforce
    have r2: "R a s2" by (rule sweeps [OF r1 w])
    have "R a (s2\<lparr>ss_sweptVersions := True\<rparr>)" by (rule trans [OF r2 flagged(1)])
    then show ?thesis
      using d c0 versions w r2 by (cases x) (auto simp: drainStep_def s1_def [symmetric] Let_def)
  next
    case claim
    obtain t s2 where n: "now sd s1 = (t, s2)" by fastforce
    obtain cs s3 where q: "doing (onStore (ClaimBatch (Unix t) (sd_batchSize sd))) s2 = (cs, s3)" by fastforce
    have r3: "R a s3" by (rule trans [OF clock [OF r1 n] claims [OF q]])
    obtain b4 s4 where c4: "cancelled s3 = (b4, s4)" by fastforce
    have r4: "R a s4" by (rule checked [OF r3 c4])
    have gated: "R a (gate g y s3)" "R a (lastError e (gate g y s4))" for e g y
      by (rule booked [OF r3] booked [OF r4]; simp)+
    obtain p s5 where pr: "prepare sd s3 = (p, s5)" by fastforce
    have r5: "R a s5" by (rule prepared [OF r3 pr])
    have dims: "R a s6 \<and> R a (s6\<lparr>ss_sweptDims := True\<rparr>)" if "sweep cur s5 = (x, s6)" for cur x s6
    proof -
      have "R a s6" by (rule sweeps [OF r5 that])
      moreover from this have "R a (s6\<lparr>ss_sweptDims := True\<rparr>)" by (rule trans [OF _ flagged(2)])
      ultimately show ?thesis by blast
    qed
    show ?thesis
    proof (cases cs)
      case (Inl e)
      then show ?thesis
        using d c0 claim n q c4 r4 gated by (cases b4) (auto simp: drainStep_def s1_def [symmetric] Let_def)
    next
      case (Inr contents)
      define fresh where "fresh = filter (\<lambda>h. h \<notin> set (dn_seen d)) (map c_Hash contents)"
      have "cancelled s = (False, s0)" using c0 claim(1) by simp
      note eq = drainStep_claimed [OF this s1_def claim(2) n q [unfolded Inr] pr fresh_def, unfolded d]
      show ?thesis
      proof (cases "fresh = [] \<and> ss_sweptDims s3 \<or> dn_prepared d \<or> p = None")
        case True
        then show ?thesis
          using eq gated r5 batched [OF r3 sym] by (auto split: if_splits)
      next
        case False
        then obtain dm where dm: "p = Some dm" by auto
        obtain x s6 where w: "sweep (filter (\<lambda>(k, v). k = StageEmbeddingDims) (StageVersions (sd_indexer sd) dm)) s5 = (x, s6)"
          by fastforce
        show ?thesis
          using eq False dm pr w dims [OF w] batched [OF r5 sym] exI [of "\<lambda>t0. fst (prepare sd t0) \<noteq> None" s3] by (cases x; cases "ss_sweptDims s5") auto
      qed
    qed
  qed
qed

end

text \<open>The drain, with what it does to one content.\<close>

locale sched_drain = sched_gate +
  assumes works: "doing (onStore (GetWork h)) s = (i, s') \<Longrightarrow> R s s'"
    and reschedules: "doing (onStore (Reschedule h k t m)) s = (u, s') \<Longrightarrow> R s s'"
    and fails: "doing (onStore (MarkFailed h m)) s = (u, s') \<Longrightarrow> R s s'"
    and processes: "doing (onStore (GetWork h)) s0 = (Inr item, s) \<Longrightarrow> doing (ProcessContent (by_read bd) (sd_indexer sd) item sv) s = (x, s') \<Longrightarrow> R s s'"
begin

lemma stops: "R a s \<Longrightarrow> storeFailure e s = (b, s') \<Longrightarrow> R a s'"
proof -
  assume a: "R a s" and f: "storeFailure e s = (b, s')"
  obtain c s1 where k: "cancelled s = (c, s1)" by fastforce
  have r1: "R a s1" by (rule checked [OF a k])
  have "R a (lastError x (gate g y s1))" for x g y by (rule booked [OF r1]) simp_all
  then show ?thesis using f k r1 by (cases c) (auto simp: storeFailure_def)
qed

lemma goneOrStops: "R a s \<Longrightarrow> goneOrFailed e s = (b, s') \<Longrightarrow> R a s'"
  using stops by (auto simp: goneOrFailed_def split: if_splits)

lemma rescheduled:
  assumes a: "R a s" and r: "reschedule sd bd item cause s = (b, s')"
  shows "R a s'"
proof -
  have up: "R a s'" if g: "giveUp sd h k m s = (b, s')" for h k m
  proof -
    obtain t s0 where n: "now sd s = (t, s0)" by fastforce
    obtain u s1 where p: "doing (onStore (Reschedule h k (Unix t) m)) s0 = (u, s1)" by fastforce
    have r1: "R a s1" by (rule trans [OF clock [OF a n] reschedules [OF p]])
    obtain v s2 where q: "doing (onStore (MarkFailed h (m @ '' (after '' @ decimal k @ '' attempts)''))) s1 = (v, s2)" by fastforce
    have r2: "R a s2" by (rule trans [OF r1 fails [OF q]])
    have "R a (mark f s2)" for f by (rule booked [OF r2]) simp_all
    then show ?thesis
      using g n p q goneOrStops [OF r1] goneOrStops [OF r2] by (cases u; cases v) (auto simp: giveUp_def)
  qed
  have later: "R a s'" if g: "retryLater sd h k m s = (b, s')" for h k m
  proof -
    obtain wt s0 where j: "doing (fullJitter k defaultBackoffBase defaultBackoffCap (sd_rnd sd)) s = (wt, s0)" by fastforce
    have r0: "R a s0"
    proof (cases "jitterWindow k defaultBackoffBase defaultBackoffCap \<le> 0")
      case True
      then have "s0 = s" using j by (auto simp: doing_def fullJitter_def Let_def)
      then show ?thesis using a by simp
    next
      case False
      then have "doing (ask (\<lambda>n. sd_rnd sd n (jitterWindow k defaultBackoffBase defaultBackoffCap))) s = (wt, s0)"
        using j by (simp add: doing_def fullJitter_def Let_def)
      from asked [OF a this] show ?thesis .
    qed
    obtain t s1 where n: "now sd s0 = (t, s1)" by fastforce
    obtain u s2 where p: "doing (onStore (Reschedule h k (Unix (t + wt)) m)) s1 = (u, s2)" by fastforce
    have r2: "R a s2" by (rule trans [OF clock [OF r0 n] reschedules [OF p]])
    have "R a (mark f s2)" for f by (rule booked [OF r2]) simp_all
    then show ?thesis using g j n p goneOrStops [OF r2] by (cases u) (auto simp: retryLater_def)
  qed
  show ?thesis using r up later by (auto simp: reschedule_def Let_def split: if_splits)
qed

lemma retried:
  assumes a: "R a s" and r: "retry sd bd item cause s = (b, s')"
  shows "R a s'"
proof -
  obtain x s1 where q: "doing (Prepare (sd_indexer sd)) s = (x, s1)" by fastforce
  have r1: "R a s1" by (rule trans [OF a prepares [OF q]])
  obtain c s2 where k: "cancelled s1 = (c, s2)" by fastforce
  have r2: "R a s2" by (rule checked [OF r1 k])
  have "R a (lastError e (gate g y s2))" for e g y by (rule booked [OF r2]) simp_all
  then show ?thesis using r q k r2 rescheduled [OF r1] by (cases x; cases c) (auto simp: retry_def)
qed

lemma outcome:
  assumes a: "R a s" and o: "onOutcome sd bd h item res s = (r, s')"
  shows "R a s'"
proof -
  have m: "R a (mark f s)" for f by (rule booked [OF a]) simp_all
  have changed: "R a s''" if d: "deferChanged sd bd h item (mark f s) = (b, s'')" for f b s''
  proof -
    obtain t s1 where n: "now sd (mark f s) = (t, s1)" by fastforce
    obtain u s2 where p: "doing (onStore (Reschedule h (c_Attempts (wi_Content item)) (Unix (t + defaultBackoffCap))
                 ''content changed on disk while queued; awaiting rediscovery'')) s1 = (u, s2)" by fastforce
    have r2: "R a s2" by (rule trans [OF clock [OF m n] reschedules [OF p]])
    show ?thesis using d n p r2 goneOrStops [OF r2] by (cases u) (auto simp: deferChanged_def)
  qed
  have indexed: "R a (mark f s1)" if "now sd s = (t, s1)" for f t s1
    by (rule booked [OF clock [OF a that]]) simp_all
  show ?thesis
    using o a m changed indexed rescheduled [OF m] retried [OF a]
    by (auto simp: onOutcome_def split: Outcome.splits prod.splits if_splits)
qed

lemma processedOne:
  assumes a: "R a s" and p: "processOne sd bd sv h s = (r, s')"
  shows "R a s'"
proof -
  obtain b s0 where c0: "cancelled s = (b, s0)" by fastforce
  have r0: "R a s0" by (rule checked [OF a c0])
  obtain b1 s1 where c1: "cancelled (reconcilePending sd bd s0) = (b1, s1)" by fastforce
  have r1: "R a s1" by (rule checked [OF trans [OF r0 reconciles] c1])
  obtain i s2 where g: "doing (onStore (GetWork h)) s1 = (i, s2)" by fastforce
  have r2: "R a s2" by (rule trans [OF r1 works [OF g]])
  obtain b3 s3 where c3: "cancelled s2 = (b3, s3)" by fastforce
  have r3: "R a s3" by (rule checked [OF r2 c3])
  show ?thesis
  proof (cases "b \<or> b1 \<or> (\<exists>e. i = Inl e)")
    case True
    then show ?thesis
      using p c0 c1 g c3 r0 r1 r2 r3 stops [OF r3]
      by (cases b; cases b1; cases b3) (auto simp: processOne_def split: sum.splits prod.splits if_splits)
  next
    case False
    then obtain item where item: "i = Inr item" by (cases i) auto
    obtain x s4 where q: "doing (ProcessContent (by_read bd) (sd_indexer sd) item sv) s2 = (x, s4)" by fastforce
    have r4: "R a s4" by (rule trans [OF r2 processes [OF g [unfolded item] q]])
    obtain b5 s5 where c5: "cancelled s4 = (b5, s5)" by fastforce
    have r5: "R a s5" by (rule checked [OF r4 c5])
    have "R a (lastError e (gate gt y s5))" for e gt y by (rule booked [OF r5]) simp_all
    then show ?thesis
      using False p c0 c1 g item q c5 r5 outcome [OF r4]
      by (cases x; cases b5) (auto simp: processOne_def split: prod.splits)
  qed
qed

lemma processed: "R a s \<Longrightarrow> process sd bd sv hs seen skipped s = (r, s') \<Longrightarrow> R a s'"
proof (induction hs arbitrary: seen skipped s)
  case (Cons h hs)
  obtain ok handled k s1 where o: "processOne sd bd sv h s = ((ok, handled, k), s1)" by (metis prod.exhaust)
  have r1: "R a s1" by (rule processedOne [OF Cons.prems(1) o])
  show ?case using Cons.prems(2) o r1 Cons.IH [OF r1] by (auto simp: Let_def split: if_splits)
qed simp

lemma batched:
  assumes a: "R a s" and b: "drainBatch sd bd fresh d s = (r, s')"
  shows "R a s'"
proof (cases "fresh = []")
  case True
  have "R a (gate g y s)" for g y by (rule booked [OF a]) simp_all
  then show ?thesis using b True by (auto simp: drainBatch_def)
next
  case False
  obtain ok seen skipped s1 where p: "process sd bd (StageVersions (sd_indexer sd) (dn_dims d)) fresh (dn_seen d) (dn_skipped d) s
      = ((ok, seen, skipped), s1)" by (metis prod.exhaust)
  have r1: "R a s1" by (rule processed [OF a p])
  obtain pw s2 where w: "doing (ask (sd_power sd)) (gate GateNone False s1) = (pw, s2)" by fastforce
  have r2: "R a s2" by (rule asked [OF booked [OF r1] w]) simp_all
  have "R a (gate g y s2)" for g y by (rule booked [OF r2]) simp_all
  then show ?thesis using b False p w r1 r2 by (cases ok; cases pw) (auto simp: drainBatch_def)
qed

lemma stepped:
  assumes a: "R a s" and d: "drainStep sd bd d s = (r, s')"
  shows "R a s'"
  by (rule upToBatch [OF a d]) (rule batched)

lemma drained:
  assumes a: "R a s" and l: "drainLoop sd bd d s = Some s'"
  shows "R a s'"
proof -
  have "sd = sd \<longrightarrow> bd = bd \<longrightarrow> R a s \<longrightarrow> R a s'"
  proof (rule drainLoop.raw_induct [of "\<lambda>sd' bd' d s s'. sd' = sd \<longrightarrow> bd' = bd \<longrightarrow> R a s \<longrightarrow> R a s'", OF _ l], intro impI)
    fix loop sd' bd' d s s'
    assume IH: "\<And>sd' bd' d s s'. loop sd' bd' d s = Some s' \<Longrightarrow> sd' = sd \<longrightarrow> bd' = bd \<longrightarrow> R a s \<longrightarrow> R a s'"
      and body: "(case drainStep sd' bd' d s of (None, s') \<Rightarrow> Some s' | (Some d', s') \<Rightarrow> loop sd' bd' d' s') = Some s'"
      and same: "sd' = sd" "bd' = bd" and r: "R a s"
    obtain nx s1 where st: "drainStep sd bd d s = (nx, s1)" by fastforce
    have r1: "R a s1" by (rule stepped [OF r st])
    show "R a s'"
    proof (cases nx)
      case None
      then show ?thesis using body same st r1 by simp
    next
      case (Some d')
      then have "loop sd bd d' s1 = Some s'" using body same st by simp
      then show ?thesis using IH r1 by blast
    qed
  qed
  then show ?thesis using a by blast
qed

end

text \<open>The cycle.\<close>

locale sched_cycle = sched_cheap + sched_drain
begin

lemma cycled:
  assumes a: "R a s" and c: "cycle sd bd s = Some (w, s')"
  shows "R a s'"
proof -
  obtain pw s0 where p: "doing (ask (sd_power sd)) s = (pw, s0)" by fastforce
  have r0: "R a s0" by (rule asked [OF a p])
  obtain b s1 where ch: "cheapStages sd bd s0 = (b, s1)" by fastforce
  have r1: "R a s1" by (rule staged [OF r0 ch])
  have fin: "R a s''" if "(case now sd t of (tm, t') \<Rightarrow> (k, mark (\<lambda>n. n\<lparr>sn_LastCycle := Some tm\<rparr>) t')) = (k', s'')" "R a t"
    for t k k' s''
  proof -
    obtain tm t' where n: "now sd t = (tm, t')" by fastforce
    have "R a t'" by (rule clock [OF that(2) n])
    then show ?thesis using that(1) n by (auto elim!: booked)
  qed
  show ?thesis
  proof (cases "b \<or> pw = Defer")
    case True
    have g: "R a (gate g y s1)" for g y by (rule booked [OF r1]) simp_all
    have "(case now sd (if b then s1 else gate GateBattery True s1) of
        (tm, t') \<Rightarrow> (deferRecheckInterval, mark (\<lambda>n. n\<lparr>sn_LastCycle := Some tm\<rparr>) t')) = (w, s')"
      using c p ch True by (cases b; cases pw) (auto simp: cycle_def Let_def)
    then show ?thesis by (rule fin) (simp add: r1 g)
  next
    case False
    then obtain k where k: "pw = Every k" by (cases pw) auto
    define s2 where "s2 = mark (\<lambda>n. n\<lparr>sn_Deferring := False\<rparr>) s1"
    have r2: "R a s2" by (rule booked [OF r1]) (simp_all add: s2_def)
    obtain s3 where d: "drainLoop sd bd startDrain s2 = Some s3"
      and e: "(case now sd s3 of (tm, t') \<Rightarrow> (k, mark (\<lambda>n. n\<lparr>sn_LastCycle := Some tm\<rparr>) t')) = (w, s')"
      using c p ch False k by (auto simp: cycle_def Let_def drain_def s2_def)
    show ?thesis by (rule fin [OF e drained [OF r2 d]])
  qed
qed

end

section \<open>The catalog and the pending set\<close>

lemma dropped_content: "dropped A s s' \<Longrightarrow> db_content (sdb s') = db_content (sdb s)"
  unfolding dropped_def by (elim conjE, drule arg_cong [of _ _ db_content]) simp

lemma ScanRoots_uncharged: "uncharged (wdb w) (wdb (snd (ScanRoots opts fs w)))"
proof -
  obtain res err w' where s: "ScanRoots opts fs w = ((res, err), w')" by (metis prod.exhaust)
  have "uncharged (wdb w) (wdb w')" using s
  proof (cases rule: ScanRoots_parts)
    case (failed bases errs verified w1 s)
    then show ?thesis by (simp add: walked_def startScan_def)
  next
    case (passed bases errs verified w1 s unknown s')
    then have "uncharged (wdb w) (sdb s)" by (simp add: walked_def startScan_def)
    moreover obtain A where A: "dropped A s s'" by (rule reconcileDeleted_effect [OF passed(3)])
    have "db_content (sdb s') = db_content (sdb s)"
      by (rule dropped_content [OF A])
    then have "uncharged (sdb s) (sdb s')" by (simp add: uncharged_same)
    ultimately show ?thesis using passed(4) uncharged_trans by blast
  qed
  then show ?thesis using s by simp
qed

lemma ScanPaths_uncharged: "uncharged (wdb w) (wdb (snd (ScanPaths opts fs names w)))"
proof -
  obtain res err w' where s: "ScanPaths opts fs names w = ((res, err), w')" by (metis prod.exhaust)
  obtain bases errs verified w1 where r: "resolveRoots opts fs w = ((bases, errs, verified), w1)" by (metis prod.exhaust)
  obtain a b where "sdb a = wdb w" "sc_world b = w'" "purged fs {p \<in> set (map Clean names). nameable opts bases p} a b"
    using ScanPaths_purged [OF s r] by blast
  then show ?thesis using s by (auto simp: purged_def)
qed

lemma SweepOrphans_safe:
  assumes "catalog_inv (st_db s)"
  shows "catalog_inv (st_db (snd (SweepOrphans scope s))) \<and>
    (\<exists>H. st_db (snd (SweepOrphans scope s)) = drop_content H (st_db s))"
proof -
  obtain r s1 where q: "withReader (\<lambda>db. Inr (\<exists>r \<in> set (db_content db). orphaned scope db r)) s = (r, s1)" by fastforce
  have db1: "st_db s1 = st_db s" using withReader_result [OF q] by simp
  have same: "\<exists>H. st_db s = drop_content H (st_db s)" by (metis drop_content_empty)
  show ?thesis
    using q db1 same assms sweepLoop_safe [of s1 scope "''''" 0]
    by (cases r) (auto simp: SweepOrphans_def)
qed

lemma ClaimBatch_db: "st_db (snd (ClaimBatch t k st)) = st_db st"
proof -
  obtain r1 s1 where q: "withReader (\<lambda>db. Inr (map fromContentRow (take (nat (k - k div agingShare)) (rev (claimOrder t db))))) st = (r1, s1)"
    by fastforce
  obtain r2 s2 where q2: "withReader (\<lambda>db. Inr (map fromContentRow (take (nat (k div agingShare)) (claimOrder t db)))) s1 = (r2, s2)"
    by fastforce
  have "st_db s1 = st_db st" "st_db s2 = st_db s1" using withReader_result [OF q] withReader_result [OF q2] by simp_all
  then show ?thesis using q q2 by (cases r1; cases r2) (auto simp: ClaimBatch_def Let_def)
qed

lemma drop_content_uncharged: "uncharged d (drop_content H d)"
  by (rule uncharged_same) (auto simp: drop_content_def)

lemma ResetStale_uncharged: "uncharged (st_db s) (st_db (snd (ResetStale current s)))"
proof (cases "current = []")
  case False
  have "uncharged d (d\<lparr>db_content := map (\<lambda>r. if staleRow current r then resetRow r else r) (db_content d)\<rparr>)" for d
    by (auto simp: uncharged_def resetRow_def)
  then show ?thesis
    using False by (cases "resetStaleTx current" s rule: withTxCap_cases)
      (auto simp: ResetStale_def resetStaleTx_def split: option.splits prod.splits)
qed (simp add: ResetStale_def)

text \<open>
  The invariant of the scheduler: the catalog is well-formed and the pending set is bounded. And what an
  outage keeps: with a probe that cannot answer, no content is charged.
\<close>

definition sound :: "SState \<Rightarrow> bool" where
  "sound s \<longleftrightarrow> catalog_inv (wdb (ss_world s)) \<and> length (ss_pending s) \<le> maxPendingReconcile"

definition kept :: "SState \<Rightarrow> SState \<Rightarrow> bool" where
  "kept s s' \<longleftrightarrow> (sound s \<longrightarrow> sound s')"

definition down :: "Sched \<Rightarrow> bool" where
  "down sd \<longleftrightarrow> (\<forall>n q. \<exists>e. em_Query (ix_Embedder (sd_indexer sd)) n q = Inl e)"

definition spared :: "Sched \<Rightarrow> SState \<Rightarrow> SState \<Rightarrow> bool" where
  "spared sd s s' \<longleftrightarrow> (down sd \<longrightarrow> sound s \<longrightarrow> sound s' \<and> uncharged (wdb (ss_world s)) (wdb (ss_world s')))"

lemma keptI:
  assumes "doing f s = (r, s')" "catalog_inv (wdb (ss_world s)) \<Longrightarrow> catalog_inv (wdb (snd (f (ss_world s))))"
  shows "kept s s'"
  using assms(2) doing_pending [OF assms(1)] doing_result [OF assms(1)] by (auto simp: kept_def sound_def)

lemma sparedI:
  assumes "doing f s = (r, s')" "down sd \<Longrightarrow> catalog_inv (wdb (ss_world s)) \<Longrightarrow> catalog_inv (wdb (snd (f (ss_world s)))) \<and>
    uncharged (wdb (ss_world s)) (wdb (snd (f (ss_world s))))"
  shows "spared sd s s'"
  using assms(2) doing_pending [OF assms(1)] doing_result [OF assms(1)] by (auto simp: spared_def sound_def)

lemma onStore_wdb: "wdb (snd (onStore f w)) = st_db (snd (f (w_store w)))"
  by (simp add: onStore_def split: prod.split)

interpretation outage: sched_cheap sd bd "spared sd" for sd bd
proof
  show "spared sd s s" for s by (simp add: spared_def)
  show "spared sd s0 s1 \<Longrightarrow> spared sd s1 s2 \<Longrightarrow> spared sd s0 s2" for s0 s1 s2
    using uncharged_trans by (auto simp: spared_def)
  show "noted s s' \<Longrightarrow> spared sd s s'" for s s' by (simp add: spared_def sound_def noted_def)
  show "length ps \<le> maxPendingReconcile \<Longrightarrow> spared sd s (s\<lparr>ss_pending := ps\<rparr>)" for s ps
    by (simp add: spared_def sound_def)
  show "spared sd s (s\<lparr>ss_world := tick (ss_world s)\<rparr>)" for s by (simp add: spared_def sound_def)
  show "cancelled s = (dn, s') \<Longrightarrow> spared sd s s'" for s dn s'
    unfolding cancelled_def by (erule sparedI) (simp add: onStore_wdb ctxErr_db)
  show "doing (ScanRoots (sd_scan sd) (sd_fs sd)) s = (r, s') \<Longrightarrow> spared sd s s'" for s r s'
    by (erule sparedI) (simp add: ScanRoots.keeps ScanRoots_uncharged)
  show "doing (ScanPaths (sd_scan sd) (sd_fs sd) ps) s = (r, s') \<Longrightarrow> spared sd s s'" for ps s r s'
    by (erule sparedI) (simp add: ScanPaths.keeps ScanPaths_uncharged)
  show "doing (onStore (SweepOrphans scope)) s = (n, s') \<Longrightarrow> spared sd s s'" for scope s n s'
    by (erule sparedI) (metis SweepOrphans_safe drop_content_uncharged onStore_wdb)
qed

interpretation outage: sched_gate sd bd "spared sd" for sd bd
proof
  show "spared sd s (reconcilePending sd bd s)" for s by (rule outage.reconciled [OF outage.refl])
  show "doing (onStore (ResetStale current)) s = (n, s') \<Longrightarrow> spared sd s s'" for current s n s'
    by (erule sparedI) (simp add: onStore_wdb ResetStale_keeps ResetStale_uncharged)
  show "doing (Prepare (sd_indexer sd)) s = (p, s') \<Longrightarrow> spared sd s s'" for s p s'
  proof (erule sparedI)
    assume "down sd"
    then obtain e where "em_Query (ix_Embedder (sd_indexer sd)) (w_tick (ss_world s)) ''bsearch dimension probe'' = Inl e"
      unfolding down_def by blast
    then have "snd (Prepare (sd_indexer sd) (ss_world s)) = tick (ss_world s)" by (simp add: Prepare_def)
    then show "catalog_inv (wdb (ss_world s)) \<Longrightarrow> catalog_inv (wdb (snd (Prepare (sd_indexer sd) (ss_world s)))) \<and>
        uncharged (wdb (ss_world s)) (wdb (snd (Prepare (sd_indexer sd) (ss_world s))))" by simp
  qed
  show "doing (onStore (ClaimBatch t k)) s = (c, s') \<Longrightarrow> spared sd s s'" for t k s c s'
  proof (erule sparedI)
    have "st_db (snd (ClaimBatch t k st)) = st_db st" for st by (rule ClaimBatch_db)
    then show "catalog_inv (wdb (ss_world s)) \<Longrightarrow> catalog_inv (wdb (snd (onStore (ClaimBatch t k) (ss_world s)))) \<and>
        uncharged (wdb (ss_world s)) (wdb (snd (onStore (ClaimBatch t k) (ss_world s))))" by (simp add: onStore_wdb)
  qed
qed (simp_all add: spared_def sound_def)

interpretation sched: sched_cheap sd bd kept for sd bd
proof
  show "kept s s" for s by (simp add: kept_def)
  show "kept s0 s1 \<Longrightarrow> kept s1 s2 \<Longrightarrow> kept s0 s2" for s0 s1 s2 by (simp add: kept_def)
  show "noted s s' \<Longrightarrow> kept s s'" for s s' by (simp add: kept_def sound_def noted_def)
  show "length ps \<le> maxPendingReconcile \<Longrightarrow> kept s (s\<lparr>ss_pending := ps\<rparr>)" for s ps
    by (simp add: kept_def sound_def)
  show "kept s (s\<lparr>ss_world := tick (ss_world s)\<rparr>)" for s by (simp add: kept_def sound_def)
  show "cancelled s = (dn, s') \<Longrightarrow> kept s s'" for s dn s'
    unfolding cancelled_def by (erule keptI) (simp add: onStore_wdb ctxErr_db)
  show "doing (ScanRoots (sd_scan sd) (sd_fs sd)) s = (r, s') \<Longrightarrow> kept s s'" for s r s'
    by (erule keptI) (rule ScanRoots.keeps)
  show "doing (ScanPaths (sd_scan sd) (sd_fs sd) ps) s = (r, s') \<Longrightarrow> kept s s'" for ps s r s'
    by (erule keptI) (rule ScanPaths.keeps)
  show "doing (onStore (SweepOrphans scope)) s = (n, s') \<Longrightarrow> kept s s'" for scope s n s'
    by (erule keptI) (simp add: onStore_wdb SweepOrphans_safe)
qed

interpretation sched: sched_cycle sd bd kept for sd bd
proof
  show "kept s (reconcilePending sd bd s)" for s by (rule sched.reconciled [OF sched.refl])
  show "doing (onStore (ResetStale current)) s = (n, s') \<Longrightarrow> kept s s'" for current s n s'
    by (erule keptI) (simp add: onStore_wdb ResetStale_keeps)
  show "doing (Prepare (sd_indexer sd)) s = (p, s') \<Longrightarrow> kept s s'" for s p s'
    by (erule keptI) (rule prepare.keeps)
  show "doing (onStore (ClaimBatch t k)) s = (c, s') \<Longrightarrow> kept s s'" for t k s c s'
    by (erule keptI) (rule claimBatch.lifted.keeps)
  show "doing (onStore (GetWork h)) s = (i, s') \<Longrightarrow> kept s s'" for h s i s'
    by (erule keptI) (rule getWork.lifted.keeps)
  show "doing (onStore (Reschedule h k t m)) s = (u, s') \<Longrightarrow> kept s s'" for h k t m s u s'
    by (erule keptI) (rule reschedule.lifted.keeps)
  show "doing (onStore (MarkFailed h m)) s = (u, s') \<Longrightarrow> kept s s'" for h m s u s'
    by (erule keptI) (rule markFailed.lifted.keeps)
  show "doing (ProcessContent (by_read bd) (sd_indexer sd) item sv) s = (x, s') \<Longrightarrow> kept s s'" for item sv s x s'
    by (erule keptI) (rule processContent.keeps)
qed (simp_all add: kept_def sound_def)

text \<open>What has been swept stays swept.\<close>

definition stillSwept :: "SState \<Rightarrow> SState \<Rightarrow> bool" where
  "stillSwept s s' \<longleftrightarrow> (ss_sweptVersions s \<longrightarrow> ss_sweptVersions s') \<and> (ss_sweptDims s \<longrightarrow> ss_sweptDims s')"

interpretation flags: sched_cheap sd bd stillSwept for sd bd
  by unfold_locales (auto simp: stillSwept_def noted_def cancelled_def dest: doing_flags)

interpretation flags: sched_cycle sd bd stillSwept for sd bd
proof
  show "stillSwept s (reconcilePending sd bd s)" for s by (rule flags.reconciled [OF flags.refl])
qed (auto simp: stillSwept_def dest: doing_flags)

end
