(* ===== verification/SchedProps.thy ===== *)
theory SchedProps
  imports SchedFacts
begin

text \<open>
  What the scheduler promises: the invariant of a cycle, that an outage of the embedding endpoint charges
  nothing, that a drain ends, that no event and no request is lost, and how retries are spaced.
\<close>

section \<open>A drain ends when nothing is handed over\<close>

definition calm :: "Beyond \<Rightarrow> SState \<Rightarrow> SState \<Rightarrow> bool" where
  "calm bd s s' \<longleftrightarrow> ((\<forall>n. by_watch bd n = []) \<longrightarrow> ss_pending s = [] \<longrightarrow> catalog_inv (wdb (ss_world s)) \<longrightarrow>
     ss_pending s' = [] \<and> catalog_inv (wdb (ss_world s')) \<and>
     hashes (wdb (ss_world s')) \<subseteq> hashes (wdb (ss_world s)))"

lemma calmI:
  assumes "doing f s = (r, s')" "catalog_inv (wdb (ss_world s)) \<Longrightarrow> catalog_inv (wdb (snd (f (ss_world s)))) \<and>
    hashes (wdb (snd (f (ss_world s)))) \<subseteq> hashes (wdb (ss_world s))"
  shows "calm bd s s'"
  using assms(2) doing_pending [OF assms(1)] doing_result [OF assms(1)] by (auto simp: calm_def)

lemma hashes_cong: "db_content d' = db_content d \<Longrightarrow> hashes d' = hashes d"
  by (simp add: hashes_def)

lemma ResetStale_hashes: "hashes (st_db (snd (ResetStale current s))) = hashes (st_db s)"
proof (cases "current = []")
  case False
  have "hashes (d\<lparr>db_content := map (\<lambda>r. if staleRow current r then resetRow r else r) (db_content d)\<rparr>) = hashes d" for d
  proof -
    have "map r_hash (map (\<lambda>r. if staleRow current r then resetRow r else r) (db_content d)) = map r_hash (db_content d)"
      by (simp add: resetRow_def)
    from arg_cong [OF this, of set] show ?thesis by (simp add: hashes_def del: map_map)
  qed
  then show ?thesis
    using False by (cases "resetStaleTx current" s rule: withTxCap_cases)
      (auto simp: ResetStale_def resetStaleTx_def split: option.splits prod.splits)
qed (simp add: ResetStale_def)

lemma updateContent_hashes:
  assumes "\<And>t r. r_hash (f t r) = r_hash r"
  shows "hashes (st_db (snd (updateContent h f s))) = hashes (st_db s)"
  unfolding updateContent_def
proof (cases "\<lambda>now db. if h \<notin> hashes db then Inl ErrContentGone else Inr (update_content h (f now) db, ())" s rule: withTx_cases)
  case (committed t d a)
  have "d = update_content h (f t) (st_db s)" using committed(1) by (simp split: if_splits)
  then show "hashes (st_db (snd (withTx (\<lambda>now db. if h \<notin> hashes db then Inl ErrContentGone
      else Inr (update_content h (f now) db, ())) s))) = hashes (st_db s)"
    unfolding committed(3) by (simp add: hashes_update_content [OF assms])
qed simp

lemma MarkFailed_hashes:
  assumes "catalog_inv (st_db s)"
  shows "hashes (st_db (snd (MarkFailed h m s))) = hashes (st_db s)"
  unfolding MarkFailed_def
proof (cases "markFailedTx h m" s rule: withTx_cases)
  case (committed t d a)
  have "d = drop_chunks {h} (update_content h (\<lambda>r. r\<lparr>r_state := Failed, r_last_error := Some m, r_updated := t\<rparr>) (st_db s))"
    using committed(1) markFailedTx_eq [OF assms] by (simp split: if_splits)
  moreover have "hashes (drop_chunks {h} d0) = hashes d0" for d0 by (rule hashes_cong) (simp add: drop_chunks_def)
  ultimately show "hashes (st_db (snd (withTx (markFailedTx h m) s))) = hashes (st_db s)"
    using committed(3) by (simp add: hashes_update_content)
qed simp

lemma GetWork_found:
  assumes "GetWork h s = (Inr item, s')"
  shows "c_Hash (wi_Content item) = h" "h \<in> hashes (st_db s)" "st_db s' = st_db s"
proof -
  have "st_db s' = st_db s \<and> Inr item = (case find (\<lambda>r. r_hash r = h) (db_content (st_db s)) of
          None \<Rightarrow> Inl ErrContentGone
        | Some r \<Rightarrow>
            (case map d_path (holders h (st_db s)) of
               [] \<Rightarrow> Inl ErrContentGone
             | p # ps \<Rightarrow> Inr \<lparr>wi_Content = fromContentRow r, wi_Path = p, wi_Paths = p # ps\<rparr>))"
    using withReader_result [OF assms [unfolded GetWork_def]] by simp
  then show "c_Hash (wi_Content item) = h" "h \<in> hashes (st_db s)" "st_db s' = st_db s"
    by (auto simp: find_Some_iff hashes_def split: option.splits list.splits)
qed

lemma ProcessContent_hashes:
  assumes "catalog_inv (wdb w)" "c_Hash (wi_Content item) \<in> hashes (wdb w)"
  shows "hashes (wdb (snd (ProcessContent rd ix item sv w))) \<subseteq> hashes (wdb w)"
proof
  fix h assume h: "h \<in> hashes (wdb (snd (ProcessContent rd ix item sv w)))"
  have "same_elsewhere (c_Hash (wi_Content item)) (wdb w) (wdb (snd (ProcessContent rd ix item sv w)))"
    using ProcessContent_effect [OF prod.collapse [symmetric] assms(1)] by blast
  then show "h \<in> hashes (wdb w)"
    using h assms(2) content_map_None by (cases "h = c_Hash (wi_Content item)") (metis same_elsewhere_def)+
qed

interpretation calm: sched_drain sd bd "calm bd" for sd bd
proof
  show "calm bd s s" for s by (simp add: calm_def)
  show "calm bd s0 s1 \<Longrightarrow> calm bd s1 s2 \<Longrightarrow> calm bd s0 s2" for s0 s1 s2 by (auto simp: calm_def)
  show "noted s s' \<Longrightarrow> calm bd s s'" for s s' by (simp add: calm_def noted_def)
  show "calm bd s (s\<lparr>ss_world := tick (ss_world s)\<rparr>)" for s by (simp add: calm_def)
  show ctx: "cancelled s = (dn, s') \<Longrightarrow> calm bd s s'" for s dn s'
    unfolding cancelled_def by (erule calmI) (simp add: onStore_wdb ctxErr_db)
  show "calm bd s (reconcilePending sd bd s)" for s
  proof (cases "(\<forall>n. by_watch bd n = []) \<and> ss_pending s = []")
    case True
    obtain b s0 where c: "cancelled s = (b, s0)" by fastforce
    have "ss_pending s0 = []" using c True doing_pending by (fastforce simp: cancelled_def)
    then have "ss_world (reconcilePending sd bd s) = ss_world s0" "ss_pending (reconcilePending sd bd s) = []"
      using c True by (cases b; simp add: reconcilePending_def arrivals_def takePending_def)+
    then show ?thesis using ctx [OF c] by (simp add: calm_def)
  qed (auto simp: calm_def)
  show "doing (onStore (ResetStale current)) s = (n, s') \<Longrightarrow> calm bd s s'" for current s n s'
    by (erule calmI) (simp add: onStore_wdb ResetStale_keeps ResetStale_hashes)
  show "doing (Prepare (sd_indexer sd)) s = (p, s') \<Longrightarrow> calm bd s s'" for s p s'
    by (erule calmI) (metis Prepare_hashes prepare.keeps prod.collapse subset_refl)
  show "doing (onStore (ClaimBatch t k)) s = (c, s') \<Longrightarrow> calm bd s s'" for t k s c s'
    by (erule calmI) (simp add: onStore_wdb ClaimBatch_db)
  show "calm bd s (s\<lparr>ss_sweptVersions := True\<rparr>)" "calm bd s (s\<lparr>ss_sweptDims := True\<rparr>)" for s by (simp_all add: calm_def)
  show "doing (onStore (GetWork h)) s = (i, s') \<Longrightarrow> calm bd s s'" for h s i s'
    by (erule calmI) (simp add: onStore_wdb GetWork_def withReader_db)
  show "doing (onStore (Reschedule h k t m)) s = (u, s') \<Longrightarrow> calm bd s s'" for h k t m s u s'
    by (erule calmI) (simp add: onStore_wdb reschedule.keeps, simp add: Reschedule_def updateContent_hashes)
  show "doing (onStore (MarkFailed h m)) s = (u, s') \<Longrightarrow> calm bd s s'" for h m s u s'
    by (erule calmI) (simp add: onStore_wdb markFailed.keeps MarkFailed_hashes)
  show "doing (onStore (GetWork h)) s0 = (Inr item, s) \<Longrightarrow>
      doing (ProcessContent (by_read bd) (sd_indexer sd) item sv) s = (x, s') \<Longrightarrow> calm bd s s'" for h s0 item s sv x s'
  proof (erule calmI)
    assume g: "doing (onStore (GetWork h)) s0 = (Inr item, s)" and inv: "catalog_inv (wdb (ss_world s))"
    obtain st where "GetWork h (w_store (ss_world s0)) = (Inr item, st)" "ss_world s = (ss_world s0)\<lparr>w_store := st\<rparr>"
      using doing_result [OF g] by (auto simp: onStore_def split: prod.splits)
    moreover from this have "w_store (ss_world s) = st" by simp
    ultimately have "c_Hash (wi_Content item) \<in> hashes (wdb (ss_world s))" using GetWork_found by metis
    then show "catalog_inv (wdb (snd (ProcessContent (by_read bd) (sd_indexer sd) item sv (ss_world s)))) \<and>
        hashes (wdb (snd (ProcessContent (by_read bd) (sd_indexer sd) item sv (ss_world s)))) \<subseteq> hashes (wdb (ss_world s))"
      using inv processContent.keeps ProcessContent_hashes by blast
  qed
qed

text \<open>A batch that went through has handled every content of it.\<close>

lemma storeFailure_stops: "storeFailure e s = (ok, s') \<Longrightarrow> \<not> ok"
  by (auto simp: storeFailure_def split: prod.splits bool.splits)

lemma processOne_handled: "processOne sd bd sv h s = ((True, handled, k), s') \<Longrightarrow> handled"
  by (auto simp: processOne_def split: prod.splits bool.splits sum.splits if_splits dest: storeFailure_stops)

lemma process_seen: "process sd bd sv hs seen skipped s = ((True, seen', k), s') \<Longrightarrow> set hs \<union> set seen \<subseteq> set seen'"
proof (induction hs arbitrary: seen skipped s)
  case (Cons h hs)
  obtain ok handled j s1 where o: "processOne sd bd sv h s = ((ok, handled, j), s1)" by (metis prod.exhaust)
  then have ok: "ok" "process sd bd sv hs (if handled then h # seen else seen) (skipped + j) s1 = ((True, seen', k), s')"
    using Cons.prems by (auto simp: Let_def split: if_splits)
  then show ?case using Cons.IH [OF ok(2)] processOne_handled [of sd bd sv h s handled j s1] o by auto
qed simp

lemma ClaimBatch_hashes:
  assumes "ClaimBatch t k s = (Inr cs, s')"
  shows "c_Hash ` set cs \<subseteq> hashes (st_db s)"
proof (cases "k \<le> 0")
  case False
  let ?q = "\<lambda>db. Inr (map fromContentRow (take (nat (k - k div agingShare)) (rev (claimOrder t db))))"
  let ?o = "\<lambda>db. Inr (map fromContentRow (take (nat (k div agingShare)) (claimOrder t db)))"
  obtain r1 s1 where q: "withReader ?q s = (r1, s1)" by fastforce
  obtain r2 s2 where o: "withReader ?o s1 = (r2, s2)" by fastforce
  have rows: "x \<in> set (take n (claimOrder t d)) \<Longrightarrow> r_hash x \<in> hashes d"
    "x \<in> set (take n (rev (claimOrder t d))) \<Longrightarrow> r_hash x \<in> hashes d" for n d x
    using set_take_subset [of n "claimOrder t d"] set_take_subset [of n "rev (claimOrder t d)"]
    by (auto simp: claim_rows(1) hashes_def)
  show ?thesis
  proof
    fix x assume "x \<in> c_Hash ` set cs"
    then obtain r where "x = r_hash r"
      "r \<in> set (take (nat (k - k div agingShare)) (rev (claimOrder t (st_db s)))) \<or>
       r \<in> set (take (nat (k div agingShare)) (claimOrder t (st_db s)))"
      using assms False q o withReader_result [OF q] withReader_result [OF o]
      by (cases r1; cases r2) (auto simp: ClaimBatch_def Let_def split: if_splits)
    then show "x \<in> hashes (st_db s)" using rows by blast
  qed
qed (use assms in \<open>simp add: ClaimBatch_def\<close>)

lemma drainBatch_more:
  assumes "drainBatch sd bd fresh d s = (Some d', s')"
  shows "fresh \<noteq> [] \<and> set fresh \<union> set (dn_seen d) \<subseteq> set (dn_seen d') \<and> dn_prepared d' = dn_prepared d"
proof (cases "fresh = []")
  case False
  obtain ok seen k s1 where p: "process sd bd (StageVersions (sd_indexer sd) (dn_dims d)) fresh (dn_seen d) (dn_skipped d) s
      = ((ok, seen, k), s1)" by (metis prod.exhaust)
  then have "ok \<and> d' = d\<lparr>dn_seen := seen, dn_skipped := k\<rparr>"
    using assms False by (auto simp: drainBatch_def split: prod.splits Interval.splits if_splits)
  then show ?thesis using process_seen [of sd bd _ fresh "dn_seen d" "dn_skipped d" s seen k s1] p False by auto
qed (use assms in \<open>simp add: drainBatch_def\<close>)

text \<open>Why a drain goes on: the stale versions are swept, or the stale dims, or new content is handled.\<close>

lemma drainStep_more:
  assumes "drainStep sd bd d s = (Some d', s')"
  obtains (versions) "d' = d" "\<not> ss_sweptVersions s" "ss_sweptVersions s'"
  | (dims) t0 where "\<not> dn_prepared d" "dn_prepared d'" "dn_seen d' = dn_seen d" "fst (prepare sd t0) \<noteq> None"
  | (batch) h t where "calm bd s t" "h \<in> hashes (wdb (ss_world t))" "h \<notin> set (dn_seen d)"
      "insert h (set (dn_seen d)) \<subseteq> set (dn_seen d')" "dn_prepared d \<longrightarrow> dn_prepared d'"
      "dn_prepared d \<or> (\<exists>t0. fst (prepare sd t0) \<noteq> None)"
proof -
  obtain b s0 where c0: "cancelled s = (b, s0)" by fastforce
  have b: "\<not> b" using assms c0 by (cases b) (auto simp: drainStep_def)
  define s1 where "s1 = reconcilePending sd bd s0"
  have r1: "calm bd s s1" unfolding s1_def by (rule calm.trans [OF calm.ctx [OF c0] calm.reconciles])
  have f1: "stillSwept s s1" unfolding s1_def by (rule flags.trans [OF flags.ctx [OF c0] flags.reconciles])
  show thesis
  proof (cases "ss_sweptVersions s1")
    case False
    then have "d' = d \<and> ss_sweptVersions s'"
      using assms c0 b by (auto simp: drainStep_def s1_def [symmetric] Let_def split: prod.splits bool.splits)
    then show thesis using False f1 versions by (auto simp: stillSwept_def)
  next
    case True
    obtain t s2 where n: "now sd s1 = (t, s2)" by fastforce
    obtain cs s3 where q: "doing (onStore (ClaimBatch (Unix t) (sd_batchSize sd))) s2 = (cs, s3)" by fastforce
    obtain contents where cs: "cs = Inr contents"
      using assms c0 b True n q
      by (cases cs) (auto simp: drainStep_def s1_def [symmetric] Let_def split: prod.splits bool.splits)
    define fresh where "fresh = filter (\<lambda>h. h \<notin> set (dn_seen d)) (map c_Hash contents)"
    obtain p s5 where pr: "prepare sd s3 = (p, s5)" by fastforce
    have "cancelled s = (False, s0)" using c0 b by simp
    note eq = drainStep_claimed [OF this s1_def True n q [unfolded cs] pr fresh_def, unfolded assms]
    have r2: "calm bd s s2" by (rule calm.clock [OF r1 n])
    obtain st where st: "ClaimBatch (Unix t) (sd_batchSize sd) (w_store (ss_world s2)) = (Inr contents, st)"
      using doing_result [OF q] cs by (auto simp: onStore_def split: prod.splits)
    have known: "set fresh \<subseteq> hashes (wdb (ss_world s2))" "set fresh \<inter> set (dn_seen d) = {}"
      using ClaimBatch_hashes [OF st] by (auto simp: fresh_def)
    have handled: thesis if "drainBatch sd bd fresh d0 t0 = (Some d', s')" "dn_seen d0 = dn_seen d"
      "dn_prepared d \<longrightarrow> dn_prepared d0" "dn_prepared d \<or> p \<noteq> None" for d0 t0
    proof -
      note more = drainBatch_more [OF that(1)]
      then obtain h where h: "h \<in> set fresh" by (cases fresh) auto
      show thesis by (rule batch [OF r2, of h]) (use more h known that exI [of "\<lambda>t. fst (prepare sd t) \<noteq> None" s3] pr in auto)
    qed
    show thesis using eq
    proof (cases "dn_prepared d")
      case False
      then show thesis using eq handled [of "d\<lparr>dn_dims := the p, dn_prepared := True\<rparr>" s5] dims [of s3] pr
        by (auto split: if_splits option.splits prod.splits bool.splits)
    qed (use eq handled [of d s3] in \<open>auto split: if_splits\<close>)
  qed
qed

definition todo :: "Drain \<Rightarrow> SState \<Rightarrow> nat" where
  "todo d s = of_bool (\<not> ss_sweptVersions s) + of_bool (\<not> dn_prepared d) +
     card (hashes (wdb (ss_world s)) - set (dn_seen d))"

lemma todo_falls:
  assumes step: "drainStep sd bd d s = (Some d', s')"
    and calm: "\<And>n. by_watch bd n = []" "ss_pending s = []" "catalog_inv (wdb (ss_world s))"
  shows "todo d' s' < todo d s"
proof -
  let ?left = "\<lambda>d s. hashes (wdb (ss_world s)) - set (dn_seen d)"
  have sub: "hashes (wdb (ss_world s')) \<subseteq> hashes (wdb (ss_world s))"
    using calm.stepped [OF calm.refl step] calm by (simp add: calm_def)
  have flag: "ss_sweptVersions s \<longrightarrow> ss_sweptVersions s'"
    using flags.stepped [OF flags.refl step] by (simp add: stillSwept_def)
  have fin: "finite (hashes db)" for db by (simp add: hashes_def)
  show ?thesis using step
  proof (cases rule: drainStep_more)
    case versions
    have "card (?left d s') \<le> card (?left d s)" using sub fin by (intro card_mono) auto
    then show ?thesis using versions by (simp add: todo_def)
  next
    case dims
    have "card (?left d' s') \<le> card (?left d s)" using sub fin dims by (intro card_mono) auto
    then show ?thesis using dims flag by (auto simp: todo_def of_bool_def)
  next
    case (batch h t)
    have "h \<in> hashes (wdb (ss_world s))" using batch(1,2) calm by (auto simp: calm_def)
    then have "?left d' s' \<subset> ?left d s" using sub batch(3,4) by auto
    then have "card (?left d' s') < card (?left d s)" using fin by (intro psubset_card_mono) auto
    then show ?thesis using batch flag by (auto simp: todo_def of_bool_def)
  qed
qed

lemma drainLoop_returns:
  assumes "\<And>n. by_watch bd n = []" "ss_pending s = []" "catalog_inv (wdb (ss_world s))"
  shows "\<exists>s'. drainLoop sd bd d s = Some s'"
  using assms
proof (induction "todo d s" arbitrary: d s rule: less_induct)
  case less
  obtain nx s1 where st: "drainStep sd bd d s = (nx, s1)" by fastforce
  have nxt: "ss_pending s1 = []" "catalog_inv (wdb (ss_world s1))"
    using calm.stepped [OF calm.refl st] less.prems by (simp_all add: calm_def)
  show ?case
  proof (cases nx)
    case (Some d')
    then have "\<exists>s'. drainLoop sd bd d' s1 = Some s'"
      using less.hyps [OF todo_falls [OF _ less.prems]] st less.prems(1) nxt by blast
    then show ?thesis using st Some by (subst drainLoop.simps) simp
  qed (use st in \<open>subst drainLoop.simps, simp\<close>)
qed

section \<open>A scheduler to run\<close>

definition demo_sched :: "Indexer \<Rightarrow> Interval \<Rightarrow> Sched" where
  "demo_sched ix policy = \<lparr>sd_indexer = ix, sd_fs = demo_fs [], sd_scan = demo_opts, sd_power = (\<lambda>_. policy),
     sd_scanInterval = 0, sd_debounce = defaultDebounce, sd_batchSize = 1, sd_maxAttempts = 2,
     sd_now = (\<lambda>n. int n * second), sd_rnd = (\<lambda>_ k. k - 1)\<rparr>"

definition demo_beyond :: "WatchMsg list \<Rightarrow> Beyond" where
  "demo_beyond msgs = \<lparr>by_read = demo_reader, by_watch = (\<lambda>n. if n = 0 then msgs else []), by_text = (\<lambda>_. ''error'')\<rparr>"

text \<open>An indexer whose endpoint is switched off.\<close>

definition deaf_indexer :: Indexer where
  "deaf_indexer = demo_indexer\<lparr>ix_Embedder := demo_embedder\<lparr>em_Query := (\<lambda>_ _. Inl ''connection refused'')\<rparr>\<rparr>"

lemma sound_start: "catalog_inv (wdb w) \<Longrightarrow> sound (startState w)"
  by (simp add: sound_def startState_def)

section \<open>The invariant of a run\<close>

lemma cycle_sound: "sound s \<Longrightarrow> cycle sd bd s = Some (w, s') \<Longrightarrow> sound s'"
  using sched.cycled [OF sched.refl] by (simp add: kept_def)

lemma cancelled_sound: "sound s \<Longrightarrow> cancelled s = (b, s') \<Longrightarrow> sound s'"
  using sched.ctx [of s b s'] by (simp add: kept_def)

lemma turn_sound:
  assumes "sound s" "turn sd bd s = Some (w, s')"
  shows "sound s'"
proof -
  obtain k s1 where c: "cycle sd bd (s\<lparr>ss_notify := False\<rparr>) = Some (k, s1)"
    using assms(2) by (auto simp: turn_def split: option.splits)
  have "sound (s\<lparr>ss_notify := False\<rparr>)" using assms(1) by (simp add: sound_def)
  then have "sound s1" by (rule cycle_sound [OF _ c])
  moreover obtain b s2 where k: "cancelled s1 = (b, s2)" by fastforce
  ultimately have "sound s2" by (rule cancelled_sound)
  moreover have "s' = s2" using assms(2) c k by (cases b) (auto simp: turn_def)
  ultimately show ?thesis by simp
qed

lemma runLoop_sound:
  assumes "sound s" "runLoop sd bd pick s = Some s'"
  shows "sound s'"
proof -
  have "sound s \<longrightarrow> sound s'"
  proof (rule runLoop.raw_induct [of "\<lambda>sd bd pick s s'. sound s \<longrightarrow> sound s'", OF _ assms(2)], intro impI)
    fix loop sd bd pick s s'
    assume IH: "\<And>sd bd pick s s'. loop sd bd pick s = Some s' \<Longrightarrow> sound s \<longrightarrow> sound s'" and s: "sound s"
      and body: "(case cancelled s of (dn, s0) \<Rightarrow>
          if dn \<and> pick (w_tick (ss_world s0)) then Some s0
          else (case turn sd bd s0 of None \<Rightarrow> None
                | Some (wait, s1) \<Rightarrow> (case wait of None \<Rightarrow> Some s1 | Some _ \<Rightarrow> loop sd bd pick s1))) = Some s'"
    obtain dn s0 where c: "cancelled s = (dn, s0)" by fastforce
    have s0: "sound s0" by (rule cancelled_sound [OF s c])
    show "sound s'"
    proof (cases "dn \<and> pick (w_tick (ss_world s0))")
      case True
      then show ?thesis using body c s0 by simp
    next
      case False
      then obtain w s1 where t: "turn sd bd s0 = Some (w, s1)"
        using body c by (auto split: option.splits if_splits)
      have s1: "sound s1" by (rule turn_sound [OF s0 t])
      show ?thesis
      proof (cases w)
        case None
        then show ?thesis using body c False t s1 by (simp split: if_splits)
      next
        case (Some k)
        then have "loop sd bd pick s1 = Some s'" using body c False t by (simp split: if_splits)
        then show ?thesis using IH s1 by blast
      qed
    qed
  qed
  then show ?thesis using assms(1) by blast
qed

lemma flushPending_sound: "sound s \<Longrightarrow> sound (flushPending sd bd s)"
proof -
  assume s: "sound s"
  define s1 where "s1 = s\<lparr>ss_world := (ss_world s)\<lparr>w_store := (w_store (ss_world s))\<lparr>st_done := False\<rparr>\<rparr>\<rparr>"
  have "sound s1" using s by (simp add: sound_def s1_def)
  moreover have "kept s1 (reconcilePending sd bd s1)" by (rule sched.reconciles)
  ultimately have "sound (reconcilePending sd bd s1)" by (simp add: kept_def)
  then show ?thesis using s by (simp add: flushPending_def s1_def)
qed

text \<open>
  C1: The daemon keeps its invariant over its whole life: when \<open>Run\<close> returns, after any number of
  cycles, whatever the file system, the watcher, the embedding endpoint, the power policy, the clock and
  the database answered in the meantime and wherever the context was cancelled, the catalog is well-formed
  and at most 65536 paths are pending, the final flush included.
\<close>

theorem Run_sound:
  assumes "RunSched sd bd watcher pick s = Some s'"
    and "catalog_inv (wdb (ss_world s))" "length (ss_pending s) \<le> maxPendingReconcile"
  shows "catalog_inv (wdb (ss_world s')) \<and> length (ss_pending s') \<le> maxPendingReconcile"
proof -
  obtain s1 where l: "runLoop sd bd pick (startRun watcher s) = Some s1"
    and s': "s' = flushPending sd bd (arrivals sd bd s1)" using assms(1) by (auto simp: RunSched_def)
  have "sound (startRun watcher s)" using assms(2,3) by (simp add: sound_def startRun_def)
  then have "sound s1" by (rule runLoop_sound [OF _ l])
  moreover have "kept s1 (arrivals sd bd s1)" by (rule sched.arrived [OF sched.refl])
  ultimately have "sound (arrivals sd bd s1)" by (simp add: kept_def)
  from flushPending_sound [OF this] show ?thesis by (simp add: s' sound_def)
qed

text \<open>A daemon stopped before its first cycle still writes what the watcher had seen.\<close>

theorem Run_sound_witness:
  "\<exists>s'. RunSched (demo_sched demo_indexer Defer) (demo_beyond [Window [''/r/a.md''] False]) True (\<lambda>_. True)
      (startState (pipe_world\<lparr>w_store := (demo_store pipe_db)\<lparr>st_done := True\<rparr>\<rparr>)) = Some s' \<and>
    catalog_inv (wdb (ss_world s'))"
proof -
  let ?s = "startState (pipe_world\<lparr>w_store := (demo_store pipe_db)\<lparr>st_done := True\<rparr>\<rparr>)"
  obtain s' where r: "RunSched (demo_sched demo_indexer Defer) (demo_beyond [Window [''/r/a.md''] False]) True (\<lambda>_. True) ?s = Some s'"
    by (simp add: RunSched_def runLoop.simps startRun_def startState_def cancelled_def doing_def onStore_def ctxErr_def mark_def)
  show ?thesis using Run_sound [OF r] r pipe_inv by (simp add: startState_def)
qed

section \<open>An endpoint that is switched off\<close>

lemma prepare_down:
  assumes "down sd" "prepare sd s = (d, s')"
  shows "d = None"
proof -
  have "\<exists>e. fst (doing (Prepare (sd_indexer sd)) t) = Inl e" for t
  proof -
    obtain e where "em_Query (ix_Embedder (sd_indexer sd)) (w_tick (ss_world t)) ''bsearch dimension probe'' = Inl e"
      using assms(1) unfolding down_def by blast
    then show ?thesis by (simp add: doing_def Prepare_def)
  qed
  then have no: "doing (Prepare (sd_indexer sd)) t \<noteq> (Inr k, t')" for t k t' by (metis fst_conv Inl_Inr_False)
  obtain b s0 where p: "probeDeferredUntil sd s = (b, s0)" by fastforce
  obtain x s1 where q: "doing (Prepare (sd_indexer sd)) s0 = (x, s1)" by fastforce
  show ?thesis using assms(2) p q no by (cases b; cases x) (auto simp: prepare_def split: prod.splits bool.splits)
qed

lemma drainStep_down:
  assumes down: "down sd" and d: "\<not> dn_prepared d" and step: "drainStep sd bd d s = (nx, s')"
  shows "spared sd s s'" "nx = Some d' \<Longrightarrow> d' = d \<and> \<not> ss_sweptVersions s \<and> ss_sweptVersions s'"
proof -
  have no: "\<not> (\<exists>t0. fst (prepare sd t0) \<noteq> None)" using prepare_down [OF down] by (metis prod.collapse)
  show "spared sd s s'" by (rule outage.upToBatch [OF outage.refl step]) (use d no in blast)
  assume nx: "nx = Some d'"
  show "d' = d \<and> \<not> ss_sweptVersions s \<and> ss_sweptVersions s'"
    using step [unfolded nx] by (cases rule: drainStep_more) (use d no in auto)
qed

lemma drainLoop_down:
  assumes "down sd" "\<not> dn_prepared d"
  shows "\<exists>s'. drainLoop sd bd d s = Some s' \<and> spared sd s s'"
proof -
  have last: "\<exists>s'. drainLoop sd bd d t = Some s' \<and> spared sd t s'" if "ss_sweptVersions t" for t
  proof -
    obtain nx t1 where st: "drainStep sd bd d t = (nx, t1)" by fastforce
    have "nx = None" using drainStep_down(2) [OF assms st] that by (cases nx) auto
    then show ?thesis using st drainStep_down(1) [OF assms st] by (subst drainLoop.simps) simp
  qed
  obtain nx s1 where st: "drainStep sd bd d s = (nx, s1)" by fastforce
  note r1 = drainStep_down(1) [OF assms st]
  show ?thesis
  proof (cases nx)
    case (Some d')
    then have d': "d' = d" "ss_sweptVersions s1" using drainStep_down(2) [OF assms st] by auto
    obtain s' where "drainLoop sd bd d s1 = Some s'" "spared sd s1 s'" using last [OF d'(2)] by blast
    then show ?thesis using st Some d' outage.trans [OF r1] by (subst drainLoop.simps) simp
  qed (use st r1 in \<open>subst drainLoop.simps, simp\<close>)
qed

lemma cycle_down:
  assumes "down sd"
  shows "\<exists>w s'. cycle sd bd s = Some (w, s') \<and> spared sd s s'"
proof -
  obtain pw s0 where p: "doing (ask (sd_power sd)) s = (pw, s0)" by fastforce
  obtain b s1 where ch: "cheapStages sd bd s0 = (b, s1)" by fastforce
  have r1: "spared sd s s1" by (rule outage.staged [OF outage.asked [OF outage.refl p] ch])
  have fin: "\<exists>s'. (case now sd t of (tm, t') \<Rightarrow> (k, mark (\<lambda>n. n\<lparr>sn_LastCycle := Some tm\<rparr>) t')) = (k, s') \<and> spared sd s s'"
    if "spared sd s t" for t k
  proof -
    obtain tm t' where n: "now sd t = (tm, t')" by fastforce
    have "spared sd s (mark (\<lambda>n. n\<lparr>sn_LastCycle := Some tm\<rparr>) t')"
      by (rule outage.booked [OF outage.clock [OF that n]]) simp_all
    then show ?thesis using n by simp
  qed
  have gated: "spared sd s (gate g y s1)" "spared sd s (mark f s1)" for g y f
    by (rule outage.booked [OF r1]; simp)+
  show ?thesis
  proof (cases b)
    case True
    then show ?thesis using p ch fin [OF r1, of deferRecheckInterval] by (simp add: cycle_def Let_def) blast
  next
    case False
    show ?thesis
    proof (cases pw)
      case Defer
      then show ?thesis using p ch False fin [OF gated(1), of deferRecheckInterval] by (simp add: cycle_def Let_def) blast
    next
      case (Every k)
      obtain s3 where d: "drainLoop sd bd startDrain (mark (\<lambda>n. n\<lparr>sn_Deferring := False\<rparr>) s1) = Some s3"
        and r3: "spared sd (mark (\<lambda>n. n\<lparr>sn_Deferring := False\<rparr>) s1) s3"
        using drainLoop_down [OF assms, of startDrain] by (auto simp: startDrain_def)
      then show ?thesis
        using p ch False Every fin [OF outage.trans [OF gated(2) r3], of k] by (simp add: cycle_def Let_def drain_def) blast
    qed
  qed
qed

text \<open>
  C7: An embedding endpoint that is switched off says nothing about any file: a cycle against an
  endpoint whose every probe fails returns, and no content is charged an attempt or marked failed by
  it, whatever the file system, the watcher, the power policy and the database answer. Each content row
  afterwards is as it was, requeued, or newly discovered.
\<close>

theorem outage_charges_nothing:
  assumes "\<And>n q. \<exists>e. em_Query (ix_Embedder (sd_indexer sd)) n q = Inl e"
    and "catalog_inv (wdb (ss_world s))" "length (ss_pending s) \<le> maxPendingReconcile"
  shows "\<exists>w s'. cycle sd bd s = Some (w, s') \<and> uncharged (wdb (ss_world s)) (wdb (ss_world s'))"
  using cycle_down [of sd bd s] assms by (fastforce simp: down_def spared_def sound_def)

theorem outage_charges_nothing_witness:
  "\<exists>w s'. cycle (demo_sched deaf_indexer (Every minute)) (demo_beyond [Window [''/r/a.md''] False]) (startState pipe_world)
     = Some (w, s') \<and> uncharged pipe_db (wdb (ss_world s'))"
proof -
  have "\<exists>e. em_Query (ix_Embedder (sd_indexer (demo_sched deaf_indexer (Every minute)))) n q = Inl e" for n q
    by (simp add: demo_sched_def deaf_indexer_def demo_embedder_def)
  from outage_charges_nothing [OF this, where s = "startState pipe_world"] show ?thesis
    using pipe_inv by (simp add: startState_def)
qed

section \<open>The drain ends\<close>

text \<open>
  C8: A drain during which the watcher hands nothing over ends, although it claims again after every
  batch and leaves unreadable content claimable: every iteration sweeps what was not swept, prepares what
  was not prepared, or handles a content not seen before, whatever the probe, the reads, the embedding
  calls, the power policy and the database answer. The catalog is well-formed afterwards and no content
  has appeared.
\<close>

theorem drain_returns:
  assumes "\<And>n. by_watch bd n = []" "ss_pending s = []" "catalog_inv (wdb (ss_world s))"
  shows "\<exists>s'. drain sd bd s = Some s' \<and> catalog_inv (wdb (ss_world s')) \<and>
    hashes (wdb (ss_world s')) \<subseteq> hashes (wdb (ss_world s))"
proof -
  obtain s' where d: "drainLoop sd bd startDrain s = Some s'" using drainLoop_returns [OF assms] by blast
  have "calm bd s s'" by (rule calm.drained [OF calm.refl d])
  then show ?thesis using assms d by (auto simp: drain_def calm_def)
qed

theorem drain_returns_witness:
  "\<exists>s'. drain (demo_sched demo_indexer (Every minute)) (demo_beyond []) (startState pipe_world) = Some s' \<and>
    hashes (wdb (ss_world s')) \<subseteq> {demo_hash}"
  using drain_returns [of "demo_beyond []" "startState pipe_world" "demo_sched demo_indexer (Every minute)"] pipe_inv
  by (auto simp: startState_def demo_beyond_def hashes_def pipe_db_def demo_content_row_def)

section \<open>No path that was handed over is lost\<close>

definition carried :: "path \<Rightarrow> SState \<Rightarrow> bool" where
  "carried p s \<longleftrightarrow> ss_forceScan s \<or> p \<in> set (ss_pending s)"

lemma doing_force: "doing f s = (r, s') \<Longrightarrow> ss_forceScan s' = ss_forceScan s"
  by (auto simp: doing_def split: prod.splits)

lemma carried_noted [simp]:
  "carried p (mark f s) = carried p s" "carried p (lastError e s) = carried p s"
  "carried p (Notify s) = carried p s" "carried p (requestScan s)" "carried p (refusePending s)"
  "carried p (requestOrphanSweep c s) = carried p s" "carried p (recordReconcile r s) = carried p s"
  by (simp_all add: carried_def mark_def lastError_def Notify_def requestScan_def refusePending_def
      requestOrphanSweep_def recordReconcile_def noteOrphanProducers_def Let_def)

lemma carried_doing: "doing f s = (r, s') \<Longrightarrow> carried p s' = carried p s"
  using doing_pending doing_force by (fastforce simp: carried_def)

lemma merged_or_refused:
  assumes "mergePending ps s = ((n, ok), s')"
  shows "carried p s \<Longrightarrow> carried p s'" "ok \<Longrightarrow> p \<in> set ps \<Longrightarrow> carried p s'"
  using assms by (auto simp: mergePending_def Let_def carried_def split: if_splits)

lemma enqueued: "carried p s \<or> p \<in> set ps \<Longrightarrow> carried p (enqueue ps s)"
  using merged_or_refused by (auto simp: enqueue_def split: prod.split)

lemma carried_restored: "carried p s \<or> p \<in> set ps \<Longrightarrow> carried p (restorePending ps s)"
  using merged_or_refused by (auto simp: restorePending_def split: prod.split)

lemma closed_window:
  assumes "carried p s \<or> p \<in> set ps"
  shows "carried p (closeWindow sd ps rescan s)"
proof -
  obtain t s0 where n: "now sd s = (t, s0)" by fastforce
  have "carried p s0 = carried p s" using n by (auto simp: now_def dest: carried_doing)
  then show ?thesis using assms n by (auto simp: closeWindow_def Let_def intro: enqueued)
qed

lemma delivered_paths:
  "carried p s \<or> p \<in> windowPaths msgs \<Longrightarrow> carried p (fold (deliver sd) msgs s)"
proof (induction msgs arbitrary: s)
  case (Cons m msgs)
  have "carried p (deliver sd m s) \<or> p \<in> windowPaths msgs"
    using Cons.prems by (cases m) (auto simp: windowPaths_def intro: closed_window)
  then show ?case using Cons.IH by simp
qed (simp add: windowPaths_def)

text \<open>
  C9: No path is lost between the watcher and the catalog: in a reconcile that is not cancelled at its
  start, each path that was pending, or that a debounce window hands over as the pending set is taken, is
  in the list given to a \<open>ScanPaths\<close> that succeeds, or pending again (after a cancelled write), or
  the next full walk is forced (after a rescan event, a set that was full, or a failed write).
\<close>

theorem no_path_lost:
  assumes "cancelled s = (False, s0)" "takePending (arrivals sd bd s0) = (list, s1)"
    and "p \<in> set (ss_pending s) \<union> windowPaths (by_watch bd (w_tick (ss_world s0)))"
  shows "ss_forceScan (reconcilePending sd bd s) \<or> p \<in> set (ss_pending (reconcilePending sd bd s)) \<or>
    p \<in> set list \<and> snd (fst (doing (ScanPaths (sd_scan sd) (sd_fs sd) list) s1)) = None"
proof -
  have "carried p s0 = (ss_forceScan s \<or> p \<in> set (ss_pending s))"
    using carried_doing [OF assms(1) [unfolded cancelled_def]] by (simp add: carried_def)
  then have held: "carried p (arrivals sd bd s0)"
    unfolding arrivals_def using assms(3) by (auto intro: delivered_paths)
  have s1: "ss_forceScan s1 = ss_forceScan (arrivals sd bd s0)" "set list = set (ss_pending (arrivals sd bd s0))"
    using assms(2) by (auto simp: takePending_def)
  obtain res err s2 where q: "doing (ScanPaths (sd_scan sd) (sd_fs sd) list) s1 = ((res, err), s2)" by (metis prod.exhaust)
  have force: "ss_forceScan s1 \<Longrightarrow> carried p (recordReconcile res s2)"
    using doing_force [OF q] by (simp add: carried_def [of p s2])
  obtain b s4 where c: "cancelled (recordReconcile res s2) = (b, s4)" by fastforce
  have s4: "carried p s4 = carried p (recordReconcile res s2)" by (rule carried_doing [OF c [unfolded cancelled_def]])
  have again: "p \<in> set list \<or> carried p s4 \<Longrightarrow> carried p (restorePending list (arrivals sd bd s4))"
    unfolding arrivals_def by (auto intro: carried_restored delivered_paths)
  show ?thesis
  proof (cases "p \<in> set list")
    case True
    then have "err = None \<or> carried p (reconcilePending sd bd s)"
      using assms(1,2) q c again by (cases err; cases b) (auto simp: reconcilePending_def Let_def)
    then show ?thesis using True q unfolding carried_def by auto
  next
    case False
    then have f: "ss_forceScan s1" using held s1 by (auto simp: carried_def)
    then have "carried p (reconcilePending sd bd s)"
      using assms(1,2) q c again force s4
      by (cases err; cases b; cases "list = []") (auto simp: reconcilePending_def Let_def carried_def [of p s1])
    then show ?thesis unfolding carried_def by blast
  qed
qed

theorem no_path_lost_witness:
  "\<exists>s'. reconcilePending (demo_sched demo_indexer (Every minute)) (demo_beyond [Window [''/r/a.md''] False]) (startState pipe_world) = s' \<and>
    (ss_forceScan s' \<or> ''/r/a.md'' \<in> set (ss_pending s') \<or>
     snd (fst (ScanPaths demo_opts (demo_fs []) [''/r/a.md''] (tick pipe_world))) = None)"
proof -
  let ?sd = "demo_sched demo_indexer (Every minute)" and ?bd = "demo_beyond [Window [''/r/a.md''] False]"
  have c: "cancelled (startState pipe_world) = (False, startState pipe_world)"
    by (simp add: cancelled_def doing_def onStore_def ctxErr_def startState_def pipe_world_def demo_store_def)
  obtain list s1 where t: "takePending (arrivals ?sd ?bd (startState pipe_world)) = (list, s1)" by fastforce
  then have l: "list = [''/r/a.md'']" "ss_world s1 = tick pipe_world"
    by (auto simp: takePending_def arrivals_def demo_beyond_def startState_def pipe_world_def closeWindow_def now_def
        doing_ask enqueue_def mergePending_def maxPendingReconcile_def mark_def Notify_def addPaths_def)
  show ?thesis
    using no_path_lost [OF c t, of "''/r/a.md''"] l
    by (auto simp: windowPaths_def demo_beyond_def startState_def pipe_world_def doing_def demo_sched_def split: prod.splits)
qed

end
