(* ===== verification/Retries.thy ===== *)
theory Retries
  imports SchedProps
begin

text \<open>
  How the scheduler spaces its work: retries and giving up, the probe of the embedding endpoint, the idle
  drain; and the content an unreadable neighbour hides from the drain.
\<close>

section \<open>Retries\<close>

lemma doing_onStore:
  assumes "f (w_store (ss_world s)) = (r, st)"
  shows "doing (onStore f) s = (r, s\<lparr>ss_world := (ss_world s)\<lparr>w_store := st\<rparr>\<rparr>)"
  using assms by (simp add: doing_def onStore_def)

lemma now_world: "now sd s = (sd_now sd (w_tick (ss_world s)), s\<lparr>ss_world := tick (ss_world s)\<rparr>)"
  by (simp add: now_def doing_ask)

lemma Reschedule_quiet:
  assumes "quiet st" "h \<in> hashes (st_db st)"
  obtains t st' where "Reschedule h k u m st = (Inr (), st')" "quiet st'"
    "st_db st' = update_content h (\<lambda>r. r\<lparr>r_attempts := k, r_next_retry := Some u, r_last_error := Some m, r_updated := t\<rparr>) (st_db st)"
proof -
  let ?f = "\<lambda>t r. r\<lparr>r_attempts := k, r_next_retry := Some u, r_last_error := Some m, r_updated := t\<rparr>"
  let ?b = "\<lambda>now db. if h \<notin> hashes db then Inl ErrContentGone else Inr (update_content h (?f now) db, ())"
  obtain t where "fst (withTx ?b st) = map_sum id snd (?b t (st_db st))"
    "st_db (snd (withTx ?b st)) = (case ?b t (st_db st) of Inl _ \<Rightarrow> st_db st | Inr (db, _) \<Rightarrow> db)" "quiet (snd (withTx ?b st))"
    by (rule withTx_quiet [OF assms(1)])
  then show thesis
    using assms(2) that [of "snd (withTx ?b st)" t] by (simp add: Reschedule_def updateContent_def prod_eq_iff)
qed

lemma MarkFailed_quiet:
  assumes "quiet st" "h \<in> hashes (st_db st)" "catalog_inv (st_db st)"
  obtains t st' where "MarkFailed h m st = (Inr (), st')" "quiet st'"
    "st_db st' = drop_chunks {h} (update_content h (\<lambda>r. r\<lparr>r_state := Failed, r_last_error := Some m, r_updated := t\<rparr>) (st_db st))"
proof -
  obtain t where "fst (withTx (markFailedTx h m) st) = map_sum id snd (markFailedTx h m t (st_db st))"
    "st_db (snd (withTx (markFailedTx h m) st)) = (case markFailedTx h m t (st_db st) of Inl _ \<Rightarrow> st_db st | Inr (db, _) \<Rightarrow> db)"
    "quiet (snd (withTx (markFailedTx h m) st))"
    by (rule withTx_quiet [OF assms(1)])
  then show thesis
    using assms(2) that [of "snd (withTx (markFailedTx h m) st)" t]
    by (simp add: MarkFailed_def markFailedTx_eq [OF assms(3)] prod_eq_iff)
qed

lemma fullJitter_window:
  assumes "\<And>n k. 0 < k \<Longrightarrow> 0 \<le> sd_rnd sd n k \<and> sd_rnd sd n k < k"
  obtains wt where "doing (fullJitter a defaultBackoffBase defaultBackoffCap (sd_rnd sd)) s = (wt, s\<lparr>ss_world := tick (ss_world s)\<rparr>)"
    "0 \<le> wt" "wt < min defaultBackoffCap (defaultBackoffBase * 2 ^ nat (max 1 a - 1))"
proof -
  define window where "window = min defaultBackoffCap (defaultBackoffBase * 2 ^ nat (max 1 a - 1))"
  have w: "jitterWindow a defaultBackoffBase defaultBackoffCap = window" unfolding window_def
    by (rule jitterWindow_exact)
      (simp_all add: defaultBackoffBase_def defaultBackoffCap_def minute_def second_def)
  have "0 < window" by (simp add: window_def defaultBackoffBase_def defaultBackoffCap_def minute_def second_def)
  with w show thesis
    using assms [of window "w_tick (ss_world s)"] that [of "sd_rnd sd (w_tick (ss_world s)) window", folded window_def]
    by (simp add: doing_def fullJitter_def Let_def ask_def)
qed

lemma Unix_mono: "a \<le> b \<Longrightarrow> Unix a \<le> Unix b"
  by (simp add: Unix_def second_def zdiv_mono1)

text \<open>
  C15: A content that could not be indexed is retried with backoff, within its budget: with attempts left,
  in a quiet world, \<open>reschedule\<close> charges exactly one attempt, records the cause, and makes the content
  claimable again between now and at most \<open>min(15 min, 30 s * 2^(attempts-1))\<close> later; the drain goes on
  and nothing of any other content changes.
\<close>

theorem reschedule_backs_off:
  assumes "quiet (w_store (ss_world s))" "content_map (wdb (ss_world s)) (c_Hash (wi_Content item)) = Some r"
    and "attempts = c_Attempts (wi_Content item) + 1" "attempts < sd_maxAttempts sd"
    and "\<And>n k. 0 < k \<Longrightarrow> 0 \<le> sd_rnd sd n k \<and> sd_rnd sd n k < k"
    and "clock = sd_now sd (Suc (w_tick (ss_world s)))"
  shows "\<exists>s' u t. reschedule sd bd item (Some e) s = (True, s') \<and>
    content_map (wdb (ss_world s')) (c_Hash (wi_Content item)) =
      Some (r\<lparr>r_attempts := attempts, r_next_retry := Some u, r_last_error := Some (by_text bd e), r_updated := t\<rparr>) \<and>
    Unix clock \<le> u \<and> u \<le> Unix (clock + min defaultBackoffCap (defaultBackoffBase * 2 ^ nat (max 1 attempts - 1))) \<and>
    same_elsewhere (c_Hash (wi_Content item)) (wdb (ss_world s)) (wdb (ss_world s')) \<and>
    sn_Retried (ss_snap s') = Suc (sn_Retried (ss_snap s))"
proof -
  let ?h = "c_Hash (wi_Content item)" and ?m = "by_text bd e" and ?w = "ss_world s"
  have h: "?h \<in> hashes (wdb ?w)" using assms(2) content_map_None [of "wdb ?w" ?h] by simp
  obtain wt where j: "doing (fullJitter attempts defaultBackoffBase defaultBackoffCap (sd_rnd sd)) s = (wt, s\<lparr>ss_world := tick ?w\<rparr>)"
    "0 \<le> wt" "wt < min defaultBackoffCap (defaultBackoffBase * 2 ^ nat (max 1 attempts - 1))"
    by (rule fullJitter_window [OF assms(5)])
  define s2 where "s2 = s\<lparr>ss_world := tick (tick ?w)\<rparr>"
  have n: "now sd (s\<lparr>ss_world := tick ?w\<rparr>) = (clock, s2)"
    by (simp add: now_world assms(6) s2_def tick_def)
  have w2: "w_store (ss_world s2) = w_store ?w" by (simp add: s2_def tick_def)
  obtain t st' where re: "Reschedule ?h attempts (Unix (clock + wt)) ?m (w_store ?w) = (Inr (), st')"
    and db: "st_db st' = update_content ?h (\<lambda>r. r\<lparr>r_attempts := attempts, r_next_retry := Some (Unix (clock + wt)),
      r_last_error := Some ?m, r_updated := t\<rparr>) (wdb ?w)"
    by (rule Reschedule_quiet [OF assms(1) h, of attempts "Unix (clock + wt)" ?m])
  define s3 where "s3 = mark (\<lambda>n. n\<lparr>sn_Retried := Suc (sn_Retried n)\<rparr>) (s2\<lparr>ss_world := (ss_world s2)\<lparr>w_store := st'\<rparr>\<rparr>)"
  have p: "doing (onStore (Reschedule ?h attempts (Unix (clock + wt)) ?m)) s2 = (Inr (), s2\<lparr>ss_world := (ss_world s2)\<lparr>w_store := st'\<rparr>\<rparr>)"
    by (rule doing_onStore) (simp add: w2 re)
  have "retryLater sd ?h attempts ?m s = (True, s3)"
    unfolding retryLater_def by (simp add: j(1) n p s3_def)
  then have "reschedule sd bd item (Some e) s = (True, s3)"
    unfolding reschedule_def Let_def assms(3) [symmetric] using assms(4) by simp
  moreover have "wdb (ss_world s3) = st_db st'" "sn_Retried (ss_snap s3) = Suc (sn_Retried (ss_snap s))"
    by (simp_all add: s3_def s2_def mark_def)
  ultimately show ?thesis
    using j assms(2) by (intro exI [of _ s3] exI [of _ "Unix (clock + wt)"] exI [of _ t])
      (simp add: db content_map_update same_elsewhere_update_content Unix_mono)
qed

text \<open>
  C16: A content out of attempts is given up: in a quiet world, with a well-formed catalog, the attempt that
  reaches the limit is charged, the content is \<open>failed\<close> and never due again, it keeps no chunk, the drain
  goes on and nothing of any other content changes.
\<close>

theorem reschedule_gives_up:
  assumes "quiet (w_store (ss_world s))" "catalog_inv (wdb (ss_world s))"
    and "c_Hash (wi_Content item) \<in> hashes (wdb (ss_world s))"
    and "attempts = c_Attempts (wi_Content item) + 1" "sd_maxAttempts sd \<le> attempts"
  shows "\<exists>s' r. reschedule sd bd item cause s = (True, s') \<and>
    content_map (wdb (ss_world s')) (c_Hash (wi_Content item)) = Some r \<and>
    r_state r = Failed \<and> r_attempts r = attempts \<and> (\<forall>t. \<not> due t r) \<and>
    rows_of (c_Hash (wi_Content item)) (wdb (ss_world s')) = [] \<and>
    same_elsewhere (c_Hash (wi_Content item)) (wdb (ss_world s)) (wdb (ss_world s')) \<and>
    sn_Failed (ss_snap s') = Suc (sn_Failed (ss_snap s))"
proof -
  let ?h = "c_Hash (wi_Content item)" and ?w = "ss_world s" and ?u = "Unix (sd_now sd (w_tick (ss_world s)))"
  define m where "m = (case cause of None \<Rightarrow> ''unknown error'' | Some e \<Rightarrow> by_text bd e)"
  define m2 where "m2 = m @ '' (after '' @ decimal attempts @ '' attempts)''"
  obtain r where r: "content_map (wdb ?w) ?h = Some r" using assms(3) content_map_None [of "wdb ?w" ?h] by auto
  obtain t1 st1 where re: "Reschedule ?h attempts ?u m (w_store ?w) = (Inr (), st1)" "quiet st1"
    and db1: "st_db st1 = update_content ?h (\<lambda>r. r\<lparr>r_attempts := attempts, r_next_retry := Some ?u,
      r_last_error := Some m, r_updated := t1\<rparr>) (wdb ?w)"
    by (rule Reschedule_quiet [OF assms(1,3), of attempts ?u m])
  have h1: "?h \<in> hashes (st_db st1)" "catalog_inv (st_db st1)"
    using assms(2,3) by (simp_all add: db1 hashes_update_content catalog_inv_update_content)
  obtain t2 st2 where mf: "MarkFailed ?h m2 st1 = (Inr (), st2)" "quiet st2"
    and db2: "st_db st2 = drop_chunks {?h} (update_content ?h (\<lambda>r. r\<lparr>r_state := Failed, r_last_error := Some m2, r_updated := t2\<rparr>) (st_db st1))"
    by (rule MarkFailed_quiet [OF re(2) h1, of m2])
  define s1 where "s1 = s\<lparr>ss_world := (tick ?w)\<lparr>w_store := st1\<rparr>\<rparr>"
  define s2 where "s2 = s1\<lparr>ss_world := (ss_world s1)\<lparr>w_store := st2\<rparr>\<rparr>"
  define s3 where "s3 = mark (\<lambda>n. n\<lparr>sn_Failed := Suc (sn_Failed n)\<rparr>) s2"
  have p: "doing (onStore (Reschedule ?h attempts ?u m)) (s\<lparr>ss_world := tick ?w\<rparr>) = (Inr (), s1)"
    using doing_onStore [of "Reschedule ?h attempts ?u m" "s\<lparr>ss_world := tick ?w\<rparr>"] re by (simp add: s1_def tick_def)
  have q: "doing (onStore (MarkFailed ?h m2)) s1 = (Inr (), s2)"
    unfolding s2_def by (rule doing_onStore) (simp add: s1_def mf)
  have "giveUp sd ?h attempts m s = (True, s3)"
    unfolding giveUp_def now_world m2_def [symmetric] by (simp add: p q s3_def)
  then have "reschedule sd bd item cause s = (True, s3)"
    unfolding reschedule_def Let_def m_def [symmetric] assms(4) [symmetric] using assms(5) by simp
  moreover have "wdb (ss_world s3) = st_db st2" "sn_Failed (ss_snap s3) = Suc (sn_Failed (ss_snap s))"
    by (simp_all add: s3_def s2_def s1_def mark_def)
  moreover have "same_elsewhere ?h (wdb ?w) (st_db st2)"
  proof -
    let ?d = "update_content ?h (\<lambda>r. r\<lparr>r_state := Failed, r_last_error := Some m2, r_updated := t2\<rparr>) (st_db st1)"
    have "same_elsewhere ?h (wdb ?w) (st_db st1)" "same_elsewhere ?h (st_db st1) ?d"
      by (simp_all add: db1 same_elsewhere_update_content)
    moreover have "same_elsewhere ?h ?d (st_db st2)"
      unfolding db2 by (rule same_elsewhere_drop_chunks) (simp add: catalog_inv_update_content h1(2))
    ultimately show ?thesis by (blast intro: same_elsewhere_trans [of ?h "wdb ?w" "st_db st1"] same_elsewhere_trans [of ?h "st_db st1" ?d])
  qed
  moreover have "content_map (st_db st2) ?h = Some (r\<lparr>r_attempts := attempts, r_next_retry := Some ?u, r_state := Failed,
      r_last_error := Some m2, r_updated := t2\<rparr>)"
  proof -
    have "content_map (drop_chunks {?h} d) = content_map d" for d by (rule content_map_cong) simp
    then show ?thesis using r by (simp add: db2 db1 content_map_update)
  qed
  moreover have "rows_of ?h (st_db st2) = []" by (simp add: db2 drop_chunks_def rows_of_def filter_empty_conv)
  ultimately show ?thesis
    by (intro exI [of _ s3] exI [of _ "r\<lparr>r_attempts := attempts, r_next_retry := Some ?u, r_state := Failed,
      r_last_error := Some m2, r_updated := t2\<rparr>"]) (simp add: due_def)
qed

theorem reschedule_backs_off_witness:
  "\<exists>s'. reschedule ((demo_sched demo_indexer Defer)\<lparr>sd_maxAttempts := 5\<rparr>) (demo_beyond []) pipe_item (Some ECtx) (startState pipe_world)
     = (True, s') \<and> sn_Retried (ss_snap s') = 1"
proof -
  have "content_map (wdb (ss_world (startState pipe_world))) (c_Hash (wi_Content pipe_item)) = Some (demo_content_row demo_hash Discovered)"
    by (simp add: startState_def content_map_def pipe_db_def demo_content_row_def)
  from reschedule_backs_off [OF _ this, of 3 "(demo_sched demo_indexer Defer)\<lparr>sd_maxAttempts := 5\<rparr>" _ "demo_beyond []" ECtx]
  show ?thesis
    by (auto simp: startState_def demo_sched_def pipe_item_def demo_content_row_def fromContentRow_def emptySnapshot_def pipe_world_def)
qed

theorem reschedule_gives_up_witness:
  "\<exists>s'. reschedule (demo_sched demo_indexer Defer) (demo_beyond []) pipe_item None (startState pipe_world) = (True, s') \<and>
     rows_of demo_hash (wdb (ss_world s')) = [] \<and> sn_Failed (ss_snap s') = 1"
proof -
  have "c_Hash (wi_Content pipe_item) \<in> hashes (wdb (ss_world (startState pipe_world)))"
    by (simp add: startState_def hashes_def pipe_db_def demo_content_row_def)
  from reschedule_gives_up [OF _ _ this, of 3 "demo_sched demo_indexer Defer" "demo_beyond []" None]
  show ?thesis using pipe_inv
    by (auto simp: startState_def demo_sched_def emptySnapshot_def) (auto simp: pipe_item_def demo_content_row_def fromContentRow_def)
qed

section \<open>The probe\<close>

lemma cancelled_result: "cancelled s = (b, s') \<Longrightarrow> ss_nextProbe s' = ss_nextProbe s \<and> w_tick (ss_world s') = w_tick (ss_world s) \<and>
    b = st_done (w_store (ss_world s'))"
  by (auto simp: cancelled_def doing_def onStore_def ctxErr_def split: if_splits list.splits Answer.splits prod.splits)

lemma Prepare_ticks: "Prepare ix w = (r, w') \<Longrightarrow> w_tick w' = Suc (w_tick w)"
  by (auto simp: Prepare_def Let_def onStore_def tick_def split: sum.splits if_splits prod.splits)

text \<open>
  C17: A failed probe is not repeated by the rate of wakes, however long the outage: after any \<open>prepare\<close>
  that ends without an answer under a context still live, when no earlier deferral was still in force (none
  recorded, or its end reached), a deferral stands that ends one recheck interval after a clock reading of
  this very \<open>prepare\<close>, and every later \<open>prepare\<close> whose clock reads less asks the endpoint nothing: it
  answers the same for every indexer, reads only the clock, and leaves the catalog alone.
\<close>

theorem probe_rate_limited:
  assumes "prepare sd s = (None, s1)" "\<forall>u. ss_nextProbe s = Some u \<longrightarrow> u \<le> sd_now sd (w_tick (ss_world s))"
    and "\<not> st_done (w_store (ss_world s1))"
  shows "\<exists>n t. w_tick (ss_world s) < n \<and> n < w_tick (ss_world s1) \<and> t = sd_now sd n + deferRecheckInterval \<and>
    ss_nextProbe s1 = Some t \<and>
    (\<forall>w ix. sd_now sd (w_tick w) < t \<longrightarrow>
       prepare (sd\<lparr>sd_indexer := ix\<rparr>) (s1\<lparr>ss_world := w\<rparr>) = (None, s1\<lparr>ss_world := tick w\<rparr>))"
proof -
  obtain s0 where d: "probeDeferredUntil sd s = (False, s0)" "w_tick (ss_world s) \<le> w_tick (ss_world s0)"
    by (cases "ss_nextProbe s") (use assms(2) in \<open>auto simp: probeDeferredUntil_def now_world tick_def\<close>)
  obtain x s2 where q: "doing (Prepare (sd_indexer sd)) s0 = (x, s2)" by fastforce
  have t2: "w_tick (ss_world s) < w_tick (ss_world s2)"
    using Prepare_ticks [OF doing_result [OF q]] d(2) by simp
  obtain b s3 where c: "cancelled s2 = (b, s3)" by fastforce
  obtain e where e: "x = Inl e" using assms(1) d(1) q by (cases x) (auto simp: prepare_def)
  note p = assms(1) [unfolded prepare_def, simplified d(1) q e c prod.case bool.case sum.case]
  have live: "\<not> b" using p assms(3) cancelled_result [OF c] by (auto split: bool.splits)
  define n where "n = w_tick (ss_world s3)"
  have s1: "s1 = (lastError e (gate GateEmbedder False s3))\<lparr>ss_world := tick (ss_world s3),
      ss_nextProbe := Some (sd_now sd n + deferRecheckInterval)\<rparr>"
    using p live by (simp add: deferProbe_def now_world lastError_def gate_def mark_def n_def)
  have "w_tick (ss_world s) < n" using t2 cancelled_result [OF c] by (simp add: n_def)
  moreover have "n < w_tick (ss_world s1)" by (simp add: s1 n_def tick_def)
  moreover have "ss_nextProbe s1 = Some (sd_now sd n + deferRecheckInterval)" by (simp add: s1)
  ultimately show ?thesis
    by (intro exI [of _ n] exI [of _ "sd_now sd n + deferRecheckInterval"])
      (simp add: prepare_def probeDeferredUntil_def now_world)
qed

theorem probe_rate_limited_witness:
  "\<exists>s1. prepare (demo_sched demo_indexer Defer) (s1\<lparr>ss_world := pipe_world\<rparr>) = (None, s1\<lparr>ss_world := tick pipe_world\<rparr>)"
proof -
  let ?sd = "demo_sched deaf_indexer Defer" and ?s = "(startState pipe_world)\<lparr>ss_nextProbe := Some 0\<rparr>"
  define s1 where "s1 = snd (prepare ?sd ?s)"
  have p: "prepare ?sd ?s = (None, s1)" "\<not> st_done (w_store (ss_world s1))"
    by (simp_all add: s1_def prepare_def probeDeferredUntil_def startState_def doing_def Prepare_def demo_sched_def
        deaf_indexer_def demo_indexer_def demo_embedder_def cancelled_def onStore_def ctxErr_def pipe_world_def demo_store_def tick_def
        deferProbe_def now_def ask_def lastError_def gate_def mark_def)
  have n: "0 \<le> sd_now ?sd n" for n by (simp add: demo_sched_def second_def)
  have "\<forall>u. ss_nextProbe ?s = Some u \<longrightarrow> u \<le> sd_now ?sd (w_tick (ss_world ?s))" using n by simp
  from probe_rate_limited [OF p(1) this p(2)] obtain m t where t: "t = sd_now ?sd m + deferRecheckInterval"
    "\<forall>w ix. sd_now ?sd (w_tick w) < t \<longrightarrow> prepare (?sd\<lparr>sd_indexer := ix\<rparr>) (s1\<lparr>ss_world := w\<rparr>) = (None, s1\<lparr>ss_world := tick w\<rparr>)"
    by blast
  have "sd_now ?sd (w_tick pipe_world) < t"
    unfolding t(1) by (simp add: demo_sched_def pipe_world_def deferRecheckInterval_def minute_def second_def)
  moreover have "?sd\<lparr>sd_indexer := demo_indexer\<rparr> = demo_sched demo_indexer Defer" by (simp add: demo_sched_def)
  ultimately show ?thesis using t(2) by metis
qed

text \<open>
  A transient outcome is charged only if the endpoint still answers: when the probe \<open>retry\<close> makes fails,
  the drain stops, the catalog is as it was and no attempt is charged.
\<close>

theorem outage_is_not_charged:
  assumes "pr_Outcome res = OutcomeTransient"
    and "em_Query (ix_Embedder (sd_indexer sd)) (w_tick (ss_world s)) ''bsearch dimension probe'' = Inl e"
  shows "\<exists>s'. onOutcome sd bd h item res s = ((False, 0), s') \<and> wdb (ss_world s') = wdb (ss_world s)"
proof -
  have q: "doing (Prepare (sd_indexer sd)) s = (Inl (EProbe e), s\<lparr>ss_world := tick (ss_world s)\<rparr>)"
    using assms(2) by (simp add: doing_def Prepare_def)
  obtain b s2 where c: "cancelled (s\<lparr>ss_world := tick (ss_world s)\<rparr>) = (b, s2)" by fastforce
  have "wdb (ss_world s2) = wdb (ss_world s)"
    using doing_result [OF c [unfolded cancelled_def]] onStore_wdb [of ctxErr "tick (ss_world s)"] by simp
  then show ?thesis using q c assms(1) by (cases b) (auto simp: onOutcome_def retry_def)
qed

theorem outage_is_not_charged_witness:
  "\<exists>s'. onOutcome (demo_sched deaf_indexer Defer) (demo_beyond []) demo_hash pipe_item
      \<lparr>pr_Outcome = OutcomeTransient, pr_Err = Some (EEmbed ''x''), pr_Warnings = 0\<rparr> (startState pipe_world) = ((False, 0), s') \<and>
    wdb (ss_world s') = pipe_db"
  using outage_is_not_charged [of "\<lparr>pr_Outcome = OutcomeTransient, pr_Err = Some (EEmbed ''x''), pr_Warnings = 0\<rparr>"
      "demo_sched deaf_indexer Defer" "startState pipe_world" "''connection refused''"]
  by (simp add: demo_sched_def deaf_indexer_def demo_embedder_def startState_def)

section \<open>The idle drain\<close>

lemma ClaimBatch_none:
  assumes "quiet s" "\<forall>r \<in> set (db_content (st_db s)). \<not> due t r"
  obtains s' where "ClaimBatch t k s = (Inr [], s')" "st_db s' = st_db s" "quiet s'"
proof -
  have none: "claimOrder t (st_db s) = []"
  proof (rule ccontr)
    assume "claimOrder t (st_db s) \<noteq> []"
    then obtain r where "r \<in> set (claimOrder t (st_db s))" using last_in_set by blast
    then show False using assms(2) by (auto simp: claim_rows(1))
  qed
  let ?q = "\<lambda>db. Inr (map fromContentRow (take (nat (k - k div agingShare)) (rev (claimOrder t db))))"
  let ?o = "\<lambda>db. Inr (map fromContentRow (take (nat (k div agingShare)) (claimOrder t db)))"
  define s1 where "s1 = snd (withReader ?q s)"
  have s1: "withReader ?q s = (Inr [], s1)" "st_db s1 = st_db s" "quiet s1"
    using withReader_quiet [OF assms(1), of ?q] none by (simp_all add: s1_def prod_eq_iff)
  define s2 where "s2 = snd (withReader ?o s1)"
  have s2: "withReader ?o s1 = (Inr [], s2)" "st_db s2 = st_db s" "quiet s2"
    using withReader_quiet [OF s1(3), of ?o] none s1(2) by (simp_all add: s2_def prod_eq_iff)
  show thesis
    by (rule that [of "if k \<le> 0 then s else if k div agingShare > 0 then s2 else s1"])
      (use assms(1) s1 s2 in \<open>auto simp: ClaimBatch_def Let_def\<close>)
qed

text \<open>
  C18: An up-to-date corpus costs no network call: when what can go stale has been swept and nothing is due,
  a drain in a quiet world is \<open>idle\<close> after one claim. It does not depend on the embedder, leaves the
  catalog as it was, and reads nothing but the clock.
\<close>

theorem idle_drain_is_silent:
  assumes "quiet (w_store (ss_world s))" "ss_sweptVersions s" "ss_sweptDims s" "ss_pending s = []"
    and "\<And>n. by_watch bd n = []"
    and "\<forall>r \<in> set (db_content (wdb (ss_world s))). \<not> due (Unix (sd_now sd (w_tick (ss_world s)))) r"
  shows "\<exists>s'. drain (sd\<lparr>sd_indexer := ix\<rparr>) bd s = Some s' \<and> sn_Gate (ss_snap s') = GateIdle \<and>
    wdb (ss_world s') = wdb (ss_world s) \<and> w_tick (ss_world s') = Suc (w_tick (ss_world s))"
proof -
  have live: "cancelled t = (False, t)" if "quiet (w_store (ss_world t))" for t
    using that by (auto simp: cancelled_def doing_def onStore_def ctxErr_def quiet_def split: list.splits Answer.splits)
  let ?sd = "sd\<lparr>sd_indexer := ix\<rparr>" and ?w = "ss_world s" and ?t = "Unix (sd_now sd (w_tick (ss_world s)))"
  have rec: "reconcilePending ?sd bd s = s"
    using assms(4,5) by (simp add: reconcilePending_def live [OF assms(1)] arrivals_def takePending_def)
  obtain st where c: "ClaimBatch ?t (sd_batchSize sd) (w_store ?w) = (Inr [], st)" "st_db st = wdb ?w"
    by (rule ClaimBatch_none [OF assms(1,6), of "sd_batchSize sd"])
  define s3 where "s3 = s\<lparr>ss_world := (tick ?w)\<lparr>w_store := st\<rparr>\<rparr>"
  have q: "doing (onStore (ClaimBatch ?t (sd_batchSize sd))) (s\<lparr>ss_world := tick ?w\<rparr>) = (Inr [], s3)"
    using doing_onStore [of "ClaimBatch ?t (sd_batchSize sd)" "s\<lparr>ss_world := tick ?w\<rparr>"] c by (simp add: s3_def tick_def)
  have "drainStep ?sd bd startDrain s = (None, gate (idleGate 0) False s3)"
    using assms(2,3) by (simp add: drainStep_def live [OF assms(1)] rec Let_def now_world q startDrain_def) (simp add: s3_def)
  then have "drain ?sd bd s = Some (gate (idleGate 0) False s3)"
    by (simp add: drain_def drainLoop.simps)
  then show ?thesis by (simp add: c(2) s3_def gate_def mark_def idleGate_def tick_def)
qed

theorem idle_drain_is_silent_witness:
  "\<exists>s'. drain (demo_sched deaf_indexer Defer) (demo_beyond [])
      ((startState (pipe_world\<lparr>w_store := demo_store empty_db\<rparr>))\<lparr>ss_sweptVersions := True, ss_sweptDims := True\<rparr>) = Some s' \<and>
    sn_Gate (ss_snap s') = GateIdle \<and> w_tick (ss_world s') = 1"
  using idle_drain_is_silent [of "(startState (pipe_world\<lparr>w_store := demo_store empty_db\<rparr>))\<lparr>ss_sweptVersions := True, ss_sweptDims := True\<rparr>"
      "demo_beyond []" "demo_sched demo_indexer Defer" deaf_indexer]
  by (auto simp: startState_def demo_beyond_def demo_sched_def pipe_world_def empty_db_def)

section \<open>What an unreadable content hides\<close>

lemma currentVecTable_matching:
  assumes "currentVecTable db = Inr (name, want)"
  shows "matching want (generations db) \<noteq> {}"
proof -
  obtain d where "map_of (db_vec_descs db) name = Some (Some d)" "normalizeDesc d = want"
    using assms by (auto simp: currentVecTable_def split: option.splits if_splits)
  then show ?thesis by (force simp: matching_def dest: map_of_SomeD)
qed

text \<open>A probe of an endpoint that answers, when the current generation is that of the spec.\<close>

lemma Prepare_steady:
  assumes "quiet (w_store w)" "catalog_inv (wdb w)" "es_Model (ix_spec ix) \<noteq> ''''"
    and probe: "em_Query (ix_Embedder ix) (w_tick w) ''bsearch dimension probe'' = Inr vec" "vec \<noteq> []" "length vec \<le> 8192"
    and cur: "currentVecTable (wdb w) = Inr (table, wantDesc (ix_spec ix) (int (length vec)))"
  obtains w' table' where "Prepare ix w = (Inr (int (length vec)), w')" "quiet (w_store w')" "catalog_inv (wdb w')"
    "db_content (wdb w') = db_content (wdb w)" "db_documents (wdb w') = db_documents (wdb w)"
    "currentVecTable (wdb w') = Inr (table', wantDesc (ix_spec ix) (int (length vec)))"
proof -
  let ?want = "wantDesc (ix_spec ix) (int (length vec))" and ?s = "w_store (tick w)"
  have s: "quiet ?s" "st_db ?s = wdb w" using assms(1) by (simp_all add: tick_def)
  obtain t where tx: "fst (withTx (ensureVecTableTx ?want) ?s) = map_sum id snd (ensureVecTableTx ?want t (wdb w))"
    "st_db (snd (withTx (ensureVecTableTx ?want) ?s)) =
       (case ensureVecTableTx ?want t (wdb w) of Inl _ \<Rightarrow> wdb w | Inr (db, _) \<Rightarrow> db)"
    "quiet (snd (withTx (ensureVecTableTx ?want) ?s))"
    using withTx_quiet [OF s(1)] s(2) by metis
  have op: "EnsureVecTable (ix_spec ix) (int (length vec)) ?s = withTx (ensureVecTableTx ?want) ?s"
    using assms(3) probe(2,3) by (cases vec) (simp_all add: EnsureVecTable_def)
  show thesis
    using assms(2)
  proof (cases rule: ensureVecTableTx_cases [of "wdb w" ?want t])
    case (reuse name)
    define w' where "w' = (tick w)\<lparr>w_store := snd (withTx (ensureVecTableTx ?want) ?s)\<rparr>"
    have db: "wdb w' = (wdb w)\<lparr>db_vec_descs := refreshed ?want (outdated ?want (generations (wdb w))) (db_vec_descs (wdb w)),
        db_vec_current := Some name\<rparr>" using tx(2) reuse(2) by (simp add: w'_def)
    have "fst (withTx (ensureVecTableTx ?want) ?s) = Inr ()" using tx(1) reuse(2) by simp
    then have "Prepare ix w = (Inr (int (length vec)), w')"
      using probe(1,2) op by (cases "withTx (ensureVecTableTx ?want) ?s") (simp add: Prepare_def onStore_def w'_def)
    moreover have "quiet (w_store w')" using tx(3) by (simp add: w'_def)
    moreover have "catalog_inv (wdb w')"
      using catalog_inv_ensureVecTableTx [OF assms(2) reuse(2)] by (simp only: db)
    moreover have "db_content (wdb w') = db_content (wdb w)" "db_documents (wdb w') = db_documents (wdb w)" by (simp_all only: db) simp_all
    moreover have "currentVecTable (wdb w') = Inr (name, ?want)"
      unfolding db by (rule reuse_current [OF _ reuse(1)]) (use assms(2) in \<open>simp add: catalog_inv_def\<close>)
    ultimately show thesis by (rule that)
  qed (use currentVecTable_matching [OF cur] in simp_all)
qed

lemma ClaimBatch_any_time:
  assumes "quiet s" "quiet s'" "db_content (st_db s') = db_content (st_db s)"
  shows "fst (ClaimBatch t k s') = fst (ClaimBatch t k s)"
proof (cases "0 < k")
  case True
  have "claimRows t k (st_db s') = claimRows t k (st_db s)"
    using assms(3) by (simp add: claimRows_def claimOrder_def)
  then show ?thesis using ClaimBatch_rows(1) [OF assms(1) True] ClaimBatch_rows(1) [OF assms(2) True] by simp
qed (simp add: ClaimBatch_def)

lemma ClaimBatch_quiet_keeps:
  assumes "quiet s" "ClaimBatch t k s = (r, s')"
  shows "quiet s'" "st_db s' = st_db s"
  using assms ClaimBatch_rows(2) [OF assms(1), of k t] ClaimBatch_db [of t k s]
  by (cases "0 < k"; simp add: ClaimBatch_def)+

lemma readLoop_unreadable:
  assumes "\<forall>p \<in> set ps. \<forall>n. isl (rd n p)"
  shows "\<exists>e n. readLoop rd h ps f m w = (Inl (e, m), w\<lparr>w_tick := n\<rparr>)"
  using assms
proof (induction ps arbitrary: f w)
  case Nil
  show ?case by (intro exI [of _ f] exI [of _ "w_tick w"]) simp
next
  case (Cons p ps)
  obtain e where e: "rd (w_tick w) p = Inl e" using Cons.prems by (metis isl_def list.set_intros(1))
  show ?case using Cons.IH [of "case f of None \<Rightarrow> Some e | Some x \<Rightarrow> Some x" "tick w"] Cons.prems
    by (simp add: e tick_def)
qed

text \<open>A scheduler at rest over the contents and documents of a catalog.\<close>

definition blocked :: "Indexer \<Rightarrow> DB \<Rightarrow> int \<Rightarrow> SState \<Rightarrow> bool" where
  "blocked ix db dims s \<longleftrightarrow>
     quiet (w_store (ss_world s)) \<and> catalog_inv (wdb (ss_world s)) \<and>
     db_content (wdb (ss_world s)) = db_content db \<and> db_documents (wdb (ss_world s)) = db_documents db \<and>
     (\<exists>table. currentVecTable (wdb (ss_world s)) = Inr (table, wantDesc (ix_spec ix) dims)) \<and>
     ss_sweptVersions s \<and> ss_sweptDims s \<and> ss_pending s = [] \<and> ss_nextProbe s = None"

lemma blocked_update:
  "blocked ix db dims s \<Longrightarrow> quiet st \<Longrightarrow> st_db st = wdb (ss_world s) \<Longrightarrow>
     blocked ix db dims (s\<lparr>ss_world := w\<lparr>w_store := st\<rparr>\<rparr>)"
  by (simp add: blocked_def)

lemma blocked_tick: "blocked ix db dims (s\<lparr>ss_world := tick (ss_world s)\<rparr>) = blocked ix db dims s"
  by (simp add: blocked_def tick_def)

lemma blocked_snap: "blocked ix db dims (s\<lparr>ss_snap := x\<rparr>) = blocked ix db dims s"
  by (simp add: blocked_def)

lemma blocked_live: "blocked ix db dims s \<Longrightarrow> cancelled s = (False, s)"
  by (auto simp: blocked_def cancelled_def doing_def onStore_def ctxErr_def quiet_def split: list.splits Answer.splits)

lemma blocked_pending: "blocked ix db dims s \<Longrightarrow> (\<And>n. by_watch bd n = []) \<Longrightarrow> reconcilePending sd bd s = s"
  by (simp add: reconcilePending_def blocked_live arrivals_def takePending_def) (simp add: blocked_def)

text \<open>A content none of whose copies can be read is handled without a trace.\<close>

lemma processOne_unread:
  assumes b: "blocked ix db dims s" and watch: "\<And>n. by_watch bd n = []" and h: "h \<in> hashes db"
    and unread: "\<And>d n. d \<in> set (db_documents db) \<Longrightarrow> d_hash d = Some h \<Longrightarrow> isl (by_read bd n (d_path d))"
  obtains s' where "processOne sd bd sv h s = ((True, True, of_bool (\<exists>d \<in> set (db_documents db). d_hash d = Some h)), s')"
    "blocked ix db dims s'"
proof -
  have q: "quiet (w_store (ss_world s))" using b by (simp add: blocked_def)
  obtain r st where g: "GetWork h (w_store (ss_world s)) = (r, st)" by fastforce
  have "st = snd (GetWork h (w_store (ss_world s)))" using g by simp
  then have st: "quiet st" "st_db st = wdb (ss_world s)"
    by (simp_all add: GetWork_def withReader_quiet(2) [OF q])
  define s2 where "s2 = s\<lparr>ss_world := (ss_world s)\<lparr>w_store := st\<rparr>\<rparr>"
  have b2: "blocked ix db dims s2" unfolding s2_def by (rule blocked_update [OF b st])
  have get: "doing (onStore (GetWork h)) s = (r, s2)" unfolding s2_def by (rule doing_onStore) (rule g)
  note step = processOne_def [of sd bd sv h s, unfolded blocked_live [OF b] prod.case bool.case blocked_pending [OF b watch] get]
  have hold: "holders h (wdb (ss_world s)) = holders h db" using b by (simp add: holders_def blocked_def)
  have "h \<in> hashes (wdb (ss_world s))" using h b by (simp add: hashes_def blocked_def)
  then obtain row where row: "content_map (wdb (ss_world s)) h = Some row" using content_map_None by fastforce
  have r: "r = (case map d_path (holders h db) of [] \<Rightarrow> Inl ErrContentGone
      | p # ps \<Rightarrow> Inr \<lparr>wi_Content = fromContentRow row, wi_Path = p, wi_Paths = p # ps\<rparr>)"
  proof -
    have "r = fst (GetWork h (w_store (ss_world s)))" using g by simp
    then show ?thesis by (simp add: GetWork_def withReader_quiet(1) [OF q] content_map_find row hold)
  qed
  show thesis
  proof (cases "map d_path (holders h db)")
    case Nil
    then have "\<not> (\<exists>d \<in> set (db_documents db). d_hash d = Some h)" using set_holders [of h db] by auto
    then show thesis using that [of s2] b2 r Nil by (simp add: step blocked_live [OF b2] contentGone_def)
  next
    case (Cons p ps)
    let ?item = "\<lparr>wi_Content = fromContentRow row, wi_Path = p, wi_Paths = p # ps\<rparr>"
    have ref: "\<exists>d \<in> set (db_documents db). d_hash d = Some h" using Cons set_holders [of h db] by force
    have "\<forall>p' \<in> set (p # ps). \<forall>n. isl (by_read bd n p')"
      unfolding Cons [symmetric] using unread by (auto simp: set_holders)
    then obtain e n where rd: "readLoop (by_read bd) (r_hash row) (p # ps) None False (ss_world s2) = (Inl (e, False), (ss_world s2)\<lparr>w_tick := n\<rparr>)"
      using readLoop_unreadable by metis
    define s3 where "s3 = s2\<lparr>ss_world := (ss_world s2)\<lparr>w_tick := n\<rparr>\<rparr>"
    have b3: "blocked ix db dims s3" using b2 by (simp add: blocked_def s3_def)
    have "ProcessContent (by_read bd) (sd_indexer sd) ?item sv (ss_world s2) =
        (Inr \<lparr>pr_Outcome = OutcomeSkipped, pr_Err = map_option EFs e, pr_Warnings = 0\<rparr>, ss_world s3)"
      using rd by (simp add: ProcessContent_def readVerified_def mergeVersions_def Let_def s3_def fromContentRow_def del: readLoop.simps)
    then have "doing (ProcessContent (by_read bd) (sd_indexer sd) ?item sv) s2 =
        (Inr \<lparr>pr_Outcome = OutcomeSkipped, pr_Err = map_option EFs e, pr_Warnings = 0\<rparr>, s3)"
      by (simp add: doing_def s3_def)
    then have "processOne sd bd sv h s = ((True, True, 1), mark (\<lambda>x. x\<lparr>sn_Skipped := Suc (sn_Skipped x)\<rparr>) s3)"
      using r Cons by (simp add: step onOutcome_def)
    then show thesis using that ref b3 by (simp add: mark_def blocked_snap)
  qed
qed

text \<open>A content some document refers to; a content with no copy that can be read.\<close>

definition referencedIn :: "DB \<Rightarrow> hash \<Rightarrow> bool" where
  "referencedIn db h \<longleftrightarrow> (\<exists>d \<in> set (db_documents db). d_hash d = Some h)"

definition unreadable :: "Beyond \<Rightarrow> DB \<Rightarrow> hash \<Rightarrow> bool" where
  "unreadable bd db h \<longleftrightarrow> (\<forall>d \<in> set (db_documents db). d_hash d = Some h \<longrightarrow> (\<forall>n. isl (by_read bd n (d_path d))))"

lemma process_unread:
  assumes "blocked ix db dims s" "\<And>n. by_watch bd n = []" "\<forall>h \<in> set hs. h \<in> hashes db \<and> unreadable bd db h"
  shows "\<exists>s' seen'. process sd bd sv hs seen k s = ((True, seen', k + length (filter (referencedIn db) hs)), s') \<and>
    set seen' = set hs \<union> set seen \<and> blocked ix db dims s'"
  using assms(1,3)
proof (induction hs arbitrary: seen k s)
  case (Cons h hs)
  have h: "h \<in> hashes db" "unreadable bd db h" using Cons.prems(2) by simp_all
  obtain s1 where p: "processOne sd bd sv h s = ((True, True, of_bool (referencedIn db h)), s1)" "blocked ix db dims s1"
    by (rule processOne_unread [OF Cons.prems(1) assms(2) h(1), folded referencedIn_def])
      (use h(2) in \<open>auto simp: unreadable_def\<close>)
  from Cons.IH [OF p(2), of "h # seen" "k + of_bool (referencedIn db h)"] Cons.prems(2) show ?case
    by (auto simp: p(1) Let_def)
qed simp

text \<open>What a drain over a batch of unreadable contents comes to.\<close>

lemma drain_unread:
  assumes b: "blocked (sd_indexer sd) db (int (length vec)) s" and watch: "\<And>n. by_watch bd n = []"
    and claims: "\<And>s' n. blocked (sd_indexer sd) db (int (length vec)) s' \<Longrightarrow>
      fst (ClaimBatch (Unix (sd_now sd n)) (sd_batchSize sd) (w_store (ss_world s'))) = Inr claimed"
    and unread: "\<forall>c \<in> set claimed. c_Hash c \<in> hashes db \<and> unreadable bd db (c_Hash c)"
    and some: "\<exists>c \<in> set claimed. referencedIn db (c_Hash c)"
    and probe: "\<And>n. em_Query (ix_Embedder (sd_indexer sd)) n ''bsearch dimension probe'' = Inr vec" "vec \<noteq> []" "length vec \<le> 8192"
    and model: "es_Model (ix_spec (sd_indexer sd)) \<noteq> ''''" and power: "\<And>n. sd_power sd n \<noteq> Defer"
  shows "\<exists>s'. drain sd bd s = Some s' \<and> sn_Gate (ss_snap s') = GateUnreadable \<and> blocked (sd_indexer sd) db (int (length vec)) s'"
proof -
  let ?B = "blocked (sd_indexer sd) db (int (length vec))" and ?hs = "map c_Hash claimed"
  let ?claim = "\<lambda>s'. doing (onStore (ClaimBatch (Unix (sd_now sd (w_tick (ss_world s')))) (sd_batchSize sd))) (s'\<lparr>ss_world := tick (ss_world s')\<rparr>)"
  have claim: "\<exists>s3. ?claim s' = (Inr claimed, s3) \<and> ?B s3" if s': "?B s'" for s'
  proof -
    let ?t = "Unix (sd_now sd (w_tick (ss_world s')))" and ?s = "s'\<lparr>ss_world := tick (ss_world s')\<rparr>"
    have bt: "?B ?s" using s' by (simp only: blocked_tick)
    have q: "quiet (w_store (ss_world ?s))" using bt by (simp add: blocked_def)
    obtain st where c: "ClaimBatch ?t (sd_batchSize sd) (w_store (ss_world ?s)) = (Inr claimed, st)"
      using claims [OF bt] by (metis prod.collapse)
    show ?thesis
      using doing_onStore [of "ClaimBatch ?t (sd_batchSize sd)" ?s, OF c]
        blocked_update [OF bt ClaimBatch_quiet_keeps [OF q c]] by blast
  qed
  have swept: "ss_sweptVersions s'" "ss_sweptDims s'" if "?B s'" for s' using that by (simp_all add: blocked_def)
  note step = drainStep_def [unfolded Let_def]
  obtain s3 where c3: "?claim s = (Inr claimed, s3)" "?B s3" using claim [OF b] by blast
  have w3: "quiet (w_store (ss_world s3))" "catalog_inv (wdb (ss_world s3))" "ss_nextProbe s3 = None"
    using c3(2) by (simp_all add: blocked_def)
  obtain table where cur: "currentVecTable (wdb (ss_world s3)) = Inr (table, wantDesc (ix_spec (sd_indexer sd)) (int (length vec)))"
    using c3(2) by (auto simp: blocked_def)
  obtain w' table' where p: "Prepare (sd_indexer sd) (ss_world s3) = (Inr (int (length vec)), w')" "quiet (w_store w')" "catalog_inv (wdb w')"
    "db_content (wdb w') = db_content (wdb (ss_world s3))" "db_documents (wdb w') = db_documents (wdb (ss_world s3))"
    "currentVecTable (wdb w') = Inr (table', wantDesc (ix_spec (sd_indexer sd)) (int (length vec)))"
    by (rule Prepare_steady [OF w3(1,2) model probe cur])
  define s4 where "s4 = s3\<lparr>ss_world := w', ss_nextProbe := None\<rparr>"
  have b4: "?B s4" using c3(2) p by (simp add: blocked_def s4_def)
  have prep: "prepare sd s3 = (Some (int (length vec)), s4)"
    using w3(3) p(1) by (simp add: prepare_def probeDeferredUntil_def doing_def clearProbeDeferral_def s4_def)
  have unread': "\<forall>h \<in> set ?hs. h \<in> hashes db \<and> unreadable bd db h" using unread by simp
  define d1 where "d1 = startDrain\<lparr>dn_dims := int (length vec), dn_prepared := True\<rparr>"
  obtain s5 seen k where pr: "process sd bd (StageVersions (sd_indexer sd) (int (length vec))) ?hs [] 0 s4 = ((True, seen, k), s5)"
    "k = length (filter (referencedIn db) ?hs)" "set seen = set ?hs" "?B s5"
    using process_unread [OF b4 watch unread', of sd "StageVersions (sd_indexer sd) (int (length vec))" "[]" 0] by auto
  have k: "0 < k" using some by (auto simp: pr(2) filter_empty_conv)
  define s6 where "s6 = (gate GateNone False s5)\<lparr>ss_world := tick (ss_world s5)\<rparr>"
  have b6: "?B s6" using pr(4) by (simp add: blocked_def s6_def gate_def mark_def tick_def)
  have pw: "doing (ask (sd_power sd)) (gate GateNone False s5) = (sd_power sd (w_tick (ss_world s5)), s6)"
    by (simp add: doing_ask s6_def gate_def mark_def)
  define d2 where "d2 = d1\<lparr>dn_seen := seen, dn_skipped := k\<rparr>"
  have "?hs \<noteq> []" using some by auto
  then have "drainBatch sd bd ?hs d1 s4 = (Some d2, s6)"
    using pr(1) pw power [of "w_tick (ss_world s5)"]
    by (cases "sd_power sd (w_tick (ss_world s5))") (simp_all add: drainBatch_def d1_def d2_def startDrain_def)
  then have one: "drainStep sd bd startDrain s = (Some d2, s6)"
    using \<open>?hs \<noteq> []\<close> c3(1) prep swept [OF b] swept [OF b4]
    by (simp add: step blocked_live [OF b] blocked_pending [OF b watch] now_world startDrain_def d1_def)
  obtain s7 where c7: "?claim s6 = (Inr claimed, s7)" "?B s7" using claim [OF b6] by blast
  have none: "filter (\<lambda>h. h \<notin> set (dn_seen d2)) ?hs = []" using pr(3) by (auto simp: d2_def filter_empty_conv)
  have two: "drainStep sd bd d2 s6 = (None, gate (idleGate k) False s7)"
    using c7(1) none swept [OF b6] swept [OF c7(2)]
    by (simp add: step blocked_live [OF b6] blocked_pending [OF b6 watch] now_world) (simp add: d2_def)
  have "drain sd bd s = Some (gate (idleGate k) False s7)"
    unfolding drain_def by (simp add: drainLoop.simps one two)
  then show ?thesis
    using c7(2) k by (auto simp: gate_def mark_def blocked_snap idleGate_def)
qed

text \<open>
  C22: A skipped content stays claimable, and a claim is limited, whatever the batch size: when every content
  of the batch a claim returns has only unreadable copies (and one of them is referenced), the drain ends as
  \<open>unreadable\<close> after that batch, having changed no content row, and so does the drain after it, and each
  one after that, for ever, and the next claim returns the same batch again: a content due outside the batch
  is never claimed while those copies stay unreadable, readable or not. It is shown of a scheduler at rest: a store that answers, both stale sweeps
  made, no path pending or arriving, no probe deferred, power never asking to defer, an endpoint answering
  the probe with the dimensions of the current generation, and a batch that does not depend on the time.
\<close>

theorem unreadable_hides_due:
  assumes "quiet (w_store (ss_world s))" "catalog_inv (wdb (ss_world s))"
    and "ss_sweptVersions s" "ss_sweptDims s" "ss_pending s = []" "ss_nextProbe s = None" "\<And>n. by_watch bd n = []"
    and "\<And>n. fst (ClaimBatch (Unix (sd_now sd n)) (sd_batchSize sd) (w_store (ss_world s))) = Inr claimed"
    and "\<forall>c \<in> set claimed. unreadable bd (wdb (ss_world s)) (c_Hash c)"
    and "\<exists>c \<in> set claimed. referencedIn (wdb (ss_world s)) (c_Hash c)"
    and "\<And>n. em_Query (ix_Embedder (sd_indexer sd)) n ''bsearch dimension probe'' = Inr vec" "vec \<noteq> []" "length vec \<le> 8192"
    and "es_Model (ix_spec (sd_indexer sd)) \<noteq> ''''" "\<And>n. sd_power sd n \<noteq> Defer"
    and "currentVecTable (wdb (ss_world s)) = Inr (table, wantDesc (ix_spec (sd_indexer sd)) (int (length vec)))"
  shows "\<exists>run. run 0 = s \<and> (\<forall>k. drain sd bd (run k) = Some (run (Suc k)) \<and>
    sn_Gate (ss_snap (run (Suc k))) = GateUnreadable \<and>
    db_content (wdb (ss_world (run (Suc k)))) = db_content (wdb (ss_world s)) \<and>
    (\<forall>n. fst (ClaimBatch (Unix (sd_now sd n)) (sd_batchSize sd) (w_store (ss_world (run (Suc k))))) = Inr claimed))"
proof -
  let ?db = "wdb (ss_world s)"
  let ?B = "blocked (sd_indexer sd) ?db (int (length vec))"
  have b: "?B s" using assms(1-6,16) by (simp add: blocked_def)
  have claims: "fst (ClaimBatch (Unix (sd_now sd n)) (sd_batchSize sd) (w_store (ss_world s'))) = Inr claimed" if "?B s'" for s' n
    using ClaimBatch_any_time [OF assms(1), of "w_store (ss_world s')"] that assms(8) by (simp add: blocked_def)
  obtain st where "ClaimBatch (Unix (sd_now sd 0)) (sd_batchSize sd) (w_store (ss_world s)) = (Inr claimed, st)"
    using assms(8) [of 0] by (metis prod.collapse)
  then have "\<forall>c \<in> set claimed. c_Hash c \<in> hashes ?db \<and> unreadable bd ?db (c_Hash c)"
    using ClaimBatch_hashes assms(9) by blast
  then have next_run: "\<exists>t. ?B t \<and> drain sd bd s' = Some t \<and> sn_Gate (ss_snap t) = GateUnreadable" if "?B s'" for s'
    using drain_unread [OF that assms(7) claims _ assms(10-15)] by blast
  define run where "run = rec_nat s (\<lambda>_ x. SOME t. ?B t \<and> drain sd bd x = Some t \<and> sn_Gate (ss_snap t) = GateUnreadable)"
  have run: "?B (run (Suc k)) \<and> drain sd bd (run k) = Some (run (Suc k)) \<and> sn_Gate (ss_snap (run (Suc k))) = GateUnreadable"
    if "?B (run k)" for k
    using someI_ex [OF next_run [OF that]] by (simp add: run_def)
  have all: "?B (run k)" for k by (induction k) (use b run in \<open>simp_all add: run_def\<close>)
  have "run 0 = s" by (simp add: run_def)
  moreover have "db_content (wdb (ss_world (run (Suc k)))) = db_content ?db" for k using all [of "Suc k"] by (simp add: blocked_def)
  ultimately show ?thesis using run [OF all] claims [OF all] by blast
qed

text \<open>A batch of four: the three newest contents and the oldest cannot be read, the fifth could.\<close>

definition hidden_rows :: "contentRow list" where
  "hidden_rows = map (\<lambda>(h, t). (demo_content_row h Discovered)\<lparr>r_updated := t\<rparr>)
     [(''h1'', 1), (''h2'', 2), (''h3'', 3), (''h4'', 4), (''h5'', 5)]"

definition hidden_db :: DB where
  "hidden_db = empty_db\<lparr>
     db_documents := map (\<lambda>(p, h). \<lparr>d_path = p, d_hash = Some h, d_unread = None, d_size = 2, d_mtime = 7\<rparr>)
       [(''/a'', ''h2''), (''/v'', ''h1''), (''/w'', ''h3''), (''/x'', ''h4''), (''/y'', ''h5'')],
     db_content := hidden_rows,
     db_vec_tables := [(''vec_chunks_1'', [])],
     db_vec_descs := [(''vec_chunks_1'', Some (wantDesc demo_spec 2))],
     db_vec_current := Some ''vec_chunks_1''\<rparr>"

definition hidden_state :: SState where
  "hidden_state = (startState \<lparr>w_store = demo_store hidden_db, w_tick = 0\<rparr>)\<lparr>ss_sweptVersions := True, ss_sweptDims := True\<rparr>"

lemma hidden_order: "claimOrder t hidden_db = hidden_rows"
proof -
  have "filter (due t) (db_content hidden_db) = hidden_rows"
    by (simp add: hidden_db_def hidden_rows_def due_def demo_content_row_def)
  moreover have "sort_key (\<lambda>r. (r_updated r, r_hash r)) hidden_rows = hidden_rows"
    by (simp add: hidden_rows_def demo_content_row_def)
  ultimately show ?thesis by (simp add: claimOrder_def)
qed

lemma hidden_claim:
  "map c_Hash (projr (fst (ClaimBatch t 4 (demo_store hidden_db)))) = [''h5'', ''h4'', ''h3'', ''h1'']"
  "fst (ClaimBatch t 4 (demo_store hidden_db)) = fst (ClaimBatch 0 4 (demo_store hidden_db))"
  by (simp_all add: ClaimBatch_rows(1) claimRows_def hidden_order claimRecent_def claimAging_def agingShare_def)
   (simp add: hidden_rows_def demo_content_row_def Let_def)

theorem unreadable_hides_due_witness:
  "\<exists>s'. drain ((demo_sched demo_indexer (Every minute))\<lparr>sd_batchSize := 4\<rparr>) (demo_beyond []) hidden_state = Some s' \<and>
     sn_Gate (ss_snap s') = GateUnreadable \<and> (\<exists>r \<in> set (db_content (wdb (ss_world s'))). r_hash r = ''h2'' \<and> due 10 r) \<and>
     by_read (demo_beyond []) 0 ''/a'' = Inr ''ab''"
proof -
  let ?sd = "(demo_sched demo_indexer (Every minute))\<lparr>sd_batchSize := 4\<rparr>" and ?bd = "demo_beyond []"
  let ?claimed = "projr (fst (ClaimBatch 0 4 (demo_store hidden_db)))"
  have w: "w_store (ss_world hidden_state) = demo_store hidden_db" by (simp add: hidden_state_def startState_def)
  have inv: "catalog_inv hidden_db"
    by (simp add: catalog_inv_defs hidden_db_def hidden_rows_def demo_content_row_def empty_db_def doc_row_ok_def
        chunk_row_ok_def vec_table_ok_def vecTableGen_def hasPrefix_def wantDesc_def)
  have hs: "c_Hash ` set ?claimed = {''h5'', ''h4'', ''h3'', ''h1''}"
    using arg_cong [OF hidden_claim(1) [of 0], of set] by simp
  have claims: "fst (ClaimBatch (Unix (sd_now ?sd n)) (sd_batchSize ?sd) (w_store (ss_world hidden_state))) = Inr ?claimed" for n
    using hidden_claim(2) [of "Unix (sd_now ?sd n)"] by (simp add: w ClaimBatch_rows(1))
  have cur: "currentVecTable (wdb (ss_world hidden_state)) =
      Inr (''vec_chunks_1'', wantDesc (ix_spec (sd_indexer ?sd)) (int (length [0, 1 :: float32])))"
    by (simp add: w currentVecTable_def hidden_db_def vecTableGen_def hasPrefix_def demo_sched_def demo_indexer_def normalize_want)
  have "\<forall>h \<in> c_Hash ` set ?claimed. unreadable ?bd (wdb (ss_world hidden_state)) h"
    unfolding hs by (auto simp: unreadable_def w hidden_db_def demo_beyond_def demo_reader_def)
  moreover have "\<exists>h \<in> c_Hash ` set ?claimed. referencedIn (wdb (ss_world hidden_state)) h"
    unfolding hs by (auto simp: referencedIn_def w hidden_db_def)
  ultimately obtain run where run: "run 0 = hidden_state" "\<forall>k. drain ?sd ?bd (run k) = Some (run (Suc k)) \<and>
      sn_Gate (ss_snap (run (Suc k))) = GateUnreadable \<and>
      db_content (wdb (ss_world (run (Suc k)))) = db_content (wdb (ss_world hidden_state)) \<and>
      (\<forall>n. fst (ClaimBatch (Unix (sd_now ?sd n)) (sd_batchSize ?sd) (w_store (ss_world (run (Suc k))))) = Inr ?claimed)"
    using unreadable_hides_due [of hidden_state ?bd ?sd ?claimed "[0, 1]", OF _ _ _ _ _ _ _ claims _ _ _ _ _ _ _ cur] inv
    by (auto simp: w)
      (auto simp: hidden_state_def startState_def demo_beyond_def demo_sched_def demo_indexer_def demo_embedder_def demo_spec_def)
  have "\<exists>r \<in> set (db_content hidden_db). r_hash r = ''h2'' \<and> due 10 r"
    by (simp add: hidden_db_def hidden_rows_def demo_content_row_def due_def)
  then show ?thesis using run(2) [rule_format, of 0] run(1) by (auto simp: w demo_beyond_def demo_reader_def)
qed

end
