(* ===== verification/Search.thy ===== *)
theory Search
  imports PipelineRun Paths
begin

text \<open>
  The query path (search/service.go, search/errors.go): a request is checked, the index and the configured
  model are compared, the query is embedded, the nearest chunks are collapsed to contents, and a preview
  of each chunk is rendered.
\<close>

section \<open>Constants, requests and responses (service.go)\<close>

definition DefaultLimit :: int where "DefaultLimit = 10"
definition OverFetchFactor :: int where "OverFetchFactor = 8"
definition MaxKNNK :: int where "MaxKNNK = 4096"
definition MaxLimit :: int where "MaxLimit = 1000"
definition PreviewRunes :: nat where "PreviewRunes = 150"

record Request =
  rq_Query :: string
  rq_Limit :: int
  rq_Mode :: string
  rq_SummaryLevel :: int
  rq_MinScore :: rat

record SearchHit =
  sh_Path :: path
  sh_ContentHash :: string
  sh_Distance :: rat
  sh_ChunkPreview :: string
  sh_HeadingPath :: string
  sh_Modified :: int
  sh_AlsoAt :: "path list"

record Response =
  re_Hits :: "SearchHit list"
  re_TookMS :: int

section \<open>Errors (errors.go)\<close>

datatype Sentinel = ErrInvalidRequest | ErrNotIndexed | ErrIndexMismatch | ErrEmbedder

text \<open>An error wraps a sentinel in front of its message, or it is one of another package.\<close>

datatype SearchErr = Wrapped Sentinel string | OfStore StoreErr | OfContext string

fun sentinelText :: "Sentinel \<Rightarrow> string" where
  "sentinelText ErrInvalidRequest = ''invalid search request''"
| "sentinelText ErrNotIndexed = ''index not ready''"
| "sentinelText ErrIndexMismatch = ''index and configuration disagree''"
| "sentinelText ErrEmbedder = ''could not embed the query''"

text \<open>\<open>Error()\<close>; the text of another package's error is a parameter.\<close>

fun errText :: "(StoreErr \<Rightarrow> string) \<Rightarrow> SearchErr \<Rightarrow> string" where
  "errText storeText (Wrapped k m) = sentinelText k @ '': '' @ m"
| "errText storeText (OfStore e) = storeText e"
| "errText storeText (OfContext m) = m"

definition wraps :: "SearchErr \<Rightarrow> Sentinel \<Rightarrow> bool" where
  "wraps e k \<longleftrightarrow> (case e of Wrapped k' m \<Rightarrow> k' = k | _ \<Rightarrow> False)"

definition sentinels :: "Sentinel list" where
  "sentinels = [ErrInvalidRequest, ErrNotIndexed, ErrIndexMismatch, ErrEmbedder]"

fun messageLoop :: "(StoreErr \<Rightarrow> string) \<Rightarrow> SearchErr \<Rightarrow> Sentinel list \<Rightarrow> string" where
  "messageLoop st e [] = errText st e"
| "messageLoop st e (k # ks) =
     (if \<not> wraps e k then messageLoop st e ks
      else if hasPrefix (errText st e) (sentinelText k @ '': '')
      then drop (length (sentinelText k @ '': '')) (errText st e)
      else messageLoop st e ks)"

definition Message :: "(StoreErr \<Rightarrow> string) \<Rightarrow> SearchErr option \<Rightarrow> string" where
  "Message st err = (case err of None \<Rightarrow> '''' | Some e \<Rightarrow> messageLoop st e sentinels)"

section \<open>Validation (service.go: Validate, CheckLength, compatible, KnnK)\<close>

definition emDash :: string where "emDash = [CHR 0xE2, CHR 0x80, CHR 0x94]"
definition approx :: string where "approx = [CHR 0xE2, CHR 0x89, CHR 0x88]"

definition ValidateRequest :: "(string \<Rightarrow> string) \<Rightarrow> Request \<Rightarrow> SearchErr + int" where
  "ValidateRequest quote r =
     (if trimSpace (rq_Query r) = '''' then Inl (Wrapped ErrInvalidRequest ''the query is empty'')
      else if rq_Mode r = ''keyword'' then
        Inl (Wrapped ErrInvalidRequest ''keyword-only search is not implemented yet (it lands with hybrid search)'')
      else if rq_Mode r \<notin> {'''', ''hybrid'', ''semantic''} then
        Inl (Wrapped ErrInvalidRequest (''unknown mode '' @ quote (rq_Mode r) @ '' (want hybrid, semantic, or keyword)''))
      else
        (let limit = (if rq_Limit r = 0 then DefaultLimit else rq_Limit r) in
         if limit < 1 \<or> limit > MaxLimit then
           Inl (Wrapped ErrInvalidRequest
             (''limit '' @ decimal (rq_Limit r) @ '' is out of range [1, '' @ decimal MaxLimit @ '']''))
         else Inr limit))"

definition CheckLength :: "Request \<Rightarrow> EmbeddingSpec \<Rightarrow> SearchErr option" where
  "CheckLength r spec =
     (if es_CeilingTokens spec \<le> 0 then None
      else
        (let composed = ComposeQuery spec (rq_Query r); budget = goInt (es_CeilingTokens spec * BytesPerToken) in
         if int (length composed) \<le> budget then None
         else Some (Wrapped ErrInvalidRequest
           (''the query is too long for the embedding model (limit '' @ decimal (es_CeilingTokens spec) @ '' tokens '' @ approx @
            '' '' @ decimal budget @ '' bytes; it composes to '' @ decimal (int (length composed)) @ '' bytes) '' @ emDash @ '' shorten it''))))"

definition compatible :: "(string \<Rightarrow> string) \<Rightarrow> EmbeddingSpec \<Rightarrow> EmbeddingSpec \<Rightarrow> SearchErr option" where
  "compatible quote indexed configured =
     (let want = configured\<lparr>es_CeilingTokens := 0\<rparr> in
      if indexed = want then None
      else if es_Model indexed \<noteq> es_Model want then
        Some (Wrapped ErrIndexMismatch
          (''the index was built with model '' @ quote (es_Model indexed) @ '' but the configuration says '' @ quote (es_Model want) @
           '' '' @ emDash @ '' restart the daemon, which re-embeds the corpus in the background under the configured model''))
      else
        Some (Wrapped ErrIndexMismatch
          (''the index was built with a different embedding configuration for model '' @ quote (es_Model want) @
           '' (prefix templates changed?) '' @ emDash @ '' restart the daemon, which re-embeds the corpus in the background under the configured settings'')))"

definition KnnK :: "int \<Rightarrow> int" where
  "KnnK limit = min (goInt (limit * OverFetchFactor)) MaxKNNK"

section \<open>The preview (service.go: Preview)\<close>

text \<open>
  The runes of a string, each as the bytes \<open>WriteRune\<close> writes for it: a byte that starts no rune is
  U+FFFD.
\<close>

function runesOf :: "string \<Rightarrow> string list" where
  "runesOf s =
     (if s = [] then []
      else if runeLen s = 0 then encodeRune 0xFFFD # runesOf (tl s)
      else take (runeLen s) s # runesOf (drop (runeLen s) s))"
  by pat_completeness auto
termination
  by (relation "measure length") auto

declare runesOf.simps [simp del]

text \<open>\<open>unicode.IsSpace\<close> and \<open>unicode.IsControl\<close>, by the encodings.\<close>

definition isSpaceRune :: "string \<Rightarrow> bool" where
  "isSpaceRune r \<longleftrightarrow> r \<in> set spaceRunes"

definition isControlRune :: "string \<Rightarrow> bool" where
  "isControlRune r \<longleftrightarrow>
     (case r of
        [a] \<Rightarrow> byte a < 0x20 \<or> byte a = 0x7F
      | [a, b] \<Rightarrow> byte a = 0xC2 \<and> 0x80 \<le> byte b \<and> byte b \<le> 0x9F
      | _ \<Rightarrow> False)"

definition ellipsis :: string where "ellipsis = [CHR 0xE2, CHR 0x80, CHR 0xA6]"

fun previewLoop :: "nat \<Rightarrow> string list \<Rightarrow> nat \<Rightarrow> bool \<Rightarrow> string \<Rightarrow> string" where
  "previewLoop maxRunes [] runes pending b = b"
| "previewLoop maxRunes (r # rs) runes pending b =
     (if isSpaceRune r then previewLoop maxRunes rs runes (runes > 0) b
      else if isControlRune r then previewLoop maxRunes rs runes pending b
      else if runes + (if pending then 2 else 1) > maxRunes then b @ ellipsis
      else if pending then previewLoop maxRunes rs (runes + 2) False (b @ '' '' @ r)
      else previewLoop maxRunes rs (runes + 1) False (b @ r))"

definition Preview :: "string \<Rightarrow> nat \<Rightarrow> string" where
  "Preview txt maxRunes = previewLoop maxRunes (runesOf txt) 0 False ''''"

section \<open>Search (service.go: Search)\<close>

text \<open>\<open>Duration.Milliseconds\<close> truncates toward zero.\<close>

definition milliseconds :: "int \<Rightarrow> int" where
  "milliseconds d = sgn d * (\<bar>d\<bar> div 1000000)"

definition toSearchHit :: "ContentHit \<Rightarrow> SearchHit" where
  "toSearchHit c =
     \<lparr>sh_Path = hit_path (chit_Hit c), sh_ContentHash = ''sha256:'' @ hit_hash (chit_Hit c),
      sh_Distance = h_Distance (chit_Hit c), sh_ChunkPreview = Preview (ch_Text (h_Chunk (chit_Hit c))) PreviewRunes,
      sh_HeadingPath = ch_HeadingPath (h_Chunk (chit_Hit c)), sh_Modified = doc_MTime (h_Doc (chit_Hit c)),
      sh_AlsoAt = chit_AlsoAt c\<rparr>"

text \<open>What a service is built over: the index's nearest-neighbour query and the embedder.\<close>

record Service =
  sv_knn :: knn
  sv_embedder :: Embedder

text \<open>The texts of other packages: \<open>strconv.Quote\<close>, and whether an embedding error is the context's.\<close>

record SearchTexts =
  tx_quote :: "string \<Rightarrow> string"
  tx_deadline :: "string \<Rightarrow> bool"

definition knnHits :: "Service \<Rightarrow> float32 list \<Rightarrow> int \<Rightarrow> World \<Rightarrow> (SearchErr + Hit list) \<times> World" where
  "knnHits sv vec k w =
     (case onStore (SearchVectors (sv_knn sv) vec k) w of
        (Inl ErrNoVecTable, w') \<Rightarrow>
          (Inl (Wrapped ErrNotIndexed (''the index was re-built while this query ran '' @ emDash @ '' try again'')), w')
      | (Inl e, w') \<Rightarrow> (Inl (OfStore e), w')
      | (Inr hits, w') \<Rightarrow> (Inr hits, w'))"

text \<open>The first pass, and the one at the ceiling when it came up short.\<close>

definition collapsed :: "Service \<Rightarrow> float32 list \<Rightarrow> int \<Rightarrow> World \<Rightarrow> (SearchErr + ContentHit list) \<times> World" where
  "collapsed sv vec limit w =
     (case knnHits sv vec (KnnK limit) w of
        (Inl e, w1) \<Rightarrow> (Inl e, w1)
      | (Inr hits, w1) \<Rightarrow>
          (let contents = CollapseBestPerContent hits limit in
           if int (length contents) < limit \<and> KnnK limit < MaxKNNK then
             (case knnHits sv vec MaxKNNK w1 of
                (Inl e, w2) \<Rightarrow> (Inl e, w2)
              | (Inr hits', w2) \<Rightarrow> (Inr (CollapseBestPerContent hits' limit), w2))
           else (Inr contents, w1)))"

text \<open>The query vector, once the index and the configured model agree.\<close>

definition queryVector :: "Service \<Rightarrow> SearchTexts \<Rightarrow> Request \<Rightarrow> World \<Rightarrow> (SearchErr + float32 list) \<times> World" where
  "queryVector sv tx req w =
     (let spec = em_Spec (sv_embedder sv) in
      case onStore CurrentVecSpec w of
        (Inl ErrNoVecTable, w1) \<Rightarrow>
          (Inl (Wrapped ErrNotIndexed (''nothing indexed yet '' @ emDash @
             '' the daemon indexes in the background; check 'bsearch serve' is running'')), w1)
      | (Inl e, w1) \<Rightarrow> (Inl (OfStore e), w1)
      | (Inr (indexed, dims), w1) \<Rightarrow>
          (case compatible (tx_quote tx) indexed spec of
             Some e \<Rightarrow> (Inl e, w1)
           | None \<Rightarrow>
               (case ask (\<lambda>n. em_Query (sv_embedder sv) n (rq_Query req)) w1 of
                  (Inl e, w2) \<Rightarrow>
                    if tx_deadline tx e then (Inl (OfContext e), w2) else (Inl (Wrapped ErrEmbedder e), w2)
                | (Inr vec, w2) \<Rightarrow>
                    if int (length vec) \<noteq> dims then
                      (Inl (Wrapped ErrIndexMismatch
                        (''the embedding server returned '' @ decimal (int (length vec)) @ '' dimensions but the index was built with '' @
                         decimal dims @ '' '' @ emDash @ '' the model behind '' @ tx_quote tx (es_Model spec) @
                         '' changed; the daemon re-embeds automatically, so this clears itself once it catches up'')), w2)
                    else (Inr vec, w2))))"

definition SearchFor :: "Service \<Rightarrow> SearchTexts \<Rightarrow> (nat \<Rightarrow> int) \<Rightarrow> Request \<Rightarrow> World \<Rightarrow> (SearchErr + Response) \<times> World" where
  "SearchFor sv tx clock req w =
     (case ask clock w of
        (start, w0) \<Rightarrow>
          (case ValidateRequest (tx_quote tx) req of
             Inl e \<Rightarrow> (Inl e, w0)
           | Inr limit \<Rightarrow>
               (case CheckLength req (em_Spec (sv_embedder sv)) of
                  Some e \<Rightarrow> (Inl e, w0)
                | None \<Rightarrow>
                    (case queryVector sv tx req w0 of
                       (Inl e, w1) \<Rightarrow> (Inl e, w1)
                     | (Inr vec, w1) \<Rightarrow>
                         (case collapsed sv vec limit w1 of
                            (Inl e, w2) \<Rightarrow> (Inl e, w2)
                          | (Inr contents, w2) \<Rightarrow>
                              (case ask clock w2 of
                                 (stop, w3) \<Rightarrow>
                                   (Inr \<lparr>re_Hits = map toSearchHit contents, re_TookMS = milliseconds (stop - start)\<rparr>, w3)))))))"

section \<open>What a preview shows\<close>

definition isRune :: "string \<Rightarrow> bool" where
  "isRune r \<longleftrightarrow> r \<noteq> [] \<and> (\<forall>s. runeLen (r @ s) = length r)"

lemma runesOf_runes: "r \<in> set (runesOf s) \<Longrightarrow> isRune r"
proof (induction s rule: runesOf.induct)
  case (1 s)
  have "isRune (encodeRune 0xFFFD)" using runeLen_encode by (simp add: isRune_def)
  moreover have "isRune (take (runeLen s) s)" if "runeLen s \<noteq> 0"
    using that runeLen_take [OF that] runeLen_le(1) [of s] by (auto simp: isRune_def min_def)
  ultimately show ?case
    using 1 by (subst (asm) runesOf.simps [of s]) (auto split: if_splits)
qed

lemma runesOf_concat: "\<forall>r \<in> set rs. isRune r \<Longrightarrow> runesOf (List.concat rs) = rs"
  by (induction rs) (auto simp: runesOf.simps isRune_def)

lemma utf8Valid_concat: "\<forall>r \<in> set rs. isRune r \<Longrightarrow> utf8Valid (List.concat rs)"
  by (induction rs) (auto simp: utf8Valid.simps isRune_def)

definition visible :: "string \<Rightarrow> bool" where
  "visible r \<longleftrightarrow> \<not> isSpaceRune r \<and> \<not> isControlRune r"

text \<open>One line: no control character, no white space but single blanks between visible runes.\<close>

definition oneLine :: "string list \<Rightarrow> bool" where
  "oneLine rs \<longleftrightarrow> (\<forall>r \<in> set rs. isRune r \<and> (visible r \<or> r = '' '')) \<and>
     successively (\<lambda>a b. a \<noteq> '' '' \<or> b \<noteq> '' '') rs \<and> (rs \<noteq> [] \<longrightarrow> visible (hd rs) \<and> visible (last rs))"

lemma blank: "isRune '' ''" "\<not> visible '' ''"
  by (auto simp: isRune_def visible_def isSpaceRune_def spaceRunes_def)

lemma oneLine_snoc:
  assumes "oneLine rs" "isRune r" "visible r"
  shows "oneLine (rs @ [r])" "rs \<noteq> [] \<Longrightarrow> oneLine (rs @ ['' '', r])"
  using assms blank by (auto simp: oneLine_def successively_append_iff hd_append)

lemma previewLoop_shows:
  assumes "\<forall>r \<in> set rs. isRune r" "oneLine acc" "length acc \<le> n" "pending \<longrightarrow> acc \<noteq> []"
  shows "\<exists>body rest. previewLoop n rs (length acc) pending (List.concat acc) =
      List.concat body @ (if rest = [] then [] else ellipsis) \<and> length body \<le> n \<and> oneLine body \<and>
    filter visible acc @ filter visible rs = filter visible body @ rest"
  using assms
proof (induction rs arbitrary: acc pending)
  case Nil
  show ?case by (rule exI [of _ acc], rule exI [of _ "[]"]) (simp add: Nil)
next
  case (Cons r rs)
  consider (space) "isSpaceRune r" | (control) "\<not> isSpaceRune r" "isControlRune r"
    | (full) "visible r" "length acc + (if pending then 2 else 1) > n"
    | (word) "visible r" "pending" "length acc + 2 \<le> n" | (more) "visible r" "\<not> pending" "length acc + 1 \<le> n"
    by (cases "isSpaceRune r"; cases "isControlRune r"; cases pending; cases "length acc + 2 \<le> n"; cases "length acc + 1 \<le> n")
      (auto simp: visible_def)
  then show ?case
  proof cases
    case space
    then show ?thesis using Cons.IH [of acc "0 < length acc"] Cons.prems by (auto simp: visible_def)
  next
    case control
    then show ?thesis using Cons.IH [of acc pending] Cons.prems by (auto simp: visible_def)
  next
    case full
    show ?thesis
      by (rule exI [of _ acc], rule exI [of _ "filter visible (r # rs)"]) (use full Cons.prems in \<open>auto simp: visible_def [of r]\<close>)
  next
    case word
    have "oneLine (acc @ ['' '', r])" using Cons.prems word by (intro oneLine_snoc) auto
    then show ?thesis using Cons.IH [of "acc @ ['' '', r]" False] Cons.prems word word(1) [unfolded visible_def] blank(2) by simp
  next
    case more
    have "oneLine (acc @ [r])" using Cons.prems more by (intro oneLine_snoc) auto
    then show ?thesis using Cons.IH [of "acc @ [r]" False] Cons.prems more more(1) [unfolded visible_def] by simp
  qed
qed

text \<open>
  C21: A preview is one safe line: whatever bytes a chunk holds, \<open>Preview\<close> shows its visible runes in
  order (a byte that is no UTF-8 as U+FFFD), with single blanks between them and no control character, at
  most \<open>maxRunes\<close> runes; an ellipsis follows exactly when a visible rune was left out. It is valid UTF-8.
\<close>

theorem Preview_one_line:
  "\<exists>body rest. Preview txt maxRunes = List.concat body @ (if rest = [] then [] else ellipsis) \<and>
     runesOf (List.concat body) = body \<and> length body \<le> maxRunes \<and> oneLine body \<and>
     filter visible (runesOf txt) = filter visible body @ rest \<and> utf8Valid (Preview txt maxRunes)"
proof -
  obtain body rest where p: "Preview txt maxRunes = List.concat body @ (if rest = [] then [] else ellipsis)"
    "length body \<le> maxRunes" "oneLine body" "filter visible (runesOf txt) = filter visible body @ rest"
    using previewLoop_shows [of "runesOf txt" "[]" maxRunes False] runesOf_runes
    by (auto simp: Preview_def oneLine_def)
  have runes: "\<forall>r \<in> set body. isRune r" using p(3) by (simp add: oneLine_def)
  moreover have "isRune ellipsis" by (auto simp: isRune_def ellipsis_def cont_def)
  ultimately have "utf8Valid (Preview txt maxRunes)"
    using utf8Valid_concat [of body] utf8Valid_concat [of "body @ [ellipsis]"] by (simp add: p(1))
  then show ?thesis using p runesOf_concat [OF runes] by blast
qed

section \<open>What an answer is\<close>

lemma KnnK_bounds: "1 \<le> limit \<Longrightarrow> limit \<le> MaxLimit \<Longrightarrow> limit \<le> KnnK limit \<and> KnnK limit \<le> MaxKNNK"
  by (auto simp: KnnK_def MaxLimit_def MaxKNNK_def OverFetchFactor_def goInt_id)

lemma ValidateRequest_limit: "ValidateRequest quote r = Inr limit \<Longrightarrow> 1 \<le> limit \<and> limit \<le> MaxLimit"
  by (auto simp: ValidateRequest_def Let_def split: if_splits)

lemma onStore_result: "onStore f w = (r, w') \<longleftrightarrow> f (w_store w) = (r, w_store w') \<and> w_tick w' = w_tick w"
  by (cases "f (w_store w)"; cases w; cases w') (auto simp: onStore_def)

lemma compatible_None: "compatible quote indexed spec = None \<longleftrightarrow> indexed = spec\<lparr>es_CeilingTokens := 0\<rparr>"
  by (simp add: compatible_def Let_def)

text \<open>Nothing on the query path writes.\<close>

lemma knnHits_db: "knnHits sv vec k w = (r, w') \<Longrightarrow> wdb w' = wdb w"
proof -
  assume k: "knnHits sv vec k w = (r, w')"
  obtain x w1 where q: "onStore (SearchVectors (sv_knn sv) vec k) w = (x, w1)" by fastforce
  then have "wdb w1 = wdb w"
    using withReader_result [OF conjunct1 [OF q [unfolded onStore_result SearchVectors_def]]] by simp
  then show ?thesis using k q by (auto simp: knnHits_def split: sum.splits StoreErr.splits)
qed

lemma collapsed_db: "collapsed sv vec limit w = (r, w') \<Longrightarrow> wdb w' = wdb w"
  using knnHits_db by (fastforce simp: collapsed_def Let_def split: prod.splits sum.splits if_splits)

text \<open>The vector of a query is of the index's own space.\<close>

lemma queryVector_space:
  assumes "queryVector sv tx req w = (r, w')"
  shows "wdb w' = wdb w"
    "r = Inr vec \<Longrightarrow> (\<exists>table desc. currentVecTable (wdb w) = Inr (table, desc) \<and> int (length vec) = vd_Dims desc \<and>
       vd_Model desc = es_Model (em_Spec (sv_embedder sv)) \<and>
       vd_QueryTemplate desc = es_QueryTemplate (em_Spec (sv_embedder sv)) \<and>
       vd_PassageTemplate desc = es_PassageTemplate (em_Spec (sv_embedder sv))) \<and>
       em_Query (sv_embedder sv) (w_tick w) (rq_Query req) = Inr vec"
proof -
  obtain x w1 where q: "onStore CurrentVecSpec w = (x, w1)" by fastforce
  note store = withReader_result [OF conjunct1 [OF q [unfolded onStore_result CurrentVecSpec_def]]]
  have w1: "wdb w1 = wdb w" "w_tick w1 = w_tick w" using store q by (simp_all add: onStore_result)
  show "wdb w' = wdb w"
    using assms q w1 by (auto simp: queryVector_def Let_def ask_def split: sum.splits StoreErr.splits option.splits if_splits)
  assume r: "r = Inr vec"
  obtain indexed dims where x: "x = Inr (indexed, dims)"
    using assms q r by (cases x) (auto simp: queryVector_def Let_def split: StoreErr.splits)
  have ok: "compatible (tx_quote tx) indexed (em_Spec (sv_embedder sv)) = None"
    "em_Query (sv_embedder sv) (w_tick w1) (rq_Query req) = Inr vec" "int (length vec) = dims"
    using assms q r x by (auto simp: queryVector_def Let_def ask_def split: option.splits sum.splits if_splits)
  have "es_Model indexed = es_Model (em_Spec (sv_embedder sv))"
    "es_QueryTemplate indexed = es_QueryTemplate (em_Spec (sv_embedder sv))"
    "es_PassageTemplate indexed = es_PassageTemplate (em_Spec (sv_embedder sv))"
    using ok(1) by (simp_all add: compatible_None)
  moreover obtain table desc where "currentVecTable (wdb w) = Inr (table, desc)" "dims = vd_Dims desc"
    "indexed = \<lparr>es_Model = vd_Model desc, es_QueryTemplate = vd_QueryTemplate desc,
       es_PassageTemplate = vd_PassageTemplate desc, es_CeilingTokens = 0\<rparr>"
    using store x by (auto split: sum.splits)
  ultimately show "(\<exists>table desc. currentVecTable (wdb w) = Inr (table, desc) \<and> int (length vec) = vd_Dims desc \<and>
       vd_Model desc = es_Model (em_Spec (sv_embedder sv)) \<and>
       vd_QueryTemplate desc = es_QueryTemplate (em_Spec (sv_embedder sv)) \<and>
       vd_PassageTemplate desc = es_PassageTemplate (em_Spec (sv_embedder sv))) \<and>
       em_Query (sv_embedder sv) (w_tick w) (rq_Query req) = Inr vec"
    using ok w1(2) by auto
qed

text \<open>Where the hits of a nearest-neighbour query come from.\<close>

definition comparedIn :: "DB \<Rightarrow> (nat \<times> rat) list \<Rightarrow> Hit \<Rightarrow> bool" where
  "comparedIn db near h \<longleftrightarrow> (\<exists>c \<in> set (db_chunks db). hit_hash h = k_hash c \<and> (k_id c, h_Distance h) \<in> set near)"

lemma SearchVectors_hits:
  assumes "SearchVectors nn vec k s = (Inr hits, s')"
  shows "\<exists>table desc rows. currentVecTable (st_db s) = Inr (table, desc) \<and>
    map_of (db_vec_tables (st_db s)) table = Some rows \<and> (\<forall>h \<in> set hits. comparedIn (st_db s) (nn rows vec k) h)"
proof -
  note r = conjunct2 [OF withReader_result [OF assms [unfolded SearchVectors_def]]]
  obtain table desc rows where t: "currentVecTable (st_db s) = Inr (table, desc)" "map_of (db_vec_tables (st_db s)) table = Some rows"
    using r by (auto simp: knnChunks_def split: sum.splits option.splits if_splits)
  let ?chunks = "map (\<lambda>(c, x). chunkHit c x) (knnJoin nn rows vec k (st_db s))"
  have hits: "set hits = (\<Union>ch \<in> set ?chunks. (\<lambda>doc. ch\<lparr>h_Doc := doc\<rparr>) ` set (documentsByHash (chunkHashes ?chunks) (st_db s) (hit_hash ch)))"
    using r t by (auto simp: knnChunks_def Let_def split: if_splits)
  have "comparedIn (st_db s) (nn rows vec k) h" if mem: "h \<in> set hits" for h
  proof -
    obtain c x doc where c: "(c, x) \<in> set (knnJoin nn rows vec k (st_db s))"
      "doc \<in> set (documentsByHash (chunkHashes ?chunks) (st_db s) (k_hash c))" "h = (chunkHit c x)\<lparr>h_Doc := doc\<rparr>"
      using mem unfolding hits by auto
    have "doc_ContentHash doc = k_hash c" using c(2) by (auto simp: documentsByHash_def hitDoc_def split: if_splits)
    then show ?thesis using c(1,3) by (auto simp: comparedIn_def knnJoin_set chunkHit_def)
  qed
  then show ?thesis using t by blast
qed

lemma knnHits_hits:
  assumes "knnHits sv vec k w = (Inr hits, w')"
  shows "\<exists>table desc rows. currentVecTable (wdb w) = Inr (table, desc) \<and>
    map_of (db_vec_tables (wdb w)) table = Some rows \<and> (\<forall>h \<in> set hits. comparedIn (wdb w) (sv_knn sv rows vec k) h)"
proof -
  obtain x w1 where q: "onStore (SearchVectors (sv_knn sv) vec k) w = (x, w1)" by fastforce
  then have "x = Inr hits" using assms by (auto simp: knnHits_def split: sum.splits StoreErr.splits)
  then show ?thesis using SearchVectors_hits q by (simp add: onStore_result)
qed

lemma collapse_hits: "c \<in> set (CollapseBestPerContent hits limit) \<Longrightarrow> chit_Hit c \<in> set hits"
  using firstPerHash_subset [of hits] by (auto simp: collapse_reference dest: in_set_takeD)

lemma collapsed_hits:
  assumes "collapsed sv vec limit w = (Inr cs, w')" "currentVecTable (wdb w) = Inr (table, desc)"
  shows "\<exists>rows k. map_of (db_vec_tables (wdb w)) table = Some rows \<and> (\<forall>c \<in> set cs. comparedIn (wdb w) (sv_knn sv rows vec k) (chit_Hit c))"
proof -
  obtain x w1 where x: "knnHits sv vec (KnnK limit) w = (x, w1)" by fastforce
  obtain hits where hits: "x = Inr hits" using assms(1) x by (cases x) (auto simp: collapsed_def)
  obtain y w2 where y: "knnHits sv vec MaxKNNK w1 = (y, w2)" by fastforce
  have db: "wdb w1 = wdb w" by (rule knnHits_db [OF x])
  consider (once) "cs = CollapseBestPerContent hits limit" | (again) hits' where "y = Inr hits'" "cs = CollapseBestPerContent hits' limit"
    using assms(1) x hits y by (auto simp: collapsed_def Let_def split: if_splits sum.splits)
  then show ?thesis
  proof cases
    case once
    then show ?thesis using knnHits_hits [OF x [unfolded hits]] assms(2) collapse_hits by (metis Inr_inject prod.inject)
  next
    case again
    then show ?thesis using knnHits_hits [OF y [unfolded again(1)]] assms(2) collapse_hits db by (metis Inr_inject prod.inject)
  qed
qed

text \<open>
  C20: A query is never compared with vectors of another space: whatever the store and the embedding server
  answer, a search that returns hits asked the server for the vector of this very query, under the model
  and prefix templates the current generation was built with, and got as many dimensions; and each hit it
  returns is the content of a chunk that the nearest-neighbour query over the rows of that current
  generation, with that vector, returned at that distance. A search changes nothing in the catalog, and no
  other writer changes it while the search runs.
\<close>

theorem Search_same_space:
  "wdb (snd (SearchFor sv tx clock req w)) = wdb w \<and>
   (\<forall>resp. fst (SearchFor sv tx clock req w) = Inr resp \<longrightarrow>
     (\<exists>table desc vec rows k. currentVecTable (wdb w) = Inr (table, desc) \<and>
        map_of (db_vec_tables (wdb w)) table = Some rows \<and>
        vd_Model desc = es_Model (em_Spec (sv_embedder sv)) \<and>
        vd_QueryTemplate desc = es_QueryTemplate (em_Spec (sv_embedder sv)) \<and>
        vd_PassageTemplate desc = es_PassageTemplate (em_Spec (sv_embedder sv)) \<and>
        em_Query (sv_embedder sv) (Suc (w_tick w)) (rq_Query req) = Inr vec \<and> int (length vec) = vd_Dims desc \<and>
        (\<forall>hit \<in> set (re_Hits resp). \<exists>c \<in> set (db_chunks (wdb w)).
           sh_ContentHash hit = ''sha256:'' @ k_hash c \<and> (k_id c, sh_Distance hit) \<in> set (sv_knn sv rows vec k))))"
proof -
  obtain x w1 where q: "queryVector sv tx req (tick w) = (x, w1)" by fastforce
  note space = queryVector_space [OF q]
  obtain y w2 where c: "collapsed sv (projr x) (projr (ValidateRequest (tx_quote tx) req)) w1 = (y, w2)" by fastforce
  have db: "wdb w2 = wdb w" "wdb w1 = wdb w" using collapsed_db [OF c] space(1) by simp_all
  show ?thesis
  proof (cases "\<exists>vec. x = Inr vec")
    case False
    then obtain e where "x = Inl e" by (cases x) auto
    then show ?thesis using q space(1) by (simp add: SearchFor_def ask_def split: sum.split option.split)
  next
    case True
    then obtain vec where x: "x = Inr vec" by blast
    have same: "wdb (snd (SearchFor sv tx clock req w)) = wdb w"
      using q x c db by (auto simp: SearchFor_def ask_def tick_def split: sum.splits option.splits)
    obtain table desc where t: "currentVecTable (wdb w) = Inr (table, desc)" "int (length vec) = vd_Dims desc"
       "vd_Model desc = es_Model (em_Spec (sv_embedder sv))"
       "vd_QueryTemplate desc = es_QueryTemplate (em_Spec (sv_embedder sv))"
       "vd_PassageTemplate desc = es_PassageTemplate (em_Spec (sv_embedder sv))"
       "em_Query (sv_embedder sv) (Suc (w_tick w)) (rq_Query req) = Inr vec"
      using space(2) [OF x] by (auto simp: tick_def)
    have "\<exists>rows k. map_of (db_vec_tables (wdb w)) table = Some rows \<and> (\<forall>hit \<in> set (re_Hits resp). \<exists>c \<in> set (db_chunks (wdb w)).
        sh_ContentHash hit = ''sha256:'' @ k_hash c \<and> (k_id c, sh_Distance hit) \<in> set (sv_knn sv rows vec k))"
      if found: "fst (SearchFor sv tx clock req w) = Inr resp" for resp
    proof -
      obtain cs where cs: "y = Inr cs" "re_Hits resp = map toSearchHit cs"
        using found q x c by (auto simp: SearchFor_def ask_def tick_def split: sum.splits option.splits)
      have "collapsed sv vec (projr (ValidateRequest (tx_quote tx) req)) w1 = (Inr cs, w2)" using c cs(1) x by simp
      then obtain rows k where "map_of (db_vec_tables (wdb w)) table = Some rows"
        "\<forall>c \<in> set cs. comparedIn (wdb w) (sv_knn sv rows vec k) (chit_Hit c)"
        using collapsed_hits t(1) db(2) by metis
      then show ?thesis by (intro exI [of _ rows] exI [of _ k]) (auto simp: cs(2) comparedIn_def toSearchHit_def)
    qed
    then show ?thesis using t same by blast
  qed
qed


text \<open>What one nearest-neighbour query contributes, collapsed, in a quiet world.\<close>

definition answers :: "DB \<Rightarrow> (nat \<times> rat) list \<Rightarrow> int \<Rightarrow> ContentHit list \<Rightarrow> bool" where
  "answers db near limit cs \<longleftrightarrow>
     distinct (map (\<lambda>c. hit_hash (chit_Hit c)) cs) \<and> sorted (map (\<lambda>c. h_Distance (chit_Hit c)) cs) \<and>
     length cs \<le> nat limit \<and> (\<forall>c \<in> set cs. result_ok db near c) \<and>
     (int (length cs) < limit \<longrightarrow>
        (\<forall>k \<in> set (db_chunks db). (\<exists>x. (k_id k, x) \<in> set near) \<and> holders (k_hash k) db \<noteq> [] \<longrightarrow>
           (\<exists>c \<in> set cs. hit_hash (chit_Hit c) = k_hash k)))"

lemma knnHits_answers:
  assumes "quiet (w_store w)" "catalog_inv (wdb w)" "knn_law (sv_knn sv)"
    and "currentVecTable (wdb w) = Inr (table, desc)" "int (length vec) = vd_Dims desc" "1 \<le> limit"
  obtains rows hits w' where "map_of (db_vec_tables (wdb w)) table = Some rows" "knnHits sv vec k w = (Inr hits, w')"
    "quiet (w_store w')" "wdb w' = wdb w" "answers (wdb w) (sv_knn sv rows vec k) limit (CollapseBestPerContent hits limit)"
proof -
  let ?db = "wdb w"
  obtain rows hits where best: "map_of (db_vec_tables ?db) table = Some rows"
    "fst (SearchVectors (sv_knn sv) vec k (w_store w)) = Inr hits"
    "distinct (map (\<lambda>c. hit_hash (chit_Hit c)) (CollapseBestPerContent hits limit))"
    "sorted (map (\<lambda>c. h_Distance (chit_Hit c)) (CollapseBestPerContent hits limit))"
    "length (CollapseBestPerContent hits limit) \<le> nat limit"
    "\<forall>c \<in> set (CollapseBestPerContent hits limit). result_ok ?db (sv_knn sv rows vec k) c"
    using search_best_per_content [OF assms(1-5), of k limit] by blast
  obtain rows' hits' chunks where parts: "map_of (db_vec_tables ?db) table = Some rows'"
    "chunks = map (\<lambda>(k, x). chunkHit k x) (knnJoin (sv_knn sv) rows' vec k ?db)"
    "fst (SearchVectors (sv_knn sv) vec k (w_store w)) = Inr hits'"
    "CollapseBestPerContent hits' limit =
      map (\<lambda>ch. \<lparr>chit_Hit = ch\<lparr>h_Doc := hitDoc (hit_hash ch) (hd (holders (hit_hash ch) ?db))\<rparr>,
                 chit_AlsoAt = sort (map d_path (tl (holders (hit_hash ch) ?db)))\<rparr>)
        (take (nat limit) (filter (\<lambda>ch. holders (hit_hash ch) ?db \<noteq> []) (firstPerHash chunks)))"
    using search_collapsed [OF assms(1-5), of k limit] .
  have same: "rows' = rows" "hits' = hits" using best(1,2) parts(1,3) by simp_all
  define live where "live = filter (\<lambda>ch. holders (hit_hash ch) ?db \<noteq> []) (firstPerHash chunks)"
  have cs: "(\<lambda>c. hit_hash (chit_Hit c)) ` set (CollapseBestPerContent hits limit) = hit_hash ` set (take (nat limit) live)"
    "length (CollapseBestPerContent hits limit) = length (take (nat limit) live)"
    by (simp_all add: parts(4) [unfolded same] live_def [symmetric] image_image hitDoc_def)
  have "\<exists>c \<in> set (CollapseBestPerContent hits limit). hit_hash (chit_Hit c) = k_hash r"
    if short: "int (length (CollapseBestPerContent hits limit)) < limit"
      and r: "r \<in> set (db_chunks ?db)" "(k_id r, x) \<in> set (sv_knn sv rows vec k)" "holders (k_hash r) ?db \<noteq> []" for r x
  proof -
    have "take (nat limit) live = live" using short cs(2) by (simp add: min_def split: if_splits)
    moreover have "(r, x) \<in> set (knnJoin (sv_knn sv) rows vec k ?db)" using r by (simp add: knnJoin_set)
    then have "chunkHit r x \<in> set chunks" unfolding parts(2) same by force
    then have "k_hash r \<in> hit_hash ` set (firstPerHash chunks)"
      using set_firstPerHash_hash [of chunks] by (force simp: chunkHit_def noDoc_def)
    then have "k_hash r \<in> hit_hash ` set live" using r(3) by (auto simp: live_def)
    ultimately have "k_hash r \<in> (\<lambda>c. hit_hash (chit_Hit c)) ` set (CollapseBestPerContent hits limit)"
      using cs(1) by simp
    then show ?thesis by auto
  qed
  then have ans: "answers ?db (sv_knn sv rows vec k) limit (CollapseBestPerContent hits limit)"
    unfolding answers_def using best(3-6) by blast
  define w' where "w' = w\<lparr>w_store := snd (SearchVectors (sv_knn sv) vec k (w_store w))\<rparr>"
  have "knnHits sv vec k w = (Inr hits, w')"
    using best(2) by (cases "SearchVectors (sv_knn sv) vec k (w_store w)") (simp add: knnHits_def onStore_def w'_def)
  moreover have "quiet (w_store w')"
    using withReader_quiet(2) [OF assms(1)] by (simp add: w'_def SearchVectors_def)
  ultimately show thesis using that [OF best(1) _ _ _ ans] by (simp add: w'_def SearchVectors_def)
qed

text \<open>
  C19: Search end to end. A valid request, in a quiet world, against an index of the configured identity and
  an embedding server that answers with the index's dimensions, is answered: each content at most once, in
  ascending distance, at most \<open>limit\<close> of them, each with its primary path, all its other paths and its
  nearest chunk among the k nearest; k lies between the limit and 4096. An answer shorter than the limit
  is complete up to the 4096 nearest chunks: every content a document still refers to that has a chunk
  among them is in it.
\<close>

theorem Search_answers:
  assumes "quiet (w_store w)" "catalog_inv (wdb w)" "knn_law (sv_knn sv)"
    and "ValidateRequest (tx_quote tx) req = Inr limit" "CheckLength req (em_Spec (sv_embedder sv)) = None"
    and "currentVecTable (wdb w) = Inr (table, desc)"
    and "es_Model (em_Spec (sv_embedder sv)) = vd_Model desc"
    and "es_QueryTemplate (em_Spec (sv_embedder sv)) = vd_QueryTemplate desc"
    and "es_PassageTemplate (em_Spec (sv_embedder sv)) = vd_PassageTemplate desc"
    and "em_Query (sv_embedder sv) (Suc (w_tick w)) (rq_Query req) = Inr vec" "int (length vec) = vd_Dims desc"
  shows "\<exists>resp rows k cs. fst (SearchFor sv tx clock req w) = Inr resp \<and>
    map_of (db_vec_tables (wdb w)) table = Some rows \<and> re_Hits resp = map toSearchHit cs \<and>
    answers (wdb w) (sv_knn sv rows vec k) limit cs \<and>
    limit \<le> k \<and> k \<le> MaxKNNK \<and> (int (length cs) < limit \<longrightarrow> k = MaxKNNK)"
proof -
  have lim: "1 \<le> limit" "limit \<le> MaxLimit" using ValidateRequest_limit [OF assms(4)] by simp_all
  let ?spec = "\<lparr>es_Model = vd_Model desc, es_QueryTemplate = vd_QueryTemplate desc,
    es_PassageTemplate = vd_PassageTemplate desc, es_CeilingTokens = 0\<rparr>"
  define w1 where "w1 = (tick w)\<lparr>w_store := snd (CurrentVecSpec (w_store w))\<rparr>"
  have cur: "fst (CurrentVecSpec (w_store w)) = Inr (?spec, vd_Dims desc)" "quiet (snd (CurrentVecSpec (w_store w)))"
    using assms(6) by (simp_all add: CurrentVecSpec_def withReader_quiet [OF assms(1)])
  have q1: "onStore CurrentVecSpec (tick w) = (Inr (?spec, vd_Dims desc), w1)"
    using cur by (cases "CurrentVecSpec (w_store w)") (simp add: onStore_def w1_def tick_def)
  have w1: "quiet (w_store w1)" "wdb w1 = wdb w" "w_tick w1 = Suc (w_tick w)"
    using cur(2) by (simp_all add: w1_def tick_def CurrentVecSpec_def)
  have "compatible (tx_quote tx) ?spec (em_Spec (sv_embedder sv)) = None"
    using assms(7-9) by (simp add: compatible_None)
  then have v: "queryVector sv tx req (tick w) = (Inr vec, tick w1)"
    using q1 assms(10,11) w1(3) by (simp add: queryVector_def ask_def)
  have w2: "quiet (w_store (tick w1))" "wdb (tick w1) = wdb w" using w1 by (simp_all add: tick_def)
  have inv2: "catalog_inv (wdb (tick w1))" "currentVecTable (wdb (tick w1)) = Inr (table, desc)"
    using assms(2,6) w2(2) by simp_all
  have found: ?thesis if "map_of (db_vec_tables (wdb w)) table = Some rows" "answers (wdb w) (sv_knn sv rows vec k) limit cs"
    "collapsed sv vec limit (tick w1) = (Inr cs, w3)" "limit \<le> k" "k \<le> MaxKNNK" "int (length cs) < limit \<longrightarrow> k = MaxKNNK"
    for cs w3 rows k
  proof -
    define resp where "resp = \<lparr>re_Hits = map toSearchHit cs, re_TookMS = milliseconds (clock (w_tick w3) - clock (w_tick w))\<rparr>"
    have "fst (SearchFor sv tx clock req w) = Inr resp"
      by (simp add: SearchFor_def ask_def assms(4,5) v that(3) resp_def)
    moreover have "re_Hits resp = map toSearchHit cs" by (simp add: resp_def)
    ultimately show ?thesis using that by blast
  qed
  obtain rows hits w3 where first: "map_of (db_vec_tables (wdb w)) table = Some rows"
    "knnHits sv vec (KnnK limit) (tick w1) = (Inr hits, w3)" "quiet (w_store w3)" "wdb w3 = wdb w"
    "answers (wdb w) (sv_knn sv rows vec (KnnK limit)) limit (CollapseBestPerContent hits limit)"
    using knnHits_answers [OF w2(1) inv2(1) assms(3) inv2(2) assms(11) lim(1), of "KnnK limit"] w2(2) by metis
  show ?thesis
  proof (cases "int (length (CollapseBestPerContent hits limit)) < limit \<and> KnnK limit < MaxKNNK")
    case True
    have inv3: "catalog_inv (wdb w3)" "currentVecTable (wdb w3) = Inr (table, desc)" using assms(2,6) first(4) by simp_all
    obtain rows' hits' w4 where second: "map_of (db_vec_tables (wdb w)) table = Some rows'"
      "knnHits sv vec MaxKNNK w3 = (Inr hits', w4)"
      "answers (wdb w) (sv_knn sv rows' vec MaxKNNK) limit (CollapseBestPerContent hits' limit)"
      using knnHits_answers [OF first(3) inv3(1) assms(3) inv3(2) assms(11) lim(1), of MaxKNNK] first(4) by metis
    have "collapsed sv vec limit (tick w1) = (Inr (CollapseBestPerContent hits' limit), w4)"
      using True first(2) second(2) by (simp add: collapsed_def Let_def)
    then show ?thesis
      by (rule found [OF second(1,3)]) (use lim in \<open>auto simp: MaxLimit_def MaxKNNK_def\<close>)
  next
    case False
    then have "collapsed sv vec limit (tick w1) = (Inr (CollapseBestPerContent hits limit), w3)"
      using first(2) by (auto simp: collapsed_def Let_def)
    then show ?thesis
      by (rule found [OF first(1,5)]) (use KnnK_bounds [OF lim] False in auto)
  qed
qed

definition demo_service :: Service where
  "demo_service = \<lparr>sv_knn = demo_knn, sv_embedder = demo_embedder\<lparr>em_Spec := demo_spec\<lparr>es_Model := ''m''\<rparr>\<rparr>\<rparr>"

definition demo_texts :: SearchTexts where
  "demo_texts = \<lparr>tx_quote = (\<lambda>s. s), tx_deadline = (\<lambda>_. False)\<rparr>"

theorem Search_answers_witness:
  "\<exists>resp. fst (SearchFor demo_service demo_texts (\<lambda>n. int n)
      \<lparr>rq_Query = ''tea'', rq_Limit = 0, rq_Mode = ''hybrid'', rq_SummaryLevel = 0, rq_MinScore = 0\<rparr>
      \<lparr>w_store = demo_store demo_db, w_tick = 0\<rparr>) = Inr resp \<and> length (re_Hits resp) \<le> 10"
proof -
  let ?req = "\<lparr>rq_Query = ''tea'', rq_Limit = 0, rq_Mode = ''hybrid'', rq_SummaryLevel = 0, rq_MinScore = 0\<rparr>"
  have v: "ValidateRequest (tx_quote demo_texts) ?req = Inr 10" by code_simp
  have c: "CheckLength ?req (em_Spec (sv_embedder demo_service)) = None" by code_simp
  have cur: "currentVecTable demo_db = Inr (''vec_chunks_1'', \<lparr>vd_Model = ''m'', vd_Dims = 2,
      vd_Layout = ''float32'', vd_Metric = ''cosine'', vd_QueryTemplate = '''', vd_PassageTemplate = '''',
      vd_CeilingTokens = 0\<rparr>)"
    by (simp add: currentVecTable_def demo_db_def vecTableGen_def hasPrefix_def normalizeDesc_def)
  have em: "em_Spec (sv_embedder demo_service) = demo_spec\<lparr>es_Model := ''m''\<rparr>"
    "em_Query (sv_embedder demo_service) n q = Inr [0, 1]" for n q
    by (simp_all add: demo_service_def demo_embedder_def)
  have "\<exists>resp rows k cs. fst (SearchFor demo_service demo_texts (\<lambda>n. int n) ?req \<lparr>w_store = demo_store demo_db, w_tick = 0\<rparr>) = Inr resp \<and>
      map_of (db_vec_tables (wdb \<lparr>w_store = demo_store demo_db, w_tick = 0\<rparr>)) ''vec_chunks_1'' = Some rows \<and>
      re_Hits resp = map toSearchHit cs \<and>
      answers (wdb \<lparr>w_store = demo_store demo_db, w_tick = 0\<rparr>) (sv_knn demo_service rows [0, 1] k) 10 cs \<and>
      10 \<le> k \<and> k \<le> MaxKNNK \<and> (int (length cs) < 10 \<longrightarrow> k = MaxKNNK)"
    by (rule Search_answers [OF _ _ _ v c])
      (simp_all add: catalog_inv_demo demo_knn_law cur em demo_spec_def, simp_all add: demo_service_def demo_knn_law)
  then show ?thesis by (auto simp: answers_def)
qed

text \<open>What a client shows of a classified error is its message.\<close>

lemma Message_wrapped: "Message st (Some (Wrapped k m)) = m"
  by (cases k) (simp_all add: Message_def sentinels_def wraps_def hasPrefix_def)

definition demo_request :: Request where
  "demo_request = \<lparr>rq_Query = ''tea'', rq_Limit = 3, rq_Mode = '''', rq_SummaryLevel = 0, rq_MinScore = 0\<rparr>"

lemma demo_answered:
  "case fst (SearchFor demo_service demo_texts (\<lambda>n. int n) demo_request \<lparr>w_store = demo_store demo_db, w_tick = 0\<rparr>) of
     Inr resp \<Rightarrow> re_Hits resp \<noteq> [] | Inl _ \<Rightarrow> False"
  by code_simp

theorem Search_same_space_witness:
  "\<exists>resp hit c rows k. fst (SearchFor demo_service demo_texts (\<lambda>n. int n) demo_request \<lparr>w_store = demo_store demo_db, w_tick = 0\<rparr>) = Inr resp \<and>
     hit \<in> set (re_Hits resp) \<and> map_of (db_vec_tables demo_db) ''vec_chunks_1'' = Some rows \<and> c \<in> set (db_chunks demo_db) \<and>
     sh_ContentHash hit = ''sha256:'' @ k_hash c \<and> (k_id c, sh_Distance hit) \<in> set (demo_knn rows [0, 1] k)"
proof -
  let ?answer = "fst (SearchFor demo_service demo_texts (\<lambda>n. int n) demo_request \<lparr>w_store = demo_store demo_db, w_tick = 0\<rparr>)"
  obtain resp where r0: "?answer = Inr resp" "re_Hits resp \<noteq> []"
    using demo_answered by (cases ?answer) auto
  then obtain hit where r: "?answer = Inr resp" "hit \<in> set (re_Hits resp)" by (cases "re_Hits resp") auto
  have "db_vec_current demo_db = Some ''vec_chunks_1''" by (simp add: demo_db_def)
  then have table: "currentVecTable demo_db = Inr (table, desc) \<Longrightarrow> table = ''vec_chunks_1''" for table desc
    by (auto simp: currentVecTable_def split: option.splits if_splits)
  have world: "wdb \<lparr>w_store = demo_store demo_db, w_tick = 0\<rparr> = demo_db" "w_tick \<lparr>w_store = demo_store demo_db, w_tick = 0\<rparr> = 0"
    "rq_Query demo_request = ''tea''" by (simp_all add: demo_request_def)
  note found = conjunct2 [OF Search_same_space [of demo_service demo_texts "\<lambda>n. int n" demo_request "\<lparr>w_store = demo_store demo_db, w_tick = 0\<rparr>"],
      rule_format, OF r(1), unfolded world]
  obtain table desc vec rows k where t: "currentVecTable demo_db = Inr (table, desc)" "map_of (db_vec_tables demo_db) table = Some rows"
    "em_Query (sv_embedder demo_service) (Suc 0) ''tea'' = Inr vec" "\<forall>hit \<in> set (re_Hits resp). \<exists>c \<in> set (db_chunks demo_db).
           sh_ContentHash hit = ''sha256:'' @ k_hash c \<and> (k_id c, sh_Distance hit) \<in> set (sv_knn demo_service rows vec k)"
    by (insert found, elim exE conjE, rule that)
  have v: "vec = [0, 1]" "sv_knn demo_service = demo_knn" using t(3) by (simp_all add: demo_service_def demo_embedder_def)
  obtain c where c: "c \<in> set (db_chunks demo_db)" "sh_ContentHash hit = ''sha256:'' @ k_hash c"
    "(k_id c, sh_Distance hit) \<in> set (demo_knn rows [0, 1] k)"
    using bspec [OF t(4) r(2)] by (auto simp only: v)
  have rows: "map_of (db_vec_tables demo_db) ''vec_chunks_1'' = Some rows" using t(2) by (simp only: table [OF t(1)])
  show ?thesis by (intro exI conjI) (rule r(1), rule r(2), rule rows, (rule c)+)
qed

end
