(* ===== verification/Status.thy ===== *)
theory Status
  imports Queue
begin

text \<open>
  What \<open>bsearch status\<close> reads in one snapshot (sqlite/status.go): catalog counts, queue depth and
  failure groups, and the identities by which the three reconcile.
\<close>

section \<open>Counts (domain/content.go: CatalogCounts, FailureGroup; sqlite/status.go)\<close>

record CatalogCounts =
  cc_Files :: nat
  cc_Content :: "ContentState \<Rightarrow> nat"
  cc_Unread :: "UnreadReason \<Rightarrow> nat"

record FailureGroup =
  fg_Reason :: string
  fg_Contents :: nat
  fg_ExamplePath :: path

text \<open>The rows of \<open>content\<close> some documents row references.\<close>

definition referenced :: "DB \<Rightarrow> contentRow \<Rightarrow> bool" where
  "referenced db r \<longleftrightarrow> (\<exists>d \<in> set (db_documents db). d_hash d = Some (r_hash r))"

definition groupCount :: "'k \<Rightarrow> 'k list \<Rightarrow> nat" where
  "groupCount key keys = length (filter (\<lambda>k. k = key) keys)"

definition catalogCountsTx :: "DB \<Rightarrow> CatalogCounts" where
  "catalogCountsTx db = \<lparr>
     cc_Files = length (db_documents db),
     cc_Content = (\<lambda>state. groupCount state (map r_state (filter (referenced db) (db_content db)))),
     cc_Unread = (\<lambda>reason. groupCount (Some reason)
       (map d_unread (filter (\<lambda>d. d_hash d = None) (db_documents db))))\<rparr>"

definition StatusCatalogCounts :: "Store \<Rightarrow> (StoreErr + CatalogCounts) \<times> Store" where
  "StatusCatalogCounts = withReader (\<lambda>db. Inr (catalogCountsTx db))"

definition queueDepthTx :: "int \<Rightarrow> DB \<Rightarrow> QueueDepth" where
  "queueDepthTx now db = \<lparr>
     qd_Pending = length (filter (\<lambda>r. case r_next_retry r of None \<Rightarrow> True | Some t \<Rightarrow> t \<le> now)
       (filter (\<lambda>r. \<not> Terminal (r_state r)) (db_content db))),
     qd_Retrying = length (filter (\<lambda>r. case r_next_retry r of None \<Rightarrow> False | Some t \<Rightarrow> t > now)
       (filter (\<lambda>r. \<not> Terminal (r_state r)) (db_content db)))\<rparr>"

definition StatusQueueDepth :: "int \<Rightarrow> Store \<Rightarrow> (StoreErr + QueueDepth) \<times> Store" where
  "StatusQueueDepth now = withReader (\<lambda>db. Inr (queueDepthTx now db))"

text \<open>
  One joined row per failed content and referencing path; grouped by reason, the group counts
  distinct contents and shows the smallest path.
\<close>

definition failureRows :: "DB \<Rightarrow> (string \<times> hash \<times> path) list" where
  "failureRows db =
     List.concat (map (\<lambda>r. map (\<lambda>d. ((case r_last_error r of None \<Rightarrow> '''' | Some e \<Rightarrow> e), r_hash r, d_path d))
         (filter (\<lambda>d. d_hash d = Some (r_hash r)) (db_documents db)))
       (filter (\<lambda>r. r_state r = Failed) (db_content db)))"

definition failureGroup :: "(string \<times> hash \<times> path) list \<Rightarrow> string \<Rightarrow> FailureGroup" where
  "failureGroup rows reason =
     (let mine = filter (\<lambda>row. fst row = reason) rows in
      \<lparr>fg_Reason = reason,
       fg_Contents = length (remdups (map (\<lambda>row. fst (snd row)) mine)),
       fg_ExamplePath = hd (sort (map (\<lambda>row. snd (snd row)) mine))\<rparr>)"

definition failureGroups :: "DB \<Rightarrow> FailureGroup list" where
  "failureGroups db =
     sort_key (\<lambda>g. (- int (fg_Contents g), fg_ExamplePath g))
       (map (failureGroup (failureRows db)) (remdups (map fst (failureRows db))))"

definition failureReasonsTx :: "int \<Rightarrow> DB \<Rightarrow> FailureGroup list" where
  "failureReasonsTx limit db = (if limit \<le> 0 then [] else take (nat limit) (failureGroups db))"

definition FailureReasons :: "int \<Rightarrow> Store \<Rightarrow> (StoreErr + FailureGroup list) \<times> Store" where
  "FailureReasons limit s =
     (if limit \<le> 0 then (Inr [], s) else withReader (\<lambda>db. Inr (failureReasonsTx limit db)) s)"

definition StatusSnapshot ::
  "int \<Rightarrow> int \<Rightarrow> Store \<Rightarrow> (StoreErr + CatalogCounts \<times> QueueDepth \<times> FailureGroup list) \<times> Store" where
  "StatusSnapshot now failLimit =
     withReader (\<lambda>db.
       let counts = catalogCountsTx db;
           groups = (if cc_Content counts Failed > 0 then failureReasonsTx failLimit db else [])
       in Inr (counts, queueDepthTx now db, groups))"

interpretation statusSnapshot: store_op "StatusSnapshot now failLimit" for now failLimit
  unfolding StatusSnapshot_def by (rule store_op_withReader)

section \<open>The identities\<close>

lemma sum_groupCount:
  assumes "set keys \<subseteq> set universe" "distinct universe"
  shows "(\<Sum>k \<leftarrow> universe. groupCount k keys) = length keys"
  using assms
proof (induction keys)
  case (Cons k keys)
  have "(\<Sum>x \<leftarrow> universe. groupCount x (k # keys)) =
      (\<Sum>x \<leftarrow> universe. (if x = k then 1 else 0) + groupCount x keys)"
    by (rule arg_cong [where f = sum_list]) (auto simp: groupCount_def)
  also have "\<dots> = (\<Sum>x \<leftarrow> universe. if x = k then 1 else 0) + length keys"
    using Cons by (simp add: sum_list_addf)
  also have "(\<Sum>x \<leftarrow> universe. if x = k then 1 else 0) = (1::nat)"
    using Cons.prems by (simp add: sum_list_distinct_conv_sum_set)
  finally show ?case by simp
qed (simp add: groupCount_def)

lemma ContentStates_all: "set ContentStates = UNIV" "distinct ContentStates"
proof -
  show "set ContentStates = UNIV"
  proof (rule UNIV_eq_I [symmetric])
    fix st show "st \<in> set ContentStates" by (cases st) (simp_all add: ContentStates_def)
  qed
qed (simp add: ContentStates_def)

lemma UnreadReasons_all: "set UnreadReasons = UNIV" "distinct UnreadReasons"
proof -
  show "set UnreadReasons = UNIV"
  proof (rule UNIV_eq_I [symmetric])
    fix re show "re \<in> set UnreadReasons" by (cases re) (simp_all add: UnreadReasons_def)
  qed
qed (simp add: UnreadReasons_def)

lemma referenced_hashes:
  assumes "catalog_inv db"
  shows "r_hash ` set (filter (referenced db) (db_content db)) =
    {h. \<exists>d \<in> set (db_documents db). d_hash d = Some h}"
proof
  show "r_hash ` set (filter (referenced db) (db_content db)) \<subseteq> {h. \<exists>d \<in> set (db_documents db). d_hash d = Some h}"
    by (auto simp: referenced_def)
  show "{h. \<exists>d \<in> set (db_documents db). d_hash d = Some h} \<subseteq> r_hash ` set (filter (referenced db) (db_content db))"
  proof
    fix h
    assume "h \<in> {h. \<exists>d \<in> set (db_documents db). d_hash d = Some h}"
    then obtain d where d: "d \<in> set (db_documents db)" "d_hash d = Some h" by blast
    then have "h \<in> hashes db"
      using assms by (auto simp: catalog_inv_def documents_inv_def doc_row_ok_def)
    then obtain r where "r \<in> set (db_content db)" "r_hash r = h" by (auto simp: hashes_def)
    with d show "h \<in> r_hash ` set (filter (referenced db) (db_content db))"
      by (force simp: referenced_def)
  qed
qed

lemma content_total:
  assumes "catalog_inv db"
  shows "(\<Sum>st \<leftarrow> ContentStates. cc_Content (catalogCountsTx db) st) =
    card {h. \<exists>d \<in> set (db_documents db). d_hash d = Some h}"
proof -
  let ?rows = "filter (referenced db) (db_content db)"
  have "(\<Sum>st \<leftarrow> ContentStates. cc_Content (catalogCountsTx db) st) = length ?rows"
    using sum_groupCount [of "map r_state ?rows" ContentStates] ContentStates_all
    by (simp add: catalogCountsTx_def)
  also have "\<dots> = card (r_hash ` set ?rows)"
  proof -
    have "distinct (map r_hash ?rows)"
      using assms by (intro distinct_map_filter) (simp add: catalog_inv_def content_inv_def)
    from distinct_card [OF this] show ?thesis by simp
  qed
  finally show ?thesis unfolding referenced_hashes [OF assms] .
qed

lemma unread_total:
  assumes "catalog_inv db"
  shows "(\<Sum>re \<leftarrow> UnreadReasons. cc_Unread (catalogCountsTx db) re) =
    length (filter (\<lambda>d. d_hash d = None) (db_documents db))"
proof -
  let ?rows = "filter (\<lambda>d. d_hash d = None) (db_documents db)"
  have "\<forall>d \<in> set ?rows. d_unread d \<noteq> None"
    using assms by (auto simp: catalog_inv_def documents_inv_def doc_row_ok_def)
  then have "set (map d_unread ?rows) \<subseteq> set (map Some UnreadReasons)"
    using UnreadReasons_all(1) by auto
  then have "(\<Sum>k \<leftarrow> map Some UnreadReasons. groupCount k (map d_unread ?rows)) = length (map d_unread ?rows)"
    using UnreadReasons_all(2) by (intro sum_groupCount) (simp_all add: distinct_map)
  then show ?thesis by (simp add: catalogCountsTx_def comp_def)
qed

section \<open>Properties\<close>

text \<open>
  C26: The three populations of \<open>status\<close> reconcile exactly: files less the unread ones are the files
  with content, the contents by state add up to the number of distinct contents those files have,
  which is at most as many.
\<close>

theorem counts_reconcile:
  assumes "catalog_inv db"
  shows "cc_Files (catalogCountsTx db) =
      (\<Sum>re \<leftarrow> UnreadReasons. cc_Unread (catalogCountsTx db) re) +
      length (filter (\<lambda>d. d_hash d \<noteq> None) (db_documents db)) \<and>
    (\<Sum>st \<leftarrow> ContentStates. cc_Content (catalogCountsTx db) st) =
      card {h. \<exists>d \<in> set (db_documents db). d_hash d = Some h} \<and>
    (\<Sum>st \<leftarrow> ContentStates. cc_Content (catalogCountsTx db) st) \<le>
      cc_Files (catalogCountsTx db) - (\<Sum>re \<leftarrow> UnreadReasons. cc_Unread (catalogCountsTx db) re)"
proof -
  let ?held = "filter (\<lambda>d. d_hash d \<noteq> None) (db_documents db)"
  have files: "cc_Files (catalogCountsTx db) =
      length (filter (\<lambda>d. d_hash d = None) (db_documents db)) + length ?held"
    using sum_length_filter_compl [of "\<lambda>d. d_hash d = None" "db_documents db"]
    by (simp add: catalogCountsTx_def)
  have "{h. \<exists>d \<in> set (db_documents db). d_hash d = Some h} = (\<lambda>d. the (d_hash d)) ` set ?held"
    by (force simp: image_iff)
  also have "card \<dots> \<le> length ?held"
    by (metis card_length length_map list.set_map)
  finally show ?thesis
    using files content_total [OF assms] unread_total [OF assms] by simp
qed

theorem counts_reconcile_witness:
  "cc_Files (catalogCountsTx demo_db) = (\<Sum>re \<leftarrow> UnreadReasons. cc_Unread (catalogCountsTx demo_db) re) + 1"
  using counts_reconcile [OF catalog_inv_demo] by (simp add: demo_db_def)

text \<open>
  The queue depth agrees with the claim: in a quiet world \<open>ClaimBatch\<close> with a limit of at least
  the pending count returns exactly that many items, and pending plus retrying is every content
  that is not terminal.
\<close>

theorem depth_is_claimable:
  assumes "quiet s" "catalog_inv (st_db s)" "int (qd_Pending (queueDepthTx now (st_db s))) \<le> limit" "0 < limit"
  shows "(\<exists>cs. fst (ClaimBatch now limit s) = Inr cs \<and> length cs = qd_Pending (queueDepthTx now (st_db s))) \<and>
    qd_Pending (queueDepthTx now (st_db s)) + qd_Retrying (queueDepthTx now (st_db s)) =
      length (filter (\<lambda>r. \<not> Terminal (r_state r)) (db_content (st_db s)))"
proof -
  let ?db = "st_db s"
  have pending: "qd_Pending (queueDepthTx now ?db) = length (filter (due now) (db_content ?db))"
    unfolding queueDepthTx_def
    by (auto simp: due_def conj_commute intro!: arg_cong [where f = length] filter_cong)
  have d: "distinct (map r_hash (db_content ?db))"
    using assms(2) by (simp add: catalog_inv_def content_inv_def)
  have "length (claimRows now limit ?db) = qd_Pending (queueDepthTx now ?db)"
    unfolding claimRows_props(1) [OF d assms(4)] pending using assms(3) pending by simp
  moreover have "qd_Pending (queueDepthTx now ?db) + qd_Retrying (queueDepthTx now ?db) =
      length (filter (\<lambda>r. \<not> Terminal (r_state r)) (db_content ?db))"
  proof -
    have eq: "(\<lambda>r. case r_next_retry r of None \<Rightarrow> False | Some t \<Rightarrow> t > now) =
        (\<lambda>r. \<not> (case r_next_retry r of None \<Rightarrow> True | Some t \<Rightarrow> t \<le> now))"
      by (auto simp: fun_eq_iff split: option.split)
    show ?thesis
      unfolding queueDepthTx_def eq by (simp add: sum_length_filter_compl del: filter_filter)
  qed
  ultimately show ?thesis using ClaimBatch_rows(1) [OF assms(1,4)] by simp
qed

theorem depth_is_claimable_witness:
  "\<exists>cs. fst (ClaimBatch 50 1 (demo_store demo_db)) = Inr cs \<and> length cs = 1"
proof -
  have "qd_Pending (queueDepthTx 50 demo_db) = 1"
    by (simp add: queueDepthTx_def demo_db_def demo_content_row_def)
  then show ?thesis
    using depth_is_claimable [of "demo_store demo_db" 50 1] catalog_inv_demo by simp
qed

text \<open>The rows behind the failure groups.\<close>

definition reason_of :: "contentRow \<Rightarrow> string" where
  "reason_of r = (case r_last_error r of None \<Rightarrow> '''' | Some e \<Rightarrow> e)"

lemma set_failureRows:
  "set (failureRows db) = {(reason_of r, r_hash r, d_path d) | r d.
     r \<in> set (db_content db) \<and> r_state r = Failed \<and> d \<in> set (db_documents db) \<and> d_hash d = Some (r_hash r)}"
  by (auto simp: failureRows_def reason_of_def)

lemma group_contents:
  "fg_Contents (failureGroup rows reason) = card {h. \<exists>p. (reason, h, p) \<in> set rows}"
proof -
  let ?hs = "map (\<lambda>row. fst (snd row)) (filter (\<lambda>row. fst row = reason) rows)"
  have "length (remdups ?hs) = card (set ?hs)" by (simp add: length_remdups_card_conv)
  also have "set ?hs = {h. \<exists>p. (reason, h, p) \<in> set rows}" by force
  finally show ?thesis by (simp add: failureGroup_def Let_def)
qed

lemma sort_nonempty: "xs \<noteq> [] \<Longrightarrow> sort xs \<noteq> []"
  by (metis length_0_conv length_sort)

lemma group_example:
  assumes "reason \<in> fst ` set rows"
  shows "\<exists>h. (reason, h, fg_ExamplePath (failureGroup rows reason)) \<in> set rows"
proof -
  let ?ps = "map (\<lambda>row. snd (snd row)) (filter (\<lambda>row. fst row = reason) rows)"
  have "?ps \<noteq> []" using assms by (auto simp: filter_empty_conv)
  then have "sort ?ps \<noteq> []" by (rule sort_nonempty)
  then have "hd (sort ?ps) \<in> set (sort ?ps)" by (rule hd_in_set)
  then have "hd (sort ?ps) \<in> set ?ps" by (simp only: set_sort)
  then obtain row where row: "row \<in> set rows" "fst row = reason" "snd (snd row) = hd (sort ?ps)" by auto
  have "(reason, fst (snd row), hd (sort ?ps)) = row" using row(2,3) by (metis prod.collapse)
  moreover have "fg_ExamplePath (failureGroup rows reason) = hd (sort ?ps)"
    by (simp add: failureGroup_def Let_def)
  ultimately show ?thesis using row(1) by metis
qed

lemma failed_hashes:
  assumes "catalog_inv db"
  shows "cc_Content (catalogCountsTx db) Failed = card {h. \<exists>re p. (re, h, p) \<in> set (failureRows db)}"
proof -
  let ?rows = "filter (\<lambda>r. r_state r = Failed) (filter (referenced db) (db_content db))"
  have "distinct (map r_hash ?rows)"
    using assms by (intro distinct_map_filter) (simp add: catalog_inv_def content_inv_def)
  from distinct_card [OF this] have "length ?rows = card (r_hash ` set ?rows)" by simp
  moreover have "r_hash ` set ?rows = {h. \<exists>re p. (re, h, p) \<in> set (failureRows db)}"
    unfolding set_failureRows by (force simp: referenced_def)
  moreover have "cc_Content (catalogCountsTx db) Failed = length ?rows"
    by (simp add: catalogCountsTx_def groupCount_def filter_map comp_def)
  ultimately show ?thesis by simp
qed

lemma groups_partition:
  assumes "catalog_inv db"
  shows "(\<Sum>g \<leftarrow> failureGroups db. fg_Contents g) = card {h. \<exists>re p. (re, h, p) \<in> set (failureRows db)}"
proof -
  let ?rows = "failureRows db"
  let ?reasons = "remdups (map fst ?rows)"
  let ?H = "\<lambda>re. {h. \<exists>p. (re, h, p) \<in> set ?rows}"
  have inj: "re = re'" if "h \<in> ?H re" "h \<in> ?H re'" for h re re'
  proof -
    have d: "distinct (map r_hash (db_content db))" using assms by (simp add: catalog_inv_def content_inv_def)
    from that obtain r r' where "r \<in> set (db_content db)" "r' \<in> set (db_content db)" "r_hash r = r_hash r'"
      "re = reason_of r" "re' = reason_of r'"
      by (auto simp: set_failureRows)
    then show ?thesis using distinct_hash_inj [OF d] by blast
  qed
  have fin: "finite (?H re)" for re
    by (rule finite_subset [of _ "(\<lambda>row. fst (snd row)) ` set ?rows"]) force+
  have "mset (failureGroups db) = mset (map (failureGroup ?rows) ?reasons)"
    by (simp add: failureGroups_def)
  then have "(\<Sum>g \<leftarrow> failureGroups db. fg_Contents g) = (\<Sum>g \<leftarrow> map (failureGroup ?rows) ?reasons. fg_Contents g)"
    by (metis mset_map sum_mset_sum_list)
  also have "\<dots> = (\<Sum>re \<in> set ?reasons. card (?H re))"
    by (simp add: group_contents comp_def sum_list_distinct_conv_sum_set)
  also have "\<dots> = card (\<Union>re \<in> set ?reasons. ?H re)"
  proof (rule card_UN_disjoint [symmetric])
    show "\<forall>i \<in> set ?reasons. \<forall>j \<in> set ?reasons. i \<noteq> j \<longrightarrow> ?H i \<inter> ?H j = {}" using inj by blast
  qed (use fin in auto)
  also have "(\<Union>re \<in> set ?reasons. ?H re) = {h. \<exists>re p. (re, h, p) \<in> set ?rows}"
    by force
  finally show ?thesis .
qed

text \<open>
  The failure groups partition the failed contents that status counts: the group sizes add up to
  the failed count, the groups are in descending size, and every group is non-empty and carries a
  path that really holds a content failed for that reason (never an empty example).
\<close>

theorem failure_groups_reconcile:
  assumes "catalog_inv db"
  shows "(\<Sum>g \<leftarrow> failureGroups db. fg_Contents g) = cc_Content (catalogCountsTx db) Failed \<and>
    sorted (map (\<lambda>g. - int (fg_Contents g)) (failureGroups db)) \<and>
    (\<forall>g \<in> set (failureGroups db). 0 < fg_Contents g \<and>
      (\<exists>r \<in> set (db_content db). r_state r = Failed \<and> reason_of r = fg_Reason g \<and>
        (\<exists>d \<in> set (db_documents db). d_hash d = Some (r_hash r) \<and> d_path d = fg_ExamplePath g)))"
proof -
  let ?rows = "failureRows db"
  have so: "sorted (map (\<lambda>g. - int (fg_Contents g)) (failureGroups db))"
  proof -
    have "sorted (map (\<lambda>g. (- int (fg_Contents g), fg_ExamplePath g)) (failureGroups db))"
      by (simp add: failureGroups_def)
    then show ?thesis by (rule sorted_first)

  qed
  have "0 < fg_Contents g \<and>
      (\<exists>r \<in> set (db_content db). r_state r = Failed \<and> reason_of r = fg_Reason g \<and>
        (\<exists>d \<in> set (db_documents db). d_hash d = Some (r_hash r) \<and> d_path d = fg_ExamplePath g))"
    if g: "g \<in> set (failureGroups db)" for g
  proof -
    obtain reason where re: "reason \<in> fst ` set ?rows" "g = failureGroup ?rows reason"
      using g by (auto simp: failureGroups_def)
    obtain h where h: "(reason, h, fg_ExamplePath g) \<in> set ?rows"
      using group_example [OF re(1)] re(2) by blast
    have "finite {h. \<exists>p. (reason, h, p) \<in> set ?rows}"
      by (rule finite_subset [of _ "(\<lambda>row. fst (snd row)) ` set ?rows"]) force+
    moreover have "h \<in> {h. \<exists>p. (reason, h, p) \<in> set ?rows}" using h by blast
    ultimately have "0 < card {h. \<exists>p. (reason, h, p) \<in> set ?rows}" by (metis card_gt_0_iff empty_iff)
    then have "0 < fg_Contents g" unfolding re(2) group_contents .
    moreover have "fg_Reason g = reason" by (simp add: re(2) failureGroup_def Let_def)
    moreover obtain r d where "reason = reason_of r" "fg_ExamplePath g = d_path d" "r \<in> set (db_content db)"
      "r_state r = Failed" "d \<in> set (db_documents db)" "d_hash d = Some (r_hash r)"
      using h unfolding set_failureRows by fast
    ultimately show ?thesis by auto
  qed
  then show ?thesis using so groups_partition [OF assms] failed_hashes [OF assms] by simp
qed

theorem failure_groups_reconcile_witness:
  "(\<Sum>g \<leftarrow> failureGroups demo_db. fg_Contents g) = cc_Content (catalogCountsTx demo_db) Failed"
  using failure_groups_reconcile [OF catalog_inv_demo] by blast

end
