(* ===== verification/Handles.thy ===== *)
theory Handles
  imports Prelude
begin

text \<open>
  The index handle of the daemon (internal/daemon/index.go): one open database with a count of the
  requests that use it, the swap of the handle under the gate, and the requests, the replacement of the
  file and the shutdown that interleave with one another.
\<close>

section \<open>One handle (index.go: ref, release, retire, closeIfDone)\<close>

text \<open>
  \<open>hd_db\<close> is the open database, named by the inode it was opened on, \<open>None\<close> once it is closed; \<open>hd_file\<close>
  is the file it was opened for. The count is an \<open>int\<close> of Go, which so many requests cannot overflow.
\<close>

record handle =
  hd_db :: "nat option"
  hd_file :: nat
  hd_refs :: int
  hd_retired :: bool

text \<open>The answer of \<open>db.Close\<close> is an argument; the database counts as closed whatever it is.\<close>

definition closeIfDone :: "string option \<Rightarrow> handle \<Rightarrow> string option \<times> handle" where
  "closeIfDone cl h =
     (if \<not> hd_retired h \<or> hd_refs h > 0 \<or> hd_db h = None then (None, h)
      else (cl, h\<lparr>hd_db := None\<rparr>))"

definition refHandle :: "handle \<Rightarrow> handle" where
  "refHandle h = h\<lparr>hd_refs := hd_refs h + 1\<rparr>"

definition releaseHandle :: "string option \<Rightarrow> handle \<Rightarrow> handle" where
  "releaseHandle cl h = snd (closeIfDone cl (h\<lparr>hd_refs := hd_refs h - 1\<rparr>))"

definition retireHandle :: "string option \<Rightarrow> handle \<Rightarrow> string option \<times> handle" where
  "retireHandle cl h = closeIfDone cl (h\<lparr>hd_retired := True\<rparr>)"

section \<open>The daemon's handle (index.go: retireCurrent, acquire, Close)\<close>

text \<open>The handles ever made, in order; a handle is named by its position.\<close>

record Daemon =
  dm_heap :: "handle list"
  dm_current :: "nat option"
  dm_closed :: bool
  dm_once :: bool
  dm_closeErr :: "string option"

definition NewDaemon :: Daemon where
  "NewDaemon = \<lparr>dm_heap = [], dm_current = None, dm_closed = False, dm_once = False, dm_closeErr = None\<rparr>"

definition updHandle :: "nat \<Rightarrow> handle \<Rightarrow> Daemon \<Rightarrow> Daemon" where
  "updHandle h x d = d\<lparr>dm_heap := (dm_heap d)[h := x]\<rparr>"

definition retireCurrent :: "string option \<Rightarrow> Daemon \<Rightarrow> string option \<times> Daemon" where
  "retireCurrent cl d =
     (case dm_current d of
        None \<Rightarrow> (None, d)
      | Some h \<Rightarrow>
          (case retireHandle cl (dm_heap d ! h) of
             (e, x) \<Rightarrow> (e, (updHandle h x d)\<lparr>dm_current := None\<rparr>)))"

datatype AcquireErr =
    AcCtx string
  | AcShuttingDown
  | AcNoFile
  | AcStat string
  | AcOpen string

datatype StatAns = Present nat | NotExist | StatFailed string

datatype Checked = Refused AcquireErr | Claimed nat | MustOpen nat

text \<open>The part of \<open>acquire\<close> up to the opening of the file: it keeps, drops or replaces the handle.\<close>

definition checkIndex :: "StatAns \<Rightarrow> string option \<Rightarrow> Daemon \<Rightarrow> Checked \<times> Daemon" where
  "checkIndex st cl d =
     (if dm_closed d then (Refused AcShuttingDown, d)
      else case st of
        NotExist \<Rightarrow> (Refused AcNoFile, snd (retireCurrent cl d))
      | StatFailed m \<Rightarrow> (Refused (AcStat m), d)
      | Present i \<Rightarrow>
          (case dm_current d of
             None \<Rightarrow> (MustOpen i, d)
           | Some h \<Rightarrow>
               if hd_file (dm_heap d ! h) = i then (Claimed h, updHandle h (refHandle (dm_heap d ! h)) d)
               else (MustOpen i, snd (retireCurrent cl d))))"

text \<open>The rest: the answer of \<open>sqlite.OpenExisting\<close> is an error or the inode that was opened.\<close>

definition openIndex :: "nat \<Rightarrow> string + nat \<Rightarrow> Daemon \<Rightarrow> (AcquireErr + nat) \<times> Daemon" where
  "openIndex i ans d =
     (case ans of
        Inl m \<Rightarrow> (Inl (AcOpen m), d)
      | Inr db \<Rightarrow>
          (Inr (length (dm_heap d)),
           d\<lparr>dm_heap := dm_heap d @ [\<lparr>hd_db = Some db, hd_file = i, hd_refs = 1, hd_retired = False\<rparr>],
             dm_current := Some (length (dm_heap d))\<rparr>))"

definition acquire :: "StatAns \<Rightarrow> string option \<Rightarrow> string + nat \<Rightarrow> Daemon \<Rightarrow> (AcquireErr + nat) \<times> Daemon" where
  "acquire st cl ans d =
     (case checkIndex st cl d of
        (Refused e, d1) \<Rightarrow> (Inl e, d1)
      | (Claimed h, d1) \<Rightarrow> (Inr h, d1)
      | (MustOpen i, d1) \<Rightarrow> openIndex i ans d1)"

definition releaseAt :: "nat \<Rightarrow> string option \<Rightarrow> Daemon \<Rightarrow> Daemon" where
  "releaseAt h cl d = updHandle h (releaseHandle cl (dm_heap d ! h)) d"

definition CloseDaemon :: "string option \<Rightarrow> Daemon \<Rightarrow> Daemon" where
  "CloseDaemon cl d =
     (case retireCurrent cl (d\<lparr>dm_closed := True\<rparr>) of (e, d1) \<Rightarrow> d1\<lparr>dm_closeErr := e\<rparr>)"

section \<open>Requests that run at the same time\<close>

text \<open>
  Where a goroutine is: not in the daemon, waiting for the gate, holding it before the file is looked at,
  holding it while the file is opened, using a handle, or waiting for the gate to close the daemon. The
  gate is a channel of capacity one. A section between two of these points touches what the gate or a
  handle's mutex guards, so it is one step; another goroutine may release its handle between any two.
\<close>

datatype pc = Idle | Waiting | Gated | Opening nat | Using nat | Closing

record Sys =
  sy_dm :: Daemon
  sy_gate :: "nat option"
  sy_pc :: "nat \<Rightarrow> pc"

definition jump :: "nat \<Rightarrow> pc \<Rightarrow> nat option \<Rightarrow> Daemon \<Rightarrow> Sys \<Rightarrow> Sys" where
  "jump t c gate d s = s\<lparr>sy_dm := d, sy_gate := gate, sy_pc := (sy_pc s)(t := c)\<rparr>"

definition startSys :: Sys where
  "startSys = \<lparr>sy_dm = NewDaemon, sy_gate = None, sy_pc = (\<lambda>_. Idle)\<rparr>"

inductive sysStep :: "Sys \<Rightarrow> Sys \<Rightarrow> bool" where
  request: "sy_pc s t = Idle \<Longrightarrow> sysStep s (jump t Waiting (sy_gate s) (sy_dm s) s)"
| cancelled: "sy_pc s t = Waiting \<Longrightarrow> sysStep s (jump t Idle (sy_gate s) (sy_dm s) s)"
| enter: "sy_pc s t = Waiting \<Longrightarrow> sy_gate s = None \<Longrightarrow> sysStep s (jump t Gated (Some t) (sy_dm s) s)"
| refuse: "sy_pc s t = Gated \<Longrightarrow> checkIndex st cl (sy_dm s) = (Refused e, d) \<Longrightarrow> sysStep s (jump t Idle None d s)"
| claim: "sy_pc s t = Gated \<Longrightarrow> checkIndex st cl (sy_dm s) = (Claimed h, d) \<Longrightarrow> sysStep s (jump t (Using h) None d s)"
| reopen: "sy_pc s t = Gated \<Longrightarrow> checkIndex st cl (sy_dm s) = (MustOpen i, d) \<Longrightarrow>
    sysStep s (jump t (Opening i) (sy_gate s) d s)"
| unopened: "sy_pc s t = Opening i \<Longrightarrow> openIndex i ans (sy_dm s) = (Inl e, d) \<Longrightarrow> sysStep s (jump t Idle None d s)"
| opened: "sy_pc s t = Opening i \<Longrightarrow> openIndex i ans (sy_dm s) = (Inr h, d) \<Longrightarrow>
    sysStep s (jump t (Using h) None d s)"
| release: "sy_pc s t = Using h \<Longrightarrow> sysStep s (jump t Idle (sy_gate s) (releaseAt h cl (sy_dm s)) s)"
| shut: "sy_pc s t = Idle \<Longrightarrow> \<not> dm_once (sy_dm s) \<Longrightarrow>
    sysStep s (jump t Closing (sy_gate s) (sy_dm s\<lparr>dm_once := True\<rparr>) s)"
| close: "sy_pc s t = Closing \<Longrightarrow> sy_gate s = None \<Longrightarrow>
    sysStep s (jump t Idle None (CloseDaemon cl (sy_dm s)) s)"

section \<open>The invariant\<close>

text \<open>
  Every count is the number of goroutines that use the handle; a database is open exactly while its handle
  is current or used; who holds the gate is in one of the two places where it is held.
\<close>

definition users :: "Sys \<Rightarrow> nat \<Rightarrow> nat set" where
  "users s h = {t. sy_pc s t = Using h}"

definition gateHeld :: "pc \<Rightarrow> bool" where
  "gateHeld c \<longleftrightarrow> c = Gated \<or> (\<exists>i. c = Opening i)"

definition sound :: "nat option \<Rightarrow> nat \<Rightarrow> nat \<Rightarrow> handle \<Rightarrow> bool" where
  "sound cur n h x \<longleftrightarrow>
     hd_refs x = int n \<and> (hd_retired x \<longleftrightarrow> cur \<noteq> Some h) \<and> (hd_db x \<noteq> None \<longleftrightarrow> cur = Some h \<or> n > 0)"

definition soundHeap :: "nat option \<Rightarrow> (nat \<Rightarrow> nat) \<Rightarrow> handle list \<Rightarrow> bool" where
  "soundHeap cur n hs \<longleftrightarrow> (\<forall>h < length hs. sound cur (n h) h (hs ! h)) \<and> (\<forall>h. cur = Some h \<longrightarrow> h < length hs)"

definition handlesOk :: "Sys \<Rightarrow> bool" where
  "handlesOk s \<longleftrightarrow> soundHeap (dm_current (sy_dm s)) (\<lambda>h. card (users s h)) (dm_heap (sy_dm s))"

definition placesOk :: "Sys \<Rightarrow> bool" where
  "placesOk s \<longleftrightarrow>
     finite {t. sy_pc s t \<noteq> Idle} \<and>
     (\<forall>t h. sy_pc s t = Using h \<longrightarrow> h < length (dm_heap (sy_dm s))) \<and>
     (\<forall>t. gateHeld (sy_pc s t) \<longleftrightarrow> sy_gate s = Some t) \<and>
     (\<forall>t i. sy_pc s t = Opening i \<longrightarrow> dm_current (sy_dm s) = None \<and> \<not> dm_closed (sy_dm s)) \<and>
     (dm_closed (sy_dm s) \<longrightarrow> dm_current (sy_dm s) = None)"

section \<open>Every step keeps it\<close>

lemma users_jump:
  "users (jump t c g d s) h = (if c = Using h then insert t (users s h) else users s h - {t})"
  by (auto simp: users_def jump_def)

lemma finite_users: "finite {t. sy_pc s t \<noteq> Idle} \<Longrightarrow> finite (users s h)"
  by (rule finite_subset [rotated]) (auto simp: users_def)

lemma soundHeap_upd:
  assumes "soundHeap cur n hs" "h < length hs" "sound cur' m h x"
    and "\<And>k. k \<noteq> h \<Longrightarrow> k < length hs \<Longrightarrow> sound cur (n k) k (hs ! k) \<Longrightarrow> sound cur' (n k) k (hs ! k)"
    and "\<forall>k. cur' = Some k \<longrightarrow> k < length hs"
  shows "soundHeap cur' (n(h := m)) (hs[h := x])"
  using assms by (auto simp: soundHeap_def nth_list_update)

lemma retire_sound:
  assumes "soundHeap (dm_current d) n (dm_heap d)" "retireCurrent cl d = (e, d')"
  shows "soundHeap None n (dm_heap d')" "dm_current d' = None" "length (dm_heap d') = length (dm_heap d)"
    "dm_closed d' = dm_closed d" "dm_once d' = dm_once d"
proof -
  have "soundHeap None n (dm_heap d') \<and> dm_current d' = None \<and> length (dm_heap d') = length (dm_heap d) \<and>
    dm_closed d' = dm_closed d \<and> dm_once d' = dm_once d"
  proof (cases "dm_current d")
    case None
    then show ?thesis using assms by (auto simp: retireCurrent_def)
  next
    case (Some h)
    then have h: "h < length (dm_heap d)" "sound (Some h) (n h) h (dm_heap d ! h)"
      using assms(1) by (auto simp: soundHeap_def)
    obtain x where x: "retireHandle cl (dm_heap d ! h) = (e, x)" "d' = (updHandle h x d)\<lparr>dm_current := None\<rparr>"
      using assms(2) Some by (auto simp: retireCurrent_def split: prod.splits)
    have "sound None (n h) h x"
      using x(1) h(2) by (auto simp: retireHandle_def closeIfDone_def sound_def split: if_splits)
    from soundHeap_upd [OF assms(1) h(1) this] have "soundHeap None (n(h := n h)) ((dm_heap d)[h := x])"
      using Some by (auto simp: sound_def)
    then show ?thesis by (simp add: x(2) updHandle_def)
  qed
  then show "soundHeap None n (dm_heap d')" "dm_current d' = None" "length (dm_heap d') = length (dm_heap d)"
    "dm_closed d' = dm_closed d" "dm_once d' = dm_once d" by blast+
qed

lemma check_cases:
  assumes "checkIndex st cl d = (r, d')"
  obtains (same) "d' = d" "r = Refused AcShuttingDown \<or> (\<exists>m. r = Refused (AcStat m)) \<or>
      (\<exists>i. r = MustOpen i \<and> dm_current d = None \<and> \<not> dm_closed d)"
  | (retired) e where "retireCurrent cl d = (e, d')" "r = Refused AcNoFile \<or> (\<exists>i. r = MustOpen i)" "\<not> dm_closed d"
  | (claimed) h where "r = Claimed h" "dm_current d = Some h" "\<not> dm_closed d"
      "d' = updHandle h (refHandle (dm_heap d ! h)) d"
  using assms
  by (cases "retireCurrent cl d"; cases st; cases "dm_current d"; cases "dm_closed d") (auto simp: checkIndex_def split: if_splits)

lemma card_enter:
  assumes "finite {t. sy_pc s t \<noteq> Idle}" "\<And>h. sy_pc s t \<noteq> Using h"
  shows "(\<lambda>k. card (users (jump t (Using h) g d s) k)) = (\<lambda>k. card (users s k))(h := Suc (card (users s h)))"
proof -
  have "t \<notin> users s k" for k using assms(2) by (simp add: users_def)
  then show ?thesis using finite_users [OF assms(1), of h] by (simp add: users_jump fun_eq_iff)
qed

lemma card_leave:
  assumes "finite {t. sy_pc s t \<noteq> Idle}" "sy_pc s t = Using h"
  shows "(\<lambda>k. card (users (jump t Idle g d s) k)) = (\<lambda>k. card (users s k))(h := card (users s h) - 1)"
    "card (users s h) > 0"
proof -
  have t: "t \<in> users s k \<longleftrightarrow> k = h" for k using assms(2) by (auto simp: users_def)
  then show "(\<lambda>k. card (users (jump t Idle g d s) k)) = (\<lambda>k. card (users s k))(h := card (users s h) - 1)"
    by (simp add: users_jump fun_eq_iff)
  show "card (users s h) > 0" using t finite_users [OF assms(1), of h] by (auto simp: card_gt_0_iff)
qed

lemma handles_away:
  assumes "soundHeap (dm_current d) (\<lambda>h. card (users s h)) (dm_heap d)" "\<And>h. sy_pc s t \<noteq> Using h" "\<And>h. c \<noteq> Using h"
  shows "handlesOk (jump t c g d s)"
proof -
  have "users (jump t c g d s) = users s" using assms(2,3) by (auto simp: users_def jump_def fun_eq_iff)
  then show ?thesis using assms(1) by (simp add: handlesOk_def) (simp add: jump_def)
qed

lemma handles_same:
  assumes "handlesOk s" "dm_current d = dm_current (sy_dm s)" "dm_heap d = dm_heap (sy_dm s)"
    and "\<And>h. sy_pc s t \<noteq> Using h" "\<And>h. c \<noteq> Using h"
  shows "handlesOk (jump t c g d s)"
  by (rule handles_away) (use assms in \<open>auto simp: handlesOk_def\<close>)

lemma handles_check:
  assumes "handlesOk s" "checkIndex st cl (sy_dm s) = (r, d)" "\<And>h. r \<noteq> Claimed h"
  shows "soundHeap (dm_current d) (\<lambda>h. card (users s h)) (dm_heap d)"
  using assms(2)
proof (cases rule: check_cases)
  case (retired e)
  show ?thesis
    using retire_sound [OF assms(1) [unfolded handlesOk_def] retired(1)] by simp
qed (use assms in \<open>auto simp: handlesOk_def\<close>)

lemma handles_claim:
  assumes "handlesOk s" "finite {t. sy_pc s t \<noteq> Idle}" "\<And>h. sy_pc s t \<noteq> Using h"
    and "checkIndex st cl (sy_dm s) = (Claimed h, d)"
  shows "handlesOk (jump t (Using h) g d s)"
  using assms(4)
proof (cases rule: check_cases)
  case (claimed h')
  let ?n = "\<lambda>h. card (users s h)"
  have n: "(\<lambda>k. card (users (jump t (Using h) g d s) k)) = ?n(h := Suc (?n h))"
    by (rule card_enter [OF assms(2,3)])
  have c: "dm_current (sy_dm s) = Some h" using claimed by simp
  then have h: "h < length (dm_heap (sy_dm s))" "sound (Some h) (?n h) h (dm_heap (sy_dm s) ! h)"
    using assms(1) by (auto simp: handlesOk_def soundHeap_def)
  have "soundHeap (Some h) (?n(h := Suc (?n h))) ((dm_heap (sy_dm s))[h := refHandle (dm_heap (sy_dm s) ! h)])"
    by (rule soundHeap_upd [where cur = "Some h"]) (use assms(1) h c in \<open>auto simp: handlesOk_def sound_def refHandle_def\<close>)
  then show ?thesis
    unfolding handlesOk_def n using claimed by (simp add: jump_def updHandle_def)
qed auto

lemma handles_open:
  assumes "handlesOk s" "placesOk s" "sy_pc s t = Opening i" "openIndex i ans (sy_dm s) = (Inr h, d)"
  shows "handlesOk (jump t (Using h) g d s)"
proof -
  let ?n = "\<lambda>h. card (users s h)" and ?hs = "dm_heap (sy_dm s)"
  obtain x where h: "h = length ?hs" "dm_heap d = ?hs @ [x]" "sound (Some h) 1 h x" "dm_current d = Some h"
    using assms(4) by (auto simp: openIndex_def sound_def split: sum.splits)
  have "users s h = {}" using assms(2) h(1) by (force simp: users_def placesOk_def)
  moreover have "sy_pc s t \<noteq> Using k" for k using assms(3) by simp
  ultimately have n: "(\<lambda>k. card (users (jump t (Using h) g d s) k)) = ?n(h := 1)"
    using card_enter [of s t h g d] assms(2) by (simp add: placesOk_def)
  have "sound None (?n k) k (?hs ! k)" if "k < length ?hs" for k
    using assms that by (auto simp: handlesOk_def soundHeap_def placesOk_def)
  then have "sound (Some h) ((?n(h := 1)) k) k ((?hs @ [x]) ! k)" if "k < Suc h" for k
    using that h(1,3) by (auto simp: nth_append sound_def)
  then have "soundHeap (Some h) (?n(h := 1)) (?hs @ [x])" using h(1) by (simp add: soundHeap_def)
  then show ?thesis unfolding handlesOk_def n using h(2,4) by (simp add: jump_def)
qed

lemma handles_release:
  assumes "handlesOk s" "placesOk s" "sy_pc s t = Using h"
  shows "handlesOk (jump t Idle g (releaseAt h cl (sy_dm s)) s)"
proof -
  let ?n = "\<lambda>h. card (users s h)" and ?hs = "dm_heap (sy_dm s)" and ?cur = "dm_current (sy_dm s)"
  have u: "finite {t. sy_pc s t \<noteq> Idle}" "h < length ?hs" using assms by (auto simp: placesOk_def)
  have n: "(\<lambda>k. card (users (jump t Idle g (releaseAt h cl (sy_dm s)) s) k)) = ?n(h := ?n h - 1)"
    and pos: "?n h > 0"
    by (rule card_leave [OF u(1) assms(3)])+
  have "sound ?cur (?n h) h (?hs ! h)" using assms(1) u(2) by (simp add: handlesOk_def soundHeap_def)
  then have "sound ?cur (?n h - 1) h (releaseHandle cl (?hs ! h))"
    using pos by (auto simp: sound_def releaseHandle_def closeIfDone_def)
  from soundHeap_upd [OF assms(1) [unfolded handlesOk_def] u(2) this]
  have "soundHeap ?cur (?n(h := ?n h - 1)) (?hs[h := releaseHandle cl (?hs ! h)])"
    using assms(1) by (auto simp: handlesOk_def soundHeap_def)
  then show ?thesis unfolding handlesOk_def n by (simp add: jump_def releaseAt_def updHandle_def)
qed

lemma handles_step: "sysStep s s' \<Longrightarrow> handlesOk s \<Longrightarrow> placesOk s \<Longrightarrow> handlesOk s'"
proof (induction rule: sysStep.induct)
  case (refuse s t st cl e d)
  from handles_check [OF refuse(3) refuse(2)] refuse(1) show ?case by (auto intro: handles_away)
next
  case (claim s t st cl h d)
  then show ?case by (auto intro: handles_claim simp: placesOk_def)
next
  case (reopen s t st cl i d)
  from handles_check [OF reopen(3) reopen(2)] reopen(1) show ?case by (auto intro: handles_away)
next
  case (unopened s t i ans e d)
  then have "d = sy_dm s" by (simp add: openIndex_def split: sum.splits)
  then show ?case using unopened(1,3) by (auto intro: handles_same)
next
  case (opened s t i ans h d)
  then show ?case by (blast intro: handles_open)
next
  case (release s t h cl)
  then show ?case by (blast intro: handles_release)
next
  case (close s t cl)
  obtain e d where d: "retireCurrent cl (sy_dm s\<lparr>dm_closed := True\<rparr>) = (e, d)" by (cases "retireCurrent cl (sy_dm s\<lparr>dm_closed := True\<rparr>)")
  have "soundHeap (dm_current d) (\<lambda>h. card (users s h)) (dm_heap d)"
    using retire_sound [OF _ d, of "\<lambda>h. card (users s h)"] close(3) by (simp add: handlesOk_def)
  then show ?case using close(1) d by (auto intro!: handles_away simp: CloseDaemon_def)
qed (auto intro!: handles_same)

lemma finite_jump: "finite {t. sy_pc s t \<noteq> Idle} \<Longrightarrow> finite {t'. sy_pc (jump t c g d s) t' \<noteq> Idle}"
  by (rule finite_subset [of _ "insert t {t. sy_pc s t \<noteq> Idle}"]) (auto simp: jump_def)

lemma places_jump:
  assumes "placesOk s" "handlesOk s" "gateHeld c \<longleftrightarrow> g = Some t" "g = None \<or> g = Some t \<or> g = sy_gate s"
    and "gateHeld (sy_pc s t) \<or> sy_gate s = None \<or> g = sy_gate s"
    and "length (dm_heap (sy_dm s)) \<le> length (dm_heap d)" "\<And>h. c = Using h \<Longrightarrow> h < length (dm_heap d)"
    and "dm_closed d \<longrightarrow> dm_current d = None" "\<And>i. c = Opening i \<Longrightarrow> dm_current d = None \<and> \<not> dm_closed d"
    and "g = sy_gate s \<and> sy_gate s \<notin> {None, Some t} \<longrightarrow> dm_current d = dm_current (sy_dm s) \<and> dm_closed d = dm_closed (sy_dm s)"
  shows "placesOk (jump t c g d s)"
proof -
  have gate: "gateHeld (sy_pc s t') \<longleftrightarrow> sy_gate s = Some t'" for t' using assms(1) by (simp add: placesOk_def)
  have others: "gateHeld (sy_pc s t') \<longleftrightarrow> g = Some t'" if "t' \<noteq> t" for t'
    using gate [of t'] gate [of t] assms(4,5) that by auto
  have "dm_current d = None \<and> \<not> dm_closed d" if "sy_pc s t' = Opening i" "t' \<noteq> t" for t' i
    using that others [of t'] gate [of t'] assms(1,10) by (auto simp: placesOk_def gateHeld_def)
  moreover have "h < length (dm_heap d)" if "sy_pc s t' = Using h" for t' h
    using that assms(1,6) by (fastforce simp: placesOk_def)
  ultimately show ?thesis
    using assms(1,3,7,8,9) others finite_jump [of s t c g d] by (auto simp: placesOk_def jump_def)
qed

lemma check_places:
  assumes "checkIndex st cl (sy_dm s) = (r, d)" "placesOk s" "handlesOk s"
  shows "length (dm_heap d) = length (dm_heap (sy_dm s))" "dm_closed d \<longrightarrow> dm_current d = None"
    "\<And>i. r = MustOpen i \<Longrightarrow> dm_current d = None \<and> \<not> dm_closed d"
    "\<And>h. r = Claimed h \<Longrightarrow> h < length (dm_heap d)"
  using assms(1)
  by (cases rule: check_cases;
      use assms(2,3) retire_sound [OF assms(3) [unfolded handlesOk_def], of cl _ d] in
        \<open>auto simp: placesOk_def updHandle_def handlesOk_def soundHeap_def\<close>)+

lemma not_holding: "placesOk s \<Longrightarrow> \<not> gateHeld (sy_pc s t) \<Longrightarrow> sy_gate s \<noteq> Some t"
  by (auto simp: placesOk_def)

lemma places_step: "sysStep s s' \<Longrightarrow> handlesOk s \<Longrightarrow> placesOk s \<Longrightarrow> placesOk s'"
proof (induction rule: sysStep.induct)
  case (refuse s t st cl e d)
  then show ?case
    using check_places [OF refuse(2) refuse(4,3)] by (intro places_jump) (auto simp: gateHeld_def placesOk_def)
next
  case (claim s t st cl h d)
  then show ?case
    using check_places [OF claim(2) claim(4,3)] by (intro places_jump) (auto simp: gateHeld_def placesOk_def)
next
  case (reopen s t st cl i d)
  then have "sy_gate s = Some t" by (auto simp: gateHeld_def placesOk_def)
  then show ?case
    using check_places [OF reopen(2) reopen(4,3)] reopen by (intro places_jump) (auto simp: gateHeld_def)
next
  case (unopened s t i ans e d)
  then have "d = sy_dm s" by (simp add: openIndex_def split: sum.splits)
  then show ?case using unopened by (intro places_jump) (auto simp: gateHeld_def placesOk_def)
next
  case (opened s t i ans h d)
  then have "dm_closed d = dm_closed (sy_dm s)" "length (dm_heap d) = Suc (length (dm_heap (sy_dm s)))" "h < length (dm_heap d)"
    by (auto simp: openIndex_def split: sum.splits)
  moreover have "\<not> dm_closed (sy_dm s)" using opened by (auto simp: placesOk_def)
  ultimately show ?case using opened by (intro places_jump) (auto simp: gateHeld_def)
next
  case (release s t h cl)
  then have "sy_gate s \<noteq> Some t" by (intro not_holding) (auto simp: gateHeld_def)
  then show ?case
    using release by (intro places_jump) (auto simp: gateHeld_def placesOk_def releaseAt_def updHandle_def)
next
  case (close s t cl)
  obtain e d where d: "retireCurrent cl (sy_dm s\<lparr>dm_closed := True\<rparr>) = (e, d)" by (cases "retireCurrent cl (sy_dm s\<lparr>dm_closed := True\<rparr>)")
  show ?case
    using retire_sound [OF _ d, of "\<lambda>h. card (users s h)"] close d
    by (intro places_jump) (auto simp: CloseDaemon_def handlesOk_def gateHeld_def)
next
  case (request s t)
  then have "sy_gate s \<noteq> Some t" by (intro not_holding) (auto simp: gateHeld_def)
  then show ?case using request by (intro places_jump) (auto simp: gateHeld_def placesOk_def)
next
  case (cancelled s t)
  then have "sy_gate s \<noteq> Some t" by (intro not_holding) (auto simp: gateHeld_def)
  then show ?case using cancelled by (intro places_jump) (auto simp: gateHeld_def placesOk_def)
next
  case (enter s t)
  then show ?case by (intro places_jump) (auto simp: gateHeld_def placesOk_def)
next
  case (shut s t)
  then have "sy_gate s \<noteq> Some t" by (intro not_holding) (auto simp: gateHeld_def)
  then show ?case using shut by (intro places_jump) (auto simp: gateHeld_def placesOk_def)
qed

lemma sys_invariant: "sysStep\<^sup>*\<^sup>* startSys s \<Longrightarrow> handlesOk s \<and> placesOk s"
proof (induction rule: rtranclp_induct)
  case base
  show ?case by (simp add: startSys_def NewDaemon_def handlesOk_def soundHeap_def placesOk_def gateHeld_def)
next
  case (step s s')
  then show ?case by (blast intro: handles_step places_step)
qed

section \<open>A request that runs alone\<close>

lemma jump_jump [simp]: "jump t c g d (jump t c' g' d' s) = jump t c g d s"
  by (simp add: jump_def)

lemma jump_simps [simp]: "sy_dm (jump t c g d s) = d" "sy_gate (jump t c g d s) = g" "sy_pc (jump t c g d s) = (sy_pc s)(t := c)"
  by (simp_all add: jump_def)

lemma enter_run:
  assumes "sy_pc s t = Idle" "sy_gate s = None"
  shows "sysStep\<^sup>*\<^sup>* s (jump t Gated (Some t) (sy_dm s) s)"
proof -
  have "sysStep s (jump t Waiting None (sy_dm s) s)" using sysStep.request [of s t] assms by simp
  moreover have "sysStep (jump t Waiting None (sy_dm s) s) (jump t Gated (Some t) (sy_dm s) s)"
    using sysStep.enter [of "jump t Waiting None (sy_dm s) s" t] by simp
  ultimately show ?thesis by (meson converse_rtranclp_into_rtranclp rtranclp.rtrancl_refl)
qed

lemma acquire_run:
  assumes "sy_pc s t = Idle" "sy_gate s = None" "acquire st cl ans (sy_dm s) = (Inr h, d)"
  shows "sysStep\<^sup>*\<^sup>* s (jump t (Using h) None d s)"
proof -
  let ?s = "jump t Gated (Some t) (sy_dm s) s"
  have "sysStep\<^sup>*\<^sup>* ?s (jump t (Using h) None d s)"
  proof (cases "checkIndex st cl (sy_dm s)")
    case (Pair r d1)
    show ?thesis
    proof (cases r)
      case (Claimed h')
      then show ?thesis using assms(3) Pair sysStep.claim [of ?s t st cl h d] by (simp add: acquire_def)
    next
      case (MustOpen i)
      let ?s' = "jump t (Opening i) (Some t) d1 s"
      have "sysStep ?s ?s'" using Pair MustOpen sysStep.reopen [of ?s t st cl i d1] by simp
      moreover have "sysStep ?s' (jump t (Using h) None d s)"
        using assms(3) Pair MustOpen sysStep.opened [of ?s' t i ans h d] by (simp add: acquire_def)
      ultimately show ?thesis by (meson converse_rtranclp_into_rtranclp rtranclp.rtrancl_refl)
    qed (use assms(3) Pair in \<open>simp add: acquire_def\<close>)
  qed
  with enter_run [OF assms(1,2)] show ?thesis by (rule rtranclp_trans)
qed

text \<open>A request opens inode 1; while it runs the file is replaced and a second one opens inode 2.\<close>

definition demo_one :: Sys where
  "demo_one = jump 0 (Using 0) None (snd (acquire (Present 1) None (Inr 1) NewDaemon)) startSys"

definition demo_two :: Sys where
  "demo_two = jump 1 (Using 1) None (snd (acquire (Present 2) None (Inr 2) (sy_dm demo_one))) demo_one"

lemmas acquire_eval = acquire_def checkIndex_def openIndex_def retireCurrent_def retireHandle_def closeIfDone_def
  updHandle_def NewDaemon_def

lemma demo_two_reached: "sysStep\<^sup>*\<^sup>* startSys demo_two"
proof -
  have "sysStep\<^sup>*\<^sup>* startSys demo_one"
    unfolding demo_one_def
    by (rule acquire_run [where st = "Present 1" and cl = None and ans = "Inr 1"]) (simp_all add: startSys_def acquire_eval)
  moreover have "sysStep\<^sup>*\<^sup>* demo_one demo_two"
    unfolding demo_two_def
    by (rule acquire_run [where st = "Present 2" and cl = None and ans = "Inr 2"])
      (simp_all add: demo_one_def startSys_def acquire_eval)
  ultimately show ?thesis by (rule rtranclp_trans)
qed

lemma demo_two_shape:
  "dm_heap (sy_dm demo_two) = [\<lparr>hd_db = Some 1, hd_file = 1, hd_refs = 1, hd_retired = True\<rparr>,
     \<lparr>hd_db = Some 2, hd_file = 2, hd_refs = 1, hd_retired = False\<rparr>]"
  "sy_pc demo_two = (\<lambda>_. Idle)(0 := Using 0, 1 := Using 1)" "dm_current (sy_dm demo_two) = Some 1"
  by (simp_all add: demo_two_def demo_one_def startSys_def acquire_eval)

section \<open>What the count is for\<close>

text \<open>
  C3: however requests, replacements of the file and the shutdown interleave, the database of a handle that
  a request uses is open.
\<close>

theorem in_use_stays_open:
  assumes "sysStep\<^sup>*\<^sup>* startSys s" "sy_pc s t = Using h"
  shows "h < length (dm_heap (sy_dm s)) \<and> hd_db (dm_heap (sy_dm s) ! h) \<noteq> None"
proof -
  have ok: "handlesOk s" "placesOk s" using sys_invariant [OF assms(1)] by auto
  then have "h < length (dm_heap (sy_dm s))" using assms(2) by (auto simp: placesOk_def)
  moreover have "card (users s h) > 0" using card_leave(2) [of s t h] ok(2) assms(2) by (simp add: placesOk_def)
  ultimately show ?thesis using ok(1) by (auto simp: handlesOk_def soundHeap_def sound_def)
qed

theorem in_use_stays_open_witness: "hd_db (dm_heap (sy_dm demo_two) ! 0) \<noteq> None \<and> hd_retired (dm_heap (sy_dm demo_two) ! 0)"
  using in_use_stays_open [OF demo_two_reached, of 0 0] by (simp add: demo_two_shape)

text \<open>
  C37: no database stays open without need: one that is open is the current handle of a daemon that is not
  closed, or a request uses it.
\<close>

theorem nothing_leaks:
  assumes "sysStep\<^sup>*\<^sup>* startSys s" "h < length (dm_heap (sy_dm s))"
  shows "hd_db (dm_heap (sy_dm s) ! h) \<noteq> None \<longleftrightarrow>
    dm_current (sy_dm s) = Some h \<and> \<not> dm_closed (sy_dm s) \<or> (\<exists>t. sy_pc s t = Using h)"
proof -
  have ok: "handlesOk s" "placesOk s" using sys_invariant [OF assms(1)] by auto
  have "hd_db (dm_heap (sy_dm s) ! h) \<noteq> None \<longleftrightarrow> dm_current (sy_dm s) = Some h \<or> card (users s h) > 0"
    using ok(1) assms(2) by (auto simp: handlesOk_def soundHeap_def sound_def)
  moreover have "card (users s h) > 0 \<longleftrightarrow> (\<exists>t. sy_pc s t = Using h)"
    using finite_users [of s h] ok(2) by (auto simp: placesOk_def card_gt_0_iff users_def)
  ultimately show ?thesis using ok(2) by (auto simp: placesOk_def)
qed

text \<open>The first request is over: its handle, which the replacement retired, is closed.\<close>

theorem nothing_leaks_witness: "hd_db (releaseHandle None (dm_heap (sy_dm demo_two) ! 0)) = None"
proof -
  let ?s = "jump 0 Idle (sy_gate demo_two) (releaseAt 0 None (sy_dm demo_two)) demo_two"
  have "sysStep demo_two ?s" by (rule sysStep.release) (simp add: demo_two_shape)
  then have "sysStep\<^sup>*\<^sup>* startSys ?s" using demo_two_reached by (rule rtranclp.rtrancl_into_rtrancl [rotated])
  from nothing_leaks [OF this, of 0] show ?thesis
    by (auto simp: demo_two_shape releaseAt_def updHandle_def split: if_splits)
qed

end
