(* ===== verification/Backend.thy ===== *)
theory Backend
  imports Search Status Handles
begin

text \<open>
  What the daemon answers (internal/daemon/index.go: Search, Status, diskUsage) and how the transport puts
  it on the wire (internal/server/errors.go, the bodies of handleSearch and handleStatus): readiness, error
  codes, and that the two endpoints tell the same story.
\<close>

section \<open>The daemon's options and errors (index.go: Options, unavailableReason, acquire)\<close>

record DaemonOptions =
  do_DBPath :: path
  do_Embedder :: "Embedder option"
  do_NotReady :: string

definition unavailableReason :: "DaemonOptions \<Rightarrow> string" where
  "unavailableReason o' = (if do_NotReady o' \<noteq> '''' then do_NotReady o' else ''the daemon has no embedding model configured'')"

text \<open>An error of the search package, or one with nothing to classify it by.\<close>

datatype BackendErr = Of SearchErr | Plain string

definition acquireErr :: "DaemonOptions \<Rightarrow> AcquireErr \<Rightarrow> BackendErr" where
  "acquireErr o' e =
     (case e of
        AcCtx m \<Rightarrow> Of (OfContext m)
      | AcShuttingDown \<Rightarrow> Plain ''the daemon is shutting down''
      | AcNoFile \<Rightarrow> Of (Wrapped ErrNotIndexed
          (''no index database at '' @ do_DBPath o' @ '' yet '' @ emDash @ '' the daemon creates it once an embedding model is configured''))
      | AcStat m \<Rightarrow> Plain (''check index: '' @ m)
      | AcOpen m \<Rightarrow> Of (Wrapped ErrNotIndexed m))"

definition isNotIndexed :: "BackendErr \<Rightarrow> bool" where
  "isNotIndexed e \<longleftrightarrow> (case e of Of e' \<Rightarrow> wraps e' ErrNotIndexed | Plain _ \<Rightarrow> False)"

definition backendText :: "(StoreErr \<Rightarrow> string) \<Rightarrow> BackendErr \<Rightarrow> string" where
  "backendText st e = (case e of Of e' \<Rightarrow> errText st e' | Plain m \<Rightarrow> m)"

definition backendMessage :: "(StoreErr \<Rightarrow> string) \<Rightarrow> BackendErr \<Rightarrow> string" where
  "backendMessage st e = (case e of Of e' \<Rightarrow> Message st (Some e') | Plain m \<Rightarrow> m)"

section \<open>Search and Status (index.go)\<close>

text \<open>
  \<open>acq\<close> is what \<open>acquire\<close> answered; the store behind the handle is that of the world. The nearest-neighbour
  query and the texts are those of the search service.
\<close>

definition DaemonSearch ::
  "DaemonOptions \<Rightarrow> knn \<Rightarrow> SearchTexts \<Rightarrow> (nat \<Rightarrow> int) \<Rightarrow> AcquireErr + nat \<Rightarrow> Request \<Rightarrow> World \<Rightarrow>
     (BackendErr + Response) \<times> World" where
  "DaemonSearch o' nn tx clock acq req w =
     (case do_Embedder o' of
        None \<Rightarrow> (Inl (Of (Wrapped ErrNotIndexed (unavailableReason o'))), w)
      | Some em \<Rightarrow>
          (case acq of
             Inl e \<Rightarrow> (Inl (acquireErr o' e), w)
           | Inr h \<Rightarrow>
               (case SearchFor \<lparr>sv_knn = nn, sv_embedder = em\<rparr> tx clock req w of
                  (Inl e, w') \<Rightarrow> (Inl (Of e), w')
                | (Inr resp, w') \<Rightarrow> (Inr resp, w'))))"

record DiskUsage =
  du_DBBytes :: int
  du_WALBytes :: int
  du_TotalBytes :: int

text \<open>\<open>os.Stat\<close> answers the size of a file, or nothing when it fails.\<close>

definition diskUsage :: "(path \<Rightarrow> int option) \<Rightarrow> path \<Rightarrow> DiskUsage" where
  "diskUsage stat p =
     (let size = (\<lambda>q. case stat q of None \<Rightarrow> 0 | Some n \<Rightarrow> n);
          main = size p; wal = size (p @ ''-wal'')
      in \<lparr>du_DBBytes = main, du_WALBytes = wal, du_TotalBytes = goInt (main + wal)\<rparr>)"

record IndexStatus =
  is_Ready :: bool
  is_Reason :: string
  is_Model :: string
  is_Dims :: int
  is_Files :: nat
  is_Content :: "ContentState \<Rightarrow> nat"
  is_Unread :: "UnreadReason \<Rightarrow> nat"
  is_Queue :: "QueueDepth option"
  is_Failures :: "FailureGroup list"
  is_Disk :: "DiskUsage option"

definition emptyStatus :: IndexStatus where
  "emptyStatus = \<lparr>is_Ready = False, is_Reason = '''', is_Model = '''', is_Dims = 0, is_Files = 0,
     is_Content = (\<lambda>_. 0), is_Unread = (\<lambda>_. 0), is_Queue = None, is_Failures = [], is_Disk = None\<rparr>"

definition maxFailureGroups :: int where "maxFailureGroups = 5"

text \<open>The vector half of the status, once the counts are in.\<close>

definition vectorStatus :: "DaemonOptions \<Rightarrow> SearchTexts \<Rightarrow> IndexStatus \<Rightarrow> World \<Rightarrow> (BackendErr + IndexStatus) \<times> World" where
  "vectorStatus o' tx status w =
     (case onStore CurrentVecSpec w of
        (Inl ErrNoVecTable, w1) \<Rightarrow>
          (Inr (status\<lparr>is_Reason := ''nothing embedded yet '' @ emDash @ '' the daemon indexes in the background''\<rparr>), w1)
      | (Inl e, w1) \<Rightarrow> (Inl (Of (OfStore e)), w1)
      | (Inr (indexed, dims), w1) \<Rightarrow>
          (let status1 = status\<lparr>is_Model := es_Model indexed, is_Dims := dims\<rparr> in
           case do_Embedder o' of
             None \<Rightarrow> (Inr (status1\<lparr>is_Reason := unavailableReason o'\<rparr>), w1)
           | Some em \<Rightarrow>
               (let configured = em_Spec em\<lparr>es_CeilingTokens := 0\<rparr> in
                if indexed \<noteq> configured then
                  (Inr (status1\<lparr>is_Reason :=
                     ''the index was built for model '' @ tx_quote tx (es_Model indexed) @ '' but the daemon is configured for '' @
                     tx_quote tx (es_Model configured) @ '' '' @ emDash @
                     '' restart the daemon, which re-embeds the corpus in the background under the configured model''\<rparr>), w1)
                else (Inr (status1\<lparr>is_Ready := True\<rparr>), w1))))"

definition DaemonStatus ::
  "DaemonOptions \<Rightarrow> SearchTexts \<Rightarrow> (StoreErr \<Rightarrow> string) \<Rightarrow> (path \<Rightarrow> int option) \<Rightarrow> (nat \<Rightarrow> int) \<Rightarrow> AcquireErr + nat \<Rightarrow> World \<Rightarrow>
     (BackendErr + IndexStatus) \<times> World" where
  "DaemonStatus o' tx st stat clock acq w =
     (case acq of
        Inl e \<Rightarrow>
          (let err = acquireErr o' e in
           if isNotIndexed err then
             (Inr (emptyStatus\<lparr>is_Reason := (if do_Embedder o' = None then unavailableReason o' else backendMessage st err)\<rparr>), w)
           else (Inl err, w))
      | Inr h \<Rightarrow>
          (case ask clock w of
             (now, w1) \<Rightarrow>
               (case onStore (StatusSnapshot now maxFailureGroups) w1 of
                  (Inl e, w2) \<Rightarrow> (Inl (Of (OfStore e)), w2)
                | (Inr (counts, depth, groups), w2) \<Rightarrow>
                    vectorStatus o' tx
                      (emptyStatus\<lparr>is_Disk := Some (diskUsage stat (do_DBPath o')), is_Files := cc_Files counts,
                         is_Content := cc_Content counts, is_Unread := cc_Unread counts, is_Queue := Some depth,
                         is_Failures := groups\<rparr>) w2)))"

section \<open>The wire (server/errors.go: classify; server.go: handleSearch, decodeSearch; status.go: handleStatus)\<close>

datatype CtxKind = Canceled | DeadlineExceeded

text \<open>
  Which of the context's errors \<open>errors.Is\<close> finds: in the text of the embedder's error, and behind the
  store's error the one the request's own context ended with.
\<close>

record CtxTexts =
  cx_kind :: "string \<Rightarrow> CtxKind"
  cx_ended :: CtxKind

definition ctxOf :: "CtxTexts \<Rightarrow> BackendErr \<Rightarrow> CtxKind option" where
  "ctxOf cx e =
     (case e of
        Of (OfContext m) \<Rightarrow> Some (cx_kind cx m)
      | Of (OfStore ErrCtx) \<Rightarrow> Some (cx_ended cx)
      | _ \<Rightarrow> None)"

definition isErr :: "BackendErr \<Rightarrow> Sentinel \<Rightarrow> bool" where
  "isErr e k \<longleftrightarrow> (case e of Of e' \<Rightarrow> wraps e' k | Plain _ \<Rightarrow> False)"

definition genericInternalMessage :: string where
  "genericInternalMessage = ''the daemon hit an unexpected error '' @ emDash @ '' check its log''"

definition classify :: "(StoreErr \<Rightarrow> string) \<Rightarrow> CtxTexts \<Rightarrow> BackendErr \<Rightarrow> nat \<times> string \<times> string" where
  "classify st cx e =
     (if ctxOf cx e = Some Canceled then (499, ''client_closed'', ''the client closed the connection'')
      else if ctxOf cx e = Some DeadlineExceeded then
        (504, ''timeout'', ''the search took too long '' @ emDash @ '' the inference server may be slow or loading a model'')
      else if isErr e ErrInvalidRequest then (400, ''bad_request'', backendMessage st e)
      else if isErr e ErrNotIndexed then (503, ''not_indexed'', backendMessage st e)
      else if isErr e ErrIndexMismatch then (409, ''index_mismatch'', backendMessage st e)
      else if isErr e ErrEmbedder then (502, ''embedder_unavailable'', backendMessage st e)
      else (500, ''internal'', genericInternalMessage))"

text \<open>What the JSON decoder made of the body of a request (at most \<open>MaxRequestBytes\<close> of it).\<close>

datatype Decoded = Body Request | BodyTooLarge | BodyBad string | BodyTrailing

datatype 'a Reply = Answered 'a | ErrorReply nat string string

text \<open>
  \<open>handleSearch\<close> with \<open>used\<close> of the \<open>slots\<close> taken; \<open>back\<close> is the backend's search. A slot is taken for the
  search and given back after it.
\<close>

definition handleSearch ::
  "(StoreErr \<Rightarrow> string) \<Rightarrow> CtxTexts \<Rightarrow> nat \<Rightarrow> nat \<Rightarrow> (Request \<Rightarrow> World \<Rightarrow> (BackendErr + Response) \<times> World) \<Rightarrow> Decoded \<Rightarrow> World \<Rightarrow>
     Response Reply \<times> World" where
  "handleSearch st cx slots used back body w =
     (case body of
        BodyTooLarge \<Rightarrow> (ErrorReply 413 ''payload_too_large'' ''the request body is too large'', w)
      | BodyBad m \<Rightarrow> (ErrorReply 400 ''bad_request'' (''could not read the request: '' @ m), w)
      | BodyTrailing \<Rightarrow> (ErrorReply 400 ''bad_request'' ''the request body has trailing content after the JSON object'', w)
      | Body req \<Rightarrow>
          if \<not> used < slots then
            (ErrorReply 503 ''busy''
              (''the daemon is already running as many searches as it will run at once '' @ emDash @ '' try again shortly''), w)
          else (case back req w of
                  (Inr resp, w') \<Rightarrow> (Answered resp, w')
                | (Inl e, w') \<Rightarrow> (case classify st cx e of (status, code, msg) \<Rightarrow> (ErrorReply status code msg, w'))))"

text \<open>The index half of the status document: a failure becomes the reason.\<close>

definition handleStatus ::
  "(StoreErr \<Rightarrow> string) \<Rightarrow> (World \<Rightarrow> (BackendErr + IndexStatus) \<times> World) \<Rightarrow> World \<Rightarrow> IndexStatus \<times> World" where
  "handleStatus st back w =
     (case back w of
        (Inl e, w') \<Rightarrow> (emptyStatus\<lparr>is_Reason := backendText st e\<rparr>, w')
      | (Inr status, w') \<Rightarrow> (status, w'))"

section \<open>Readiness\<close>

definition specOf :: "vecDescriptor \<Rightarrow> EmbeddingSpec" where
  "specOf desc = \<lparr>es_Model = vd_Model desc, es_QueryTemplate = vd_QueryTemplate desc,
     es_PassageTemplate = vd_PassageTemplate desc, es_CeilingTokens = 0\<rparr>"

text \<open>There is an embedder, and the current generation was built under its identity.\<close>

definition agrees :: "DaemonOptions \<Rightarrow> DB \<Rightarrow> bool" where
  "agrees o' db \<longleftrightarrow> (\<exists>em table desc. do_Embedder o' = Some em \<and> currentVecTable db = Inr (table, desc) \<and>
     specOf desc = em_Spec em\<lparr>es_CeilingTokens := 0\<rparr>)"

lemma reader_quiet:
  assumes "quiet (w_store w)"
  obtains w' where "onStore (withReader q) w = (q (wdb w), w')" "quiet (w_store w')" "wdb w' = wdb w" "w_tick w' = w_tick w"
proof -
  obtain r w' where "onStore (withReader q) w = (r, w')" by fastforce
  then show thesis
    using that [of w'] withReader_quiet [OF assms, of q] withReader_result [of q "w_store w" r "w_store w'"]
    by (auto simp: onStore_result)
qed

lemma current_quiet:
  assumes "quiet (w_store w)"
  obtains w' where "onStore CurrentVecSpec w =
      (case currentVecTable (wdb w) of Inl e \<Rightarrow> Inl e | Inr (table, desc) \<Rightarrow> Inr (specOf desc, vd_Dims desc), w')"
    "quiet (w_store w')" "wdb w' = wdb w" "w_tick w' = w_tick w"
  unfolding CurrentVecSpec_def specOf_def by (rule reader_quiet [OF assms])

lemma snapshot_quiet:
  assumes "quiet (w_store w)"
  obtains x w' where "onStore (StatusSnapshot now n) w = (Inr x, w')" "quiet (w_store w')" "wdb w' = wdb w"
proof -
  have "\<exists>q. StatusSnapshot now n = withReader (\<lambda>db. Inr (q db))"
    unfolding StatusSnapshot_def Let_def by (rule exI, rule refl)
  then obtain q where q: "StatusSnapshot now n = withReader (\<lambda>db. Inr (q db))" ..
  obtain w' where "onStore (withReader (\<lambda>db. Inr (q db))) w = (Inr (q (wdb w)), w')" "quiet (w_store w')" "wdb w' = wdb w"
    by (rule reader_quiet [OF assms])
  then show thesis using that by (simp add: q)
qed

lemma status_ready:
  assumes "quiet (w_store w)"
    and status: "status = fst (handleStatus st (DaemonStatus o' tx st stat clock acq) w)"
  shows "is_Ready status \<longleftrightarrow> (\<exists>h. acq = Inr h) \<and> agrees o' (wdb w)"
    "is_Ready status \<Longrightarrow> currentVecTable (wdb w) = Inr (table, desc) \<Longrightarrow> is_Dims status = vd_Dims desc"
proof -
  have "(is_Ready status \<longleftrightarrow> (\<exists>h. acq = Inr h) \<and> agrees o' (wdb w)) \<and>
    (is_Ready status \<longrightarrow> currentVecTable (wdb w) = Inr (table, desc) \<longrightarrow> is_Dims status = vd_Dims desc)"
  proof (cases acq)
    case (Inl e)
    then show ?thesis by (simp add: status handleStatus_def DaemonStatus_def Let_def emptyStatus_def)
  next
    case (Inr h)
    have q: "quiet (w_store (tick w))" using assms(1) by (simp add: tick_def)
    obtain x w1 where s: "onStore (StatusSnapshot (clock (w_tick w)) maxFailureGroups) (tick w) = (Inr x, w1)"
      "quiet (w_store w1)" "wdb w1 = wdb w"
      using snapshot_quiet [OF q] by (metis tick_db)
    obtain counts depth groups where x: "x = (counts, depth, groups)" by (cases x)
    obtain w2 where "onStore CurrentVecSpec w1 =
      (case currentVecTable (wdb w1) of Inl e \<Rightarrow> Inl e | Inr (table, desc) \<Rightarrow> Inr (specOf desc, vd_Dims desc), w2)"
      by (rule current_quiet [OF s(2)])
    note c = this [unfolded s(3)]
    have st: "DaemonStatus o' tx st stat clock acq w = vectorStatus o' tx
        (emptyStatus\<lparr>is_Disk := Some (diskUsage stat (do_DBPath o')), is_Files := cc_Files counts, is_Content := cc_Content counts,
           is_Unread := cc_Unread counts, is_Queue := Some depth, is_Failures := groups\<rparr>) w1"
      using Inr s(1) x by (simp add: DaemonStatus_def ask_def)
    show ?thesis
    proof (cases "currentVecTable (wdb w)")
      case (Inl e)
      then have "\<not> is_Ready status"
        unfolding status handleStatus_def st vectorStatus_def c by (cases e) (simp_all add: emptyStatus_def)
      then show ?thesis using Inl by (simp add: agrees_def)
    next
      case d: (Inr d)
      then show ?thesis
        using Inr unfolding status handleStatus_def st vectorStatus_def c
        by (cases d; cases "do_Embedder o'") (auto simp: emptyStatus_def agrees_def Let_def)
    qed
  qed
  then show "is_Ready status \<longleftrightarrow> (\<exists>h. acq = Inr h) \<and> agrees o' (wdb w)"
    "is_Ready status \<Longrightarrow> currentVecTable (wdb w) = Inr (table, desc) \<Longrightarrow> is_Dims status = vd_Dims desc" by blast+
qed

lemma collapsed_answers:
  assumes "quiet (w_store w)" "catalog_inv (wdb w)" "knn_law (sv_knn sv)"
    and "currentVecTable (wdb w) = Inr (table, desc)" "int (length vec) = vd_Dims desc" "1 \<le> limit"
  shows "\<exists>cs w'. collapsed sv vec limit w = (Inr cs, w')"
proof -
  obtain hits w1 where k: "knnHits sv vec (KnnK limit) w = (Inr hits, w1)" "quiet (w_store w1)" "wdb w1 = wdb w"
    using knnHits_answers [OF assms, of "KnnK limit"] by metis
  obtain hits' w2 where "knnHits sv vec MaxKNNK w1 = (Inr hits', w2)"
    using knnHits_answers [OF k(2) _ assms(3) _ assms(5,6), of table MaxKNNK] k(3) assms(2,4) by metis
  then show ?thesis using k(1) by (simp add: collapsed_def Let_def)
qed

lemma currentVecTable_error: "currentVecTable db = Inl e \<Longrightarrow> e = ErrNoVecTable \<or> (\<exists>m. e = ErrStore m)"
  by (auto simp: currentVecTable_def split: option.splits if_splits)

lemma classify_wrapped:
  "classify st cx (Of (Wrapped k m)) =
     (case k of ErrInvalidRequest \<Rightarrow> (400, ''bad_request'', m) | ErrNotIndexed \<Rightarrow> (503, ''not_indexed'', m)
      | ErrIndexMismatch \<Rightarrow> (409, ''index_mismatch'', m) | ErrEmbedder \<Rightarrow> (502, ''embedder_unavailable'', m))"
  by (cases k) (simp_all add: classify_def ctxOf_def isErr_def wraps_def backendMessage_def Message_wrapped)

lemma classify_other:
  "classify st cx (Plain m) = (500, ''internal'', genericInternalMessage)"
  "classify st cx (Of (OfStore (ErrStore m))) = (500, ''internal'', genericInternalMessage)"
  by (simp_all add: classify_def ctxOf_def isErr_def wraps_def)

text \<open>What the client is sent: the status and code of a refusal, and the refusal when a context ended.\<close>

definition refusedAs :: "nat \<Rightarrow> string \<Rightarrow> Response Reply \<Rightarrow> bool" where
  "refusedAs status code reply \<longleftrightarrow> (\<exists>m. reply = ErrorReply status code m)"

definition ctxRefused :: "CtxTexts \<Rightarrow> string \<Rightarrow> Response Reply \<Rightarrow> bool" where
  "ctxRefused cx m reply \<longleftrightarrow>
     (case cx_kind cx m of Canceled \<Rightarrow> refusedAs 499 ''client_closed'' reply | DeadlineExceeded \<Rightarrow> refusedAs 504 ''timeout'' reply)"

lemma classify_context:
  "ctxRefused cx m (case classify st cx (Of (OfContext m)) of (status, code, t) \<Rightarrow> ErrorReply status code t)"
  by (cases "cx_kind cx m") (simp_all add: classify_def ctxOf_def ctxRefused_def refusedAs_def)

lemma reply_cases:
  assumes "used < slots"
  shows "serve req w = (Inr resp, w') \<Longrightarrow> handleSearch st cx slots used serve (Body req) w = (Answered resp, w')"
    "serve req w = (Inl e, w') \<Longrightarrow> handleSearch st cx slots used serve (Body req) w =
       (case classify st cx e of (status, code, m) \<Rightarrow> ErrorReply status code m, w')"
  using assms by (simp_all add: handleSearch_def split: prod.split)

lemma query_refused:
  assumes "quiet (w_store w)" "do_Embedder o' = Some em" "\<not> agrees o' (wdb w)"
  shows "\<exists>e w'. queryVector \<lparr>sv_knn = nn, sv_embedder = em\<rparr> tx req w = (Inl e, w') \<and> w_tick w' = w_tick w \<and>
    (case currentVecTable (wdb w) of
       Inl ErrNoVecTable \<Rightarrow> \<exists>m. e = Wrapped ErrNotIndexed m
     | Inl e' \<Rightarrow> e = OfStore e'
     | Inr _ \<Rightarrow> \<exists>m. e = Wrapped ErrIndexMismatch m)"
proof -
  obtain w1 where c: "onStore CurrentVecSpec w =
      (case currentVecTable (wdb w) of Inl e \<Rightarrow> Inl e | Inr (table, desc) \<Rightarrow> Inr (specOf desc, vd_Dims desc), w1)"
    "w_tick w1 = w_tick w" by (rule current_quiet [OF assms(1)])
  show ?thesis
  proof (cases "currentVecTable (wdb w)")
    case (Inl e)
    then show ?thesis using c by (cases e) (auto simp: queryVector_def Let_def)
  next
    case (Inr d)
    obtain table desc where d: "d = (table, desc)" by (cases d)
    have "compatible (tx_quote tx) (specOf desc) (em_Spec em) \<noteq> None"
      using assms(2,3) Inr d by (auto simp: compatible_None agrees_def)
    then obtain m where m: "compatible (tx_quote tx) (specOf desc) (em_Spec em) = Some (Wrapped ErrIndexMismatch m)"
      by (auto simp: compatible_def Let_def split: if_splits)
    then show ?thesis using c Inr d by (auto simp: queryVector_def Let_def)
  qed
qed

lemma query_answered:
  assumes "quiet (w_store w)" "currentVecTable (wdb w) = Inr (table, desc)" "specOf desc = em_Spec em\<lparr>es_CeilingTokens := 0\<rparr>"
  obtains w' where "quiet (w_store w')" "wdb w' = wdb w"
    "case em_Query em (w_tick w) (rq_Query req) of
       Inl m \<Rightarrow> queryVector \<lparr>sv_knn = nn, sv_embedder = em\<rparr> tx req w = (Inl (if tx_deadline tx m then OfContext m else Wrapped ErrEmbedder m), w')
     | Inr vec \<Rightarrow> if int (length vec) = vd_Dims desc then queryVector \<lparr>sv_knn = nn, sv_embedder = em\<rparr> tx req w = (Inr vec, w')
         else \<exists>m. queryVector \<lparr>sv_knn = nn, sv_embedder = em\<rparr> tx req w = (Inl (Wrapped ErrIndexMismatch m), w')"
proof -
  obtain w1 where c: "onStore CurrentVecSpec w = (Inr (specOf desc, vd_Dims desc), w1)"
    "quiet (w_store w1)" "wdb w1 = wdb w" "w_tick w1 = w_tick w"
    using current_quiet [OF assms(1), unfolded assms(2)] by (auto simp only: sum.case prod.case)
  have "compatible (tx_quote tx) (specOf desc) (em_Spec em) = None" using assms(3) by (simp add: compatible_None)
  then show thesis
    using c by (intro that [of "tick w1"]) (auto simp: queryVector_def Let_def ask_def tick_def split: sum.split)
qed

text \<open>What becomes of a search that only the inference server can still refuse.\<close>

definition embedderDecides :: "SearchTexts \<Rightarrow> CtxTexts \<Rightarrow> string + float32 list \<Rightarrow> int \<Rightarrow> Response Reply \<Rightarrow> bool" where
  "embedderDecides tx cx ans dims reply \<longleftrightarrow>
     (case ans of
        Inl m \<Rightarrow> if tx_deadline tx m then ctxRefused cx m reply else reply = ErrorReply 502 ''embedder_unavailable'' m
      | Inr vec \<Rightarrow> if int (length vec) = dims then \<exists>resp. reply = Answered resp else refusedAs 409 ''index_mismatch'' reply)"

text \<open>How a search is refused when the index cannot serve it, by the cause; \<open>reason\<close> is what status shows.\<close>

definition refusedUnready ::
  "DaemonOptions \<Rightarrow> CtxTexts \<Rightarrow> AcquireErr + nat \<Rightarrow> DB \<Rightarrow> string \<Rightarrow> Response Reply \<Rightarrow> bool" where
  "refusedUnready o' cx acq db reason reply \<longleftrightarrow>
     (if do_Embedder o' = None then reply = ErrorReply 503 ''not_indexed'' (unavailableReason o')
      else case acq of
        Inl (AcCtx m) \<Rightarrow> ctxRefused cx m reply
      | Inl AcShuttingDown \<Rightarrow> refusedAs 500 ''internal'' reply
      | Inl (AcStat _) \<Rightarrow> refusedAs 500 ''internal'' reply
      | Inl AcNoFile \<Rightarrow> reply = ErrorReply 503 ''not_indexed'' reason
      | Inl (AcOpen _) \<Rightarrow> reply = ErrorReply 503 ''not_indexed'' reason
      | Inr _ \<Rightarrow> (case currentVecTable db of
            Inl ErrNoVecTable \<Rightarrow> refusedAs 503 ''not_indexed'' reply
          | Inl _ \<Rightarrow> refusedAs 500 ''internal'' reply
          | Inr _ \<Rightarrow> refusedAs 409 ''index_mismatch'' reply))"

lemma unready_acquire:
  assumes "do_Embedder o' = Some em" "used < slots"
    and status: "status = fst (handleStatus st (DaemonStatus o' tx st stat clock (Inl e)) w)"
  shows "refusedUnready o' cx (Inl e) (wdb w) (is_Reason status)
    (fst (handleSearch st cx slots used (DaemonSearch o' nn tx clock (Inl e)) (Body req) w))"
proof -
  have s: "DaemonSearch o' nn tx clock (Inl e) req w = (Inl (acquireErr o' e), w)" by (simp add: DaemonSearch_def assms(1))
  note reply = reply_cases(2) [where serve = "DaemonSearch o' nn tx clock (Inl e)", OF assms(2), OF s]
  show ?thesis
    unfolding reply fst_conv status
    by (cases e) (simp_all add: refusedUnready_def assms(1) acquireErr_def classify_wrapped classify_other classify_context
      refusedAs_def handleStatus_def DaemonStatus_def isNotIndexed_def wraps_def backendMessage_def Message_wrapped)
qed

lemma unready_index:
  assumes "quiet (w_store w)" "do_Embedder o' = Some em" "used < slots" "\<not> agrees o' (wdb w)"
    and "ValidateRequest (tx_quote tx) req = Inr limit" "CheckLength req (em_Spec em) = None"
  shows "refusedUnready o' cx (Inr h) (wdb w) reason
      (fst (handleSearch st cx slots used (DaemonSearch o' nn tx clock (Inr h)) (Body req) w))"
    "w_tick (snd (handleSearch st cx slots used (DaemonSearch o' nn tx clock (Inr h)) (Body req) w)) = Suc (w_tick w)"
proof -
  have q: "quiet (w_store (tick w))" "wdb (tick w) = wdb w" "w_tick (tick w) = Suc (w_tick w)"
    using assms(1) by (simp_all add: tick_def)
  obtain e w' where r: "queryVector \<lparr>sv_knn = nn, sv_embedder = em\<rparr> tx req (tick w) = (Inl e, w')" "w_tick w' = Suc (w_tick w)"
    "case currentVecTable (wdb w) of
       Inl ErrNoVecTable \<Rightarrow> \<exists>m. e = Wrapped ErrNotIndexed m
     | Inl e' \<Rightarrow> e = OfStore e'
     | Inr _ \<Rightarrow> \<exists>m. e = Wrapped ErrIndexMismatch m"
    using query_refused [OF q(1) assms(2), of nn tx req] assms(4) q(2,3) by auto
  have s: "DaemonSearch o' nn tx clock (Inr h) req w = (Inl (Of e), w')"
    using r(1) by (simp add: DaemonSearch_def assms(2,5,6) SearchFor_def ask_def)
  note reply = reply_cases(2) [where serve = "DaemonSearch o' nn tx clock (Inr h)", OF assms(3), OF s]
  show "w_tick (snd (handleSearch st cx slots used (DaemonSearch o' nn tx clock (Inr h)) (Body req) w)) = Suc (w_tick w)"
    using r(2) by (simp add: reply)
  show "refusedUnready o' cx (Inr h) (wdb w) reason
      (fst (handleSearch st cx slots used (DaemonSearch o' nn tx clock (Inr h)) (Body req) w))"
  proof (cases "currentVecTable (wdb w)")
    case (Inl e')
    from currentVecTable_error [OF this] show ?thesis
      using r(3) Inl by (auto simp: reply refusedUnready_def assms(2) classify_wrapped classify_other refusedAs_def)
  qed (use r(3) in \<open>auto simp: reply refusedUnready_def assms(2) classify_wrapped refusedAs_def\<close>)
qed

lemma unready_search:
  assumes "quiet (w_store w)" "used < slots"
    and "ValidateRequest (tx_quote tx) req = Inr limit" "\<forall>em. do_Embedder o' = Some em \<longrightarrow> CheckLength req (em_Spec em) = None"
    and status: "status = fst (handleStatus st (DaemonStatus o' tx st stat clock acq) w)" "\<not> is_Ready status"
    and out: "out = handleSearch st cx slots used (DaemonSearch o' nn tx clock acq) (Body req) w"
  shows "refusedUnready o' cx acq (wdb w) (is_Reason status) (fst out) \<and> w_tick (snd out) \<le> Suc (w_tick w)"
proof (cases "do_Embedder o'")
  case None
  then have "DaemonSearch o' nn tx clock acq req w = (Inl (Of (Wrapped ErrNotIndexed (unavailableReason o'))), w)"
    by (simp add: DaemonSearch_def)
  note reply = reply_cases(2) [where serve = "DaemonSearch o' nn tx clock acq", OF assms(2), OF this]
  show ?thesis using None by (simp add: out reply classify_wrapped refusedUnready_def)
next
  case (Some em)
  have len: "CheckLength req (em_Spec em) = None" using assms(4) Some by blast
  show ?thesis
  proof (cases acq)
    case (Inl e)
    have "DaemonSearch o' nn tx clock acq req w = (Inl (acquireErr o' e), w)" by (simp add: DaemonSearch_def Some Inl)
    note reply = reply_cases(2) [where serve = "DaemonSearch o' nn tx clock acq", OF assms(2), OF this]
    have "w_tick (snd out) \<le> Suc (w_tick w)" by (simp add: out reply)
    then show ?thesis using unready_acquire [OF Some assms(2) status(1) [unfolded Inl]] Inl by (simp add: out)
  next
    case (Inr h)
    then have "\<not> agrees o' (wdb w)" using status(2) status_ready(1) [OF assms(1) status(1)] by simp
    then show ?thesis using Inr unready_index [OF assms(1) Some assms(2) _ assms(3) len] by (simp add: out)
  qed
qed

lemma ready_search:
  assumes "quiet (w_store w)" "catalog_inv (wdb w)" "knn_law nn" "used < slots" "do_Embedder o' = Some em"
    and "ValidateRequest (tx_quote tx) req = Inr limit" "CheckLength req (em_Spec em) = None"
    and table: "currentVecTable (wdb w) = Inr (table, desc)" "specOf desc = em_Spec em\<lparr>es_CeilingTokens := 0\<rparr>"
  shows "embedderDecides tx cx (em_Query em (Suc (w_tick w)) (rq_Query req)) (vd_Dims desc)
    (fst (handleSearch st cx slots used (DaemonSearch o' nn tx clock (Inr h)) (Body req) w))"
proof -
  let ?sv = "\<lparr>sv_knn = nn, sv_embedder = em\<rparr>" and ?serve = "DaemonSearch o' nn tx clock (Inr h)"
  have q: "quiet (w_store (tick w))" "wdb (tick w) = wdb w" "w_tick (tick w) = Suc (w_tick w)"
    using assms(1) by (simp_all add: tick_def)
  have cur: "currentVecTable (wdb (tick w)) = Inr (table, desc)" using table(1) q(2) by simp
  obtain w1 where "quiet (w_store w1)" "wdb w1 = wdb (tick w)"
    "case em_Query em (w_tick (tick w)) (rq_Query req) of
       Inl m \<Rightarrow> queryVector ?sv tx req (tick w) = (Inl (if tx_deadline tx m then OfContext m else Wrapped ErrEmbedder m), w1)
     | Inr vec \<Rightarrow> if int (length vec) = vd_Dims desc then queryVector ?sv tx req (tick w) = (Inr vec, w1)
         else \<exists>m. queryVector ?sv tx req (tick w) = (Inl (Wrapped ErrIndexMismatch m), w1)"
    by (rule query_answered [OF q(1) cur table(2)])
  note v = this [unfolded q(2,3)]
  have "1 \<le> limit" using ValidateRequest_limit [OF assms(6)] by simp
  then have c: "\<exists>cs w'. collapsed ?sv vec limit w1 = (Inr cs, w')" if "int (length vec) = vd_Dims desc" for vec
    using collapsed_answers [of w1 ?sv table desc vec limit] v(1,2) assms(2,3) table(1) that by simp
  have refused: "fst (handleSearch st cx slots used ?serve (Body req) w) = (case classify st cx (Of e) of (status, code, m) \<Rightarrow> ErrorReply status code m)"
    if "queryVector ?sv tx req (tick w) = (Inl e, w1)" for e
  proof -
    have "?serve req w = (Inl (Of e), w1)"
      using that by (simp add: DaemonSearch_def assms(5,6,7) SearchFor_def ask_def)
    then show ?thesis by (simp add: reply_cases(2) [OF assms(4)])
  qed
  show ?thesis
  proof (cases "em_Query em (Suc (w_tick w)) (rq_Query req)")
    case (Inl m)
    then show ?thesis using v(3) refused [of "if tx_deadline tx m then OfContext m else Wrapped ErrEmbedder m"]
      by (auto simp: embedderDecides_def classify_wrapped classify_context)
  next
    case (Inr vec)
    show ?thesis
    proof (cases "int (length vec) = vd_Dims desc")
      case True
      then have qv: "queryVector ?sv tx req (tick w) = (Inr vec, w1)" using v(3) Inr by simp
      obtain cs w2 where "collapsed ?sv vec limit w1 = (Inr cs, w2)" using c [OF True] by blast
      then have "\<exists>resp w'. ?serve req w = (Inr resp, w')"
        using qv by (simp add: DaemonSearch_def assms(5,6,7) SearchFor_def ask_def)
      then show ?thesis using Inr True by (auto simp: embedderDecides_def reply_cases(1) [OF assms(4)])
    next
      case False
      then obtain m where "queryVector ?sv tx req (tick w) = (Inl (Wrapped ErrIndexMismatch m), w1)" using v(3) Inr by auto
      then show ?thesis using Inr False refused by (simp add: embedderDecides_def classify_wrapped refusedAs_def)
    qed
  qed
qed

text \<open>
  C5: The two endpoints tell the same story, as the client sees them, as long as the index does not fail in
  between: with a free slot and a valid search no longer than the model accepts, when the status document
  says ready, the search is answered unless the inference server fails (502, or 499 and 504 when a context
  ended) or returns other dimensions than the status reports (409); when it says not ready, the search is
  refused before any request is sent to the inference server, with the code of the cause: 503
  \<open>not_indexed\<close> without an embedder, a database or a generation of vectors, with the reason the status shows
  where that is the database's; 409 \<open>index_mismatch\<close> when the generation was built under another identity;
  499 or 504 when the wait for the index ended with its context; and a plain 500 while the daemon shuts down,
  when the database file cannot be examined, or when the catalog's record of the generation is damaged.
\<close>

theorem status_and_search_agree:
  assumes "quiet (w_store w)" "catalog_inv (wdb w)" "knn_law nn" "used < slots"
    and "ValidateRequest (tx_quote tx) req = Inr limit" "\<forall>em. do_Embedder o' = Some em \<longrightarrow> CheckLength req (em_Spec em) = None"
  shows "let status = fst (handleStatus st (DaemonStatus o' tx st stat clock acq) w);
             (reply, w') = handleSearch st cx slots used (DaemonSearch o' nn tx clock acq) (Body req) w in
    (if is_Ready status
     then \<exists>em. do_Embedder o' = Some em \<and>
       embedderDecides tx cx (em_Query em (Suc (w_tick w)) (rq_Query req)) (is_Dims status) reply
     else refusedUnready o' cx acq (wdb w) (is_Reason status) reply \<and> w_tick w' \<le> Suc (w_tick w))"
proof -
  define status where "status = fst (handleStatus st (DaemonStatus o' tx st stat clock acq) w)"
  let ?out = "handleSearch st cx slots used (DaemonSearch o' nn tx clock acq) (Body req) w"
  note ready = status_ready [OF assms(1) status_def]
  have "if is_Ready status
     then \<exists>em. do_Embedder o' = Some em \<and>
       embedderDecides tx cx (em_Query em (Suc (w_tick w)) (rq_Query req)) (is_Dims status) (fst ?out)
     else refusedUnready o' cx acq (wdb w) (is_Reason status) (fst ?out) \<and> w_tick (snd ?out) \<le> Suc (w_tick w)"
  proof (cases "is_Ready status")
    case True
    then obtain h em table desc where a: "acq = Inr h" "do_Embedder o' = Some em" "currentVecTable (wdb w) = Inr (table, desc)"
      "specOf desc = em_Spec em\<lparr>es_CeilingTokens := 0\<rparr>"
      using ready(1) by (auto simp: agrees_def)
    have len: "CheckLength req (em_Spec em) = None" using assms(6) a(2) by blast
    show ?thesis
      using True ready_search [OF assms(1-4) a(2) assms(5) len a(3,4)] a(1,2) ready(2) [OF True a(3)] by auto
  next
    case False
    then show ?thesis using unready_search [OF assms(1,4-6) status_def False refl] by simp
  qed
  then show ?thesis by (simp add: status_def [symmetric] Let_def case_prod_unfold)
qed

definition demo_options :: DaemonOptions where
  "demo_options = \<lparr>do_DBPath = ''/index'', do_Embedder = Some (sv_embedder demo_service), do_NotReady = ''''\<rparr>"

definition demo_ctx :: CtxTexts where
  "demo_ctx = \<lparr>cx_kind = (\<lambda>_. Canceled), cx_ended = Canceled\<rparr>"

theorem status_and_search_agree_witness:
  "(\<exists>resp. fst (handleSearch (\<lambda>_. '''') demo_ctx 1 0 (DaemonSearch demo_options demo_knn demo_texts int (Inr 0))
       (Body demo_request) \<lparr>w_store = demo_store demo_db, w_tick = 0\<rparr>) = Answered resp) \<and>
   refusedAs 409 ''index_mismatch'' (fst (handleSearch (\<lambda>_. '''') demo_ctx 1 0
       (DaemonSearch (demo_options\<lparr>do_Embedder := Some (demo_embedder\<lparr>em_Spec := demo_spec\<lparr>es_Model := ''other''\<rparr>\<rparr>)\<rparr>)
          demo_knn demo_texts int (Inr 0))
       (Body demo_request) \<lparr>w_store = demo_store demo_db, w_tick = 0\<rparr>))"
proof -
  let ?w = "\<lparr>w_store = demo_store demo_db, w_tick = 0\<rparr>"
  let ?o = "demo_options\<lparr>do_Embedder := Some (demo_embedder\<lparr>em_Spec := demo_spec\<lparr>es_Model := ''other''\<rparr>\<rparr>)\<rparr>"
  let ?status = "\<lambda>o'. fst (handleStatus (\<lambda>_. '''') (DaemonStatus o' demo_texts (\<lambda>_. '''') (\<lambda>_. None) int (Inr 0)) ?w)"
  let ?reply = "\<lambda>o'. handleSearch (\<lambda>_. '''') demo_ctx 1 0 (DaemonSearch o' demo_knn demo_texts int (Inr 0)) (Body demo_request) ?w"
  have em: "do_Embedder demo_options = Some (demo_embedder\<lparr>em_Spec := demo_spec\<lparr>es_Model := ''m''\<rparr>\<rparr>)"
    by (simp add: demo_options_def demo_service_def)
  have quiet: "quiet (w_store ?w)" by simp
  have cur: "currentVecTable demo_db = Inr (''vec_chunks_1'', \<lparr>vd_Model = ''m'', vd_Dims = 2,
      vd_Layout = ''float32'', vd_Metric = ''cosine'', vd_QueryTemplate = '''', vd_PassageTemplate = '''', vd_CeilingTokens = 0\<rparr>)"
    by (simp add: currentVecTable_def demo_db_def vecTableGen_def hasPrefix_def normalizeDesc_def)
  have "agrees demo_options (wdb ?w)" "\<not> agrees ?o (wdb ?w)" by (simp_all add: agrees_def em cur specOf_def demo_spec_def)
  then have ready: "is_Ready (?status demo_options)" "\<not> is_Ready (?status ?o)"
    using status_ready(1) [OF quiet refl] by simp_all
  have dims: "is_Dims (?status demo_options) = 2" using status_ready(2) [OF quiet refl ready(1), of "''vec_chunks_1''"] cur by simp
  have valid: "ValidateRequest (tx_quote demo_texts) demo_request = Inr 3" by code_simp
  have "CheckLength demo_request (demo_spec\<lparr>es_Model := ''m''\<rparr>) = None" "CheckLength demo_request (demo_spec\<lparr>es_Model := ''other''\<rparr>) = None"
    by code_simp+
  then have len: "\<forall>em. do_Embedder demo_options = Some em \<longrightarrow> CheckLength demo_request (em_Spec em) = None"
    "\<forall>em. do_Embedder ?o = Some em \<longrightarrow> CheckLength demo_request (em_Spec em) = None" by (simp_all add: em)
  have inv: "catalog_inv (wdb ?w)" by (simp add: catalog_inv_demo)
  note agree = status_and_search_agree [where st = "\<lambda>_. ''''" and cx = demo_ctx and stat = "\<lambda>_. None" and clock = int and acq = "Inr 0",
    OF quiet inv demo_knn_law zero_less_one valid, unfolded Let_def case_prod_unfold]
  have "\<exists>resp. fst (?reply demo_options) = Answered resp"
    using agree [OF len(1)] ready(1) dims by (simp add: embedderDecides_def em demo_embedder_def)
  moreover have "refusedAs 409 ''index_mismatch'' (fst (?reply ?o))"
    using agree [OF len(2)] ready(2) by (simp add: refusedUnready_def cur)
  ultimately show ?thesis by blast
qed

end
