(* ===== verification/Glob.thy ===== *)
theory Glob
  imports Encoding
begin

text \<open>
  \<open>path.Match\<close> of Go's library, on which the deny patterns of the configuration rest: whether a pattern
  is malformed never depends on the name, and what the shapes of pattern the built-in list uses match.
\<close>

section \<open>Runes\<close>

text \<open>The value \<open>utf8.DecodeRuneInString\<close> returns; U+FFFD for a byte that starts no rune.\<close>

definition runeValue :: "string \<Rightarrow> nat" where
  "runeValue s =
     (case take (runeLen s) s of
        [a] \<Rightarrow> byte a
      | [a, b] \<Rightarrow> (byte a - 0xC0) * 64 + (byte b - 0x80)
      | [a, b, c] \<Rightarrow> ((byte a - 0xE0) * 64 + (byte b - 0x80)) * 64 + (byte c - 0x80)
      | [a, b, c, d] \<Rightarrow> (((byte a - 0xF0) * 64 + (byte b - 0x80)) * 64 + (byte c - 0x80)) * 64 + (byte d - 0x80)
      | _ \<Rightarrow> 0xFFFD)"

section \<open>Chunks of a pattern (path.Match: getEsc, matchChunk)\<close>

text \<open>One character of a class, escaped or not; \<open>None\<close> is \<open>ErrBadPattern\<close>.\<close>

definition getEsc :: "string \<Rightarrow> (nat \<times> string) option" where
  "getEsc chunk =
     (if chunk = '''' \<or> hd chunk = CHR ''-'' \<or> hd chunk = CHR '']'' then None
      else
        (let c = (if hd chunk = CHR 0x5C then tl chunk else chunk) in
         if c = '''' \<or> runeLen c = 0 \<or> drop (decodeWidth c) c = '''' then None
         else Some (runeValue c, drop (decodeWidth c) c)))"

lemma decodeWidth_pos: "s \<noteq> [] \<Longrightarrow> decodeWidth s > 0"
  by (simp add: decodeWidth_def)

lemma getEsc_shorter: "getEsc chunk = Some (r, rest) \<Longrightarrow> length rest < length chunk \<and> rest \<noteq> []"
proof -
  assume g: "getEsc chunk = Some (r, rest)"
  define c where "c = (if hd chunk = CHR 0x5C then tl chunk else chunk)"
  have "c \<noteq> []" "rest = drop (decodeWidth c) c" "rest \<noteq> []"
    using g by (auto simp: getEsc_def c_def [symmetric] Let_def split: if_splits)
  moreover have "length c \<le> length chunk" by (simp add: c_def)
  ultimately show ?thesis using decodeWidth_pos [of c] by (cases c) auto
qed

text \<open>The ranges of a class up to its closing bracket: whether one of them holds the rune.\<close>

function classLoop :: "nat \<Rightarrow> nat \<Rightarrow> bool \<Rightarrow> string \<Rightarrow> (bool \<times> string) option" where
  "classLoop r nrange found chunk =
     (if chunk \<noteq> [] \<and> hd chunk = CHR '']'' \<and> nrange > 0 then Some (found, tl chunk)
      else case getEsc chunk of
        None \<Rightarrow> None
      | Some (lo, c1) \<Rightarrow>
          if hd c1 = CHR ''-'' then
            (case getEsc (tl c1) of
               None \<Rightarrow> None
             | Some (hi, c2) \<Rightarrow> classLoop r (nrange + 1) (found \<or> lo \<le> r \<and> r \<le> hi) c2)
          else classLoop r (nrange + 1) (found \<or> lo = r) c1)"
  by pat_completeness auto
termination
  by (relation "measure (\<lambda>(r, n, f, c). length c)") (auto dest!: getEsc_shorter)

declare classLoop.simps [simp del]

lemma classLoop_shorter: "classLoop r n f c = Some (m, rest) \<Longrightarrow> length rest \<le> length c"
proof (induction r n f c arbitrary: m rest rule: classLoop.induct)
  case (1 r n f c)
  show ?case
    using 1 by (subst (asm) (3) classLoop.simps)
      (force split: if_splits option.splits prod.splits dest!: getEsc_shorter)
qed

text \<open>
  \<open>matchChunk\<close>: \<open>None\<close> is a bad pattern, \<open>Some None\<close> no match, otherwise what is left of the name. Once the
  match has failed the rest of the chunk is only checked.
\<close>

function matchChunk :: "string \<Rightarrow> string \<Rightarrow> bool \<Rightarrow> string option option" where
  "matchChunk [] s failed = Some (if failed then None else Some s)"
| "matchChunk (c # cs) s failed0 =
     (let failed = (failed0 \<or> s = []) in
      if c = CHR ''['' then
        (let r = (if failed then 0 else runeValue s);
             s1 = (if failed then s else drop (decodeWidth s) s);
             negated = (cs \<noteq> [] \<and> hd cs = CHR ''^'')
         in case classLoop r 0 False (if negated then tl cs else cs) of
              None \<Rightarrow> None
            | Some (m, rest) \<Rightarrow> matchChunk rest s1 (failed \<or> m = negated))
      else if c = CHR ''?'' then
        matchChunk cs (if failed then s else drop (decodeWidth s) s) (failed \<or> hd s = CHR ''/'')
      else if c = CHR 0x5C then
        (case cs of
           [] \<Rightarrow> None
         | d # ds \<Rightarrow> matchChunk ds (if failed then s else tl s) (failed \<or> d \<noteq> hd s))
      else matchChunk cs (if failed then s else tl s) (failed \<or> c \<noteq> hd s))"
  by pat_completeness auto
termination
  by (relation "measure (\<lambda>(c, s, f). length c)")
    (auto dest!: classLoop_shorter simp: less_Suc_eq_le split: if_splits)

section \<open>The pattern (path.Match: scanChunk, Match)\<close>

text \<open>The pattern up to the next star outside a class.\<close>

fun scanSplit :: "bool \<Rightarrow> string \<Rightarrow> string \<times> string" where
  "scanSplit inrange [] = ([], [])"
| "scanSplit inrange [c] = (if c = CHR ''*'' \<and> \<not> inrange then ([], [c]) else ([c], []))"
| "scanSplit inrange (c # d # cs) =
     (if c = CHR 0x5C then (case scanSplit inrange cs of (a, b) \<Rightarrow> (c # d # a, b))
      else if c = CHR ''*'' \<and> \<not> inrange then ([], c # d # cs)
      else (case scanSplit (if c = CHR ''['' then True else if c = CHR '']'' then False else inrange) (d # cs) of
              (a, b) \<Rightarrow> (c # a, b)))"

definition scanChunk :: "string \<Rightarrow> bool \<times> string \<times> string" where
  "scanChunk p =
     (case scanSplit False (dropWhile (\<lambda>c. c = CHR ''*'') p) of
        (chunk, rest) \<Rightarrow> (p \<noteq> [] \<and> hd p = CHR ''*'', chunk, rest))"

lemma scanSplit_append: "scanSplit b p = (chunk, rest) \<Longrightarrow> chunk @ rest = p"
  by (induction b p arbitrary: chunk rest rule: scanSplit.induct) (auto split: if_splits prod.splits)

lemma scanSplit_nonempty: "scanSplit False (c # cs) = (chunk, rest) \<Longrightarrow> c \<noteq> CHR ''*'' \<Longrightarrow> chunk \<noteq> []"
  by (cases cs) (auto split: if_splits prod.splits)

lemma scanChunk_shorter: "scanChunk p = (star, chunk, rest) \<Longrightarrow> p \<noteq> [] \<Longrightarrow> length rest < length p"
proof -
  assume a: "scanChunk p = (star, chunk, rest)" "p \<noteq> []"
  let ?q = "dropWhile (\<lambda>c. c = CHR ''*'') p"
  have s: "scanSplit False ?q = (chunk, rest)" using a(1) by (auto simp: scanChunk_def split: prod.splits)
  show ?thesis
  proof (cases "hd p = CHR ''*''")
    case True
    then have "length ?q < length p" using a(2) by (cases p) (auto simp: le_imp_less_Suc length_dropWhile_le)
    then show ?thesis using arg_cong [OF scanSplit_append [OF s], of length] by simp
  next
    case False
    then have "?q = p" using a(2) by (cases p) auto
    then have "chunk \<noteq> []" using s False a(2) scanSplit_nonempty by (cases p) auto
    then show ?thesis using scanSplit_append [OF s] \<open>?q = p\<close> by auto
  qed
qed

function checkRest :: "string \<Rightarrow> bool option" where
  "checkRest p =
     (if p = [] then Some False
      else case scanChunk p of
        (star, chunk, rest) \<Rightarrow> if matchChunk chunk [] False = None then None else checkRest rest)"
  by pat_completeness auto
termination
  by (relation "measure length") (auto dest: scanChunk_shorter [OF sym])

declare checkRest.simps [simp del]

text \<open>A match after one or more bytes other than a slash have been skipped.\<close>

fun starLoop :: "string \<Rightarrow> string \<Rightarrow> string \<Rightarrow> string option option" where
  "starLoop chunk rest [] = Some None"
| "starLoop chunk rest (c # name) =
     (if c = CHR ''/'' then Some None
      else case matchChunk chunk name False of
        None \<Rightarrow> None
      | Some None \<Rightarrow> starLoop chunk rest name
      | Some (Some t) \<Rightarrow> if rest = [] \<and> t \<noteq> [] then starLoop chunk rest name else Some (Some t))"

text \<open>\<open>path.Match\<close>: \<open>None\<close> is \<open>ErrBadPattern\<close>.\<close>

function PathMatch :: "string \<Rightarrow> string \<Rightarrow> bool option" where
  "PathMatch p name =
     (if p = [] then Some (name = [])
      else case scanChunk p of
        (star, chunk, rest) \<Rightarrow>
          if star \<and> chunk = [] then Some (CHR ''/'' \<notin> set name)
          else (case matchChunk chunk name False of
                  None \<Rightarrow> None
                | Some r \<Rightarrow>
                    if r \<noteq> None \<and> (r = Some [] \<or> rest \<noteq> []) then PathMatch rest (the r)
                    else if star then
                      (case starLoop chunk rest name of
                         None \<Rightarrow> None
                       | Some None \<Rightarrow> checkRest rest
                       | Some (Some t) \<Rightarrow> PathMatch rest t)
                    else checkRest rest))"
  by pat_completeness auto
termination
  by (relation "measure (\<lambda>(p, name). length p)") (auto dest: scanChunk_shorter [OF sym])

declare PathMatch.simps [simp del]

section \<open>A malformed pattern is malformed for every name\<close>

lemma classLoop_same: "map_option snd (classLoop r n f c) = map_option snd (classLoop r' n f' c)"
proof (induction r n f c arbitrary: f' rule: classLoop.induct)
  case (1 r n f c)
  show ?case
  proof (cases "c \<noteq> [] \<and> hd c = CHR '']'' \<and> n > 0")
    case True
    then show ?thesis by (simp add: classLoop.simps)
  next
    case False
    show ?thesis
    proof (cases "getEsc c")
      case None
      then show ?thesis using False by (auto simp: classLoop.simps [of _ _ _ c])
    next
      case (Some x)
      obtain lo c1 where x: "x = (lo, c1)" by (cases x)
      show ?thesis
      proof (cases "hd c1 = CHR ''-''")
        case True
        show ?thesis
        proof (cases "getEsc (tl c1)")
          case None
          then show ?thesis using False Some x True by (auto simp: classLoop.simps [of _ _ _ c])
        next
          case y: (Some y)
          obtain hi c2 where yx: "y = (hi, c2)" by (cases y)
          then show ?thesis
            using "1.IH"(1) [OF False Some x [symmetric] True y yx [symmetric], of "f' \<or> lo \<le> r' \<and> r' \<le> hi"] False Some x True y
            by (auto simp: classLoop.simps [of _ _ _ c])
        qed
      next
        case nodash: False
        then show ?thesis
          using "1.IH"(2) [OF False Some x [symmetric] nodash, of "f' \<or> lo = r'"] False Some x
          by (auto simp: classLoop.simps [of _ _ _ c])
      qed
    qed
  qed
qed

lemma matchChunk_escape:
  "matchChunk (CHR 0x5C # d # ds) s f = matchChunk ds (if f \<or> s = [] then s else tl s) (f \<or> s = [] \<or> d \<noteq> hd s)"
  by (simp add: Let_def disj_assoc)

lemma matchChunk_any:
  "matchChunk (CHR ''?'' # cs) s f =
     matchChunk cs (if f \<or> s = [] then s else drop (decodeWidth s) s) (f \<or> s = [] \<or> hd s = CHR ''/'')"
  by (simp add: Let_def disj_assoc)

lemma matchChunk_byte:
  "c \<noteq> CHR ''['' \<Longrightarrow> c \<noteq> CHR ''?'' \<Longrightarrow> c \<noteq> CHR 0x5C \<Longrightarrow>
     matchChunk (c # cs) s f = matchChunk cs (if f \<or> s = [] then s else tl s) (f \<or> s = [] \<or> c \<noteq> hd s)"
  by (simp add: Let_def disj_assoc)

lemma matchChunk_bad: "matchChunk c s f = None \<longleftrightarrow> matchChunk c t g = None"
proof (induction "length c" arbitrary: c s f t g rule: less_induct)
  case less
  show ?case
  proof (cases c)
    case (Cons x cs)
    show ?thesis
    proof (cases "x = CHR ''[''")
      case True
      define body where "body = (if cs \<noteq> [] \<and> hd cs = CHR ''^'' then tl cs else cs)"
      define rs where "rs = (\<lambda>s f. if f \<or> s = [] then 0 else runeValue s)"
      have "map_option snd (classLoop (rs s f) 0 False body) = map_option snd (classLoop (rs t g) 0 False body)"
        by (rule classLoop_same)
      note same = this
      have step: "matchChunk c s f = (case classLoop (rs s f) 0 False body of None \<Rightarrow> None
          | Some (m, rest) \<Rightarrow> matchChunk rest (if f \<or> s = [] then s else drop (decodeWidth s) s)
              ((f \<or> s = []) \<or> m = (cs \<noteq> [] \<and> hd cs = CHR ''^'')))" for s f
        unfolding Cons matchChunk.simps Let_def using True by (simp only: body_def rs_def if_True simp_thms)
      show ?thesis
      proof (cases "classLoop (rs s f) 0 False body")
        case None
        then have "classLoop (rs t g) 0 False body = None" using same by simp
        then show ?thesis using None by (simp add: step)
      next
        case (Some y)
        obtain m rest where y: "y = (m, rest)" by (cases y)
        have "map_option snd (classLoop (rs t g) 0 False body) = Some rest" using same unfolding Some y by simp
        then obtain m' where t: "classLoop (rs t g) 0 False body = Some (m', rest)" by auto
        have "length rest < length c"
          using classLoop_shorter [OF Some [unfolded y]] Cons by (auto simp: body_def split: if_splits)
        then show ?thesis unfolding step Some y t by (simp only: option.case prod.case) (rule less)
      qed
    next
      case False
      note class_ = this
      show ?thesis
      proof (cases "x = CHR 0x5C")
        case True
        show ?thesis
        proof (cases cs)
          case (Cons d ds)
          show ?thesis unfolding \<open>c = x # cs\<close> Cons True matchChunk_escape by (rule less) (simp add: \<open>c = x # cs\<close> Cons)
        qed (simp add: \<open>c = x # cs\<close> True)
      next
        case False
        show ?thesis
        proof (cases "x = CHR ''?''")
          case True
          show ?thesis unfolding Cons True matchChunk_any by (rule less) (simp add: Cons)
        next
          case any: False
          show ?thesis unfolding Cons matchChunk_byte [OF class_ any False] by (rule less) (simp add: Cons)
        qed
      qed
    qed
  qed simp
qed

lemma scanChunk_star:
  assumes "scanChunk p = (star, [], rest)"
  shows "rest = []"
proof (cases "dropWhile (\<lambda>c. c = CHR ''*'') p")
  case Nil
  show ?thesis using assms unfolding scanChunk_def Nil by simp
next
  case (Cons c cs)
  then have "c \<noteq> CHR ''*''" by (simp add: dropWhile_eq_Cons_conv)
  moreover have "scanSplit False (c # cs) = ([], rest)" using assms Cons by (auto simp: scanChunk_def split: prod.splits)
  ultimately show ?thesis using scanSplit_nonempty by blast
qed

lemma starLoop_bad: "starLoop chunk rest name = None \<Longrightarrow> matchChunk chunk [] False = None"
  using matchChunk_bad [of chunk _ False "[]" False]
  by (induction chunk rest name rule: starLoop.induct) (auto split: if_splits option.splits)

lemma PathMatch_bad: "PathMatch p name = None \<longleftrightarrow> checkRest p = None"
proof (induction p name rule: PathMatch.induct)
  case (1 p name)
  show ?case
  proof (cases "p = []")
    case True
    then show ?thesis by (simp add: PathMatch.simps checkRest.simps)
  next
    case False
    obtain star chunk rest where sc: "scanChunk p = (star, chunk, rest)" by (cases "scanChunk p")
    have rest: "checkRest p = (if matchChunk chunk [] False = None then None else checkRest rest)"
      using False sc by (subst checkRest.simps) simp
    show ?thesis
    proof (cases "star \<and> chunk = []")
      case True
      have "rest = []" using scanChunk_star sc True by blast
      then show ?thesis using False sc True rest by (subst PathMatch.simps) (simp add: checkRest.simps [of "[]"])
    next
      case plain: False
      show ?thesis
      proof (cases "matchChunk chunk name False")
        case None
        then have "matchChunk chunk [] False = None" using matchChunk_bad [of chunk name False "[]" False] by simp
        then show ?thesis using False sc plain rest None by (subst PathMatch.simps) simp
      next
        case (Some r)
        then have good: "matchChunk chunk [] False \<noteq> None" using matchChunk_bad [of chunk name False "[]" False] by simp
        then have "starLoop chunk rest name \<noteq> None" using starLoop_bad [of chunk rest name] by argo
        have unfold: "PathMatch p name =
            (if r \<noteq> None \<and> (r = Some [] \<or> rest \<noteq> []) then PathMatch rest (the r)
             else if star then (case starLoop chunk rest name of None \<Rightarrow> None | Some None \<Rightarrow> checkRest rest | Some (Some t) \<Rightarrow> PathMatch rest t)
             else checkRest rest)"
          by (simp only: PathMatch.simps [of p name] False sc plain Some if_False prod.case option.case)
        have goal: ?thesis if "PathMatch p name = None \<longleftrightarrow> checkRest rest = None" using that rest good by simp
        show ?thesis
        proof (cases "r \<noteq> None \<and> (r = Some [] \<or> rest \<noteq> [])")
          case True
          show ?thesis
            by (rule goal) (use "1.IH"(1) [OF False sc [symmetric] refl plain Some True] True in \<open>simp add: unfold\<close>)
        next
          case stuck: False
          show ?thesis
          proof (rule goal, cases star)
            case True
            obtain y where y: "starLoop chunk rest name = Some y" using \<open>starLoop chunk rest name \<noteq> None\<close> by blast
            show "PathMatch p name = None \<longleftrightarrow> checkRest rest = None"
            proof (cases y)
              case None
              then show ?thesis unfolding unfold using stuck True y by auto
            next
              case t: (Some t)
              then show ?thesis
                unfolding unfold using stuck True y "1.IH"(2) [OF False sc [symmetric] refl plain Some stuck True y t] by auto
            qed
          next
            case False
            then show "PathMatch p name = None \<longleftrightarrow> checkRest rest = None" unfolding unfold using stuck by auto
          qed
        qed
      qed
    qed
  qed
qed

text \<open>
  Whether a pattern is malformed does not depend on the name it is matched against. The configuration
  checks a pattern against one fixed name; a pattern that passes never fails later, when the error of
  \<open>path.Match\<close> is ignored.
\<close>

theorem malformed_everywhere: "PathMatch p n = None \<longleftrightarrow> PathMatch p m = None"
  by (simp add: PathMatch_bad)

section \<open>What the common shapes of pattern match\<close>

definition literal :: "string \<Rightarrow> bool" where
  "literal w \<longleftrightarrow> (\<forall>c \<in> set w. c \<noteq> CHR ''*'' \<and> c \<noteq> CHR ''?'' \<and> c \<noteq> CHR ''['' \<and> c \<noteq> CHR 0x5C)"

lemma literal_simps [simp]:
  "literal []" "literal (c # w) \<longleftrightarrow> c \<noteq> CHR ''*'' \<and> c \<noteq> CHR ''?'' \<and> c \<noteq> CHR ''['' \<and> c \<noteq> CHR 0x5C \<and> literal w"
  by (auto simp: literal_def)

lemma matchChunk_literal:
  "literal w \<Longrightarrow> matchChunk w s f = Some (if \<not> f \<and> hasPrefix s w then Some (drop (length w) s) else None)"
proof (induction w arbitrary: s f)
  case (Cons c w)
  then show ?case by (cases s) (auto simp: matchChunk_byte hasPrefix_def simp del: matchChunk.simps)
qed (simp add: hasPrefix_def)

lemma scanSplit_literal:
  "literal w \<Longrightarrow> rest = [] \<or> hd rest = CHR ''*'' \<Longrightarrow> scanSplit False (w @ rest) = (w, rest)"
proof (induction w)
  case Nil
  show ?case
  proof (cases rest)
    case (Cons c cs)
    then show ?thesis using Nil by (cases cs) auto
  qed simp
next
  case (Cons c w)
  then show ?case by (cases "w @ rest") auto
qed

lemma scanChunk_literal:
  assumes "literal w" "w \<noteq> []" "rest = [] \<or> hd rest = CHR ''*''"
  shows "scanChunk (w @ rest) = (False, w, rest)" "scanChunk (CHR ''*'' # w @ rest) = (True, w, rest)"
proof -
  have "dropWhile (\<lambda>c. c = CHR ''*'') (w @ rest) = w @ rest" "hd (w @ rest) \<noteq> CHR ''*''"
    using assms(1,2) by (cases w; simp)+
  then show "scanChunk (w @ rest) = (False, w, rest)" "scanChunk (CHR ''*'' # w @ rest) = (True, w, rest)"
    using scanSplit_literal [OF assms(1,3)] assms(2) by (simp_all add: scanChunk_def)
qed

lemma PathMatch_Nil [simp]: "PathMatch [] s = Some (s = [])"
  by (simp add: PathMatch.simps)

lemma PathMatch_star [simp]: "PathMatch ''*'' s = Some (CHR ''/'' \<notin> set s)"
  by (simp add: PathMatch.simps scanChunk_def)

lemma checkRest_simple [simp]: "checkRest [] = Some False" "checkRest ''*'' = Some False"
  by (simp_all add: checkRest.simps scanChunk_def)

lemma PathMatch_equal:
  assumes "literal w" "w \<noteq> []"
  shows "PathMatch w s = Some (s = w)"
  using scanChunk_literal(1) [OF assms, of "[]"] assms
  by (subst PathMatch.simps) (auto simp: matchChunk_literal hasPrefix_def)

lemma PathMatch_prefix:
  assumes "literal w" "w \<noteq> []" "CHR ''/'' \<notin> set s"
  shows "PathMatch (w @ ''*'') s = Some (hasPrefix s w)"
  using scanChunk_literal(1) [OF assms(1,2), of "''*''"] assms
  by (subst PathMatch.simps) (auto simp: matchChunk_literal dest: in_set_dropD)

lemma starLoop_last:
  "literal w \<Longrightarrow> CHR ''/'' \<notin> set s \<Longrightarrow>
     starLoop w [] s = Some (if \<exists>i < length s. drop (Suc i) s = w then Some [] else None)"
proof (induction s)
  case (Cons c s)
  have "(\<exists>i < length (c # s). drop (Suc i) (c # s) = w) \<longleftrightarrow> s = w \<or> (\<exists>i < length s. drop (Suc i) s = w)"
    by (auto simp: less_Suc_eq_0_disj)
  then show ?case using Cons by (auto simp: matchChunk_literal hasPrefix_def)
qed simp

lemma starLoop_inner:
  "literal w \<Longrightarrow> CHR ''/'' \<notin> set s \<Longrightarrow> rest \<noteq> [] \<Longrightarrow>
     (case starLoop w rest s of
        Some (Some t) \<Rightarrow> (\<exists>u. s = u @ w @ t)
      | Some None \<Rightarrow> s = [] \<or> \<not> containsStr (tl s) w
      | None \<Rightarrow> False)"
proof (induction s)
  case (Cons c s)
  show ?case
  proof (cases "hasPrefix s w")
    case True
    then have "c # s = [c] @ w @ drop (length w) s" by (simp add: hasPrefix_def) (metis append_take_drop_id)
    then have "\<exists>u. c # s = u @ w @ drop (length w) s" by blast
    then show ?thesis using Cons.prems True by (auto simp: matchChunk_literal)
  next
    case False
    then have "containsStr s w \<longleftrightarrow> s \<noteq> [] \<and> containsStr (tl s) w" by (cases s) (auto simp: hasPrefix_def)
    then show ?thesis
      using Cons False by (auto simp: matchChunk_literal split: option.splits)
  qed
qed simp

lemma PathMatch_suffix:
  assumes "literal w" "w \<noteq> []" "CHR ''/'' \<notin> set s"
  shows "PathMatch (CHR ''*'' # w) s = Some (hasSuffix s w)"
proof -
  have "hasSuffix s w \<longleftrightarrow> s = w \<or> (\<exists>i < length s. drop (Suc i) s = w)"
  proof
    assume h: "hasSuffix s w"
    show "s = w \<or> (\<exists>i < length s. drop (Suc i) s = w)"
    proof (cases "length s = length w")
      case False
      then show ?thesis
        using h assms(2) by (intro disjI2 exI [of _ "length s - length w - 1"]) (auto simp: hasSuffix_def Suc_diff_Suc)
    qed (use h in \<open>simp add: hasSuffix_def\<close>)
  qed (use assms(2) in \<open>auto simp: hasSuffix_def\<close>)
  moreover have "scanChunk (CHR ''*'' # w) = (True, w, [])" using scanChunk_literal(2) [OF assms(1,2), of "[]"] by simp
  ultimately show ?thesis
    using assms by (subst PathMatch.simps) (auto simp: matchChunk_literal starLoop_last hasPrefix_def)
qed

lemma containsStr_append: "containsStr (u @ w @ t) w"
proof (induction u)
  case Nil
  have "hasPrefix (w @ t) w" by (simp add: hasPrefix_def)
  then show ?case by (cases "w @ t") (simp_all del: append_eq_Cons_conv)
qed simp

lemma PathMatch_infix:
  assumes "literal w" "w \<noteq> []" "CHR ''/'' \<notin> set s"
  shows "PathMatch (CHR ''*'' # w @ ''*'') s = Some (containsStr s w)"
proof -
  have sc: "scanChunk (CHR ''*'' # w @ ''*'') = (True, w, ''*'')" using scanChunk_literal(2) [OF assms(1,2), of "''*''"] by simp
  show ?thesis
  proof (cases "hasPrefix s w")
    case True
    then have "containsStr s w" by (cases s) (auto simp: hasPrefix_def)
    then show ?thesis using True assms sc by (subst PathMatch.simps) (auto simp: matchChunk_literal dest: in_set_dropD)
  next
    case False
    then have c: "containsStr s w \<longleftrightarrow> s \<noteq> [] \<and> containsStr (tl s) w"
      using assms(2) by (cases s) (auto simp: hasPrefix_def)
    note loop = starLoop_inner [OF assms(1,3), of "''*''"]
    show ?thesis
    proof (cases "starLoop w ''*'' s")
      case (Some y)
      then show ?thesis
        using loop False assms sc c containsStr_append
        by (subst PathMatch.simps) (cases y; auto simp: matchChunk_literal)
    qed (use loop in simp)
  qed
qed

end
