(* ===== verification/Config.thy ===== *)
theory Config
  imports Glob Paths SchedState
begin

text \<open>
  The configuration and the deny list (internal/config/config.go): loading, expansion and validation of the
  file, the merged exclusion rules and what they match. The TOML decoder, the URL parser and the duration
  parser are arguments; so is the value of \<open>$HOME\<close>, which \<open>os.UserHomeDir\<close> returns unless it is empty.
\<close>

section \<open>The configuration (config.go: Config and its parts)\<close>

record Config =
  cf_Include :: "path list"
  cf_Exclude :: "string list"
  cf_Endpoint :: string
  cf_EmbeddingModel :: string
  cf_SummaryModel :: string
  cf_QueryTemplate :: string
  cf_PassageTemplate :: string
  cf_InputCeilingTokens :: int
  cf_ConverterEndpoint :: string
  cf_TokenFile :: path
  cf_AC :: Interval
  cf_Battery :: Interval
  cf_excludePrefixes :: "path list"

definition denyPrefixes :: "path list" where
  "denyPrefixes =
     [''~/.ssh'', ''~/.gnupg'', ''~/Library'', ''~/.cache'', ''~/Library/Application Support/bsearch'']"

definition denyPatterns :: "string list" where
  "denyPatterns =
     [''.git'', ''.hg'', ''.svn'',
      ''node_modules'', ''.venv'', ''venv'', ''vendor'', ''__pycache__'',
      ''.env'', ''.env.*'',
      ''*.pem'', ''*.key'', ''id_rsa*'', ''id_ed25519*'', ''*.keychain*'']"

datatype ConfigErr =
    CfgPathEmpty
  | CfgRead string
  | CfgParse string
  | CfgUnknownKeys "string list"
  | CfgExpand path
  | CfgNoInclude
  | CfgIncludeRelative path
  | CfgExcludeSlash string
  | CfgExcludeGlob string
  | CfgUrl string string
  | CfgNotHttp string string
  | CfgQueryTemplate string
  | CfgPassageTemplate string
  | CfgPassageLong int
  | CfgCeilingNegative int
  | CfgCeilingLow int
  | CfgInterval string

text \<open>\<open>Interval.UnmarshalText\<close>, which the decoder calls for an interval.\<close>

definition UnmarshalInterval :: "(string \<Rightarrow> int option) \<Rightarrow> string \<Rightarrow> ConfigErr + Interval" where
  "UnmarshalInterval parseDuration s =
     (if s = ''defer'' then Inr Defer
      else case parseDuration s of
        None \<Rightarrow> Inl (CfgInterval s)
      | Some d \<Rightarrow> if d \<le> 0 then Inl (CfgInterval s) else Inr (Every d))"

section \<open>Expansion and validation (config.go: expandTilde, expandPaths, validate)\<close>

definition expandTilde :: "string \<Rightarrow> path \<Rightarrow> ConfigErr + path" where
  "expandTilde home p =
     (if p \<noteq> ''~'' \<and> \<not> hasPrefix p ''~/'' then Inr p
      else if home = '''' then Inl (CfgExpand p)
      else if p = ''~'' then Inr home
      else Inr (JoinPath home (drop 2 p)))"

fun expandAll :: "string \<Rightarrow> path list \<Rightarrow> ConfigErr + path list" where
  "expandAll home [] = Inr []"
| "expandAll home (p # ps) =
     (case expandTilde home p of
        Inl e \<Rightarrow> Inl e
      | Inr q \<Rightarrow> (case expandAll home ps of Inl e \<Rightarrow> Inl e | Inr qs \<Rightarrow> Inr (q # qs)))"

definition expandPaths :: "string \<Rightarrow> Config \<Rightarrow> ConfigErr + Config" where
  "expandPaths home c =
     (case expandAll home (cf_Include c) of
        Inl e \<Rightarrow> Inl e
      | Inr inc \<Rightarrow>
          (case expandAll home (cf_Exclude c) of
             Inl e \<Rightarrow> Inl e
           | Inr exc \<Rightarrow>
               (case expandTilde home (cf_TokenFile c) of
                  Inl e \<Rightarrow> Inl e
                | Inr token \<Rightarrow>
                    (case expandAll home denyPrefixes of
                       Inl e \<Rightarrow> Inl e
                     | Inr pre \<Rightarrow>
                         Inr (c\<lparr>cf_Include := inc, cf_Exclude := exc, cf_TokenFile := token, cf_excludePrefixes := pre\<rparr>)))))"

text \<open>The parser answers the scheme and the host, or an error.\<close>

definition validateEndpoint :: "(string \<Rightarrow> string + string \<times> string) \<Rightarrow> string \<Rightarrow> string \<Rightarrow> ConfigErr option" where
  "validateEndpoint parseURL key endpoint =
     (case parseURL endpoint of
        Inl m \<Rightarrow> Some (CfgUrl key m)
      | Inr (scheme, host) \<Rightarrow>
          if scheme \<noteq> ''http'' \<and> scheme \<noteq> ''https'' \<or> host = '''' then Some (CfgNotHttp key endpoint) else None)"

fun includeError :: "path list \<Rightarrow> ConfigErr option" where
  "includeError [] = None"
| "includeError (p # ps) = (if \<not> IsAbs p then Some (CfgIncludeRelative p) else includeError ps)"

fun excludeError :: "string list \<Rightarrow> ConfigErr option" where
  "excludeError [] = None"
| "excludeError (e # es) =
     (if IsAbs e then excludeError es
      else if CHR ''/'' \<in> set e then Some (CfgExcludeSlash e)
      else if PathMatch e ''probe'' = None then Some (CfgExcludeGlob e)
      else excludeError es)"

definition validateConfig :: "(string \<Rightarrow> string + string \<times> string) \<Rightarrow> Config \<Rightarrow> ConfigErr option" where
  "validateConfig parseURL c =
     (if cf_Include c = [] then Some CfgNoInclude
      else case includeError (cf_Include c) of
        Some e \<Rightarrow> Some e
      | None \<Rightarrow>
         (case excludeError (cf_Exclude c) of
            Some e \<Rightarrow> Some e
          | None \<Rightarrow>
             (case validateEndpoint parseURL ''inference.endpoint'' (cf_Endpoint c) of
                Some e \<Rightarrow> Some e
              | None \<Rightarrow>
                  if cf_QueryTemplate c \<noteq> '''' \<and> \<not> containsStr (cf_QueryTemplate c) PlaceholderQuery
                  then Some (CfgQueryTemplate (cf_QueryTemplate c))
                  else if cf_PassageTemplate c \<noteq> '''' \<and> \<not> containsStr (cf_PassageTemplate c) PlaceholderPassage
                  then Some (CfgPassageTemplate (cf_PassageTemplate c))
                  else if int (length (cf_PassageTemplate c)) > TemplateReserveBytes
                  then Some (CfgPassageLong (int (length (cf_PassageTemplate c))))
                  else if cf_InputCeilingTokens c < 0 then Some (CfgCeilingNegative (cf_InputCeilingTokens c))
                  else if cf_InputCeilingTokens c > 0 \<and> cf_InputCeilingTokens c < MinCeilingTokens
                  then Some (CfgCeilingLow (cf_InputCeilingTokens c))
                  else validateEndpoint parseURL ''converter.endpoint'' (cf_ConverterEndpoint c))))"

section \<open>Loading (config.go: Load)\<close>

definition defaultConfig :: Config where
  "defaultConfig =
     \<lparr>cf_Include = [''~''], cf_Exclude = [], cf_Endpoint = ''http://localhost:1234/v1'', cf_EmbeddingModel = '''',
      cf_SummaryModel = '''', cf_QueryTemplate = '''', cf_PassageTemplate = '''', cf_InputCeilingTokens = 0,
      cf_ConverterEndpoint = ''http://localhost:18000'', cf_TokenFile = ''~/.config/bsearch/bscribe-token'',
      cf_AC = Every (5 * minute), cf_Battery = Every (60 * minute), cf_excludePrefixes = []\<rparr>"

datatype FileAns = FileMissing | FileUnreadable string | FileData string

text \<open>
  What the decoder makes of a file on top of the defaults: an error, or the configuration and the keys it
  did not recognise. The last field is not exported, so no file sets it.
\<close>

type_synonym Decoder = "string \<Rightarrow> Config \<Rightarrow> string + Config \<times> string list"

definition Load ::
  "Decoder \<Rightarrow> (string \<Rightarrow> string + string \<times> string) \<Rightarrow> string \<Rightarrow> (path \<Rightarrow> FileAns) \<Rightarrow> path \<Rightarrow> ConfigErr + Config" where
  "Load decode parseURL home read p =
     (if p = '''' then Inl CfgPathEmpty
      else case
        (case read p of
           FileMissing \<Rightarrow> Inr defaultConfig
         | FileUnreadable m \<Rightarrow> Inl (CfgRead m)
         | FileData d \<Rightarrow>
             (case decode d defaultConfig of
                Inl m \<Rightarrow> Inl (CfgParse m)
              | Inr (c, keys) \<Rightarrow> if keys \<noteq> [] then Inl (CfgUnknownKeys keys) else Inr c)) of
        Inl e \<Rightarrow> Inl e
      | Inr c \<Rightarrow>
          (case expandPaths home c of
             Inl e \<Rightarrow> Inl e
           | Inr c1 \<Rightarrow> (case validateConfig parseURL c1 of Some e \<Rightarrow> Inl e | None \<Rightarrow> Inr c1)))"

section \<open>The deny list (config.go: ExcludeSet, Match, ExcludeRules)\<close>

record ExcludeSet =
  ex_Prefixes :: "path list"
  ex_Patterns :: "string list"

fun rulesLoop :: "string list \<Rightarrow> ExcludeSet \<Rightarrow> ExcludeSet" where
  "rulesLoop [] r = r"
| "rulesLoop (entry # rest) r =
     rulesLoop rest
       (if hasPrefix entry ''/'' then r\<lparr>ex_Prefixes := ex_Prefixes r @ [Clean entry]\<rparr>
        else r\<lparr>ex_Patterns := ex_Patterns r @ [entry]\<rparr>)"

definition ExcludeRules :: "Config \<Rightarrow> ExcludeSet" where
  "ExcludeRules c = rulesLoop (cf_Exclude c) \<lparr>ex_Prefixes = cf_excludePrefixes c, ex_Patterns = denyPatterns\<rparr>"

text \<open>A malformed pattern counts as no match.\<close>

definition MatchRules :: "ExcludeSet \<Rightarrow> path \<Rightarrow> bool" where
  "MatchRules e p \<longleftrightarrow>
     (\<exists>pre \<in> set (ex_Prefixes e). Within p pre) \<or>
     (\<exists>component \<in> set (splitStr (trimPrefix p ''/'') ''/''). \<exists>pattern \<in> set (ex_Patterns e).
        PathMatch pattern component = Some True)"

section \<open>Components of a path\<close>

definition components :: "path \<Rightarrow> string list" where
  "components p = splitStr (trimPrefix p ''/'') ''/''"

lemma splitOn_slash [simp]:
  "splitOn acc (c # s) ''/'' = (if c = CHR ''/'' then rev acc # splitOn [] s ''/'' else splitOn (c # acc) s ''/'')"
  by simp

lemma splitOn_at: "splitOn acc (a @ ''/'' @ b) ''/'' = splitOn acc a ''/'' @ splitOn [] b ''/''"
  by (induction a arbitrary: acc) auto

lemma splitOn_clean: "CHR ''/'' \<notin> set acc \<Longrightarrow> k \<in> set (splitOn acc s ''/'') \<Longrightarrow> CHR ''/'' \<notin> set k"
proof (induction s arbitrary: acc)
  case (Cons c s)
  then show ?case using Cons.IH [of "[]"] Cons.IH [of "c # acc"] by (auto split: if_splits)
qed simp

lemma component_no_slash: "k \<in> set (components p) \<Longrightarrow> CHR ''/'' \<notin> set k"
  by (auto simp: components_def splitStr_def dest: splitOn_clean [rotated])

lemma hasPrefix_split: "hasPrefix s p \<longleftrightarrow> (\<exists>t. s = p @ t)"
  by (auto simp: hasPrefix_def) (metis append_take_drop_id)

lemma Within_cases: "Within p q \<longleftrightarrow> p = q \<or> (if q = ''/'' then IsAbs p else \<exists>t. p = q @ ''/'' @ t)"
  by (auto simp: Within_def hasPrefix_split IsAbs_def)

lemma components_below:
  assumes "Within p q" "IsAbs q" "q \<noteq> ''/''"
  shows "set (components q) \<subseteq> set (components p)"
proof -
  obtain r where r: "q = CHR ''/'' # r" using assms(2) by (auto simp: IsAbs_def hasPrefix_split)
  from assms(1,3) consider "p = q" | t where "p = q @ ''/'' @ t" by (auto simp: Within_cases)
  then show ?thesis
  proof cases
    case 2
    then show ?thesis by (simp add: components_def splitStr_def r trimPrefix_def hasPrefix_def splitOn_at [of "[]" r t, simplified])
  qed simp
qed

lemma Within_trans:
  assumes "Within p q" "Within q r" "IsAbs q"
  shows "Within p r"
proof -
  from assms(1,3) have "IsAbs p" by (auto simp: Within_cases IsAbs_def hasPrefix_split split: if_splits)
  then show ?thesis
    using assms(1,2) by (auto simp: Within_cases IsAbs_def hasPrefix_split Cons_eq_append_conv split: if_splits)
qed

section \<open>What loading guarantees\<close>

lemma includeError_None: "includeError ps = None \<longleftrightarrow> (\<forall>p \<in> set ps. IsAbs p)"
  by (induction ps) auto

lemma excludeError_None:
  "excludeError es = None \<longleftrightarrow> (\<forall>e \<in> set es. IsAbs e \<or> CHR ''/'' \<notin> set e \<and> PathMatch e ''probe'' \<noteq> None)"
  by (induction es) auto

lemma Load_result:
  assumes "Load decode parseURL home read p = Inr c"
  shows "validateConfig parseURL c = None" "expandAll home denyPrefixes = Inr (cf_excludePrefixes c)"
proof -
  obtain c0 where c0: "expandPaths home c0 = Inr c" "validateConfig parseURL c = None"
    using assms by (auto simp: Load_def split: if_splits sum.splits option.splits)
  then show "validateConfig parseURL c = None" "expandAll home denyPrefixes = Inr (cf_excludePrefixes c)"
    by (auto simp: expandPaths_def split: sum.splits)
qed

text \<open>The built-in directories, below the home directory.\<close>

definition privateDirs :: "path list" where
  "privateDirs = [''.ssh'', ''.gnupg'', ''Library'', ''.cache'', ''Library/Application Support/bsearch'']"

lemma Load_prefixes:
  assumes "Load decode parseURL home read p = Inr c"
  shows "home \<noteq> ''''"
    "set (cf_excludePrefixes c) = JoinPath home ` set privateDirs"
proof -
  have e: "expandAll home denyPrefixes = Inr (cf_excludePrefixes c)" by (rule Load_result(2) [OF assms])
  show "home \<noteq> ''''"
  proof
    assume "home = ''''"
    then have "expandAll home denyPrefixes = Inl (CfgExpand ''~/.ssh'')"
      by (simp add: denyPrefixes_def expandTilde_def hasPrefix_def)
    with e show False by simp
  qed
  then have "expandTilde home (''~/'' @ d) = Inr (JoinPath home d)" for d
    by (simp add: expandTilde_def hasPrefix_def)
  from this [of "''.ssh''"] this [of "''.gnupg''"] this [of "''Library''"] this [of "''.cache''"]
    this [of "''Library/Application Support/bsearch''"]
  have "expandAll home denyPrefixes = Inr [JoinPath home ''.ssh'', JoinPath home ''.gnupg'', JoinPath home ''Library'',
      JoinPath home ''.cache'', JoinPath home ''Library/Application Support/bsearch'']"
    by (simp add: denyPrefixes_def)
  then have "cf_excludePrefixes c = [JoinPath home ''.ssh'', JoinPath home ''.gnupg'', JoinPath home ''Library'',
      JoinPath home ''.cache'', JoinPath home ''Library/Application Support/bsearch'']"
    using e by simp
  then show "set (cf_excludePrefixes c) = JoinPath home ` set privateDirs"
    by (auto simp: privateDirs_def)
qed

lemma rulesLoop_result:
  "set (ex_Prefixes (rulesLoop es r)) = set (ex_Prefixes r) \<union> Clean ` {e \<in> set es. IsAbs e}"
  "set (ex_Patterns (rulesLoop es r)) = set (ex_Patterns r) \<union> {e \<in> set es. \<not> IsAbs e}"
  by (induction es arbitrary: r) (auto simp: IsAbs_def)

section \<open>What the deny list matches\<close>

text \<open>The names the built-in patterns stand for.\<close>

definition secretName :: "string \<Rightarrow> bool" where
  "secretName k \<longleftrightarrow>
     k \<in> {''.git'', ''.hg'', ''.svn'', ''node_modules'', ''.venv'', ''venv'', ''vendor'', ''__pycache__'', ''.env''} \<or>
     hasPrefix k ''.env.'' \<or> hasSuffix k ''.pem'' \<or> hasSuffix k ''.key'' \<or> hasPrefix k ''id_rsa'' \<or>
     hasPrefix k ''id_ed25519'' \<or> containsStr k ''.keychain''"

lemma denyPatterns_names:
  assumes "CHR ''/'' \<notin> set k"
  shows "(\<exists>pattern \<in> set denyPatterns. PathMatch pattern k = Some True) \<longleftrightarrow> secretName k"
proof -
  note pre = PathMatch_prefix [OF _ _ assms] and suf = PathMatch_suffix [OF _ _ assms] and inf' = PathMatch_infix [OF _ _ assms]
  have pats:
    "PathMatch ''.env.*'' k = Some (hasPrefix k ''.env.'')" "PathMatch ''id_rsa*'' k = Some (hasPrefix k ''id_rsa'')"
    "PathMatch ''id_ed25519*'' k = Some (hasPrefix k ''id_ed25519'')" "PathMatch ''*.pem'' k = Some (hasSuffix k ''.pem'')"
    "PathMatch ''*.key'' k = Some (hasSuffix k ''.key'')" "PathMatch ''*.keychain*'' k = Some (containsStr k ''.keychain'')"
    using pre [of "''.env.''"] pre [of "''id_rsa''"] pre [of "''id_ed25519''"] suf [of "''.pem''"] suf [of "''.key''"]
      inf' [of "''.keychain''"] by simp_all
  have lits: "PathMatch w k = Some (k = w)"
    if "w \<in> {''.git'', ''.hg'', ''.svn'', ''node_modules'', ''.venv'', ''venv'', ''vendor'', ''__pycache__'', ''.env''}" for w
    using that by (intro PathMatch_equal) auto
  show ?thesis by (simp add: denyPatterns_def secretName_def pats lits)
qed

lemma matchRules_split:
  assumes "Load decode parseURL home read file' = Inr c"
  shows "MatchRules (ExcludeRules c) p \<longleftrightarrow>
    (\<exists>d \<in> set privateDirs. Within p (JoinPath home d)) \<or>
    (\<exists>k \<in> set (components p). secretName k) \<or>
    (\<exists>e \<in> set (cf_Exclude c).
       if IsAbs e then Within p (Clean e) else \<exists>k \<in> set (components p). PathMatch e k = Some True)"
proof -
  have pre: "set (ex_Prefixes (ExcludeRules c)) =
      JoinPath home ` set privateDirs \<union>
      Clean ` {e \<in> set (cf_Exclude c). IsAbs e}"
    by (simp only: ExcludeRules_def rulesLoop_result ExcludeSet.simps Load_prefixes(2) [OF assms])
  have pat: "set (ex_Patterns (ExcludeRules c)) = set denyPatterns \<union> {e \<in> set (cf_Exclude c). \<not> IsAbs e}"
    by (simp only: ExcludeRules_def rulesLoop_result ExcludeSet.simps)
  have names: "(\<exists>k \<in> set (components p). \<exists>pattern \<in> set denyPatterns. PathMatch pattern k = Some True) \<longleftrightarrow>
      (\<exists>k \<in> set (components p). secretName k)"
    using denyPatterns_names component_no_slash by blast
  have "MatchRules (ExcludeRules c) p \<longleftrightarrow>
      (\<exists>pre \<in> set (ex_Prefixes (ExcludeRules c)). Within p pre) \<or>
      (\<exists>k \<in> set (components p). \<exists>pattern \<in> set (ex_Patterns (ExcludeRules c)). PathMatch pattern k = Some True)"
    by (simp add: MatchRules_def components_def)
  also have "\<dots> \<longleftrightarrow>
      (\<exists>d \<in> set privateDirs. Within p (JoinPath home d)) \<or>
      (\<exists>e \<in> set (cf_Exclude c). IsAbs e \<and> Within p (Clean e)) \<or>
      (\<exists>k \<in> set (components p). \<exists>pattern \<in> set denyPatterns. PathMatch pattern k = Some True) \<or>
      (\<exists>e \<in> set (cf_Exclude c). \<not> IsAbs e \<and> (\<exists>k \<in> set (components p). PathMatch e k = Some True))"
    unfolding pre pat by blast
  finally have "MatchRules (ExcludeRules c) p \<longleftrightarrow>
      (\<exists>d \<in> set privateDirs. Within p (JoinPath home d)) \<or>
      (\<exists>e \<in> set (cf_Exclude c). IsAbs e \<and> Within p (Clean e)) \<or> (\<exists>k \<in> set (components p). secretName k) \<or>
      (\<exists>e \<in> set (cf_Exclude c). \<not> IsAbs e \<and> (\<exists>k \<in> set (components p). PathMatch e k = Some True))"
    unfolding names .
  moreover have "(\<exists>e \<in> set (cf_Exclude c).
       if IsAbs e then Within p (Clean e) else \<exists>k \<in> set (components p). PathMatch e k = Some True) \<longleftrightarrow>
      (\<exists>e \<in> set (cf_Exclude c). IsAbs e \<and> Within p (Clean e)) \<or>
      (\<exists>e \<in> set (cf_Exclude c). \<not> IsAbs e \<and> (\<exists>k \<in> set (components p). PathMatch e k = Some True))"
    by auto
  ultimately show ?thesis by argo
qed

text \<open>
  C36: The deny list of a configuration that loads is exactly this: a path is excluded when it is, or is
  beneath, one of the private directories of the home directory or an absolute entry of the user's, or when
  one of its components has a secret's name or matches a pattern of the user's.
\<close>

theorem MatchRules_exact:
  assumes "Load decode parseURL home read file' = Inr c"
  shows "MatchRules (ExcludeRules c) p \<longleftrightarrow>
    (\<exists>d \<in> set privateDirs. Within p (JoinPath home d)) \<or>
    (\<exists>k \<in> set (components p). secretName k) \<or>
    (\<exists>e \<in> set (cf_Exclude c).
       if IsAbs e then Within p (Clean e) else \<exists>k \<in> set (components p). PathMatch e k = Some True)"
  by (rule matchRules_split [OF assms])

definition demo_url :: "string \<Rightarrow> string + string \<times> string" where
  "demo_url = (\<lambda>_. Inr (''http'', ''localhost:1234''))"

definition demo_decode :: Decoder where
  "demo_decode = (\<lambda>_ c. Inr (c\<lparr>cf_Exclude := [''/u/private/'', ''*.tmp'']\<rparr>, []))"

definition demo_config :: Config where
  "demo_config = projr (Load demo_decode demo_url ''/u'' (\<lambda>_. FileData ''x'') ''/u/config.toml'')"

lemma demo_loaded: "Load demo_decode demo_url ''/u'' (\<lambda>_. FileData ''x'') ''/u/config.toml'' = Inr demo_config"
proof -
  have "\<not> isl (Load demo_decode demo_url ''/u'' (\<lambda>_. FileData ''x'') ''/u/config.toml'')" by code_simp
  then show ?thesis by (simp add: demo_config_def)
qed

theorem MatchRules_exact_witness:
  "MatchRules (ExcludeRules demo_config) ''/u/docs/.env.local/x'' \<and> MatchRules (ExcludeRules demo_config) ''/u/Library/Mail/1''"
proof -
  have "components ''/u/docs/.env.local/x'' = [''u'', ''docs'', ''.env.local'', ''x'']"
    by (simp add: components_def splitStr_def trimPrefix_def hasPrefix_def)
  moreover have "secretName ''.env.local''" by (simp add: secretName_def hasPrefix_def)
  moreover have "Within ''/u/Library/Mail/1'' (JoinPath ''/u'' ''Library'')" by code_simp
  ultimately show ?thesis
    using MatchRules_exact [OF demo_loaded, of "''/u/docs/.env.local/x''"] MatchRules_exact [OF demo_loaded, of "''/u/Library/Mail/1''"]
    by (auto simp: privateDirs_def)
qed

text \<open>
  Exclusion is inherited, as discovery requires of the predicate it is given: what lies beneath an
  excluded path is excluded, whatever the rules. (The root \<open>/\<close> is the one exception: its only component
  is empty.)
\<close>

theorem MatchRules_descends:
  assumes "MatchRules e q" "Within p q" "IsAbs q" "q \<noteq> ''/''"
  shows "MatchRules e p"
  using assms(1) components_below [OF assms(2-4)] Within_trans [OF assms(2) _ assms(3)]
  unfolding MatchRules_def components_def [symmetric] by blast

theorem MatchRules_descends_witness: "MatchRules (ExcludeRules demo_config) ''/u/private/diary/may''"
proof (rule MatchRules_descends)
  show "MatchRules (ExcludeRules demo_config) ''/u/private''" by code_simp
  show "Within ''/u/private/diary/may'' ''/u/private''" "IsAbs ''/u/private''" "''/u/private'' \<noteq> ''/''" by code_simp+
qed

text \<open>
  C38: What a configuration that loads is worth: there is a root and every root is absolute; every exclusion
  is absolute or a well-formed pattern without a slash, so none of them is silently dead; the templates have
  their placeholders and leave room for it; the ceiling is none or at least the minimum; and both endpoints
  are http URLs.
\<close>

theorem Load_sound:
  assumes "Load decode parseURL home read file' = Inr c"
  shows "cf_Include c \<noteq> [] \<and> (\<forall>p \<in> set (cf_Include c). IsAbs p) \<and>
    (\<forall>e \<in> set (cf_Exclude c). IsAbs e \<or> CHR ''/'' \<notin> set e \<and> (\<forall>name. PathMatch e name \<noteq> None)) \<and>
    (cf_QueryTemplate c = '''' \<or> containsStr (cf_QueryTemplate c) PlaceholderQuery) \<and>
    (cf_PassageTemplate c = '''' \<or> containsStr (cf_PassageTemplate c) PlaceholderPassage) \<and>
    int (length (cf_PassageTemplate c)) \<le> TemplateReserveBytes \<and>
    (cf_InputCeilingTokens c = 0 \<or> MinCeilingTokens \<le> cf_InputCeilingTokens c) \<and>
    (\<forall>u \<in> {cf_Endpoint c, cf_ConverterEndpoint c}. \<exists>scheme host.
       parseURL u = Inr (scheme, host) \<and> scheme \<in> {''http'', ''https''} \<and> host \<noteq> '''')"
proof -
  have v: "validateConfig parseURL c = None" by (rule Load_result(1) [OF assms])
  then have lists: "includeError (cf_Include c) = None" "excludeError (cf_Exclude c) = None" "cf_Include c \<noteq> []"
    by (auto simp: validateConfig_def split: if_splits option.splits)
  have urls: "validateEndpoint parseURL ''inference.endpoint'' (cf_Endpoint c) = None"
    "validateEndpoint parseURL ''converter.endpoint'' (cf_ConverterEndpoint c) = None"
    using v by (auto simp: validateConfig_def split: if_splits option.splits)
  have url: "validateEndpoint parseURL key u = None \<Longrightarrow>
      \<exists>scheme host. parseURL u = Inr (scheme, host) \<and> scheme \<in> {''http'', ''https''} \<and> host \<noteq> ''''" for key u
    by (auto simp: validateEndpoint_def split: sum.splits if_splits)
  have globs: "\<forall>e \<in> set (cf_Exclude c). IsAbs e \<or> CHR ''/'' \<notin> set e \<and> (\<forall>name. PathMatch e name \<noteq> None)"
    using lists(2) by (auto simp: excludeError_None PathMatch_bad)
  have rest: "cf_QueryTemplate c = '''' \<or> containsStr (cf_QueryTemplate c) PlaceholderQuery"
    "cf_PassageTemplate c = '''' \<or> containsStr (cf_PassageTemplate c) PlaceholderPassage"
    "int (length (cf_PassageTemplate c)) \<le> TemplateReserveBytes"
    "cf_InputCeilingTokens c = 0 \<or> MinCeilingTokens \<le> cf_InputCeilingTokens c"
    using v by (auto simp: validateConfig_def split: if_splits option.splits)
  show ?thesis
    using lists(1,3) globs rest url [OF urls(1)] url [OF urls(2)] by (simp add: includeError_None)
qed

theorem Load_sound_witness: "cf_Include demo_config \<noteq> [] \<and> (\<forall>name. PathMatch ''*.tmp'' name \<noteq> None)"
proof -
  have "''*.tmp'' \<in> set (cf_Exclude demo_config)" "\<not> IsAbs ''*.tmp''" by code_simp+
  then show ?thesis using Load_sound [OF demo_loaded] by blast
qed

lemma cleanLoop_elems:
  "\<forall>k \<in> set out. k \<noteq> '''' \<and> CHR ''/'' \<notin> set k \<Longrightarrow> \<forall>k \<in> set cs. CHR ''/'' \<notin> set k \<Longrightarrow>
     k \<in> set (cleanLoop rooted out cs) \<Longrightarrow> k \<noteq> '''' \<and> CHR ''/'' \<notin> set k"
proof (induction rooted out cs rule: cleanLoop.induct)
  case (2 rooted out c cs)
  have tl: "\<forall>k \<in> set (tl out). k \<noteq> '''' \<and> CHR ''/'' \<notin> set k" using "2.prems"(1) by (cases out) auto
  show ?case using 2 tl by (auto split: if_splits)
qed auto

lemma Clean_relative:
  assumes "\<not> hasPrefix p ''/''"
  shows "\<not> hasPrefix (Clean p) ''/''"
proof -
  let ?ks = "cleanLoop False [] (splitStr p ''/'')"
  have elems: "k \<in> set ?ks \<Longrightarrow> k \<noteq> '''' \<and> CHR ''/'' \<notin> set k" for k
    by (rule cleanLoop_elems [of "[]"]) (auto simp: splitStr_def dest: splitOn_clean [rotated])
  have "\<not> hasPrefix (joinStr ?ks ''/'') ''/''"
  proof (cases ?ks)
    case (Cons k ks)
    then obtain a t where "k = a # t" "a \<noteq> CHR ''/''" using elems [of k] by (cases k) auto
    then show ?thesis using Cons by (cases ks) auto
  qed simp
  then show ?thesis using assms by (simp add: Clean_def Let_def)
qed

text \<open>
  A relative \<open>$HOME\<close> is accepted, as long as no root starts with a tilde. The private directories then are
  relative and match no absolute path: only names and the user's own entries exclude anything.
\<close>

lemma relative_home_unprotected:
  assumes "Load decode parseURL home read file' = Inr c" "\<not> IsAbs home" "IsAbs p"
  shows "MatchRules (ExcludeRules c) p \<longleftrightarrow>
    (\<exists>k \<in> set (components p). secretName k) \<or>
    (\<exists>e \<in> set (cf_Exclude c).
       if IsAbs e then Within p (Clean e) else \<exists>k \<in> set (components p). PathMatch e k = Some True)"
proof -
  have home: "home \<noteq> ''''" by (rule Load_prefixes(1) [OF assms(1)])
  have "\<not> Within p (JoinPath home d)" for d
  proof -
    obtain a h where h: "home = a # h" "a \<noteq> CHR ''/''" using home assms(2) by (cases home) (auto simp: IsAbs_def)
    have "\<not> hasPrefix (JoinPath home d) ''/''"
      unfolding JoinPath_def h(1) by (rule Clean_relative) (use h in \<open>simp add: hasPrefix_def\<close>)
    moreover have "JoinPath home d \<noteq> ''''" by (simp add: JoinPath_def Clean_nonempty)
    ultimately obtain b t where "JoinPath home d = b # t" "b \<noteq> CHR ''/''" by (cases "JoinPath home d") auto
    then show ?thesis using assms(3) by (auto simp: Within_cases IsAbs_def hasPrefix_split)
  qed
  then show ?thesis unfolding matchRules_split [OF assms(1)] by blast
qed

end
