(* ===== verification/Inference.thy ===== *)
theory Inference
  imports Config PipelineFacts
begin

text \<open>
  The inference side: the spec of a configured model (internal/embedding/registry.go, cmd/bsearch/setup.go)
  and the client of an OpenAI-compatible endpoint (internal/adapters/openai): what it sends, what it accepts
  of the answer, and that it meets the contract the pipeline relies on. The HTTP exchange is an argument.
\<close>

section \<open>The registry (registry.go)\<close>

record registryEntry =
  re_query :: string
  re_passage :: string
  re_ceiling :: int

definition registry :: "string \<rightharpoonup> registryEntry" where
  "registry =
     [''embeddinggemma'' \<mapsto>
        \<lparr>re_query = ''task: search result | query: {q}'', re_passage = ''title: {t} | text: {d}'', re_ceiling = 2048\<rparr>]"

definition registryKeys :: "string list" where
  "registryKeys = [''embeddinggemma'']"

text \<open>One step of the search for the best key, and the loop over the keys in the order Go visits them.\<close>

definition betterKey :: "string \<Rightarrow> string \<Rightarrow> string \<Rightarrow> string" where
  "betterKey lower best key =
     (if \<not> containsStr lower key then best
      else if length key > length best \<or> length key = length best \<and> key < best then key else best)"

definition lookupKey :: "string list \<Rightarrow> string \<Rightarrow> string" where
  "lookupKey keys lower = foldl (betterKey lower) '''' keys"

definition lookupEntry :: "(string \<rightharpoonup> registryEntry) \<Rightarrow> string list \<Rightarrow> string \<Rightarrow> registryEntry option" where
  "lookupEntry reg keys model =
     (let best = lookupKey keys (lowerASCII model) in if best = '''' then None else reg best)"

definition ResolveSpec :: "string \<Rightarrow> string \<Rightarrow> string \<Rightarrow> int \<Rightarrow> EmbeddingSpec" where
  "ResolveSpec model queryOverride passageOverride ceilingOverride =
     (case lookupEntry registry registryKeys model of
        None \<Rightarrow> \<lparr>es_Model = model, es_QueryTemplate = queryOverride, es_PassageTemplate = passageOverride,
                  es_CeilingTokens = ceilingOverride\<rparr>
      | Some entry \<Rightarrow>
          \<lparr>es_Model = model,
           es_QueryTemplate = (if queryOverride = '''' then re_query entry else queryOverride),
           es_PassageTemplate = (if passageOverride = '''' then re_passage entry else passageOverride),
           es_CeilingTokens = (if ceilingOverride = 0 then re_ceiling entry else ceilingOverride)\<rparr>)"

section \<open>The client (embedder.go, errors.go)\<close>

text \<open>
  What one exchange brings: no response (the context ended, or the request never got an HTTP answer), or a
  response with its status, what is kept of its body for an error message, and what the body decodes to: it
  does not (\<open>True\<close>: it was cut short), or the data.
\<close>

datatype CtxErr = CtxCanceled | CtxDeadline

datatype HttpBody = BadBody bool string | Data "(int \<times> float32 list) list"

datatype HttpAns = NetError string | ContextError CtxErr | Response int string HttpBody

datatype EmbedErr =
    OverCeiling nat int int int
  | AcrossBatches nat nat
  | NoAnswer string
  | CtxEnded CtxErr
  | StatusError int string
  | DecodeResponse bool string
  | WrongCount nat nat
  | IndexRange int nat
  | DuplicateIndex int
  | EmptyEmbedding int
  | MixedDims int nat nat

text \<open>\<open>errors.go: Transient\<close>.\<close>

definition TransientErr :: "EmbedErr \<Rightarrow> bool" where
  "TransientErr e =
     (case e of
        CtxEnded CtxCanceled \<Rightarrow> False
      | CtxEnded CtxDeadline \<Rightarrow> True
      | StatusError code m \<Rightarrow> code = 408 \<or> code = 429 \<or> code \<ge> 500
      | DecodeResponse short m \<Rightarrow> short
      | NoAnswer m \<Rightarrow> True
      | _ \<Rightarrow> False)"

record OpenAI =
  oe_url :: string
  oe_spec :: EmbeddingSpec
  oe_batch :: nat

datatype NewErr = NoEndpoint | NoModel | BadSpec SpecError | NegativeBatch int

definition NewEmbedder :: "string \<Rightarrow> EmbeddingSpec \<Rightarrow> int \<Rightarrow> NewErr + OpenAI" where
  "NewEmbedder endpoint spec batchSize =
     (if endpoint = '''' then Inl NoEndpoint
      else if es_Model spec = '''' then Inl NoModel
      else case Validate spec of
        Some e \<Rightarrow> Inl (BadSpec e)
      | None \<Rightarrow>
          if batchSize < 0 then Inl (NegativeBatch batchSize)
          else Inr \<lparr>oe_url = trimSuffix endpoint ''/'' @ ''/embeddings'', oe_spec = spec,
                    oe_batch = (if batchSize = 0 then 64 else nat batchSize)\<rparr>)"

text \<open>Placing the vectors by the index of the response; a slot is empty until it is filled.\<close>

fun placeLoop :: "(int \<times> float32 list) list \<Rightarrow> nat \<Rightarrow> float32 list list \<Rightarrow> EmbedErr + float32 list list" where
  "placeLoop [] dims vectors = Inr vectors"
| "placeLoop ((i, emb) # rest) dims vectors =
     (if i < 0 \<or> i \<ge> int (length vectors) then Inl (IndexRange i (length vectors))
      else if vectors ! nat i \<noteq> [] then Inl (DuplicateIndex i)
      else if emb = [] then Inl (EmptyEmbedding i)
      else
        (let want = (if dims = 0 then length emb else dims) in
         if length emb \<noteq> want then Inl (MixedDims i (length emb) want)
         else placeLoop rest want (vectors[nat i := emb])))"

definition embedBatch :: "HttpAns \<Rightarrow> string list \<Rightarrow> EmbedErr + float32 list list" where
  "embedBatch ans batch =
     (case ans of
        NetError m \<Rightarrow> Inl (NoAnswer m)
      | ContextError c \<Rightarrow> Inl (CtxEnded c)
      | Response code msg body \<Rightarrow>
          if code < 200 \<or> code > 299 then Inl (StatusError code msg)
          else (case body of
                  BadBody short m \<Rightarrow> Inl (DecodeResponse short m)
                | Data data \<Rightarrow>
                    if length data \<noteq> length batch then Inl (WrongCount (length batch) (length data))
                    else placeLoop data 0 (replicate (length batch) [])))"

text \<open>An exchange: the url, the model and the texts of the n-th request of a call.\<close>

type_synonym Post = "string \<Rightarrow> string \<Rightarrow> nat \<Rightarrow> string list \<Rightarrow> HttpAns"

text \<open>The batches; \<open>NewEmbedder\<close> lets no batch size of 0 through.\<close>

function embedLoop :: "OpenAI \<Rightarrow> Post \<Rightarrow> nat \<Rightarrow> string list \<Rightarrow> nat \<Rightarrow> float32 list list \<Rightarrow> EmbedErr + float32 list list" where
  "embedLoop e post n texts dims vectors =
     (if texts = [] then Inr vectors
      else
        (let size = max 1 (oe_batch e); batch = take size texts in
         case embedBatch (post (oe_url e) (es_Model (oe_spec e)) n batch) batch of
           Inl err \<Rightarrow> Inl err
         | Inr got \<Rightarrow>
             (let want = (if dims = 0 then length (hd got) else dims) in
              if length (hd got) \<noteq> want then Inl (AcrossBatches (length (hd got)) want)
              else embedLoop e post (Suc n) (drop size texts) want (vectors @ got))))"
  by pat_completeness auto
termination
  by (relation "measure (\<lambda>(e, post, n, texts, d, v). length texts)") auto

declare embedLoop.simps [simp del]

fun ceilingLoop :: "int \<Rightarrow> int \<Rightarrow> nat \<Rightarrow> string list \<Rightarrow> EmbedErr option" where
  "ceilingLoop ceil limit n [] = None"
| "ceilingLoop ceil limit n (t # ts) =
     (if int (length t) > limit then Some (OverCeiling n ceil limit (int (length t))) else ceilingLoop ceil limit (Suc n) ts)"

definition embedTexts :: "OpenAI \<Rightarrow> Post \<Rightarrow> string list \<Rightarrow> EmbedErr + float32 list list" where
  "embedTexts e post texts =
     (let ceil = es_CeilingTokens (oe_spec e) in
      case (if ceil > 0 then ceilingLoop ceil (goInt (ceil * BytesPerToken)) 0 texts else None) of
        Some err \<Rightarrow> Inl err
      | None \<Rightarrow> embedLoop e post 0 texts 0 [])"

definition EmbedQuery :: "OpenAI \<Rightarrow> Post \<Rightarrow> string \<Rightarrow> EmbedErr + float32 list" where
  "EmbedQuery e post q =
     (case embedTexts e post [ComposeQuery (oe_spec e) q] of Inl err \<Rightarrow> Inl err | Inr vecs \<Rightarrow> Inr (hd vecs))"

definition EmbedPassages :: "OpenAI \<Rightarrow> Post \<Rightarrow> Chunk list \<Rightarrow> EmbedErr + float32 list list" where
  "EmbedPassages e post chs =
     (if chs = [] then Inr [] else embedTexts e post (map (ComposePassage (oe_spec e)) chs))"

section \<open>The embedder of the pipeline\<close>

text \<open>
  The client as the pipeline and the search see it: the k-th call of the run makes its own exchanges, and
  an error is seen by its text.
\<close>

definition asEmbedder :: "OpenAI \<Rightarrow> (nat \<Rightarrow> Post) \<Rightarrow> (EmbedErr \<Rightarrow> string) \<Rightarrow> Embedder" where
  "asEmbedder e posts tell =
     \<lparr>em_Spec = oe_spec e,
      em_Query = (\<lambda>k q. map_sum tell id (EmbedQuery e (posts k) q)),
      em_Passages = (\<lambda>k chs. map_sum tell id (EmbedPassages e (posts k) chs))\<rparr>"

section \<open>One batch\<close>

definition filled :: "float32 list list \<Rightarrow> nat" where
  "filled vs = length (filter (\<lambda>v. v \<noteq> []) vs)"

lemma filled_replicate [simp]: "filled (replicate n []) = 0"
  by (simp add: filled_def)

lemma filled_update:
  "i < length vs \<Longrightarrow> vs ! i = [] \<Longrightarrow> v \<noteq> [] \<Longrightarrow> filled (vs[i := v]) = Suc (filled vs)"
  by (induction vs arbitrary: i) (auto simp: filled_def split: nat.splits)

lemma filled_all: "filled vs = length vs \<Longrightarrow> v \<in> set vs \<Longrightarrow> v \<noteq> []"
  unfolding filled_def by (metis (mono_tags, lifting) filter_id_conv length_filter_less linorder_not_less order_refl)

lemma placeLoop_result:
  assumes "placeLoop data dims vecs = Inr vs" "\<forall>v \<in> set vecs. v = [] \<or> dims > 0 \<and> length v = dims"
  shows "length vs = length vecs \<and> filled vs = filled vecs + length data \<and>
    (\<exists>d. \<forall>v \<in> set vs. v = [] \<or> d > 0 \<and> length v = d) \<and>
    (\<forall>i < length vs. vs ! i = vecs ! i \<or> (int i, vs ! i) \<in> set data)"
  using assms
proof (induction data dims vecs rule: placeLoop.induct)
  case (1 dims vecs)
  then show ?case by auto
next
  case (2 i emb rest dims vecs)
  define want where "want = (if dims = 0 then length emb else dims)"
  have ok: "0 \<le> i" "i < int (length vecs)" "vecs ! nat i = []" "emb \<noteq> []" "length emb = want"
    "placeLoop rest want (vecs[nat i := emb]) = Inr vs"
    using "2.prems"(1) by (auto simp: want_def Let_def split: if_splits)
  have "\<forall>v \<in> set (vecs[nat i := emb]). v = [] \<or> want > 0 \<and> length v = want"
    using "2.prems"(2) ok(4,5) set_update_subset_insert [of vecs "nat i" emb] by (auto simp: want_def)
  with 2(1) ok have ih: "length vs = length vecs" "filled vs = filled (vecs[nat i := emb]) + length rest"
    "\<exists>d. \<forall>v \<in> set vs. v = [] \<or> d > 0 \<and> length v = d"
    "\<forall>k < length vs. vs ! k = vecs[nat i := emb] ! k \<or> (int k, vs ! k) \<in> set rest"
    by (auto simp: want_def)
  have "filled (vecs[nat i := emb]) = Suc (filled vecs)" using ok by (intro filled_update) auto
  moreover have "vs ! k = vecs ! k \<or> (int k, vs ! k) \<in> set ((i, emb) # rest)" if "k < length vs" for k
    using ih(4) that ok(1,2) ih(1) by (cases "k = nat i") (auto simp: nth_list_update)
  ultimately show ?case using ih by auto
qed

lemma embedBatch_result:
  assumes "embedBatch ans batch = Inr got" "batch \<noteq> []"
  shows "length got = length batch" "\<exists>d > 0. \<forall>v \<in> set got. length v = d" "got \<noteq> []"
    "\<exists>code msg data. ans = Response code msg (Data data) \<and> (\<forall>i < length got. (int i, got ! i) \<in> set data)"
proof -
  obtain code msg data where a: "ans = Response code msg (Data data)" "length data = length batch"
    "placeLoop data 0 (replicate (length batch) []) = Inr got"
    using assms(1) by (auto simp: embedBatch_def split: HttpAns.splits HttpBody.splits if_splits)
  have r: "length got = length batch" "filled got = length batch" "\<exists>d. \<forall>v \<in> set got. v = [] \<or> d > 0 \<and> length v = d"
    "\<forall>i < length got. got ! i = [] \<or> (int i, got ! i) \<in> set data"
    using placeLoop_result [OF a(3)] a(2) by auto
  have full: "v \<in> set got \<Longrightarrow> v \<noteq> []" for v by (rule filled_all [of got]) (simp_all add: r(1,2))
  show "length got = length batch" by (rule r(1))
  show ne: "got \<noteq> []" using r(1) assms(2) by auto
  obtain d where d: "\<forall>v \<in> set got. v = [] \<or> d > 0 \<and> length v = d" using r(3) by blast
  moreover obtain v where "v \<in> set got" using ne by (cases got) auto
  ultimately show "\<exists>d > 0. \<forall>v \<in> set got. length v = d" using full by (intro exI [of _ d]) blast
  have "\<forall>i < length got. (int i, got ! i) \<in> set data" using r(4) full by (metis nth_mem)
  then show "\<exists>code msg data. ans = Response code msg (Data data) \<and> (\<forall>i < length got. (int i, got ! i) \<in> set data)"
    using a(1) by blast
qed

section \<open>All batches\<close>

text \<open>The i-th vector is the one the server returned for the i-th text, in the batch that text was sent in.\<close>

definition fromServer :: "OpenAI \<Rightarrow> Post \<Rightarrow> nat \<Rightarrow> string list \<Rightarrow> float32 list list \<Rightarrow> bool" where
  "fromServer e post n texts vs \<longleftrightarrow>
     (let size = max 1 (oe_batch e) in
      \<forall>i < length texts. \<exists>code msg data.
        post (oe_url e) (es_Model (oe_spec e)) (n + i div size) (take size (drop (i div size * size) texts)) =
          Response code msg (Data data) \<and> (int (i mod size), vs ! i) \<in> set data)"

lemma fromServer_step:
  assumes "texts \<noteq> []" "sz = max 1 (oe_batch e)" "length got = length (take sz texts)"
    and "post (oe_url e) (es_Model (oe_spec e)) n (take sz texts) = Response code msg (Data data)"
    and "\<forall>i < length got. (int i, got ! i) \<in> set data" "fromServer e post (Suc n) (drop sz texts) vs"
  shows "fromServer e post n texts (got @ vs)"
  unfolding fromServer_def Let_def assms(2) [symmetric]
proof (intro allI impI)
  fix i
  assume i: "i < length texts"
  have sz: "sz > 0" using assms(2) by simp
  show "\<exists>code msg data. post (oe_url e) (es_Model (oe_spec e)) (n + i div sz) (take sz (drop (i div sz * sz) texts)) =
      Response code msg (Data data) \<and> (int (i mod sz), (got @ vs) ! i) \<in> set data"
  proof (cases "i < sz")
    case True
    then show ?thesis using assms(3-5) i by (auto simp: nth_append)
  next
    case False
    define j where "j = i - sz"
    have j: "i = j + sz" "j < length (drop sz texts)" "i div sz = Suc (j div sz)" "i mod sz = j mod sz"
      using False i sz by (auto simp: j_def le_div_geq le_mod_geq)
    have "drop (j div sz * sz) (drop sz texts) = drop (i div sz * sz) texts" by (simp add: j(3) algebra_simps)
    moreover have "(got @ vs) ! i = vs ! j" using assms(3) False i by (simp add: nth_append j_def)
    ultimately show ?thesis
      using assms(6) j unfolding fromServer_def Let_def assms(2) [symmetric] by fastforce
  qed
qed

lemma embedLoop_result:
  assumes "embedLoop e post n texts dims vectors = Inr vs"
  shows "\<exists>new. vs = vectors @ new \<and> length new = length texts \<and> fromServer e post n texts new \<and>
    (\<exists>d > 0. (dims > 0 \<longrightarrow> d = dims) \<and> (\<forall>v \<in> set new. length v = d))"
  using assms
proof (induction e post n texts dims vectors rule: embedLoop.induct)
  case (1 e post n texts dims vectors)
  show ?case
  proof (cases "texts = []")
    case True
    then show ?thesis
      using 1 by (auto simp: embedLoop.simps fromServer_def intro!: exI [of _ "if dims = 0 then 1 else dims"])
  next
    case False
    define sz where "sz = max 1 (oe_batch e)"
    define batch where "batch = take sz texts"
    have "batch \<noteq> []" using False by (simp add: batch_def sz_def)
    have step: "embedLoop e post n texts dims vectors =
        (case embedBatch (post (oe_url e) (es_Model (oe_spec e)) n batch) batch of
           Inl err \<Rightarrow> Inl err
         | Inr got \<Rightarrow>
             let want = if dims = 0 then length (hd got) else dims
             in if length (hd got) \<noteq> want then Inl (AcrossBatches (length (hd got)) want)
                else embedLoop e post (Suc n) (drop sz texts) want (vectors @ got))"
      by (subst embedLoop.simps) (simp only: False if_False batch_def sz_def Let_def)
    obtain got where got: "embedBatch (post (oe_url e) (es_Model (oe_spec e)) n batch) batch = Inr got"
      using "1.prems" by (cases "embedBatch (post (oe_url e) (es_Model (oe_spec e)) n batch) batch") (simp_all add: step)
    note b = embedBatch_result [OF got \<open>batch \<noteq> []\<close>]
    define want where "want = (if dims = 0 then length (hd got) else dims)"
    have w: "length (hd got) = want" "embedLoop e post (Suc n) (drop sz texts) want (vectors @ got) = Inr vs"
      using "1.prems" got by (simp_all add: step Let_def want_def [symmetric] split: if_splits)
    have g: "\<forall>v \<in> set got. length v = want" "want > 0" using b(2,3) w(1) by (cases got; auto)+
    obtain new d where ih: "vs = (vectors @ got) @ new" "length new = length (drop sz texts)"
      "fromServer e post (Suc n) (drop sz texts) new" "d > 0" "want > 0 \<longrightarrow> d = want" "\<forall>v \<in> set new. length v = d"
      using "1.IH" [OF False sz_def batch_def got want_def] w by auto
    obtain code msg data where a: "post (oe_url e) (es_Model (oe_spec e)) n batch = Response code msg (Data data)"
      "\<forall>i < length got. (int i, got ! i) \<in> set data" using b(4) by blast
    have "fromServer e post n texts (got @ new)"
      by (rule fromServer_step [OF False sz_def _ _ a(2) ih(3)]) (use a(1) b(1) in \<open>simp_all add: batch_def\<close>)
    moreover have "length (got @ new) = length texts" using b(1) ih(2) by (simp add: batch_def)
    moreover have "dims > 0 \<longrightarrow> d = dims" "\<forall>v \<in> set (got @ new). length v = d" using ih g by (auto simp: want_def)
    ultimately show ?thesis using ih(1,4) by (intro exI [of _ "got @ new"]) auto
  qed
qed

lemma embedTexts_result:
  assumes "embedTexts e post texts = Inr vs"
  shows "length vs = length texts" "fromServer e post 0 texts vs" "\<exists>d > 0. \<forall>v \<in> set vs. length v = d"
proof -
  have "embedLoop e post 0 texts 0 [] = Inr vs"
    using assms by (auto simp: embedTexts_def Let_def split: option.splits if_splits)
  from embedLoop_result [OF this] show "length vs = length texts" "fromServer e post 0 texts vs"
    "\<exists>d > 0. \<forall>v \<in> set vs. length v = d" by auto
qed

section \<open>The contract of an embedder\<close>

text \<open>
  What the pipeline relies on: one vector per chunk, all of one positive dimension, and a query vector that
  is not empty. The pipeline's progress needs no more of the server than that the first vector has the
  dimensions of the generation.
\<close>

locale embedder_contract =
  fixes em :: Embedder
  assumes aligned: "em_Passages em k chs = Inr vs \<Longrightarrow> length vs = length chs"
    and uniform: "em_Passages em k chs = Inr vs \<Longrightarrow> \<exists>d > 0. \<forall>v \<in> set vs. length v = d"
    and queried: "em_Query em k q = Inr v \<Longrightarrow> v \<noteq> []"
begin

lemma passages_dims:
  assumes "em_Passages em k chs = Inr vs" "vs \<noteq> [] \<Longrightarrow> int (length (hd vs)) = dims"
  shows "length vs = length chs \<and> (\<forall>v \<in> set vs. int (length v) = dims)"
  using aligned [OF assms(1)] uniform [OF assms(1)] assms(2) by (cases vs) auto

lemma indexes:
  assumes "quiet (w_store w)" "catalog_inv (wdb w)" "c_Hash c \<in> hashes (wdb w)"
    and "currentVecTable (wdb w) = Inr (table, desc)" "ix_Embedder ix = em"
    and "em_Passages em (w_tick w) (chunks tx (es_CeilingTokens (ix_spec ix))) = Inr vs"
    and "vs \<noteq> [] \<Longrightarrow> int (length (hd vs)) = vd_Dims desc"
  shows "fst (indexText ix c tx w) = Inr \<lparr>pr_Outcome = OutcomeIndexed, pr_Err = None,
    pr_Warnings = length (res_Warnings (ChunkText tx (es_CeilingTokens (ix_spec ix))))\<rparr>"
  using indexText_quiet [OF assms(1-4), of ix tx vs] passages_dims [OF assms(6,7)] assms(5,6) by simp

end

lemma EmbedPassages_result:
  assumes "EmbedPassages e post chs = Inr vs"
  shows "length vs = length chs" "\<exists>d > 0. \<forall>v \<in> set vs. length v = d"
    "fromServer e post 0 (map (ComposePassage (oe_spec e)) chs) vs"
proof -
  have "length vs = length chs \<and> (\<exists>d > 0. \<forall>v \<in> set vs. length v = d) \<and>
    fromServer e post 0 (map (ComposePassage (oe_spec e)) chs) vs"
  proof (cases "chs = []")
    case True
    then show ?thesis using assms by (auto simp: EmbedPassages_def fromServer_def)
  next
    case False
    then have "embedTexts e post (map (ComposePassage (oe_spec e)) chs) = Inr vs" using assms by (simp add: EmbedPassages_def)
    from embedTexts_result [OF this] show ?thesis by simp
  qed
  then show "length vs = length chs" "\<exists>d > 0. \<forall>v \<in> set vs. length v = d"
    "fromServer e post 0 (map (ComposePassage (oe_spec e)) chs) vs" by blast+
qed

interpretation openai: embedder_contract "asEmbedder e posts tell" for e posts tell
proof
  fix k chs vs
  assume "em_Passages (asEmbedder e posts tell) k chs = Inr vs"
  then have "EmbedPassages e (posts k) chs = Inr vs"
    by (cases "EmbedPassages e (posts k) chs") (auto simp: asEmbedder_def)
  from EmbedPassages_result [OF this] show "length vs = length chs" "\<exists>d > 0. \<forall>v \<in> set vs. length v = d" by blast+
next
  fix k q v
  assume "em_Query (asEmbedder e posts tell) k q = Inr v"
  then obtain vecs where v: "embedTexts e (posts k) [ComposeQuery (oe_spec e) q] = Inr vecs" "v = hd vecs"
    by (cases "embedTexts e (posts k) [ComposeQuery (oe_spec e) q]") (auto simp: asEmbedder_def EmbedQuery_def)
  from embedTexts_result [OF v(1)] show "v \<noteq> []" using v(2) by (cases vecs) auto
qed

text \<open>
  C6: The vectors \<open>EmbedPassages\<close> returns are those of the chunks, whatever the server answers: one per
  chunk, all of one positive dimension, the i-th the one the server returned under the i-th chunk's number
  in the batch that held the composed text of that chunk.
\<close>

theorem EmbedPassages_aligned:
  assumes "EmbedPassages e post chs = Inr vs"
  shows "length vs = length chs \<and> (\<exists>d > 0. \<forall>v \<in> set vs. length v = d) \<and>
    fromServer e post 0 (map (ComposePassage (oe_spec e)) chs) vs"
  using EmbedPassages_result [OF assms] by blast

definition demo_chunk :: "string \<Rightarrow> Chunk" where
  "demo_chunk t = \<lparr>ch_Ordinal = 0, ch_Text = t, ch_HeadingPath = '''', ch_ByteStart = 0, ch_ByteEnd = length t\<rparr>"

text \<open>A server that answers a batch in reverse order, with the length of each text.\<close>

definition demo_post :: Post where
  "demo_post url model n batch =
     Response 200 '''' (Data (rev (zip (map int [0..<length batch]) (map (\<lambda>t. [word_of_nat (length t)]) batch))))"

definition demo_openai :: OpenAI where
  "demo_openai = \<lparr>oe_url = ''http://localhost/v1/embeddings'', oe_spec = demo_spec, oe_batch = 2\<rparr>"

lemma demo_embedded:
  "EmbedPassages demo_openai demo_post (map demo_chunk [''a'', ''bb'', ''ccc'']) = Inr [[1], [2], [3]]"
  by code_simp

theorem EmbedPassages_aligned_witness:
  "fromServer demo_openai demo_post 0 [''a'', ''bb'', ''ccc''] [[1], [2], [3]]"
proof -
  have "map (ComposePassage (oe_spec demo_openai)) (map demo_chunk [''a'', ''bb'', ''ccc'']) = [''a'', ''bb'', ''ccc'']"
    by code_simp
  then show ?thesis using EmbedPassages_aligned [OF demo_embedded] by simp
qed

section \<open>What is sent\<close>

lemma embedLoop_error: "embedLoop e post n texts dims vectors = Inl err \<Longrightarrow> err \<noteq> OverCeiling i c l b"
proof (induction e post n texts dims vectors rule: embedLoop.induct)
  case (1 e post n texts dims vectors)
  have place: "placeLoop data d vecs \<noteq> Inl (OverCeiling i c l b)" for data d vecs
    by (induction data d vecs rule: placeLoop.induct) (auto simp: Let_def split: if_splits)
  show ?case
    using 1 by (subst (asm) (2) embedLoop.simps)
      (auto simp: Let_def embedBatch_def split: if_splits sum.splits HttpAns.splits HttpBody.splits simp: place)
qed

lemma ceilingLoop_None: "\<forall>t \<in> set ts. int (length t) \<le> limit \<Longrightarrow> ceilingLoop c limit n ts = None"
  by (induction ts arbitrary: n) auto

lemma NewEmbedder_spec:
  "NewEmbedder endpoint spec size' = Inr e \<Longrightarrow> oe_spec e = spec \<and> Validate spec = None \<and> es_Model spec \<noteq> ''''"
  by (auto simp: NewEmbedder_def split: if_splits option.splits)

text \<open>
  C4: The chunker and the client agree on the budget, under three conditions: the spec's ceiling is positive
  and below \<open>2 ^ 60\<close> tokens, its passage template uses each placeholder at most once, and every heading path
  of the text leaves the chunker its 64 bytes. Then the chunks of any text, cut for the ceiling of the spec
  of a client \<open>NewEmbedder\<close> accepts, are not refused by that client as over the ceiling, whatever the server
  answers. Without the second condition they can be (\<open>Validate_accepts_overflow\<close> in Passages), and without
  the third nothing is promised, because the chunker never cuts a text below 64 bytes for a long heading.
\<close>

theorem chunks_never_over_ceiling:
  assumes "NewEmbedder endpoint spec size' = Inr e" "0 < es_CeilingTokens spec" "es_CeilingTokens spec < 2 ^ 60"
    and "occurrences (es_PassageTemplate spec) PlaceholderPassage \<le> 1"
    and "occurrences (es_PassageTemplate spec) PlaceholderTitle \<le> 1"
    and "\<forall>c \<in> set (chunks s (es_CeilingTokens spec)).
      int (length (ch_HeadingPath c)) + 64 \<le> es_CeilingTokens spec * BytesPerToken - TemplateReserveBytes"
  shows "EmbedPassages e post (chunks s (es_CeilingTokens spec)) \<noteq> Inl (OverCeiling i ceil limit bytes)"
proof -
  have e: "oe_spec e = spec" "Validate spec = None" using NewEmbedder_spec [OF assms(1)] by auto
  have "goInt (es_CeilingTokens spec * BytesPerToken) = es_CeilingTokens spec * BytesPerToken"
    using assms(2,3) by (intro goInt_id) (simp_all add: BytesPerToken_def)
  moreover have "\<forall>c \<in> set (chunks s (es_CeilingTokens spec)).
      int (length (ComposePassage spec c)) \<le> es_CeilingTokens spec * BytesPerToken"
    using passage_within_ceiling [OF e(2) assms(2-5)] assms(6) by blast
  ultimately have "ceilingLoop (es_CeilingTokens spec) (goInt (es_CeilingTokens spec * BytesPerToken)) 0
      (map (ComposePassage spec) (chunks s (es_CeilingTokens spec))) = None"
    by (intro ceilingLoop_None) simp
  then show ?thesis
    using e(1) assms(2) by (auto simp: EmbedPassages_def embedTexts_def dest: embedLoop_error)
qed

theorem chunks_never_over_ceiling_witness:
  "\<exists>e. NewEmbedder ''http://localhost/v1'' gemma_spec 0 = Inr e \<and>
     EmbedPassages e demo_post (chunks demo_text 80) \<noteq> Inl (OverCeiling 0 80 320 400)"
proof -
  obtain e where e: "NewEmbedder ''http://localhost/v1'' gemma_spec 0 = Inr e"
  proof -
    have "\<not> isl (NewEmbedder ''http://localhost/v1'' gemma_spec 0)" by code_simp
    then show thesis using that by (cases "NewEmbedder ''http://localhost/v1'' gemma_spec 0") auto
  qed
  have "occurrences (es_PassageTemplate gemma_spec) PlaceholderPassage \<le> 1"
    "occurrences (es_PassageTemplate gemma_spec) PlaceholderTitle \<le> 1" by code_simp+
  moreover have "list_all (\<lambda>c. ch_HeadingPath c = '''') (chunks demo_text 80)" by code_simp
  ultimately show ?thesis
    using chunks_never_over_ceiling [OF e, of demo_text demo_post 0 80 320 400] e
    by (auto simp: gemma_spec_def BytesPerToken_def TemplateReserveBytes_def list_all_iff)
qed

section \<open>The spec of a configured model\<close>

text \<open>The key that is found does not depend on the order in which the map is visited.\<close>

definition stronger :: "string \<Rightarrow> string \<Rightarrow> bool" where
  "stronger a b \<longleftrightarrow> length a > length b \<or> length a = length b \<and> a < b"

lemma stronger_trans: "stronger a b \<Longrightarrow> stronger b c \<Longrightarrow> stronger a c"
  by (auto simp: stronger_def)

lemma stronger_irrefl: "\<not> stronger a a"
  by (simp add: stronger_def)

lemma stronger_total: "a \<noteq> b \<Longrightarrow> stronger a b \<or> stronger b a"
  by (auto simp: stronger_def)

lemma lookup_best:
  "(foldl (betterKey lower) best keys = best \<or>
      foldl (betterKey lower) best keys \<in> set keys \<and> containsStr lower (foldl (betterKey lower) best keys)) \<and>
   (\<forall>k \<in> insert best {k \<in> set keys. containsStr lower k}. \<not> stronger k (foldl (betterKey lower) best keys))"
proof (induction keys arbitrary: best)
  case Nil
  show ?case by (simp add: stronger_irrefl)
next
  case (Cons k keys)
  have b: "betterKey lower best k = (if containsStr lower k \<and> stronger k best then k else best)"
    by (auto simp: betterKey_def stronger_def)
  have "\<not> stronger best (foldl (betterKey lower) (betterKey lower best k) keys)"
    using Cons.IH [of "betterKey lower best k"] stronger_trans by (auto simp: b split: if_splits)
  moreover have "\<not> stronger k (foldl (betterKey lower) (betterKey lower best k) keys)" if "containsStr lower k"
    using Cons.IH [of "betterKey lower best k"] that stronger_trans stronger_total by (auto simp: b split: if_splits) metis
  ultimately show ?case using Cons.IH [of "betterKey lower best k"] by (auto simp: b split: if_splits)
qed

lemma lookup_any_order:
  assumes "set keys = set keys'"
  shows "lookupKey keys lower = lookupKey keys' lower"
proof (rule ccontr)
  assume "lookupKey keys lower \<noteq> lookupKey keys' lower"
  from stronger_total [OF this] show False
    using lookup_best [of lower "''''" keys] lookup_best [of lower "''''" keys'] assms
    unfolding lookupKey_def by auto
qed

text \<open>\<open>setup.go: newEmbedder\<close>.\<close>

definition newEmbedder :: "Config \<Rightarrow> NewErr + OpenAI" where
  "newEmbedder c =
     NewEmbedder (cf_Endpoint c)
       (ResolveSpec (cf_EmbeddingModel c) (cf_QueryTemplate c) (cf_PassageTemplate c) (cf_InputCeilingTokens c)) 0"

lemma lookupEntry_registry:
  "lookupEntry registry registryKeys m = Some entry \<Longrightarrow>
     entry = \<lparr>re_query = ''task: search result | query: {q}'', re_passage = ''title: {t} | text: {d}'', re_ceiling = 2048\<rparr>"
  by (auto simp: lookupEntry_def registry_def Let_def split: if_splits)

lemma registry_valid:
  assumes "lookupEntry registry registryKeys m = Some entry"
  shows "containsStr (re_query entry) PlaceholderQuery \<and> containsStr (re_passage entry) PlaceholderPassage \<and>
    int (length (re_passage entry)) \<le> TemplateReserveBytes \<and> MinCeilingTokens \<le> re_ceiling entry"
  unfolding lookupEntry_registry [OF assms] by code_simp

lemma Validate_None:
  "Validate s = None \<longleftrightarrow>
     (es_QueryTemplate s = '''' \<or> containsStr (es_QueryTemplate s) PlaceholderQuery) \<and>
     (es_PassageTemplate s = '''' \<or> containsStr (es_PassageTemplate s) PlaceholderPassage) \<and>
     int (length (es_PassageTemplate s)) \<le> TemplateReserveBytes \<and>
     (es_CeilingTokens s = 0 \<or> MinCeilingTokens \<le> es_CeilingTokens s)"
proof -
  have "0 < MinCeilingTokens" by code_simp
  then show ?thesis by (auto simp: Validate_def)
qed

text \<open>
  C39: A configuration that loads and names a model always yields a client: whatever combination of the
  user's templates, the registry's and none applies, the resolved spec is valid, keeps the model's name, and
  every override the user gave wins. (The URL parser rejects the empty string.)
\<close>

theorem loaded_config_embeds:
  assumes "Load decode parseURL home read file' = Inr c" "cf_EmbeddingModel c \<noteq> ''''"
    and "\<And>host. parseURL '''' \<noteq> Inr (''http'', host) \<and> parseURL '''' \<noteq> Inr (''https'', host)"
  shows "\<exists>e. newEmbedder c = Inr e \<and> Validate (oe_spec e) = None \<and> es_Model (oe_spec e) = cf_EmbeddingModel c \<and>
    (cf_QueryTemplate c \<noteq> '''' \<longrightarrow> es_QueryTemplate (oe_spec e) = cf_QueryTemplate c) \<and>
    (cf_PassageTemplate c \<noteq> '''' \<longrightarrow> es_PassageTemplate (oe_spec e) = cf_PassageTemplate c) \<and>
    (cf_InputCeilingTokens c \<noteq> 0 \<longrightarrow> es_CeilingTokens (oe_spec e) = cf_InputCeilingTokens c)"
proof -
  have v: "validateConfig parseURL c = None" by (rule Load_result(1) [OF assms(1)])
  then have url: "validateEndpoint parseURL ''inference.endpoint'' (cf_Endpoint c) = None"
    by (auto simp: validateConfig_def split: if_splits option.splits)
  have ep: "cf_Endpoint c \<noteq> ''''"
  proof
    assume "cf_Endpoint c = ''''"
    then obtain scheme host where "parseURL '''' = Inr (scheme, host)" "scheme = ''http'' \<or> scheme = ''https''"
      using url by (auto simp: validateEndpoint_def split: sum.splits if_splits)
    then show False using assms(3) [of host] by auto
  qed
  have t: "cf_QueryTemplate c = '''' \<or> containsStr (cf_QueryTemplate c) PlaceholderQuery"
    "cf_PassageTemplate c = '''' \<or> containsStr (cf_PassageTemplate c) PlaceholderPassage"
    "int (length (cf_PassageTemplate c)) \<le> TemplateReserveBytes"
    "0 \<le> cf_InputCeilingTokens c" "cf_InputCeilingTokens c = 0 \<or> MinCeilingTokens \<le> cf_InputCeilingTokens c"
    using v by (auto simp: validateConfig_def split: if_splits option.splits)
  let ?spec = "ResolveSpec (cf_EmbeddingModel c) (cf_QueryTemplate c) (cf_PassageTemplate c) (cf_InputCeilingTokens c)"
  have "Validate ?spec = None"
  proof (cases "lookupEntry registry registryKeys (cf_EmbeddingModel c)")
    case None
    then show ?thesis using t by (simp add: ResolveSpec_def Validate_None)
  next
    case (Some entry)
    then show ?thesis using t registry_valid [OF Some] by (auto simp: ResolveSpec_def Validate_None)
  qed
  moreover have "es_Model ?spec = cf_EmbeddingModel c"
    "cf_QueryTemplate c \<noteq> '''' \<longrightarrow> es_QueryTemplate ?spec = cf_QueryTemplate c"
    "cf_PassageTemplate c \<noteq> '''' \<longrightarrow> es_PassageTemplate ?spec = cf_PassageTemplate c"
    "cf_InputCeilingTokens c \<noteq> 0 \<longrightarrow> es_CeilingTokens ?spec = cf_InputCeilingTokens c"
    by (auto simp: ResolveSpec_def split: option.splits)
  ultimately show ?thesis using ep assms(2) by (simp add: newEmbedder_def NewEmbedder_def)
qed

definition gemma_decode :: Decoder where
  "gemma_decode = (\<lambda>_ c. Inr (c\<lparr>cf_EmbeddingModel := ''text-embedding-EmbeddingGemma-300m'', cf_QueryTemplate := ''find: {q}''\<rparr>, []))"

definition strict_url :: "string \<Rightarrow> string + string \<times> string" where
  "strict_url s = (if hasPrefix s ''http://'' then Inr (''http'', drop 7 s) else Inl ''unsupported'')"

theorem loaded_config_embeds_witness:
  "\<exists>c e. Load gemma_decode strict_url ''/u'' (\<lambda>_. FileData ''x'') ''/c'' = Inr c \<and> newEmbedder c = Inr e \<and>
     es_QueryTemplate (oe_spec e) = ''find: {q}'' \<and> es_CeilingTokens (oe_spec e) = 2048"
proof -
  let ?l = "Load gemma_decode strict_url ''/u'' (\<lambda>_. FileData ''x'') ''/c''"
  have "case ?l of Inl _ \<Rightarrow> False | Inr c \<Rightarrow> cf_EmbeddingModel c \<noteq> '''' \<and> cf_QueryTemplate c = ''find: {q}'' \<and>
      (case newEmbedder c of Inl _ \<Rightarrow> False | Inr e \<Rightarrow> es_CeilingTokens (oe_spec e) = 2048)" by code_simp
  then obtain c e where c: "?l = Inr c" "cf_EmbeddingModel c \<noteq> ''''" "cf_QueryTemplate c = ''find: {q}''"
    "newEmbedder c = Inr e" "es_CeilingTokens (oe_spec e) = 2048" by (auto split: sum.splits)
  have "strict_url '''' \<noteq> Inr (''http'', host) \<and> strict_url '''' \<noteq> Inr (''https'', host)" for host by (simp add: strict_url_def hasPrefix_def)
  from loaded_config_embeds [OF c(1,2) this] c show ?thesis by auto
qed

end
