(* ===== verification/Recorded.thy ===== *)
theory Recorded
  imports NamedPaths Config
begin

text \<open>
  What discovery may record: a path enters the catalog, or the buffer on its way there, only when the walk
  or the reconcile of named paths came upon it as a text file that is not excluded; and what that means
  under the deny list of a loaded configuration.
\<close>

section \<open>Paths in the catalog and in the buffer\<close>

definition staged :: "Scan \<Rightarrow> path set" where
  "staged s = paths (sdb s) \<union> doc_Path ` set (sc_pending s)"

lemma staged_same: "sdb s' = sdb s \<Longrightarrow> sc_pending s' = sc_pending s \<Longrightarrow> staged s' = staged s"
  by (simp add: staged_def)

lemma staged_simps [simp]:
  "staged (onRes f s) = staged s" "staged (onStaged f s) = staged s" "staged (pathError p e s) = staged s"
  "staged (s\<lparr>sc_unknown := u\<rparr>) = staged s"
  by (simp_all add: staged_def onRes_def onStaged_def pathError_def)

lemma onWorld_pending: "onWorld f s = (r, s') \<Longrightarrow> sc_pending s' = sc_pending s"
  by (auto simp: onWorld_def split: prod.splits)

lemma staged_world: "onWorld f s = (r, s') \<Longrightarrow> sdb s' = sdb s \<Longrightarrow> staged s' = staged s"
  using onWorld_pending [of f s r s'] by (simp add: staged_def)

lemma staged_ask: "onWorld (ask q) s = (r, s') \<Longrightarrow> staged s' = staged s"
  by (frule staged_world; simp add: ask_same)

lemma staged_ctx: "onWorld (onStore ctxErr) s = (b, s') \<Longrightarrow> staged s' = staged s"
  by (frule staged_world; simp add: ctx_same)

lemma staged_get: "onWorld (onStore (GetByPath p)) s = (r, s') \<Longrightarrow> staged s' = staged s"
  by (frule staged_world; simp add: GetByPath_same)

section \<open>The contract of a step\<close>

locale record_step =
  fixes op :: "Scan \<Rightarrow> 'a \<times> Scan" and A :: "path set"
  assumes records: "staged (snd (op s)) \<subseteq> staged s \<union> A"
begin

lemma result: "op s = (r, s') \<Longrightarrow> staged s' \<subseteq> staged s \<union> A"
  using records [of s] by simp

lemma after: "staged s \<subseteq> S \<union> A \<Longrightarrow> op s = (r, s') \<Longrightarrow> staged s' \<subseteq> S \<union> A"
  using result [of s r s'] by blast

end

lemma record_stepI: "(\<And>s r s'. op s = (r, s') \<Longrightarrow> staged s' \<subseteq> staged s \<union> A) \<Longrightarrow> record_step op A"
  by unfold_locales (metis prod.collapse)

lemma record_step_mono: "record_step op A \<Longrightarrow> A \<subseteq> B \<Longrightarrow> record_step op B"
  unfolding record_step_def by blast

lemma upsertDocs_paths: "upsertDocs docs t d = Inr (d', u) \<Longrightarrow> paths d' \<subseteq> paths d \<union> doc_Path ` set docs"
proof (induction docs arbitrary: d)
  case (Cons doc docs)
  let ?d1 = "if doc_ContentHash doc \<noteq> '''' then insContent t (doc_ContentHash doc) d else d"
  obtain d2 where ins: "insDoc doc ?d1 = Inr d2" and rest: "upsertDocs docs t d2 = Inr (d', u)"
    using Cons.prems by (simp add: Let_def split: sum.splits)
  have "paths ?d1 = paths d" by (simp add: paths_def insContent_def)
  moreover have "d_path (toRow doc) = doc_Path doc" by (simp add: toRow_def)
  then have "paths d2 \<subseteq> paths ?d1 \<union> {doc_Path doc}"
    using ins by (auto simp: insDoc_def Let_def paths_def upsert_by_def split: if_splits)
  ultimately show ?case using Cons.IH [OF rest] by auto
qed simp

lemma UpsertDocuments_records:
  assumes "UpsertDocuments docs st = (r, st')"
  shows "paths (st_db st') \<subseteq> paths (st_db st) \<union> doc_Path ` set docs"
proof (cases "docs = []")
  case False
  then have "st' = snd (withTx (upsertDocs docs) st)" using assms by (simp add: UpsertDocuments_def)
  then show ?thesis by (cases "upsertDocs docs" st rule: withTx_cases) (auto dest: upsertDocs_paths)
qed (use assms in \<open>simp add: UpsertDocuments_def\<close>)

section \<open>The walk\<close>

interpretation flushRec: record_step flushDocs "{}"
proof (rule record_stepI)
  fix s r s' assume f: "flushDocs s = (r, s')"
  show "staged s' \<subseteq> staged s \<union> {}"
  proof (cases "sc_pending s = []")
    case False
    obtain r1 s1 where o: "onWorld (onStore (UpsertDocuments (sc_pending s))) (s\<lparr>sc_pending := [], sc_staged := emptyDR\<rparr>) = (r1, s1)"
      by fastforce
    obtain st where st: "UpsertDocuments (sc_pending s) (w_store (sc_world s)) = (r1, st)" "sdb s1 = st_db st"
      by (rule onWorld_store [OF o]) simp
    have "staged s1 \<subseteq> staged s"
      using UpsertDocuments_records [OF st(1)] st(2) onWorld_pending [OF o] by (auto simp: staged_def)
    moreover have "staged s' = staged s1" using f False o by (cases r1) (auto simp: flushDocs_def)
    ultimately show ?thesis by simp
  qed (use f in \<open>simp add: flushDocs_def\<close>)
qed

interpretation bufferRec: record_step "buffer doc" "{doc_Path doc}" for doc
proof (rule record_stepI)
  fix s r s' assume b: "buffer doc s = (r, s')"
  have "staged (s\<lparr>sc_pending := sc_pending s @ [doc]\<rparr>) = staged s \<union> {doc_Path doc}" by (auto simp: staged_def)
  then show "staged s' \<subseteq> staged s \<union> {doc_Path doc}"
    using b flushRec.result [of "s\<lparr>sc_pending := sc_pending s @ [doc]\<rparr>" r s']
    by (auto simp: buffer_def Let_def split: if_splits)
qed

interpretation noteUnreadRec: record_step "noteUnread p stat reason existing" "{p}" for p stat reason existing
proof (rule record_stepI)
  fix s r s' assume "noteUnread p stat reason existing s = (r, s')"
  then show "staged s' \<subseteq> staged s \<union> {p}"
    using bufferRec.result [of "unreadDoc p reason stat" "onStaged (countUnread reason) s" r s']
    by (auto simp: noteUnread_def unreadDoc_def split: if_splits)
qed

interpretation noteDatalessRec: record_step "noteDataless p stat" "{p}" for p stat
proof (rule record_stepI)
  fix s r s' assume n: "noteDataless p stat s = (r, s')"
  obtain r1 s1 where g: "onWorld (onStore (GetByPath p)) s = (r1, s1)" by fastforce
  show "staged s' \<subseteq> staged s \<union> {p}"
    using n g staged_get [OF g] noteUnreadRec.result [of p stat UnreadDataless "projr r1" s1 r s']
    by (cases r1) (auto simp: noteDataless_def)
qed

interpretation processFileRec: record_step "processFile fs p stat" "{p}" for fs p stat
proof (rule record_stepI)
  fix s r s' assume n: "processFile fs p stat s = (r, s')"
  obtain r1 s1 where g: "onWorld (onStore (GetByPath p)) s = (r1, s1)" by fastforce
  obtain h s2 where h: "onWorld (hashFile fs p) s1 = (h, s2)" by fastforce
  have "sdb s2 = sdb s1" using h by (auto simp: onWorld_def hashFile_def ask_def tick_def)
  then have s2: "staged s2 = staged s" using staged_world [OF h] staged_get [OF g] by simp
  have buf: "staged s' \<subseteq> staged s \<union> {p}" if "buffer (readDoc p k stat) (onStaged f s2) = (r, s')" for k f
    using bufferRec.result [OF that] s2 by (simp add: readDoc_def)
  have unread: "staged s' \<subseteq> staged s \<union> {p}" if "noteUnread p stat q x (pathError p e s2) = (r, s')" for q x e
    using noteUnreadRec.result [OF that] s2 by simp
  show "staged s' \<subseteq> staged s \<union> {p}"
    using n g h s2 staged_get [OF g] buf unread
    by (auto simp: processFile_def split: sum.splits FsErr.splits if_splits)
qed

interpretation visitFileRec: record_step "visitFile fs p known" "{p}" for fs p known
proof (rule record_stepI)
  fix s a s' assume v: "visitFile fs p known s = (a, s')"
  obtain r s1 where st: "(case known of Some st \<Rightarrow> (Inr st, s) | None \<Rightarrow> onWorld (ask (\<lambda>n. fs_lstat fs n p)) s) = (r, s1)"
    by fastforce
  then have s1: "staged s1 = staged s" by (auto simp: staged_ask split: option.splits)
  show "staged s' \<subseteq> staged s \<union> {p}"
  proof (cases r)
    case (Inl e)
    then show ?thesis using v st s1 by (cases e) (auto simp: visitFile_def)
  next
    case (Inr x)
    then have "fatal (if fi_dataless x then noteDataless p x s1 else processFile fs p x s1) = (a, s')"
      using v st by (simp add: visitFile_def)
    then have "s' = snd (if fi_dataless x then noteDataless p x s1 else processFile fs p x s1)"
      using fatal_snd by (metis snd_conv)
    then show ?thesis
      using noteDatalessRec.records [of p x s1] processFileRec.records [of fs p x s1] s1 by (simp split: if_splits)
  qed
qed

text \<open>What may be recorded: a file with a text file's name that the rules do not exclude.\<close>

definition allowed :: "ScanOptions \<Rightarrow> path set" where
  "allowed opts = {p. isTextFile (Base p) \<and> \<not> excludedBy opts p}"

interpretation visitRec: record_step "visit opts fs track p d err" "allowed opts" for opts fs track p d err
proof (rule record_stepI)
  fix s a s' assume v: "visit opts fs track p d err s = (a, s')"
  obtain b s0 where c: "onWorld (onStore ctxErr) s = (b, s0)" by fastforce
  have vf: "staged s' \<subseteq> staged s0 \<union> {p}" if "visitFile fs p st s0 = (a, s')" for st
    by (rule visitFileRec.result [OF that])
  show "staged s' \<subseteq> staged s \<union> allowed opts"
    using v c vf staged_ctx [OF c]
    by (cases b; cases err; cases d) (fastforce simp: visit_def Let_def allowed_def admissible_def split: if_splits)+
qed

interpretation walkTreeRec: record_step "walkTree opts fs track base" "allowed opts" for opts fs track base
proof (rule record_stepI)
  fix s r s' assume w: "walkTree opts fs track base s = (r, s')"
  obtain found s1 where a: "onWorld (ask (\<lambda>n. fs_walk fs n base)) s = (found, s1)" by fastforce
  have "staged s' \<subseteq> staged s1 \<union> allowed opts"
    by (rule WalkDir_invariant [of "\<lambda>s s'. staged s' \<subseteq> staged s \<union> allowed opts" "visit opts fs track" base found s1 r s'])
      (use w a visitRec.result in \<open>auto simp: walkTree_def stepwise_def\<close>)
  then show "staged s' \<subseteq> staged s \<union> allowed opts" using staged_ask [OF a] by simp
qed

interpretation walkRootsRec: record_step "walkRoots opts fs bases" "allowed opts" for opts fs bases
proof (rule record_stepI)
  show "walkRoots opts fs bases s = (r, s') \<Longrightarrow> staged s' \<subseteq> staged s \<union> allowed opts" for s r s'
  proof (induction bases arbitrary: s)
    case (Cons base bases)
    obtain r1 s1 where w: "walkTree opts fs True base s = (r1, s1)" by fastforce
    obtain r2 s2 where f: "flushDocs s1 = (r2, s2)" by fastforce
    have g: "staged s1 \<subseteq> staged s \<union> allowed opts" "staged s2 \<subseteq> staged s \<union> allowed opts"
      using walkTreeRec.result [OF w] flushRec.result [OF f] by blast+
    show ?case
      using Cons.prems w f g Cons.IH [of s2] by (cases r1; cases r2) auto
  qed simp
qed

section \<open>Named paths\<close>

interpretation scanPathRec: record_step "scanPath opts fs p st dirs" "allowed opts \<union> (if isTextFile (Base p) then {p} else {})"
  for opts fs p st dirs
proof (rule record_stepI)
  fix s r s' assume p: "scanPath opts fs p st dirs s = (r, s')"
  obtain r1 s1 where t: "walkTree opts fs False p s = (r1, s1)" by fastforce
  obtain r2 s2 where f: "(if fi_dataless st then noteDataless p st s else processFile fs p st s) = (r2, s2)" by fastforce
  have "staged s1 \<subseteq> staged s \<union> allowed opts" by (rule walkTreeRec.result [OF t])
  moreover have "staged s2 \<subseteq> staged s \<union> {p}"
    using f noteDatalessRec.result processFileRec.result by (auto split: if_splits)
  ultimately show "staged s' \<subseteq> staged s \<union> (allowed opts \<union> (if isTextFile (Base p) then {p} else {}))"
    using p t f by (cases r1) (auto simp: scanPath_def admissible_def split: if_splits)
qed

interpretation firstStepRec: record_step "firstStep opts fs bases p vanished dirs" "allowed opts" for opts fs bases p vanished dirs
proof (rule record_stepI)
  fix s r s' assume f: "firstStep opts fs bases p vanished dirs s = (r, s')"
  obtain found s1 where a: "onWorld (ask (\<lambda>n. fs_lstat fs n p)) s = (found, s1)" by fastforce
  obtain r2 s2 where c: "scanPath opts fs p (projr found) dirs s1 = (r2, s2)" by fastforce
  obtain r3 s3 where g: "flushDocs s2 = (r3, s3)" by fastforce
  have w: "staged s2 \<subseteq> staged s \<union> (allowed opts \<union> (if isTextFile (Base p) then {p} else {}))" "staged s3 \<subseteq> staged s2"
    using scanPathRec.result [OF c] staged_ask [OF a] flushRec.result [OF g] by auto
  have ok: "staged s2 \<subseteq> staged s \<union> allowed opts" "staged s3 \<subseteq> staged s \<union> allowed opts" if "\<not> excludedBy opts p"
    using w that by (auto simp: allowed_def split: if_splits)
  show "staged s' \<subseteq> staged s \<union> allowed opts"
    using f a c g ok staged_ask [OF a]
    by (auto simp: firstStep_def split: if_splits sum.splits prod.splits option.splits)
qed

interpretation firstPathsRec: record_step "firstPaths opts fs bases ps vanished dirs" "allowed opts" for opts fs bases ps vanished dirs
proof (rule record_stepI)
  show "firstPaths opts fs bases ps vanished dirs s = (r, s') \<Longrightarrow> staged s' \<subseteq> staged s \<union> allowed opts" for s r s'
  proof (induction ps arbitrary: s vanished dirs)
    case (Cons p ps)
    obtain b s0 where c: "onWorld (onStore ctxErr) s = (b, s0)" by fastforce
    obtain e v d s1 where f: "firstStep opts fs bases p vanished dirs s0 = ((e, v, d), s1)" by (metis prod.exhaust)
    have w: "staged s0 = staged s" "staged s1 \<subseteq> staged s \<union> allowed opts"
      using staged_ctx [OF c] firstStepRec.result [OF f] by simp_all
    show ?case
      using Cons.prems c f w Cons.IH [of v d s1] by (cases b; cases e) auto
  qed simp
qed

interpretation purgeRec: record_step "purge fs p" "{}" for fs p
proof (rule record_stepI)
  fix s r s' assume f: "purge fs p s = (r, s')"
  obtain f1 s1 where a1: "onWorld (ask (\<lambda>n. fs_lstat fs n p)) s = (f1, s1)" by fastforce
  obtain f2 s2 where a2: "onWorld (ask (\<lambda>n. fs_lstat fs n (Dir p))) s1 = (f2, s2)" by fastforce
  obtain x s3 where del: "onWorld (onStore (DeleteByPathPrefix p)) s2 = (x, s3)" by fastforce
  obtain st' where st': "DeleteByPathPrefix p (w_store (sc_world s2)) = (x, st')" "sdb s3 = st_db st'"
    by (rule onWorld_store [OF del]) blast
  have "staged s3 \<subseteq> staged s2"
    using DeleteByPathPrefix_any [OF st'(1)] st'(2) onWorld_pending [OF del] by (auto simp: staged_def paths_def)
  then show "staged s' \<subseteq> staged s \<union> {}"
    using f a1 a2 del staged_ask [OF a1] staged_ask [OF a2] by (auto simp: purge_def split: sum.splits if_splits)
qed

interpretation purgePathsRec: record_step "purgePaths fs ps covered" "{}" for fs ps covered
proof (rule record_stepI)
  show "purgePaths fs ps covered s = (r, s') \<Longrightarrow> staged s' \<subseteq> staged s \<union> {}" for s r s'
  proof (induction ps arbitrary: s covered)
    case (Cons p ps)
    obtain b s0 where c: "onWorld (onStore ctxErr) s = (b, s0)" by fastforce
    obtain x s1 where p: "purge fs p s0 = (x, s1)" by fastforce
    have w: "staged s0 = staged s" "staged s1 \<subseteq> staged s" using staged_ctx [OF c] purgeRec.result [OF p] by simp_all
    have rest: "staged s' \<subseteq> staged s" if "purgePaths fs ps cov t = (r, s')" "staged t \<subseteq> staged s" for cov t
      using Cons.IH [OF that(1)] that(2) by blast
    show ?case using Cons.prems c p w rest by (cases b; cases x) (auto split: if_splits)
  qed simp
qed

section \<open>The two ways into the catalog\<close>

lemma staged_start: "staged (startScan w) = paths (wdb w)" "paths (sdb s) \<subseteq> staged s"
  by (simp_all add: staged_def startScan_def)

lemma ScanRoots_records:
  assumes "ScanRoots opts fs w = ((res, err), w')"
  shows "paths (wdb w') \<subseteq> paths (wdb w) \<union> allowed opts"
proof -
  obtain bases errs verified w1 where r: "resolveRoots opts fs w = ((bases, errs, verified), w1)" by (metis prod.exhaust)
  define s0 where "s0 = onRes (\<lambda>r. r\<lparr>dr_PathErrors := errs\<rparr>) (startScan w1)"
  obtain x s where k: "walkRoots opts fs bases s0 = (x, s)" by fastforce
  have "staged s0 = paths (wdb w)" using resolveRoots.result [OF r] by (simp add: s0_def staged_start)
  then have g: "paths (sdb s) \<subseteq> paths (wdb w) \<union> allowed opts"
    using walkRootsRec.result [OF k] staged_start(2) [of s] by blast
  show ?thesis
  proof (cases x)
    case (Some e)
    then show ?thesis using assms r k g by (auto simp: ScanRoots_def s0_def)
  next
    case None
    define s1 where "s1 = onRes (\<lambda>r. r\<lparr>dr_WalkErrors := length (dr_PathErrors r)\<rparr>) s"
    obtain e s2 where d: "reconcileDeleted opts fs
        \<lparr>cov_roots = bases, cov_unresolved = \<not> verified, cov_unknown = sc_unknown s1\<rparr> s1 = (e, s2)" by fastforce
    obtain A where "dropped A s1 s2" by (rule reconcileDeleted_effect [OF d])
    then have "paths (sdb s2) \<subseteq> paths (sdb s)" using dropped_paths [of A s1 s2] by (auto simp: s1_def onRes_def)
    moreover have "w' = sc_world s2" using assms r k None d by (simp add: ScanRoots_def s0_def s1_def Let_def)
    ultimately show ?thesis using g by blast
  qed
qed

lemma ScanPaths_records:
  assumes "ScanPaths opts fs names w = ((res, err), w')"
  shows "paths (wdb w') \<subseteq> paths (wdb w) \<union> allowed opts"
proof -
  obtain bases errs verified w1 where r: "resolveRoots opts fs w = ((bases, errs, verified), w1)" by (metis prod.exhaust)
  obtain e v s1 where f: "firstPaths opts fs bases (remdups_adj (sort (map Clean names))) [] [] (startScan w1) = ((e, v), s1)"
    by (metis prod.exhaust)
  obtain e2 s2 where p: "purgePaths fs v [] s1 = (e2, s2)" by fastforce
  have "staged (startScan w1) = paths (wdb w)" using resolveRoots.result [OF r] by (simp add: staged_start)
  then have g: "staged s1 \<subseteq> paths (wdb w) \<union> allowed opts" "staged s2 \<subseteq> paths (wdb w) \<union> allowed opts"
    using firstPathsRec.result [OF f] purgePathsRec.result [OF p] by blast+
  have "sc_world (if e = None then s2 else s1) = w'"
    using assms r f p by (auto simp: ScanPaths_def split: option.splits)
  then show ?thesis using g staged_start(2) [of s1] staged_start(2) [of s2] by (auto split: if_splits)
qed

text \<open>
  C2: Private files stay out of the index. With the deny list of a configuration that loads, neither a scan
  nor a reconcile of named paths, whatever the file system and the store answer, brings a path into the
  catalog that is beneath a private directory of the home directory, has a component with a secret's name,
  or is excluded by an entry of the user's; and every path it brings in has a text file's name.
\<close>

theorem nothing_private_recorded:
  assumes "Load decode parseURL home read file' = Inr c" "so_Excluded opts = Some (MatchRules (ExcludeRules c))"
    and "ScanRoots opts fs w = ((res, err), w') \<or> ScanPaths opts fs names w = ((res, err), w')"
    and "p \<in> paths (wdb w')" "p \<notin> paths (wdb w)"
  shows "isTextFile (Base p) \<and> (\<forall>k \<in> set (components p). \<not> secretName k) \<and>
    (\<forall>d \<in> set privateDirs. \<not> Within p (JoinPath home d)) \<and>
    (\<forall>e \<in> set (cf_Exclude c). if IsAbs e then \<not> Within p (Clean e) else \<forall>k \<in> set (components p). PathMatch e k \<noteq> Some True)"
proof -
  have "p \<in> allowed opts"
    using assms(3-5) ScanRoots_records [of opts fs w res err w'] ScanPaths_records [of opts fs names w res err w'] by blast
  then have "isTextFile (Base p)" "\<not> MatchRules (ExcludeRules c) p" using assms(2) by (simp_all add: allowed_def excludedBy_def)
  then show ?thesis unfolding matchRules_split [OF assms(1)] by auto
qed

definition private_fs :: FS where
  "private_fs = (demo_fs [''/''])\<lparr>
     fs_lstat := (\<lambda>_ p. if p = ''/'' \<or> p = ''/r'' then Inr dirInfo
       else if p = ''/r/a.md'' then Inr (dirInfo\<lparr>fi_type := RegularFile\<rparr>) else Inl FsNotExist),
     fs_walk := (\<lambda>_ _. Inr (dirInfo, [Entry ''a.md'' RegularFile [] None], None)),
     fs_bytes := (\<lambda>_ _. Inl FsPermission)\<rparr>"

definition private_opts :: ScanOptions where
  "private_opts = \<lparr>so_Include = [''/r''], so_Excluded = Some (MatchRules (ExcludeRules demo_config))\<rparr>"

theorem nothing_private_recorded_witness:
  "map d_path (db_documents (wdb (snd (ScanRoots private_opts private_fs \<lparr>w_store = demo_store empty_db, w_tick = 0\<rparr>)))) = [''/r/a.md''] \<and>
   \<not> secretName ''a.md'' \<and> \<not> Within ''/r/a.md'' (JoinPath ''/u'' ''Library'')"
proof -
  let ?w = "\<lparr>w_store = demo_store empty_db, w_tick = 0\<rparr>"
  obtain res err w' where s: "ScanRoots private_opts private_fs ?w = ((res, err), w')" by (metis prod.exhaust)
  have found: "map d_path (db_documents (wdb (snd (ScanRoots private_opts private_fs ?w)))) = [''/r/a.md'']" by code_simp
  then have "''/r/a.md'' \<in> paths (wdb w')" using s by (simp add: paths_def flip: set_map)
  moreover have "''/r/a.md'' \<notin> paths (wdb ?w)" by (simp add: paths_def empty_db_def)
  ultimately have n: "(\<forall>k \<in> set (components ''/r/a.md''). \<not> secretName k) \<and> (\<forall>d \<in> set privateDirs. \<not> Within ''/r/a.md'' (JoinPath ''/u'' d))"
    using nothing_private_recorded [OF demo_loaded, of private_opts private_fs ?w res err w' "[]" "''/r/a.md''"] s
    by (simp add: private_opts_def)
  have "''a.md'' \<in> set (components ''/r/a.md'')" "''Library'' \<in> set privateDirs" by code_simp+
  then show ?thesis using n found by blast
qed

end
