(* ===== verification/Spec2Isabelle.thy ===== *)
theory Spec2Isabelle
  imports PipelineRun Retries Backend Inference Recorded
begin

text \<open>
  A model of bsearch (github.com/bcrisp4/bsearch): a daemon that keeps a semantic search index of the
  files beneath configured directories. Discovery walks the directories and records documents and their
  contents in a SQLite catalog; the pipeline reads a content, cuts it into chunks and stores an embedding
  vector per chunk; the scheduler decides when each of these runs; search embeds a query and collapses
  the nearest chunks to contents; an HTTP server on a Unix socket answers searches and reports the status.

  The theories follow the packages. Each opens with what it holds; a definition has the name of the
  function it translates, with a suffix or a longer name where the Go name is taken.

  \<^item> \<open>Prelude\<close>: strings as Go has them (bytes), 64-bit integers (\<open>goInt\<close> wraps), list lemmas.
  \<^item> \<open>Domain\<close> (internal/domain): the vocabulary: documents, contents and their states, chunks,
    work items, the embedding spec with its validation and composition, and the collapse of hits.
  \<^item> \<open>Catalog\<close> (sqlite/migrate.go, meta.go, \<open>withTx\<close> of store.go): the tables as lists of rows, the
    catalog's invariant, and the driver. A store carries the list of answers the driver will give (go
    ahead, fail, context cancelled), so every statement and every commit can fail: theorems without
    \<open>quiet\<close> hold under any failure, theorems with it describe a store that does not fail.
  \<^item> \<open>Documents\<close>, \<open>Contents\<close>, \<open>Queue\<close>, \<open>Vectors\<close>, \<open>Status\<close> (sqlite/store.go, queue.go, vec.go,
    status.go): the operations, each an interpretation of the contract \<open>store_op\<close>: the invariant
    survives it, whatever fails.
  \<^item> \<open>Outside\<close>: a world, which is a store and a clock of calls; \<open>world_op\<close> is the same contract for it.
  \<^item> \<open>Encoding\<close>, \<open>Blocks\<close>, \<open>Chunker\<close>, \<open>ChunkFacts\<close>, \<open>Passages\<close> (internal/chunker): decoding of
    text, the markdown scanner, sections, packing, splitting and merging; that the chunks cover the
    text, advance, and keep to the byte budget, as far as a long heading path lets them.
  \<^item> \<open>Digest\<close>, \<open>Pipeline\<close>, \<open>PipelineFacts\<close>, \<open>PipelineRun\<close> (internal/pipeline): SHA-256, one pass over
    a content and what each outcome means, and a run over all of them.
  \<^item> \<open>Paths\<close>, \<open>Discovery\<close>, \<open>Reconcile\<close>, \<open>DiscoveryFacts\<close>, \<open>NamedPaths\<close> (internal/pathutil,
    internal/discovery): path functions, the walk, the reconcile of named paths, and the deletion pass;
    that rows are removed only on evidence.
  \<^item> \<open>SchedState\<close>, \<open>Watching\<close>, \<open>Scheduler\<close>, \<open>SchedFacts\<close>, \<open>SchedProps\<close>, \<open>Retries\<close>
    (internal/scheduler): the state, the watcher's hand-over, the cycle, the drain and the daemon's
    loop; the invariant of a run, the ending of a drain, outages, lost events, retries, and what a batch of
    unreadable contents hides.
  \<^item> \<open>Search\<close> (internal/search): one search from request to answer: validation, the compatibility check
    of generation and spec, the embedding of the query, collapse, paths and previews, and the error codes.
    No other writer acts between the reads of one search.
  \<^item> \<open>Handles\<close>, \<open>Backend\<close> (internal/daemon, internal/server): the counted handle of the index database
    as a step relation of requests, file replacement and shutdown; what the daemon answers to a search and
    a status request and how the server classifies errors. A handle in use is open and none leaks; a search is
    answered or refused, with the code of the cause, as the status document says.
  \<^item> \<open>Glob\<close>, \<open>Config\<close> (internal/config): Go's \<open>path.Match\<close>; the configuration's defaults, tilde expansion,
    validation and deny list: what a configuration that loads guarantees, and exactly what it excludes.
  \<^item> \<open>Inference\<close> (internal/embedding, internal/adapters/openai, cmd/bsearch/setup.go): the registry of known
    models, the resolved spec, and the client that sends texts in batches and places the vectors it gets.
  \<^item> \<open>Recorded\<close>: discovery and configuration together: no private path enters the catalog.

  What the program does not determine is a parameter. The file system, the reader of files, the mount
  table, the embedder, the power policy, the clock and the random source are functions from the number
  of the call to an answer (\<open>w_tick\<close> counts), so two calls may be answered differently and nothing is
  assumed of them unless a theorem says so. The nearest-neighbour search of sqlite-vec is \<open>knn\<close> with the
  law it documents (\<open>knn_law\<close>), \<open>strings.EqualFold\<close> is \<open>fs_fold\<close>, \<open>strconv.Quote\<close> the argument of
  the fingerprint. Of the configuration, the TOML decoder, the duration and URL parsers, the reading of the
  file and \<open>$HOME\<close> are parameters; of the client, one HTTP exchange (\<open>Post\<close>), which may answer anything;
  of the index handle, what \<open>os.Stat\<close>, \<open>sqlite.OpenExisting\<close> and \<open>db.Close\<close> answer. The goroutine of the watcher is a list of messages for each time the scheduler takes
  the lock, so every interleaving of the two is a choice of that parameter.

  How the parts rest on each other. The operations of the store keep \<open>catalog_inv\<close> (\<open>store_op\<close>);
  discovery and the pipeline are compositions of them (\<open>world_op\<close>); the scheduler composes these. A relation
  between scheduler states that bookkeeping and each call it makes respects holds of its whole cycle: the
  locales \<open>sched_base\<close> to \<open>sched_cycle\<close>, interpreted for the invariant (\<open>kept\<close>), for outages
  (\<open>spared\<close>), for what stays swept (\<open>stillSwept\<close>) and for a drain that ends (\<open>calm\<close>). What discovery may
  record is the contract \<open>record_step\<close>, interpreted for every step of the walk and of the reconcile of named
  paths. The pipeline and the search use an embedder through \<open>Embedder\<close>; \<open>embedder_contract\<close> says what the
  client of \<open>Inference\<close>, seen as one, promises. The steps of the index handle keep an invariant that counts
  the goroutines using each handle, by rule induction over the reachable systems.

  Loops. Loops over lists are recursive; loops bounded by a decreasing quantity are functions with a
  measure (the walk over fuel-free directory listings, the sweeps by the number of rows, the splitting of
  text by its length). The drain and the daemon's loop need not end: they are partial functions into
  option, \<open>None\<close> is a loop that never returns, and that a drain returns when nothing is handed over is
  a theorem (\<open>drain_returns\<close>), not an assumption.

  Not modelled: the routing, middleware, JSON and listener of the HTTP server, its client and the Unix socket
  (calls into net/http around the handlers modelled here); the command line and the wiring of the daemon;
  the FSEvents, Time Machine and mount-table adapters (calls into macOS, whose answers are the parameters
  above); the default paths of the configuration; connection pooling and the SQL of the migrations (the
  schema they end in is \<open>DB\<close>); the evaluation harness (floating-point statistics outside the daemon). Log
  lines, and the readings of the clock that only a log line uses, are left out.
\<close>

end
